(* ===== verification/Prelude.thy ===== *)
theory Prelude
  imports Main "HOL-Library.AList" "HOL-Library.Multiset" "HOL-Library.Char_ord"
    "HOL-Library.List_Lexorder" "HOL-Library.Product_Lexorder" "HOL-Library.Code_Target_Nat"
begin

text \<open>
  Shared vocabulary of the development.

  \<^item> Machine integers (\<open>u32\<close> is \<open>2 ^ 32\<close>, \<open>u64\<close> is \<open>2 ^ 64\<close>): \<open>std::size_t\<close> and \<open>std::uint64_t\<close> are \<open>nat\<close> with the
    wrap-around of C++ written out (\<open>add64\<close>, \<open>sub64\<close>), \<open>std::uint32_t\<close> counters
    likewise (\<open>inc32\<close>, \<open>dec32\<close>).
  \<^item> \<open>std::unordered_map\<close> is an association list with distinct keys; the list order stands
    for the unspecified iteration order.
  \<^item> \<open>std::to_string\<close> on unsigned values, with its injectivity.
  \<^item> Exceptions are values of the type \<open>error\<close>, on the left of a sum.
  \<^item> The interface \<open>invariant_system\<close>: an initial predicate, a step relation and an
    invariant, with the induction over runs proved once.
\<close>

named_theorems word_simps \<open>unfolding machine arithmetic away from the wrap-around\<close>

section \<open>Errors\<close>

datatype error = InvalidArgument string | OutOfRange string | OverflowError string | RuntimeError string

section \<open>Machine integers\<close>

abbreviation u32 :: nat where "u32 \<equiv> 4294967296"
abbreviation u64 :: nat where "u64 \<equiv> 18446744073709551616"

definition add64 :: "nat \<Rightarrow> nat \<Rightarrow> nat" where
  "add64 a b = (a + b) mod u64"

definition sub64 :: "nat \<Rightarrow> nat \<Rightarrow> nat" where
  "sub64 a b = (a + (u64 - b mod u64)) mod u64"

definition mul64 :: "nat \<Rightarrow> nat \<Rightarrow> nat" where
  "mul64 a b = (a * b) mod u64"

definition inc32 :: "nat \<Rightarrow> nat" where
  "inc32 a = (a + 1) mod u32"

definition dec32 :: "nat \<Rightarrow> nat" where
  "dec32 a = (a + (u32 - 1)) mod u32"

lemma add64_exact [word_simps]: "a + b < u64 \<Longrightarrow> add64 a b = a + b"
  by (simp add: add64_def)

lemma sub64_exact [word_simps]: "b \<le> a \<Longrightarrow> a < u64 \<Longrightarrow> sub64 a b = a - b"
proof -
  assume "b \<le> a" and "a < u64"
  then have "a + (u64 - b mod u64) = (a - b) + u64" by simp
  then have "sub64 a b = ((a - b) + u64) mod u64" unfolding sub64_def by simp
  also have "\<dots> = a - b" using \<open>a < u64\<close> by (simp only: mod_add_self2) simp
  finally show ?thesis .
qed

lemma mul64_exact [word_simps]: "a * b < u64 \<Longrightarrow> mul64 a b = a * b"
  by (simp add: mul64_def)

lemma inc32_exact [word_simps]: "Suc a < u32 \<Longrightarrow> inc32 a = Suc a"
  by (simp add: inc32_def)

lemma dec32_exact [word_simps]: "0 < a \<Longrightarrow> a < u32 \<Longrightarrow> dec32 a = a - 1"
proof -
  assume "0 < a" and "a < u32"
  then have "a + (u32 - 1) = (a - 1) + u32" by simp
  then have "dec32 a = ((a - 1) + u32) mod u32" unfolding dec32_def by (rule arg_cong)
  also have "\<dots> = a - 1" using \<open>a < u32\<close> by (simp only: mod_add_self2) simp
  finally show ?thesis .
qed

lemma add64_lt [simp]: "add64 a b < u64"
  unfolding add64_def by (rule mod_less_divisor) simp

lemma sub64_lt [simp]: "sub64 a b < u64"
  unfolding sub64_def by (rule mod_less_divisor) simp

lemma sub64_add64_cancel: "a < u64 \<Longrightarrow> add64 (sub64 a b) b = a"
proof -
  assume a: "a < u64"
  have "(a + (u64 - b mod u64) + b) mod u64 = (a + (u64 - b mod u64) + b mod u64) mod u64"
    by (rule mod_add_right_eq [symmetric])
  also have "a + (u64 - b mod u64) + b mod u64 = a + u64"
    using mod_less_divisor [of u64 b] by simp
  also have "(a + u64) mod u64 = a" using a by simp
  finally show ?thesis unfolding add64_def sub64_def by (simp add: mod_add_left_eq)
qed

section \<open>Lists and association lists\<close>

lemma count_list_distinct: "distinct xs \<Longrightarrow> count_list xs x = (if x \<in> set xs then 1 else 0)"
  by (induction xs) auto

lemma count_list_le_length: "count_list xs x \<le> length xs"
  by (induction xs) auto

lemma sum_list_count_le:
  "(\<And>ys. ys \<in> set yss \<Longrightarrow> distinct ys) \<Longrightarrow> count_list (concat yss) x \<le> length yss"
  by (induction yss) (auto simp: count_list_distinct add.commute add_mono)

lemma map_of_split_delete:
  assumes "distinct (map fst al)" and "map_of al k = Some v"
  shows "\<exists>xs ys. al = xs @ (k, v) # ys \<and> AList.delete k al = xs @ ys"
proof -
  from assms(2) have "(k, v) \<in> set al" by (rule map_of_SomeD)
  then obtain xs ys where al: "al = xs @ (k, v) # ys" by (meson split_list)
  with assms(1) have "k \<notin> fst ` set xs" "k \<notin> fst ` set ys" by auto
  then have "AList.delete k xs = xs" "AList.delete k ys = ys" by (simp_all add: AList.delete_id)
  then have "AList.delete k al = xs @ ys"
    unfolding al AList.delete_eq by simp
  with al show ?thesis by blast
qed

lemma map_of_split_update:
  assumes "distinct (map fst al)" and "map_of al k = Some v"
  shows "\<exists>xs ys. al = xs @ (k, v) # ys \<and> AList.update k w al = xs @ (k, w) # ys
    \<and> k \<notin> fst ` set xs \<and> k \<notin> fst ` set ys"
proof -
  from assms(2) have "(k, v) \<in> set al" by (rule map_of_SomeD)
  then obtain xs ys where al: "al = xs @ (k, v) # ys" by (meson split_list)
  with assms(1) have d: "k \<notin> fst ` set xs" "k \<notin> fst ` set ys" by auto
  have "AList.update k w (xs @ (k, v) # ys) = xs @ (k, w) # ys" if "k \<notin> fst ` set xs"
    using that by (induction xs) auto
  with al d show ?thesis by blast
qed

lemma mset_delete_key:
  assumes "distinct (map fst al)" and "map_of al k = Some v"
  shows "mset al = add_mset (k, v) (mset (AList.delete k al))"
  using map_of_split_delete [OF assms] by auto

lemma length_delete_key:
  "distinct (map fst al) \<Longrightarrow> map_of al k = Some v \<Longrightarrow> Suc (length (AList.delete k al)) = length al"
  using mset_delete_key [of al k v] by (metis size_add_mset size_mset)

lemma fst_set_delete: "fst ` set (AList.delete k al) = fst ` set al - {k}"
  by (metis AList.delete_keys set_map set_removeAll)

lemma in_update: "(i, v) \<in> set (AList.update k e xs) \<Longrightarrow> (i, v) = (k, e) \<or> (i, v) \<in> set xs"
  by (induction xs) (auto split: if_splits)

lemma in_delete: "p \<in> set (AList.delete k xs) \<Longrightarrow> p \<in> set xs \<and> fst p \<noteq> k"
  by (induction xs) (auto split: if_splits)

lemma fst_set_update: "fst ` set (AList.update k v al) = insert k (fst ` set al)"
  by (metis AList.update_keys insert_absorb list.simps(15) set_append set_map Un_insert_right sup_bot_right empty_set)

lemma length_update_key: "k \<in> fst ` set al \<Longrightarrow> length (AList.update k v al) = length al"
  by (metis AList.update_keys length_map set_map)

lemma map_of_None_fst: "(map_of al k = None) \<longleftrightarrow> k \<notin> fst ` set al"
  by (simp add: map_of_eq_None_iff)

lemma last_butlast_mset: "xs \<noteq> [] \<Longrightarrow> mset xs = add_mset (last xs) (mset (butlast xs))"
  by (metis append_butlast_last_id mset.simps(2) mset_append union_code union_mset_add_mset_right add.right_neutral mset.simps(1))

section \<open>Decimal rendering of unsigned integers\<close>

definition digit_char :: "nat \<Rightarrow> char" where
  "digit_char d = char_of (48 + d)"

fun to_string :: "nat \<Rightarrow> string" where
  "to_string n = (if n < 10 then [digit_char n] else to_string (n div 10) @ [digit_char (n mod 10)])"

declare to_string.simps [simp del]

definition is_digit :: "char \<Rightarrow> bool" where
  "is_digit c \<longleftrightarrow> 48 \<le> (of_char c :: nat) \<and> (of_char c :: nat) < 58"

lemma of_digit_char: "d < 10 \<Longrightarrow> (of_char (digit_char d) :: nat) = 48 + d"
  by (simp add: digit_char_def)

lemma digit_char_inject: "d < 10 \<Longrightarrow> e < 10 \<Longrightarrow> digit_char d = digit_char e \<longleftrightarrow> d = e"
  by (metis of_digit_char add_left_cancel)

lemma is_digit_digit_char: "d < 10 \<Longrightarrow> is_digit (digit_char d)"
  by (simp add: is_digit_def of_digit_char)

lemma to_string_digits: "c \<in> set (to_string n) \<Longrightarrow> is_digit c"
proof (induction n rule: to_string.induct)
  case (1 n)
  then show ?case
    by (cases "n < 10") (auto simp: to_string.simps [of n] is_digit_digit_char)
qed

lemma to_string_nonempty [simp]: "to_string n \<noteq> []"
  by (subst to_string.simps) simp

lemma to_string_inject: "to_string m = to_string n \<Longrightarrow> m = n"
proof (induction m arbitrary: n rule: to_string.induct)
  case (1 m)
  show ?case
  proof (cases "m < 10")
    case True
    with "1.prems" show ?thesis
      by (cases "n < 10")
        (auto simp: to_string.simps [of m] to_string.simps [of n] digit_char_inject
          dest: sym [THEN to_string_nonempty [THEN notE]])
  next
    case False
    with "1.prems" have n: "\<not> n < 10"
      by (auto simp: to_string.simps [of m] to_string.simps [of n])
    with False "1.prems" have "to_string (m div 10) = to_string (n div 10)"
      and last: "digit_char (m mod 10) = digit_char (n mod 10)"
      by (auto simp: to_string.simps [of m] to_string.simps [of n])
    with "1.IH" False have "m div 10 = n div 10" by blast
    moreover from last have "m mod 10 = n mod 10" by (simp add: digit_char_inject)
    ultimately show ?thesis by (metis div_mod_decomp)
  qed
qed

lemma to_string_inject_iff [simp]: "to_string m = to_string n \<longleftrightarrow> m = n"
  using to_string_inject by blast

text \<open>
  A run of digits followed by a non-digit is read back in one way only: the basis of the
  injectivity of every cache key.
\<close>

lemma digits_then_sep:
  assumes "\<And>c. c \<in> set xs \<Longrightarrow> is_digit c" and "\<And>c. c \<in> set ys \<Longrightarrow> is_digit c"
    and "\<not> is_digit s" and "\<not> is_digit t"
    and "xs @ s # us = ys @ t # vs"
  shows "xs = ys \<and> s = t \<and> us = vs"
  using assms
proof (induction xs arbitrary: ys)
  case Nil
  then show ?case by (cases ys) auto
next
  case (Cons x xs)
  then show ?case
  proof (cases ys)
    case Nil
    with Cons.prems show ?thesis by simp
  next
    case (Cons y zs)
    with Cons.prems have "x = y" and eq: "xs @ s # us = zs @ t # vs" by auto
    have "xs = zs \<and> s = t \<and> us = vs"
      using Cons.IH [OF _ _ Cons.prems(3,4) eq] Cons.prems(1,2) Cons by simp
    with \<open>x = y\<close> Cons show ?thesis by simp
  qed
qed

lemma to_string_sep_inject:
  assumes "\<not> is_digit s"
  shows "to_string m @ s # us = to_string n @ s # vs \<longleftrightarrow> m = n \<and> us = vs"
proof
  assume "to_string m @ s # us = to_string n @ s # vs"
  then have "to_string m = to_string n \<and> s = s \<and> us = vs"
    by (intro digits_then_sep assms) (auto dest: to_string_digits)
  then show "m = n \<and> us = vs" by simp
qed simp

lemma sep_not_digit [simp]: "\<not> is_digit (CHR '':'')" "\<not> is_digit (CHR ''|'')"
  by (simp_all add: is_digit_def)

section \<open>Invariants of a step relation\<close>

locale invariant_system =
  fixes init :: "'s \<Rightarrow> bool"
    and step :: "'s \<Rightarrow> 's \<Rightarrow> bool"
    and inv :: "'s \<Rightarrow> bool"
  assumes inv_init: "init s \<Longrightarrow> inv s"
    and inv_step: "inv s \<Longrightarrow> step s t \<Longrightarrow> inv t"
begin

lemma inv_steps: "step\<^sup>*\<^sup>* s t \<Longrightarrow> inv s \<Longrightarrow> inv t"
  by (induction rule: rtranclp_induct) (auto intro: inv_step)

lemma inv_reachable: "init s \<Longrightarrow> step\<^sup>*\<^sup>* s t \<Longrightarrow> inv t"
  using inv_init inv_steps by blast

end

end
