(* ===== verification/KvCache.thy ===== *)
theory KvCache
  imports Prelude
begin

text \<open>
  The reference-counted paged KV cache of \<open>cpp/src/paged_kv_cache.cpp\<close>. The record holds
  the fields of the class: block size, \<open>refcounts_\<close> (one \<open>uint32_t\<close> per block),
  \<open>free_list_\<close> (a vector used as a stack), and the two owner tables
  \<open>sequence_blocks_\<close> and \<open>prefix_blocks_\<close>. The operations follow the source loop by
  loop; the section on the invariant shows that every operation keeps the accounting exact:
  the count of a block is the number of tables entries that hold it, and the free list is
  exactly the set of blocks that nobody holds.
\<close>

section \<open>State and operations\<close>

datatype AllocationStatus =
  kAllocated | kSequenceAlreadyExists | kInvalidSharedBlock | kInsufficientBlocks

record PagedKvCache =
  kv_block_size :: nat
  refcounts :: "nat list"
  free_list :: "nat list"
  sequence_blocks :: "(string \<times> nat list) list"
  prefix_blocks :: "(string \<times> nat list) list"

definition MakePagedKvCache :: "nat \<Rightarrow> nat \<Rightarrow> error + PagedKvCache" where
  "MakePagedKvCache block_count block_size =
     (if block_count > u32 - 1 then Inl (InvalidArgument ''block_count exceeds BlockId range'')
      else if block_size = 0 then Inl (InvalidArgument ''block_size_tokens must be positive'')
      else Inr \<lparr>kv_block_size = block_size, refcounts = replicate block_count 0,
                free_list = rev [0..<block_count], sequence_blocks = [], prefix_blocks = []\<rparr>)"

text \<open>
  The validation loop shared by \<open>Allocate\<close> and \<open>PinPrefix\<close>: every block is in range,
  held by someone, and not seen before (the local \<open>unordered_set\<close> is \<open>seen\<close>).
\<close>

fun blocks_usable :: "nat list \<Rightarrow> nat list \<Rightarrow> nat list \<Rightarrow> bool" where
  "blocks_usable refs seen [] = True"
| "blocks_usable refs seen (b # bs) =
     (if b \<ge> length refs \<or> refs ! b = 0 \<or> b \<in> set seen then False
      else blocks_usable refs (b # seen) bs)"

text \<open>\<open>++refcounts_[block]\<close> over a span.\<close>

fun share_blocks :: "nat list \<Rightarrow> nat list \<Rightarrow> nat list" where
  "share_blocks refs [] = refs"
| "share_blocks refs (b # bs) = share_blocks (refs[b := inc32 (refs ! b)]) bs"

text \<open>The loop that takes \<open>n\<close> blocks off the back of the free list.\<close>

fun take_free :: "nat \<Rightarrow> nat list \<times> nat list \<times> nat list \<Rightarrow> nat list \<times> nat list \<times> nat list" where
  "take_free 0 (refs, free, blocks) = (refs, free, blocks)"
| "take_free (Suc n) (refs, free, blocks) =
     (let block = last free
      in take_free n (refs[block := 1], butlast free, blocks @ [block]))"

text \<open>The loop of \<open>Free\<close> and \<open>UnpinPrefix\<close>.\<close>

fun release_blocks :: "nat list \<Rightarrow> nat list \<times> nat list \<Rightarrow> nat list \<times> nat list" where
  "release_blocks [] (refs, free) = (refs, free)"
| "release_blocks (b # bs) (refs, free) =
     (let refs' = refs[b := dec32 (refs ! b)]
      in release_blocks bs (refs', if refs' ! b = 0 then free @ [b] else free))"

definition Allocate :: "PagedKvCache \<Rightarrow> string \<Rightarrow> nat \<Rightarrow> nat list \<Rightarrow> PagedKvCache \<times> AllocationStatus" where
  "Allocate kv sequence_id required_blocks shared =
     (if map_of (sequence_blocks kv) sequence_id \<noteq> None then (kv, kSequenceAlreadyExists)
      else if length shared > required_blocks then (kv, kInvalidSharedBlock)
      else if \<not> blocks_usable (refcounts kv) [] shared then (kv, kInvalidSharedBlock)
      else
        let new_block_count = sub64 required_blocks (length shared)
        in if length (free_list kv) < new_block_count then (kv, kInsufficientBlocks)
           else
             case take_free new_block_count
                    (share_blocks (refcounts kv) shared, free_list kv, shared) of
               (refs, free, blocks) \<Rightarrow>
                 (kv\<lparr>refcounts := refs, free_list := free,
                     sequence_blocks := (sequence_id, blocks) # sequence_blocks kv\<rparr>, kAllocated))"

definition Free :: "PagedKvCache \<Rightarrow> string \<Rightarrow> PagedKvCache \<times> bool" where
  "Free kv sequence_id =
     (case map_of (sequence_blocks kv) sequence_id of
        None \<Rightarrow> (kv, False)
      | Some blocks \<Rightarrow>
          (case release_blocks blocks (refcounts kv, free_list kv) of
             (refs, free) \<Rightarrow>
               (kv\<lparr>refcounts := refs, free_list := free,
                   sequence_blocks := AList.delete sequence_id (sequence_blocks kv)\<rparr>, True)))"

definition AppendBlocks :: "PagedKvCache \<Rightarrow> string \<Rightarrow> nat \<Rightarrow> PagedKvCache \<times> AllocationStatus" where
  "AppendBlocks kv sequence_id additional_blocks =
     (case map_of (sequence_blocks kv) sequence_id of
        None \<Rightarrow> (kv, kInvalidSharedBlock)
      | Some held \<Rightarrow>
          if length (free_list kv) < additional_blocks then (kv, kInsufficientBlocks)
          else
            case take_free additional_blocks (refcounts kv, free_list kv, held) of
              (refs, free, blocks) \<Rightarrow>
                (kv\<lparr>refcounts := refs, free_list := free,
                    sequence_blocks := AList.update sequence_id blocks (sequence_blocks kv)\<rparr>,
                 kAllocated))"

definition PinPrefix :: "PagedKvCache \<Rightarrow> string \<Rightarrow> nat list \<Rightarrow> PagedKvCache \<times> bool" where
  "PinPrefix kv prefix_key blocks =
     (if map_of (prefix_blocks kv) prefix_key \<noteq> None \<or> blocks = [] then (kv, False)
      else if \<not> blocks_usable (refcounts kv) [] blocks then (kv, False)
      else (kv\<lparr>refcounts := share_blocks (refcounts kv) blocks,
               prefix_blocks := (prefix_key, blocks) # prefix_blocks kv\<rparr>, True))"

definition UnpinPrefix :: "PagedKvCache \<Rightarrow> string \<Rightarrow> PagedKvCache \<times> bool" where
  "UnpinPrefix kv prefix_key =
     (case map_of (prefix_blocks kv) prefix_key of
        None \<Rightarrow> (kv, False)
      | Some blocks \<Rightarrow>
          (case release_blocks blocks (refcounts kv, free_list kv) of
             (refs, free) \<Rightarrow>
               (kv\<lparr>refcounts := refs, free_list := free,
                   prefix_blocks := AList.delete prefix_key (prefix_blocks kv)\<rparr>, True)))"

definition total_blocks :: "PagedKvCache \<Rightarrow> nat" where
  "total_blocks kv = length (refcounts kv)"

definition free_blocks :: "PagedKvCache \<Rightarrow> nat" where
  "free_blocks kv = length (free_list kv)"

definition allocated_blocks :: "PagedKvCache \<Rightarrow> nat" where
  "allocated_blocks kv = sub64 (total_blocks kv) (free_blocks kv)"

definition sequence_count :: "PagedKvCache \<Rightarrow> nat" where
  "sequence_count kv = length (sequence_blocks kv)"

definition BlocksFor :: "PagedKvCache \<Rightarrow> string \<Rightarrow> nat list" where
  "BlocksFor kv sequence_id =
     (case map_of (sequence_blocks kv) sequence_id of None \<Rightarrow> [] | Some blocks \<Rightarrow> blocks)"

definition RefCount :: "PagedKvCache \<Rightarrow> nat \<Rightarrow> nat" where
  "RefCount kv block = (if block < length (refcounts kv) then refcounts kv ! block else 0)"

text \<open>\<open>CheckInvariants\<close>: its four loops, with \<open>return false\<close> as \<open>None\<close>.\<close>

fun observe_blocks :: "nat list \<Rightarrow> nat list \<Rightarrow> nat list \<Rightarrow> nat list option" where
  "observe_blocks unique [] observed = Some observed"
| "observe_blocks unique (b # bs) observed =
     (if b \<ge> length observed \<or> b \<in> set unique then None
      else observe_blocks (b # unique) bs (observed[b := inc32 (observed ! b)]))"

fun observe_table :: "(string \<times> nat list) list \<Rightarrow> nat list \<Rightarrow> nat list option" where
  "observe_table [] observed = Some observed"
| "observe_table ((key, blocks) # rest) observed =
     (case observe_blocks [] blocks observed of
        None \<Rightarrow> None
      | Some observed' \<Rightarrow> observe_table rest observed')"

fun observe_free :: "nat list \<Rightarrow> bool list \<Rightarrow> bool list option" where
  "observe_free [] seen = Some seen"
| "observe_free (b # bs) seen =
     (if b \<ge> length seen \<or> seen ! b then None else observe_free bs (seen[b := True]))"

definition CheckInvariants :: "PagedKvCache \<Rightarrow> bool" where
  "CheckInvariants kv =
     (if add64 (allocated_blocks kv) (free_blocks kv) \<noteq> total_blocks kv then False
      else
        case observe_table (sequence_blocks kv) (replicate (total_blocks kv) 0) of
          None \<Rightarrow> False
        | Some observed_seq \<Rightarrow>
            (case observe_table (prefix_blocks kv) observed_seq of
               None \<Rightarrow> False
             | Some observed_refs \<Rightarrow>
                 (case observe_free (free_list kv) (replicate (total_blocks kv) False) of
                    None \<Rightarrow> False
                  | Some observed_free \<Rightarrow>
                      list_all (\<lambda>block. observed_refs ! block = refcounts kv ! block
                                  \<and> (refcounts kv ! block = 0) = observed_free ! block)
                        [0..<total_blocks kv])))"


section \<open>The accounting invariant\<close>

text \<open>
  The block lists held by the two tables, as a multiset (no operation's meaning depends on the
  iteration order of an \<open>unordered_map\<close>), and the number of entries that hold a block.
\<close>

definition kv_entries :: "PagedKvCache \<Rightarrow> nat list multiset" where
  "kv_entries kv = mset (map snd (sequence_blocks kv)) + mset (map snd (prefix_blocks kv))"

definition holders :: "nat list multiset \<Rightarrow> nat \<Rightarrow> nat" where
  "holders M b = size (filter_mset (\<lambda>bs. b \<in> set bs) M)"

definition refs_ok :: "nat list \<Rightarrow> nat list \<Rightarrow> nat list multiset \<Rightarrow> bool" where
  "refs_ok refs free M \<longleftrightarrow>
     (\<forall>bs. bs \<in># M \<longrightarrow> distinct bs \<and> set bs \<subseteq> {..<length refs}) \<and>
     distinct free \<and> (\<forall>b. b \<in> set free \<longleftrightarrow> b < length refs \<and> refs ! b = 0) \<and>
     (\<forall>b < length refs. refs ! b = holders M b)"

text \<open>What the C++ types and the constructor guarantee, and the full invariant.\<close>

definition kv_shape :: "PagedKvCache \<Rightarrow> bool" where
  "kv_shape kv \<longleftrightarrow>
     0 < kv_block_size kv \<and> length (refcounts kv) < u32 \<and>
     distinct (map fst (sequence_blocks kv)) \<and> distinct (map fst (prefix_blocks kv))"

definition kv_inv :: "PagedKvCache \<Rightarrow> bool" where
  "kv_inv kv \<longleftrightarrow> kv_shape kv \<and> refs_ok (refcounts kv) (free_list kv) (kv_entries kv)"

definition entry_count :: "PagedKvCache \<Rightarrow> nat" where
  "entry_count kv = length (sequence_blocks kv) + length (prefix_blocks kv)"

lemma holders_empty [simp]: "holders {#} b = 0"
  by (simp add: holders_def)

lemma holders_add [simp]:
  "holders (add_mset bs M) b = (if b \<in> set bs then Suc (holders M b) else holders M b)"
  by (simp add: holders_def)

lemma holders_le: "holders M b \<le> size M"
  unfolding holders_def by (rule size_mset_mono) simp

lemma refs_ok_add_Nil [simp]: "refs_ok refs free (add_mset [] M) = refs_ok refs free M"
  by (auto simp: refs_ok_def)

text \<open>One iteration of each loop: sharing a block, taking a free one, releasing one.\<close>

lemma refs_ok_share_step:
  assumes ok: "refs_ok refs free (add_mset bs M)" and b: "b < length refs" "refs ! b \<noteq> 0" "b \<notin> set bs"
    and small: "Suc (refs ! b) < u32"
  shows "refs_ok (refs[b := inc32 (refs ! b)]) free (add_mset (bs @ [b]) M)"
  using assms by (auto simp: refs_ok_def inc32_exact nth_list_update)

lemma refs_ok_take_step:
  assumes ok: "refs_ok refs free (add_mset bs M)" and ne: "free \<noteq> []"
  shows "refs_ok (refs[last free := 1]) (butlast free) (add_mset (bs @ [last free]) M)"
proof -
  let ?b = "last free"
  have free: "free = butlast free @ [?b]" using ne by simp
  have dist: "distinct (butlast free)" "?b \<notin> set (butlast free)"
    using ok free unfolding refs_ok_def by (metis distinct_append, metis distinct_append
        disjoint_iff list.set_intros(1))
  have b: "?b < length refs" "refs ! ?b = 0"
    using ok ne unfolding refs_ok_def by (metis last_in_set)+
  then have h: "holders (add_mset bs M) ?b = 0" using ok unfolding refs_ok_def by metis
  then have nb: "?b \<notin> set bs" by auto
  have "set free = insert ?b (set (butlast free))" by (subst free) auto
  with ok have iff: "x \<in> set (butlast free) \<longleftrightarrow> x < length refs \<and> x \<noteq> ?b \<and> refs ! x = 0" for x
    using dist(2) b unfolding refs_ok_def by (metis insert_iff)
  from ok have "\<forall>x < length refs. refs ! x = holders (add_mset bs M) x"
    and "\<forall>es. es \<in># add_mset bs M \<longrightarrow> distinct es \<and> set es \<subseteq> {..<length refs}"
    unfolding refs_ok_def by blast+
  with b h nb dist show ?thesis unfolding refs_ok_def iff
    by (auto simp: nth_list_update)
qed

lemma refs_ok_release_step:
  assumes ok: "refs_ok refs free (add_mset (b # bs) M)" and small: "size M < u32 - 1"
  shows "refs_ok (refs[b := dec32 (refs ! b)])
           (if refs[b := dec32 (refs ! b)] ! b = 0 then free @ [b] else free) (add_mset bs M)"
proof -
  from ok have b: "b < length refs" "b \<notin> set bs" and r: "refs ! b = Suc (holders M b)"
    by (auto simp: refs_ok_def)
  have "Suc (holders M b) < u32" using holders_le [of M b] small by simp
  then have d: "dec32 (refs ! b) = holders M b" by (simp add: r dec32_exact)
  show ?thesis using ok b r unfolding d
    by (auto simp: refs_ok_def nth_list_update)
qed

text \<open>The loops.\<close>

lemma length_share_blocks [simp]: "length (share_blocks refs bs) = length refs"
  by (induction refs bs rule: share_blocks.induct) auto

lemma blocks_usable_iff:
  "blocks_usable refs seen bs \<longleftrightarrow>
     (\<forall>b \<in> set bs. b < length refs \<and> refs ! b \<noteq> 0 \<and> b \<notin> set seen) \<and> distinct bs"
  by (induction refs seen bs rule: blocks_usable.induct) auto

lemma refs_ok_share:
  assumes "refs_ok refs free (add_mset bs0 M)" and "\<forall>b \<in> set bs. b < length refs \<and> refs ! b \<noteq> 0"
    and "distinct (bs0 @ bs)" and "Suc (size M) < u32 - 1"
  shows "refs_ok (share_blocks refs bs) free (add_mset (bs0 @ bs) M)"
  using assms
proof (induction refs bs arbitrary: bs0 rule: share_blocks.induct)
  case (1 refs)
  then show ?case by simp
next
  case (2 refs b bs)
  have "refs ! b = holders (add_mset bs0 M) b" using "2.prems"(1,2) by (auto simp: refs_ok_def)
  then have le: "refs ! b \<le> Suc (size M)" using holders_le [of "add_mset bs0 M" b] by simp
  then have s: "Suc (refs ! b) < u32" using "2.prems"(4) by simp
  have ok: "refs_ok (refs[b := inc32 (refs ! b)]) free (add_mset (bs0 @ [b]) M)"
    using "2.prems" s by (intro refs_ok_share_step) auto
  have "\<forall>x \<in> set bs. x < length (refs[b := inc32 (refs ! b)]) \<and> refs[b := inc32 (refs ! b)] ! x \<noteq> 0"
    using "2.prems" s by (auto simp: nth_list_update inc32_exact)
  with "2.IH" [OF ok] "2.prems" show ?case by simp
qed

lemma refs_ok_take:
  assumes "refs_ok refs free (add_mset bs M)" and "n \<le> length free"
    and "take_free n (refs, free, bs) = (refs', free', bs')"
  shows "refs_ok refs' free' (add_mset bs' M)"
  using assms
proof (induction n arbitrary: refs free bs)
  case 0
  then show ?case by simp
next
  case (Suc n)
  from Suc.prems have "free \<noteq> []" by auto
  with Suc.prems(1) have "refs_ok (refs[last free := 1]) (butlast free) (add_mset (bs @ [last free]) M)"
    by (intro refs_ok_take_step)
  with Suc show ?case by (simp add: Let_def)
qed

lemma take_free_shape:
  assumes "n \<le> length free" and "take_free n (refs, free, bs) = (refs', free', bs')"
  shows "length refs' = length refs \<and> free' = take (length free - n) free
    \<and> bs' = bs @ take n (rev free)"
  using assms
proof (induction n arbitrary: refs free bs)
  case 0
  then show ?case by simp
next
  case (Suc n)
  from Suc.prems have ne: "free \<noteq> []" by auto
  then obtain ys y where free: "free = ys @ [y]" by (metis append_butlast_last_id)
  then show ?case using Suc.IH [of "butlast free" "refs[last free := 1]" "bs @ [last free]"] Suc.prems
    by (simp add: Let_def)
qed

lemma refs_ok_release:
  assumes "refs_ok refs free (add_mset bs M)" and "size M < u32 - 1"
    and "release_blocks bs (refs, free) = (refs', free')"
  shows "refs_ok refs' free' M"
  using assms
proof (induction bs arbitrary: refs free)
  case Nil
  then show ?case by simp
next
  case (Cons b bs)
  then show ?case using refs_ok_release_step [OF Cons.prems(1,2)] by (simp add: Let_def)
qed

lemma length_release [simp]:
  "release_blocks bs (refs, free) = (refs', free') \<Longrightarrow> length refs' = length refs"
proof (induction bs arbitrary: refs free)
  case (Cons b bs)
  then show ?case by (auto simp: Let_def split: if_splits)
qed simp


section \<open>What each operation does\<close>

text \<open>
  The counters are 32 bits wide, so the operations that add an entry need room for one more
  holder; every table entry contributes at most one reference to a block.
\<close>

definition kv_room :: "PagedKvCache \<Rightarrow> bool" where
  "kv_room kv \<longleftrightarrow> entry_count kv + 2 < u32"

lemma size_kv_entries: "size (kv_entries kv) = entry_count kv"
  by (simp add: kv_entries_def entry_count_def)

lemma kv_inv_refs: "kv_inv kv \<Longrightarrow> refs_ok (refcounts kv) (free_list kv) (kv_entries kv)"
  by (simp add: kv_inv_def)

lemma kv_inv_free_iff:
  "kv_inv kv \<Longrightarrow> b \<in> set (free_list kv) \<longleftrightarrow> b < total_blocks kv \<and> refcounts kv ! b = 0"
  by (simp add: kv_inv_def refs_ok_def total_blocks_def)

lemma kv_inv_refcount:
  "kv_inv kv \<Longrightarrow> b < total_blocks kv \<Longrightarrow> refcounts kv ! b = holders (kv_entries kv) b"
  by (simp add: kv_inv_def refs_ok_def total_blocks_def)

lemma kv_inv_entry:
  "kv_inv kv \<Longrightarrow> bs \<in># kv_entries kv \<Longrightarrow> distinct bs \<and> set bs \<subseteq> {..<total_blocks kv}"
  by (auto simp: kv_inv_def refs_ok_def total_blocks_def)

lemma free_list_not_held: "kv_inv kv \<Longrightarrow> b \<in> set (free_list kv) \<Longrightarrow> bs \<in># kv_entries kv \<Longrightarrow> b \<notin> set bs"
proof
  assume inv: "kv_inv kv" and b: "b \<in> set (free_list kv)" and bs: "bs \<in># kv_entries kv" "b \<in> set bs"
  from inv b have "holders (kv_entries kv) b = 0"
    using kv_inv_free_iff kv_inv_refcount by metis
  moreover from bs obtain M where "kv_entries kv = add_mset bs M" by (meson multi_member_split)
  ultimately show False using bs(2) by simp
qed

lemma MakePagedKvCache_inv: "MakePagedKvCache n b = Inr kv \<Longrightarrow> kv_inv kv"
  by (auto simp: MakePagedKvCache_def kv_inv_def kv_shape_def refs_ok_def kv_entries_def
      split: if_splits)

lemma Allocate_cases:
  assumes inv: "kv_inv kv" and n: "n < u64" and alloc: "Allocate kv s n sh = (kv', st)"
  obtains (exists) "st = kSequenceAlreadyExists" "kv' = kv" "s \<in> fst ` set (sequence_blocks kv)"
  | (invalid) "st = kInvalidSharedBlock" "kv' = kv" "map_of (sequence_blocks kv) s = None"
      "n < length sh \<or> \<not> blocks_usable (refcounts kv) [] sh"
  | (insufficient) "st = kInsufficientBlocks" "kv' = kv" "map_of (sequence_blocks kv) s = None"
      "length sh \<le> n" "blocks_usable (refcounts kv) [] sh" "free_blocks kv < n - length sh"
  | (allocated) fresh refs where
      "st = kAllocated" "map_of (sequence_blocks kv) s = None" "length sh \<le> n"
      "blocks_usable (refcounts kv) [] sh"
      "fresh = take (n - length sh) (rev (free_list kv))" "n - length sh \<le> free_blocks kv"
      "take_free (n - length sh) (share_blocks (refcounts kv) sh, free_list kv, sh)
         = (refs, take (length (free_list kv) - (n - length sh)) (free_list kv), sh @ fresh)"
      "kv' = kv\<lparr>refcounts := refs, sequence_blocks := (s, sh @ fresh) # sequence_blocks kv,
         free_list := take (length (free_list kv) - (n - length sh)) (free_list kv)\<rparr>"
proof (cases "map_of (sequence_blocks kv) s = None \<and> length sh \<le> n \<and> blocks_usable (refcounts kv) [] sh")
  case False
  show thesis
  proof (cases "map_of (sequence_blocks kv) s = None")
    case True
    with False alloc have "st = kInvalidSharedBlock" "kv' = kv"
      by (auto simp: Allocate_def split: if_splits)
    then show thesis using True False by (intro invalid) auto
  next
    case None: False
    with alloc have "st = kSequenceAlreadyExists" "kv' = kv" by (auto simp: Allocate_def)
    moreover have "s \<in> fst ` set (sequence_blocks kv)" using None by (metis map_of_eq_None_iff)
    ultimately show thesis by (rule exists)
  qed
next
  case True
  then have sub: "sub64 n (length sh) = n - length sh" using n by (simp add: sub64_exact)
  show thesis
  proof (cases "length (free_list kv) < n - length sh")
    case False
    obtain refs free bs where
      tf: "take_free (n - length sh) (share_blocks (refcounts kv) sh, free_list kv, sh) = (refs, free, bs)"
      using prod_cases3 by blast
    from False have "n - length sh \<le> length (free_list kv)" by simp
    from take_free_shape [OF this tf]
    have shape: "free = take (length (free_list kv) - (n - length sh)) (free_list kv)"
      "bs = sh @ take (n - length sh) (rev (free_list kv))" by blast+
    from True False sub tf alloc have res: "st = kAllocated"
      "kv' = kv\<lparr>refcounts := refs, free_list := free, sequence_blocks := (s, bs) # sequence_blocks kv\<rparr>"
      by (simp_all add: Allocate_def Let_def)
    show thesis
      by (rule allocated [of "take (n - length sh) (rev (free_list kv))" refs])
        (use res True False tf shape in \<open>simp_all add: free_blocks_def\<close>)
  next
    case nofree: True
    with True sub alloc have "st = kInsufficientBlocks" "kv' = kv" by (auto simp: Allocate_def Let_def)
    then show thesis using True nofree by (intro insufficient) (simp_all add: free_blocks_def)
  qed
qed

lemma Allocate_inv:
  assumes inv: "kv_inv kv" and room: "kv_room kv" and n: "n < u64"
    and alloc: "Allocate kv s n sh = (kv', st)"
  shows "kv_inv kv'"
  using inv n alloc
proof (cases rule: Allocate_cases)
  case (allocated fresh refs)
  have small: "Suc (size (kv_entries kv)) < u32 - 1"
    using room by (simp add: size_kv_entries kv_room_def)
  have "refs_ok (refcounts kv) (free_list kv) (add_mset [] (kv_entries kv))"
    using inv by (simp add: kv_inv_def)
  from refs_ok_share [OF this, of sh] small allocated(4)
  have "refs_ok (share_blocks (refcounts kv) sh) (free_list kv) (add_mset sh (kv_entries kv))"
    by (simp add: blocks_usable_iff)
  then have ok: "refs_ok refs (free_list kv') (add_mset (sh @ fresh) (kv_entries kv))"
    using refs_ok_take [OF _ _ allocated(7)] allocated(6,8) by (simp add: free_blocks_def)
  have len: "length refs = length (refcounts kv)"
    using take_free_shape [OF _ allocated(7)] allocated(6) by (simp add: free_blocks_def)
  from ok len inv allocated(2) show ?thesis unfolding allocated(8)
    by (simp add: kv_inv_def kv_shape_def kv_entries_def map_of_eq_None_iff)
qed (use inv in simp_all)


lemma entries_delete_seq:
  assumes "kv_inv kv" and "map_of (sequence_blocks kv) s = Some bs"
  shows "kv_entries kv = add_mset bs (mset (map snd (AList.delete s (sequence_blocks kv)))
           + mset (map snd (prefix_blocks kv)))"
proof -
  from assms have "distinct (map fst (sequence_blocks kv))" by (simp add: kv_inv_def kv_shape_def)
  from arg_cong [OF mset_delete_key [OF this assms(2)], of "image_mset snd"] show ?thesis
    by (simp add: kv_entries_def)
qed

lemma entries_delete_pin:
  assumes "kv_inv kv" and "map_of (prefix_blocks kv) k = Some bs"
  shows "kv_entries kv = add_mset bs (mset (map snd (sequence_blocks kv))
           + mset (map snd (AList.delete k (prefix_blocks kv))))"
proof -
  from assms have "distinct (map fst (prefix_blocks kv))" by (simp add: kv_inv_def kv_shape_def)
  from arg_cong [OF mset_delete_key [OF this assms(2)], of "image_mset snd"] show ?thesis
    by (simp add: kv_entries_def)
qed

lemma Free_inv:
  assumes inv: "kv_inv kv" and room: "entry_count kv < u32" and f: "Free kv s = (kv', r)"
  shows "kv_inv kv'"
proof (cases "map_of (sequence_blocks kv) s")
  case None
  with inv f show ?thesis by (simp add: Free_def)
next
  case (Some bs)
  obtain refs free where rel: "release_blocks bs (refcounts kv, free_list kv) = (refs, free)"
    by (cases "release_blocks bs (refcounts kv, free_list kv)")
  note e = entries_delete_seq [OF inv Some]
  have "size (kv_entries kv) < u32" using room by (simp add: size_kv_entries)
  with e refs_ok_release [OF _ _ rel] inv have
    "refs_ok refs free (mset (map snd (AList.delete s (sequence_blocks kv))) + mset (map snd (prefix_blocks kv)))"
    by (simp add: kv_inv_def)
  moreover have "length refs = length (refcounts kv)" using rel by simp
  moreover have "kv' = kv\<lparr>refcounts := refs, free_list := free,
      sequence_blocks := AList.delete s (sequence_blocks kv)\<rparr>"
    using f Some rel by (simp add: Free_def)
  ultimately show ?thesis using inv
    by (simp add: kv_inv_def kv_shape_def kv_entries_def AList.distinct_delete)
qed

lemma UnpinPrefix_inv:
  assumes inv: "kv_inv kv" and room: "entry_count kv < u32" and f: "UnpinPrefix kv k = (kv', r)"
  shows "kv_inv kv'"
proof (cases "map_of (prefix_blocks kv) k")
  case None
  with inv f show ?thesis by (simp add: UnpinPrefix_def)
next
  case (Some bs)
  obtain refs free where rel: "release_blocks bs (refcounts kv, free_list kv) = (refs, free)"
    by (cases "release_blocks bs (refcounts kv, free_list kv)")
  note e = entries_delete_pin [OF inv Some]
  have "size (kv_entries kv) < u32" using room by (simp add: size_kv_entries)
  with e refs_ok_release [OF _ _ rel] inv have
    "refs_ok refs free (mset (map snd (sequence_blocks kv)) + mset (map snd (AList.delete k (prefix_blocks kv))))"
    by (simp add: kv_inv_def)
  moreover have "length refs = length (refcounts kv)" using rel by simp
  moreover have "kv' = kv\<lparr>refcounts := refs, free_list := free,
      prefix_blocks := AList.delete k (prefix_blocks kv)\<rparr>"
    using f Some rel by (simp add: UnpinPrefix_def)
  ultimately show ?thesis using inv
    by (simp add: kv_inv_def kv_shape_def kv_entries_def AList.distinct_delete)
qed

lemma PinPrefix_cases:
  assumes "PinPrefix kv k bs = (kv', r)"
  obtains (refused) "\<not> r" "kv' = kv"
      "map_of (prefix_blocks kv) k \<noteq> None \<or> bs = [] \<or> \<not> blocks_usable (refcounts kv) [] bs"
  | (pinned) "r" "map_of (prefix_blocks kv) k = None" "bs \<noteq> []"
      "blocks_usable (refcounts kv) [] bs"
      "kv' = kv\<lparr>refcounts := share_blocks (refcounts kv) bs,
                prefix_blocks := (k, bs) # prefix_blocks kv\<rparr>"
proof (cases "map_of (prefix_blocks kv) k \<noteq> None \<or> bs = [] \<or> \<not> blocks_usable (refcounts kv) [] bs")
  case True
  with assms have "\<not> r" "kv' = kv" by (auto simp: PinPrefix_def split: if_splits)
  then show thesis using True by (rule refused)
next
  case False
  with assms show thesis by (intro pinned) (auto simp: PinPrefix_def)
qed

lemma PinPrefix_inv:
  assumes inv: "kv_inv kv" and room: "kv_room kv" and p: "PinPrefix kv k bs = (kv', r)"
  shows "kv_inv kv'"
  using p
proof (cases rule: PinPrefix_cases)
  case pinned
  have small: "Suc (size (kv_entries kv)) < u32 - 1"
    using room by (simp add: size_kv_entries kv_room_def)
  have "refs_ok (refcounts kv) (free_list kv) (add_mset [] (kv_entries kv))"
    using inv by (simp add: kv_inv_def)
  from refs_ok_share [OF this, of bs] small pinned(4)
  have "refs_ok (share_blocks (refcounts kv) bs) (free_list kv) (add_mset bs (kv_entries kv))"
    by (simp add: blocks_usable_iff)
  with inv pinned show ?thesis
    by (simp add: kv_inv_def kv_shape_def kv_entries_def map_of_eq_None_iff)
qed (use inv in simp)

lemma mset_update_key:
  assumes "distinct (map fst al)" and "map_of al k = Some v"
  shows "mset (AList.update k w al) = add_mset (k, w) (mset (AList.delete k al))"
  using assms
proof (induction al)
  case (Cons p al)
  show ?case
  proof (cases "fst p = k")
    case True
    with Cons.prems have "AList.delete k al = al" by (intro AList.delete_id) auto
    with True show ?thesis by (cases p) (simp add: AList.delete_simps)
  next
    case False
    with Cons show ?thesis by (cases p) (simp add: AList.delete_simps)
  qed
qed simp

lemma AppendBlocks_cases:
  assumes app: "AppendBlocks kv s n = (kv', st)"
  obtains (missing) "st = kInvalidSharedBlock" "kv' = kv" "map_of (sequence_blocks kv) s = None"
  | (insufficient) "st = kInsufficientBlocks" "kv' = kv" "free_blocks kv < n"
      "map_of (sequence_blocks kv) s \<noteq> None"
  | (appended) held refs fresh where "st = kAllocated" "map_of (sequence_blocks kv) s = Some held"
      "n \<le> free_blocks kv" "fresh = take n (rev (free_list kv))"
      "take_free n (refcounts kv, free_list kv, held)
         = (refs, take (length (free_list kv) - n) (free_list kv), held @ fresh)"
      "kv' = kv\<lparr>refcounts := refs, free_list := take (length (free_list kv) - n) (free_list kv),
                sequence_blocks := AList.update s (held @ fresh) (sequence_blocks kv)\<rparr>"
proof (cases "map_of (sequence_blocks kv) s")
  case None
  with app have "st = kInvalidSharedBlock" "kv' = kv" by (simp_all add: AppendBlocks_def)
  then show thesis using None by (rule missing)
next
  case (Some held)
  show thesis
  proof (cases "length (free_list kv) < n")
    case True
    with Some app have "st = kInsufficientBlocks" "kv' = kv" by (simp_all add: AppendBlocks_def)
    then show thesis using True Some by (intro insufficient) (simp_all add: free_blocks_def)
  next
    case False
    obtain refs free bs where tf: "take_free n (refcounts kv, free_list kv, held) = (refs, free, bs)"
      using prod_cases3 by blast
    from False have "n \<le> length (free_list kv)" by simp
    from take_free_shape [OF this tf]
    have shape: "free = take (length (free_list kv) - n) (free_list kv)"
      "bs = held @ take n (rev (free_list kv))" by blast+
    from Some False tf app have res: "st = kAllocated"
      "kv' = kv\<lparr>refcounts := refs, free_list := free,
                sequence_blocks := AList.update s bs (sequence_blocks kv)\<rparr>"
      by (simp_all add: AppendBlocks_def)
    show thesis by (rule appended) (use Some False tf shape res in \<open>simp_all add: free_blocks_def\<close>)
  qed
qed

lemma AppendBlocks_inv:
  assumes inv: "kv_inv kv" and app: "AppendBlocks kv s n = (kv', st)"
  shows "kv_inv kv'"
  using app
proof (cases rule: AppendBlocks_cases)
  case (appended held refs fresh)
  note e = entries_delete_seq [OF inv appended(2)]
  let ?rest = "mset (map snd (AList.delete s (sequence_blocks kv))) + mset (map snd (prefix_blocks kv))"
  have ok: "refs_ok refs (free_list kv') (add_mset (held @ fresh) ?rest)"
    using refs_ok_take [OF _ _ appended(5), of ?rest] inv e appended(3,6)
    by (simp add: kv_inv_def free_blocks_def)
  have dist: "distinct (map fst (sequence_blocks kv))" using inv by (simp add: kv_inv_def kv_shape_def)
  have "kv_entries kv' = add_mset (held @ fresh) ?rest"
    using arg_cong [OF mset_update_key [OF dist appended(2), of "held @ fresh"], of "image_mset snd"] appended(6)
    by (simp add: kv_entries_def)
  moreover have "length refs = length (refcounts kv)"
    using take_free_shape [OF _ appended(5)] appended(3) by (simp add: free_blocks_def)
  ultimately show ?thesis using ok inv appended(6)
    by (simp add: kv_inv_def kv_shape_def AList.distinct_update)
qed (use inv in simp_all)


section \<open>The self-check\<close>

lemma nth_share_blocks:
  "distinct bs \<Longrightarrow> b < length refs \<Longrightarrow>
     share_blocks refs bs ! b = (if b \<in> set bs then inc32 (refs ! b) else refs ! b)"
proof (induction refs bs rule: share_blocks.induct)
  case (2 refs x bs)
  then show ?case by (cases "b = x") auto
qed simp

lemma observe_blocks_eq:
  "observe_blocks unique bs obs =
     (if (\<forall>b \<in> set bs. b < length obs \<and> b \<notin> set unique) \<and> distinct bs
      then Some (share_blocks obs bs) else None)"
  by (induction unique bs obs rule: observe_blocks.induct) auto

definition entries_fit :: "nat \<Rightarrow> nat list multiset \<Rightarrow> bool" where
  "entries_fit n M \<longleftrightarrow> (\<forall>bs. bs \<in># M \<longrightarrow> distinct bs \<and> set bs \<subseteq> {..<n})"

lemma observe_table_fail:
  "\<not> entries_fit (length obs) (mset (map snd t)) \<Longrightarrow> observe_table t obs = None"
proof (induction t obs rule: observe_table.induct)
  case (2 key blocks rest obs)
  show ?case
  proof (cases "observe_blocks [] blocks obs")
    case (Some obs')
    then have "distinct blocks" "\<forall>b \<in> set blocks. b < length obs" "length obs' = length obs"
      by (auto simp: observe_blocks_eq split: if_splits)
    with "2.prems" have "\<not> entries_fit (length obs') (mset (map snd rest))"
      by (auto simp: entries_fit_def)
    with "2.IH" Some show ?thesis by simp
  qed simp
qed (simp add: entries_fit_def)

lemma observe_table_ok:
  assumes "entries_fit (length obs) (mset (map snd t))"
    and "\<forall>b < length obs. obs ! b + length t < u32"
  shows "\<exists>obs'. observe_table t obs = Some obs' \<and> length obs' = length obs
           \<and> (\<forall>b < length obs. obs' ! b = obs ! b + holders (mset (map snd t)) b)"
  using assms
proof (induction t obs rule: observe_table.induct)
  case (1 obs)
  then show ?case by simp
next
  case (2 key blocks rest obs)
  let ?obs = "share_blocks obs blocks"
  from "2.prems"(1) have d: "distinct blocks" and r: "\<forall>b \<in> set blocks. b < length obs"
    and fit: "entries_fit (length ?obs) (mset (map snd rest))"
    by (auto simp: entries_fit_def)
  then have ob: "observe_blocks [] blocks obs = Some ?obs" by (simp add: observe_blocks_eq)
  have nth: "?obs ! b = obs ! b + (if b \<in> set blocks then 1 else 0)" if "b < length obs" for b
    using that d "2.prems"(2) by (auto simp: nth_share_blocks inc32_exact)
  then have "\<forall>b < length ?obs. ?obs ! b + length rest < u32" using "2.prems"(2) by fastforce
  from "2.IH" [OF ob fit this] ob nth show ?case by fastforce
qed

lemma observe_free_eq:
  "observe_free free seen =
     (if (\<forall>b \<in> set free. b < length seen \<and> \<not> seen ! b) \<and> distinct free
      then Some (map (\<lambda>b. seen ! b \<or> b \<in> set free) [0..<length seen]) else None)"
proof (induction free seen rule: observe_free.induct)
  case (1 seen)
  then show ?case by (simp add: map_nth)
next
  case (2 b bs seen)
  show ?case
  proof (cases "b \<ge> length seen \<or> seen ! b")
    case False
    then have "map (\<lambda>x. seen[b := True] ! x \<or> x \<in> set bs) [0..<length seen]
      = map (\<lambda>x. seen ! x \<or> x \<in> set (b # bs)) [0..<length seen]"
      by (auto simp: nth_list_update)
    with False 2 show ?thesis by (auto simp: nth_list_update split: if_splits)
  qed auto
qed

lemma accounting_check_vacuous:
  "length (refcounts kv) < u64 \<Longrightarrow> add64 (allocated_blocks kv) (free_blocks kv) = total_blocks kv"
  by (simp add: allocated_blocks_def total_blocks_def sub64_add64_cancel)

lemma entries_fit_union: "entries_fit n (A + B) \<longleftrightarrow> entries_fit n A \<and> entries_fit n B"
  by (auto simp: entries_fit_def)

lemma holders_union [simp]: "holders (A + B) b = holders A b + holders B b"
  by (simp add: holders_def)

lemma CheckInvariants_unfit:
  assumes "\<not> entries_fit (total_blocks kv) (kv_entries kv)"
    and "entry_count kv < u32" and "length (refcounts kv) < u32"
  shows "\<not> CheckInvariants kv"
proof (cases "entries_fit (total_blocks kv) (mset (map snd (sequence_blocks kv)))")
  case False
  then show ?thesis using observe_table_fail [of "replicate (total_blocks kv) 0"]
    by (simp add: CheckInvariants_def)
next
  case True
  with assms(1) have nf: "\<not> entries_fit (total_blocks kv) (mset (map snd (prefix_blocks kv)))"
    by (simp add: kv_entries_def entries_fit_union)
  from observe_table_ok [of "replicate (total_blocks kv) 0" "sequence_blocks kv"] True assms(2)
  obtain obs where obs: "observe_table (sequence_blocks kv) (replicate (total_blocks kv) 0) = Some obs"
    "length obs = total_blocks kv"
    by (auto simp: entry_count_def)
  with nf observe_table_fail [of obs "prefix_blocks kv"] show ?thesis
    by (simp add: CheckInvariants_def)
qed

lemma CheckInvariants_fit:
  assumes fit: "entries_fit (total_blocks kv) (kv_entries kv)"
    and small: "entry_count kv < u32" and len: "length (refcounts kv) < u32"
  shows "CheckInvariants kv \<longleftrightarrow> refs_ok (refcounts kv) (free_list kv) (kv_entries kv)"
proof -
  let ?n = "total_blocks kv"
  from fit have fits: "entries_fit ?n (mset (map snd (sequence_blocks kv)))"
    "entries_fit ?n (mset (map snd (prefix_blocks kv)))"
    by (simp_all add: kv_entries_def entries_fit_union)
  from observe_table_ok [of "replicate ?n 0" "sequence_blocks kv"] fits(1) small
  obtain o1 where o1: "observe_table (sequence_blocks kv) (replicate ?n 0) = Some o1"
    "length o1 = ?n" "\<forall>b < ?n. o1 ! b = holders (mset (map snd (sequence_blocks kv))) b"
    by (auto simp: entry_count_def)
  have "o1 ! b + length (prefix_blocks kv) < u32" if "b < ?n" for b
    using that o1(3) small holders_le [of "mset (map snd (sequence_blocks kv))" b]
    by (simp add: entry_count_def)
  with observe_table_ok [of o1 "prefix_blocks kv"] fits(2) o1
  obtain o2 where o2: "observe_table (prefix_blocks kv) o1 = Some o2" "length o2 = ?n"
    "\<forall>b < ?n. o2 ! b = holders (kv_entries kv) b"
    by (auto simp: kv_entries_def)
  have acc: "add64 (allocated_blocks kv) (free_blocks kv) = ?n"
    using len by (intro accounting_check_vacuous) simp
  have "CheckInvariants kv \<longleftrightarrow>
    (\<forall>b \<in> set (free_list kv). b < ?n) \<and> distinct (free_list kv) \<and>
    (\<forall>b < ?n. holders (kv_entries kv) b = refcounts kv ! b
       \<and> (refcounts kv ! b = 0) = (b \<in> set (free_list kv)))"
    unfolding CheckInvariants_def using acc o1(1) o2
    by (auto simp: observe_free_eq list_all_iff)
  also have "\<dots> \<longleftrightarrow> refs_ok (refcounts kv) (free_list kv) (kv_entries kv)"
    using fit unfolding refs_ok_def entries_fit_def total_blocks_def by (intro iffI conjI allI impI) auto
  finally show ?thesis .
qed

lemma CheckInvariants_iff_refs_ok:
  assumes "entry_count kv < u32" and "length (refcounts kv) < u32"
  shows "CheckInvariants kv \<longleftrightarrow> refs_ok (refcounts kv) (free_list kv) (kv_entries kv)"
proof (cases "entries_fit (total_blocks kv) (kv_entries kv)")
  case True
  then show ?thesis using assms by (rule CheckInvariants_fit)
next
  case False
  then have "\<not> refs_ok (refcounts kv) (free_list kv) (kv_entries kv)"
    by (auto simp: refs_ok_def entries_fit_def total_blocks_def)
  with CheckInvariants_unfit [OF False assms] show ?thesis by simp
qed


section \<open>Frame facts for the clients\<close>

named_theorems kv_frame \<open>what an operation of the KV cache leaves as it is\<close>

lemma Free_frame [kv_frame]:
  assumes "Free kv s = (kv', r)"
  shows "sequence_blocks kv' = AList.delete s (sequence_blocks kv)"
    and "prefix_blocks kv' = prefix_blocks kv" and "total_blocks kv' = total_blocks kv"
    and "kv_block_size kv' = kv_block_size kv"
  using assms
  by (auto simp: Free_def total_blocks_def map_of_eq_None_iff AList.delete_id
      split: option.splits prod.splits)

lemma UnpinPrefix_frame [kv_frame]:
  assumes "UnpinPrefix kv k = (kv', r)"
  shows "sequence_blocks kv' = sequence_blocks kv"
    and "prefix_blocks kv' = AList.delete k (prefix_blocks kv)" and "total_blocks kv' = total_blocks kv"
    and "kv_block_size kv' = kv_block_size kv"
  using assms
  by (auto simp: UnpinPrefix_def total_blocks_def map_of_eq_None_iff AList.delete_id
      split: option.splits prod.splits)

lemma PinPrefix_frame [kv_frame]:
  assumes "PinPrefix kv k bs = (kv', r)"
  shows "sequence_blocks kv' = sequence_blocks kv" and "total_blocks kv' = total_blocks kv"
    and "prefix_blocks kv' = (if r then (k, bs) # prefix_blocks kv else prefix_blocks kv)"
    and "kv_block_size kv' = kv_block_size kv" and "free_list kv' = free_list kv"
  using assms by (auto simp: PinPrefix_def total_blocks_def split: if_splits)

lemma length_take_free:
  "take_free n (refs, free, bs) = (refs', free', bs') \<Longrightarrow> length refs' = length refs"
  by (induction n arbitrary: refs free bs) (auto simp: Let_def)

lemma Allocate_frame [kv_frame]:
  assumes "Allocate kv s n sh = (kv', st)"
  shows "prefix_blocks kv' = prefix_blocks kv" and "total_blocks kv' = total_blocks kv"
    and "kv_block_size kv' = kv_block_size kv"
  using assms
  by (auto simp: Allocate_def total_blocks_def Let_def dest: length_take_free
      split: if_splits prod.splits)

lemma AppendBlocks_frame [kv_frame]:
  assumes "AppendBlocks kv s n = (kv', st)"
  shows "prefix_blocks kv' = prefix_blocks kv" and "total_blocks kv' = total_blocks kv"
    and "kv_block_size kv' = kv_block_size kv"
  using assms
  by (auto simp: AppendBlocks_def total_blocks_def dest: length_take_free
      split: if_splits prod.splits option.splits)

lemma AppendBlocks_map_of:
  assumes "AppendBlocks kv s n = (kv', st)"
  shows "map_of (sequence_blocks kv') s' =
    (if st = kAllocated \<and> s' = s
     then Some (BlocksFor kv s @ take n (rev (free_list kv)))
     else map_of (sequence_blocks kv) s')"
  using assms
  by (cases rule: AppendBlocks_cases) (auto simp: BlocksFor_def AList.update_conv')

lemma AppendBlocks_keys:
  assumes "AppendBlocks kv s n = (kv', st)"
  shows "map fst (sequence_blocks kv') = map fst (sequence_blocks kv)"
  using assms
proof (cases rule: AppendBlocks_cases)
  case (appended held refs fresh)
  then have "s \<in> set (map fst (sequence_blocks kv))"
    by (metis map_of_eq_None_iff option.distinct(1) set_map)
  with appended(6) show ?thesis by (simp add: AList.update_keys)
qed simp_all

text \<open>What no operation of a prefix cache touches in the KV cache.\<close>

definition kv_same_seqs :: "PagedKvCache \<Rightarrow> PagedKvCache \<Rightarrow> bool" where
  "kv_same_seqs kv kv' \<longleftrightarrow> sequence_blocks kv' = sequence_blocks kv \<and>
     total_blocks kv' = total_blocks kv \<and> kv_block_size kv' = kv_block_size kv"

lemma kv_same_seqs_refl [simp]: "kv_same_seqs kv kv"
  by (simp add: kv_same_seqs_def)

lemma kv_same_seqs_trans: "kv_same_seqs a b \<Longrightarrow> kv_same_seqs b c \<Longrightarrow> kv_same_seqs a c"
  by (simp add: kv_same_seqs_def)

lemma unpin_all_frame: "kv_same_seqs kv (fold (\<lambda>k kv. fst (UnpinPrefix kv k)) ks kv)"
proof (induction ks arbitrary: kv)
  case (Cons k ks)
  obtain kv1 r where un: "UnpinPrefix kv k = (kv1, r)" by fastforce
  then have "kv_same_seqs kv kv1" using UnpinPrefix_frame [OF un] by (simp add: kv_same_seqs_def)
  with Cons.IH [of kv1] un show ?case using kv_same_seqs_trans by simp
qed simp

lemma MakePagedKvCache_no_pins: "MakePagedKvCache n b = Inr kv \<Longrightarrow> prefix_blocks kv = []"
  by (auto simp: MakePagedKvCache_def split: if_splits)

text \<open>The free list counts what nobody holds.\<close>

lemma free_blocks_card:
  assumes "kv_inv kv"
  shows "free_blocks kv = card {b. b < total_blocks kv \<and> holders (kv_entries kv) b = 0}"
proof -
  have "set (free_list kv) = {b. b < total_blocks kv \<and> holders (kv_entries kv) b = 0}"
    using kv_inv_free_iff [OF assms] kv_inv_refcount [OF assms] by auto
  moreover have "distinct (free_list kv)" using assms by (simp add: kv_inv_def refs_ok_def)
  ultimately show ?thesis unfolding free_blocks_def by (metis distinct_card)
qed

lemma free_blocks_single:
  assumes inv: "kv_inv kv" and e: "kv_entries kv = {#bs#}"
  shows "free_blocks kv = total_blocks kv - length bs"
proof -
  from kv_inv_entry [OF inv, of bs] e have bs: "distinct bs" "set bs \<subseteq> {..<total_blocks kv}" by auto
  have "{b. b < total_blocks kv \<and> holders (kv_entries kv) b = 0} = {..<total_blocks kv} - set bs"
    unfolding e by auto
  then show ?thesis
    using free_blocks_card [OF inv] bs by (simp add: card_Diff_subset distinct_card)
qed

lemma free_blocks_none:
  "kv_inv kv \<Longrightarrow> kv_entries kv = {#} \<Longrightarrow> free_blocks kv = total_blocks kv"
  by (simp add: free_blocks_card)

text \<open>Each entry keeps at most its own length from the free list, and its blocks can be shared.\<close>

lemma free_blocks_at_least:
  assumes "kv_inv kv"
  shows "total_blocks kv \<le> free_blocks kv + sum_mset (image_mset length (kv_entries kv))"
proof -
  let ?free = "{b. b < total_blocks kv \<and> holders (kv_entries kv) b = 0}" and ?held = "\<Union> (set ` set_mset (kv_entries kv))"
  have "card (\<Union> (set ` set_mset M)) \<le> sum_mset (image_mset length M)" for M :: "nat list multiset"
  proof (induction M)
    case (add bs M)
    have "card (set bs \<union> \<Union> (set ` set_mset M)) \<le> card (set bs) + card (\<Union> (set ` set_mset M))" by (rule card_Un_le)
    with add card_length [of bs] show ?case by simp
  qed simp
  note held = this [of "kv_entries kv"]
  have "{..<total_blocks kv} \<subseteq> ?free \<union> ?held" by (auto simp: holders_def)
  then have "card {..<total_blocks kv} \<le> card (?free \<union> ?held)" by (intro card_mono) simp_all
  also have "\<dots> \<le> card ?free + card ?held" by (rule card_Un_le)
  finally show ?thesis using held free_blocks_card [OF assms] by simp
qed

lemma held_blocks_usable:
  assumes inv: "kv_inv kv" and bs: "bs \<in># kv_entries kv"
  shows "blocks_usable (refcounts kv) [] bs"
proof -
  have "holders (kv_entries kv) b \<noteq> 0" if "b \<in> set bs" for b
    using bs that by (auto simp: holders_def simp flip: set_mset_eq_empty_iff)
  moreover have "b < total_blocks kv" if "b \<in> set bs" for b using kv_inv_entry [OF inv bs] that by auto
  ultimately show ?thesis
    using kv_inv_entry [OF inv bs] kv_inv_refcount [OF inv] by (auto simp: blocks_usable_iff total_blocks_def)
qed

lemma Allocate_succeeds:
  assumes inv: "kv_inv kv" and n: "n < u64" and al: "Allocate kv s n sh = (kv', st)"
    and new: "s \<notin> fst ` set (sequence_blocks kv)" and sh: "length sh \<le> n" "blocks_usable (refcounts kv) [] sh"
    and free: "n \<le> free_blocks kv"
  shows "st = kAllocated"
  using inv n al
proof (cases rule: Allocate_cases)
  case exists
  with new show ?thesis by blast
next
  case invalid
  with sh show ?thesis by linarith
next
  case insufficient
  with free show ?thesis by linarith
qed

lemma kv_eq_refcounts:
  assumes "kv_inv a" "kv_inv b" "kv_entries a = kv_entries b" "total_blocks a = total_blocks b"
  shows "refcounts a = refcounts b" and "set (free_list a) = set (free_list b)"
proof -
  show eq: "refcounts a = refcounts b"
    using kv_inv_refcount [OF assms(1)] kv_inv_refcount [OF assms(2)] assms(3,4)
    by (intro nth_equalityI) (simp_all add: total_blocks_def)
  then show "set (free_list a) = set (free_list b)"
    using assms kv_inv_free_iff by auto
qed

section \<open>The interface the prefix caches rely on\<close>

text \<open>
  A store of pins: \<open>pin\<close> adds a key the store does not have or refuses and changes nothing,
  \<open>unpin\<close> removes one, and both keep the store's invariant. A client that unpins every key
  it pinned leaves the store without pins.
\<close>

locale pin_store =
  fixes pin :: "'s \<Rightarrow> 'k \<Rightarrow> 'b \<Rightarrow> 's \<times> bool"
    and unpin :: "'s \<Rightarrow> 'k \<Rightarrow> 's \<times> bool"
    and pins :: "'s \<Rightarrow> ('k \<times> 'b) list"
    and inv :: "'s \<Rightarrow> bool"
    and room :: "'s \<Rightarrow> nat"
  assumes pin_refused: "pin s k b = (t, False) \<Longrightarrow> t = s"
    and pin_accepted: "pin s k b = (t, True) \<Longrightarrow> k \<notin> fst ` set (pins s) \<and> pins t = (k, b) # pins s"
    and pin_inv: "inv s \<Longrightarrow> 0 < room s \<Longrightarrow> pin s k b = (t, r) \<Longrightarrow> inv t"
    and pin_room: "pin s k b = (t, True) \<Longrightarrow> 0 < room s \<Longrightarrow> Suc (room t) = room s"
    and unpin_pins: "unpin s k = (t, r) \<Longrightarrow> pins t = AList.delete k (pins s)"
    and unpin_inv: "inv s \<Longrightarrow> 0 < room s \<Longrightarrow> unpin s k = (t, r) \<Longrightarrow> inv t"
    and unpin_room: "inv s \<Longrightarrow> unpin s k = (t, r) \<Longrightarrow> room s \<le> room t"
    and pins_distinct: "inv s \<Longrightarrow> distinct (map fst (pins s))"
begin

lemma unpin_all_pins:
  "pins (fold (\<lambda>k s. fst (unpin s k)) ks s) = fold AList.delete ks (pins s)"
proof (induction ks arbitrary: s)
  case (Cons k ks)
  obtain t r where "unpin s k = (t, r)" by fastforce
  with Cons.IH [of t] unpin_pins [of s k t r] show ?case by simp
qed simp

lemma unpin_all_inv:
  "inv s \<Longrightarrow> 0 < room s \<Longrightarrow>
     inv (fold (\<lambda>k s. fst (unpin s k)) ks s) \<and> room s \<le> room (fold (\<lambda>k s. fst (unpin s k)) ks s)"
proof (induction ks arbitrary: s)
  case (Cons k ks)
  obtain t r where t: "unpin s k = (t, r)" by fastforce
  have "inv t" "room s \<le> room t" using Cons.prems t by (auto intro: unpin_inv unpin_room)
  with Cons.IH [of t] Cons.prems t show ?case by simp
qed simp

lemma fold_delete_subset: "set (fold AList.delete ks al) = {p \<in> set al. fst p \<notin> set ks}"
  by (induction ks arbitrary: al) (auto simp: AList.delete_eq)

lemma unpin_all_empty:
  assumes "fst ` set (pins s) \<subseteq> set ks"
  shows "pins (fold (\<lambda>k s. fst (unpin s k)) ks s) = []"
proof -
  have "set (fold AList.delete ks (pins s)) = {}"
    unfolding fold_delete_subset using assms by auto
  then show ?thesis by (simp add: unpin_all_pins)
qed

end

definition pin_room_left :: "PagedKvCache \<Rightarrow> nat" where
  "pin_room_left kv = u32 - 2 - entry_count kv"

lemma pin_room_left_pos: "0 < pin_room_left kv \<longleftrightarrow> kv_room kv"
  by (auto simp: pin_room_left_def kv_room_def)

interpretation kv_pins: pin_store PinPrefix UnpinPrefix prefix_blocks kv_inv pin_room_left
proof unfold_locales
  fix s t k b r
  show "PinPrefix s k b = (t, False) \<Longrightarrow> t = s" by (erule PinPrefix_cases) simp_all
  show "PinPrefix s k b = (t, True) \<Longrightarrow>
      k \<notin> fst ` set (prefix_blocks s) \<and> prefix_blocks t = (k, b) # prefix_blocks s"
    by (erule PinPrefix_cases) (simp_all add: map_of_eq_None_iff)
  show "kv_inv s \<Longrightarrow> 0 < pin_room_left s \<Longrightarrow> PinPrefix s k b = (t, r) \<Longrightarrow> kv_inv t"
    unfolding pin_room_left_pos by (rule PinPrefix_inv)
  show "PinPrefix s k b = (t, True) \<Longrightarrow> 0 < pin_room_left s \<Longrightarrow> Suc (pin_room_left t) = pin_room_left s"
    by (erule PinPrefix_cases) (simp_all add: pin_room_left_def entry_count_def)
  show "UnpinPrefix s k = (t, r) \<Longrightarrow> prefix_blocks t = AList.delete k (prefix_blocks s)"
    by (rule UnpinPrefix_frame)
  show "kv_inv s \<Longrightarrow> 0 < pin_room_left s \<Longrightarrow> UnpinPrefix s k = (t, r) \<Longrightarrow> kv_inv t"
    by (rule UnpinPrefix_inv) (simp_all add: pin_room_left_pos kv_room_def)
  show "kv_inv s \<Longrightarrow> UnpinPrefix s k = (t, r) \<Longrightarrow> pin_room_left s \<le> pin_room_left t"
    using UnpinPrefix_frame [of s k t r] AList.length_delete_le [of k "prefix_blocks s"]
    by (simp add: pin_room_left_def entry_count_def)
  show "kv_inv s \<Longrightarrow> distinct (map fst (prefix_blocks s))" by (simp add: kv_inv_def kv_shape_def)
qed


section \<open>Runs of the cache\<close>

text \<open>
  Any client's use of the cache: a sequence of the five mutating calls, with arguments of the
  widths the signatures have. The room guard is the width of the 32-bit counters.
\<close>

inductive kv_step :: "PagedKvCache \<Rightarrow> PagedKvCache \<Rightarrow> bool" where
  allocate: "kv_room kv \<Longrightarrow> n < u64 \<Longrightarrow> Allocate kv s n shared = (kv', st) \<Longrightarrow> kv_step kv kv'"
| free: "kv_room kv \<Longrightarrow> Free kv s = (kv', r) \<Longrightarrow> kv_step kv kv'"
| append: "kv_room kv \<Longrightarrow> AppendBlocks kv s n = (kv', st) \<Longrightarrow> kv_step kv kv'"
| pin: "kv_room kv \<Longrightarrow> PinPrefix kv k bs = (kv', r) \<Longrightarrow> kv_step kv kv'"
| unpin: "kv_room kv \<Longrightarrow> UnpinPrefix kv k = (kv', r) \<Longrightarrow> kv_step kv kv'"

inductive_cases kv_stepE: "kv_step kv kv'"

definition kv_initial :: "PagedKvCache \<Rightarrow> bool" where
  "kv_initial kv \<longleftrightarrow> (\<exists>n b. MakePagedKvCache n b = Inr kv)"

lemma kv_room_entries: "kv_room kv \<Longrightarrow> entry_count kv < u32"
  by (simp add: kv_room_def)

lemma kv_step_inv: "kv_step kv kv' \<Longrightarrow> kv_inv kv \<Longrightarrow> kv_inv kv'"
  by (induction rule: kv_step.induct)
    (blast intro: Allocate_inv Free_inv AppendBlocks_inv PinPrefix_inv UnpinPrefix_inv kv_room_entries)+

interpretation kv_run: invariant_system kv_initial kv_step kv_inv
  by unfold_locales (auto simp: kv_initial_def intro: MakePagedKvCache_inv kv_step_inv)

section \<open>Properties\<close>

text \<open>A cache of three blocks, and the same cache with one sequence of one block.\<close>

definition kv_fresh3 :: PagedKvCache where
  "kv_fresh3 = \<lparr>kv_block_size = 16, refcounts = [0, 0, 0], free_list = [2, 1, 0],
     sequence_blocks = [], prefix_blocks = []\<rparr>"

definition kv_example :: PagedKvCache where
  "kv_example = \<lparr>kv_block_size = 16, refcounts = [1, 0, 0], free_list = [2, 1],
     sequence_blocks = [(''a'', [0])], prefix_blocks = []\<rparr>"

lemma kv_fresh3_make: "MakePagedKvCache 3 16 = Inr kv_fresh3"
  by (simp add: MakePagedKvCache_def kv_fresh3_def upt_rec numeral_3_eq_3)

lemma kv_example_alloc: "Allocate kv_fresh3 ''a'' 1 [] = (kv_example, kAllocated)"
  by code_simp

lemma kv_example_free: "Free kv_example ''a'' = (kv_fresh3\<lparr>free_list := [2, 1, 0]\<rparr>, True)"
  by code_simp

lemma kv_example_room: "kv_room kv_example" and kv_fresh3_room: "kv_room kv_fresh3"
  by (simp_all add: kv_room_def entry_count_def kv_example_def kv_fresh3_def)

lemma kv_example_run: "kv_step\<^sup>*\<^sup>* kv_fresh3 kv_example"
  by (intro r_into_rtranclp kv_step.allocate [OF kv_fresh3_room _ kv_example_alloc]) simp

lemma kv_fresh3_inv: "kv_inv kv_fresh3"
  by (rule MakePagedKvCache_inv [OF kv_fresh3_make])

lemma kv_example_inv: "kv_inv kv_example"
  by (rule Allocate_inv [OF kv_fresh3_inv kv_fresh3_room _ kv_example_alloc]) simp


text \<open>
  C10: in every state that any sequence of \<open>Allocate\<close>, \<open>Free\<close>, \<open>AppendBlocks\<close>,
  \<open>PinPrefix\<close> and \<open>UnpinPrefix\<close> calls reaches from a freshly constructed cache, the
  cache's own \<open>CheckInvariants\<close> returns true.
\<close>

theorem kv_reachable_CheckInvariants:
  assumes "MakePagedKvCache n b = Inr kv0" and "kv_step\<^sup>*\<^sup>* kv0 kv" and "kv_room kv"
  shows "CheckInvariants kv"
proof -
  have "kv_inv kv" using assms(1,2) by (intro kv_run.inv_reachable) (auto simp: kv_initial_def)
  then show ?thesis
    using CheckInvariants_iff_refs_ok [OF kv_room_entries [OF assms(3)]]
    by (simp add: kv_inv_def kv_shape_def)
qed

theorem kv_reachable_CheckInvariants_witness:
  "MakePagedKvCache 3 16 = Inr kv_fresh3 \<and> kv_step\<^sup>*\<^sup>* kv_fresh3 kv_example \<and> kv_room kv_example
     \<and> CheckInvariants kv_example"
  using kv_reachable_CheckInvariants [OF kv_fresh3_make kv_example_run kv_example_room]
    kv_fresh3_make kv_example_run kv_example_room by blast

text \<open>
  C38: \<open>CheckInvariants\<close> decides exactly the abstract accounting statement: every table entry
  is a duplicate-free list of existing blocks, each count is the number of entries that hold
  the block, and the free list is, without duplicates, the set of blocks with count zero.
\<close>

theorem CheckInvariants_exact:
  assumes "length (refcounts kv) < u32" and "entry_count kv < u32"
  shows "CheckInvariants kv \<longleftrightarrow>
    (\<forall>bs \<in># kv_entries kv. distinct bs \<and> (\<forall>b \<in> set bs. b < total_blocks kv)) \<and>
    (\<forall>b < total_blocks kv. refcounts kv ! b = size {#bs \<in># kv_entries kv. b \<in> set bs#}) \<and>
    distinct (free_list kv) \<and> set (free_list kv) = {b. b < total_blocks kv \<and> refcounts kv ! b = 0}"
  unfolding CheckInvariants_iff_refs_ok [OF assms(2,1)] refs_ok_def total_blocks_def holders_def
  by (auto simp: subset_iff)

theorem CheckInvariants_exact_witness:
  "CheckInvariants kv_example \<and> set (free_list kv_example) = {b. b < 3 \<and> refcounts kv_example ! b = 0}"
proof -
  have "length (refcounts kv_example) < u32" "entry_count kv_example < u32"
    by (simp_all add: kv_example_def entry_count_def)
  note iff = CheckInvariants_exact [OF this]
  have c: "CheckInvariants kv_example" by code_simp
  moreover have "total_blocks kv_example = 3" by (simp add: kv_example_def total_blocks_def)
  ultimately show ?thesis using iff by simp
qed

text \<open>
  Allocation is all-or-nothing and its status tells the exact reason: an existing sequence,
  an unusable shared prefix, too few free blocks, or success; every refusal leaves the cache as
  it was.
\<close>

theorem Allocate_all_or_nothing:
  assumes "kv_inv kv" and "required < u64" and "Allocate kv s required shared = (kv', st)"
  shows "st = (if map_of (sequence_blocks kv) s \<noteq> None then kSequenceAlreadyExists
               else if required < length shared \<or> \<not> distinct shared
                    \<or> (\<exists>b \<in> set shared. RefCount kv b = 0) then kInvalidSharedBlock
               else if free_blocks kv < required - length shared then kInsufficientBlocks
               else kAllocated)
    \<and> (st = kAllocated \<or> kv' = kv)"
proof -
  have u: "blocks_usable (refcounts kv) [] shared \<longleftrightarrow>
    distinct shared \<and> \<not> (\<exists>b \<in> set shared. RefCount kv b = 0)"
    by (auto simp: blocks_usable_iff RefCount_def)
  from assms show ?thesis
  proof (cases rule: Allocate_cases)
    case exists
    then have "map_of (sequence_blocks kv) s \<noteq> None" by (simp add: map_of_eq_None_iff)
    with exists show ?thesis by simp
  qed (simp_all add: u [symmetric], auto simp: u)
qed

theorem Allocate_all_or_nothing_witness:
  "Allocate kv_example ''a'' 1 [] = (kv_example, kSequenceAlreadyExists)
   \<and> Allocate kv_example ''b'' 2 [1] = (kv_example, kInvalidSharedBlock)
   \<and> Allocate kv_example ''b'' 4 [0] = (kv_example, kInsufficientBlocks)"
proof -
  have "snd (Allocate kv_example ''a'' 1 []) = kSequenceAlreadyExists \<and> fst (Allocate kv_example ''a'' 1 []) = kv_example"
    using Allocate_all_or_nothing [OF kv_example_inv _ surjective_pairing, of 1 "''a''" "[]"]
    by (auto simp: kv_example_def)
  moreover have "Allocate kv_example ''b'' 2 [1] = (kv_example, kInvalidSharedBlock)"
    "Allocate kv_example ''b'' 4 [0] = (kv_example, kInsufficientBlocks)"
    by code_simp+
  ultimately show ?thesis by (metis prod.collapse)
qed

text \<open>
  A successful allocation hands out the shared prefix followed by fresh blocks, in total
  exactly as many as required; the fresh blocks were free and no other sequence or pin holds
  any of them.
\<close>

theorem Allocate_exclusive:
  assumes inv: "kv_inv kv" and n: "required < u64"
    and alloc: "Allocate kv s required shared = (kv', kAllocated)"
  shows "\<exists>fresh. BlocksFor kv' s = shared @ fresh \<and> length (shared @ fresh) = required
    \<and> distinct (shared @ fresh) \<and> set fresh \<subseteq> set (free_list kv)
    \<and> set (free_list kv') = set (free_list kv) - set fresh
    \<and> (\<forall>bs \<in># kv_entries kv. set bs \<inter> set fresh = {})"
  using inv n alloc
proof (cases rule: Allocate_cases)
  case (allocated fresh refs)
  have dfree: "distinct (free_list kv)" using inv by (simp add: kv_inv_def refs_ok_def)
  have len: "length fresh = required - length shared"
    using allocated(5,6) by (simp add: free_blocks_def)
  let ?k = "length (free_list kv) - (required - length shared)"
  have fresh: "fresh = rev (drop ?k (free_list kv))" using allocated(5) by (simp add: take_rev)
  then have sub: "set fresh \<subseteq> set (free_list kv)" by (auto dest: in_set_dropD)
  have "set (free_list kv) = set (take ?k (free_list kv)) \<union> set (drop ?k (free_list kv))"
    by (metis append_take_drop_id set_append)
  moreover have "set (take ?k (free_list kv)) \<inter> set (drop ?k (free_list kv)) = {}"
    using dfree by (simp add: set_take_disj_set_drop_if_distinct)
  ultimately have "set (free_list kv') = set (free_list kv) - set fresh"
    using allocated(8) fresh by auto
  moreover have "set shared \<inter> set fresh = {}"
    using sub allocated(4) kv_inv_free_iff [OF inv] by (fastforce simp: blocks_usable_iff)
  then have "distinct (shared @ fresh)"
    using allocated(4) dfree fresh by (simp add: blocks_usable_iff)
  moreover have "\<forall>bs \<in># kv_entries kv. set bs \<inter> set fresh = {}"
    using sub free_list_not_held [OF inv] by blast
  ultimately show ?thesis using allocated len sub by (auto simp: BlocksFor_def)
qed simp_all

theorem Allocate_exclusive_witness:
  "\<exists>fresh. BlocksFor kv_example ''a'' = [] @ fresh \<and> length ([] @ fresh) = 1
     \<and> set fresh \<subseteq> set (free_list kv_fresh3)"
  using Allocate_exclusive [OF kv_fresh3_inv _ kv_example_alloc] by auto

text \<open>
  Freeing a sequence undoes its allocation: the same counts, the same set of free blocks
  and the same tables as before.
\<close>

theorem Allocate_Free_roundtrip:
  assumes inv: "kv_inv kv" and room: "kv_room kv" and n: "required < u64"
    and alloc: "Allocate kv s required shared = (kv1, kAllocated)" and free: "Free kv1 s = (kv2, r)"
  shows "r \<and> refcounts kv2 = refcounts kv \<and> set (free_list kv2) = set (free_list kv)
    \<and> sequence_blocks kv2 = sequence_blocks kv \<and> prefix_blocks kv2 = prefix_blocks kv"
  using inv n alloc
proof (cases rule: Allocate_cases)
  case (allocated fresh refs)
  have inv1: "kv_inv kv1" by (rule Allocate_inv [OF inv room n alloc])
  have "entry_count kv1 = Suc (entry_count kv)" using allocated by (simp add: entry_count_def)
  then have inv2: "kv_inv kv2" using Free_inv [OF inv1 _ free] room by (simp add: kv_room_def)
  have "s \<notin> fst ` set (sequence_blocks kv)" using allocated(2) by (simp add: map_of_eq_None_iff)
  then have seq: "sequence_blocks kv2 = sequence_blocks kv"
    using Free_frame(1) [OF free] allocated(8) by (simp add: AList.delete_simps AList.delete_id)
  have pre: "prefix_blocks kv2 = prefix_blocks kv"
    using Free_frame(2) [OF free] allocated(8) by simp
  have tot: "total_blocks kv2 = total_blocks kv"
    using Free_frame(3) [OF free] Allocate_frame(2) [OF alloc] by simp
  have "kv_entries kv2 = kv_entries kv" by (simp add: kv_entries_def seq pre)
  from kv_eq_refcounts [OF inv2 inv this tot] seq pre
  show ?thesis using free allocated by (auto simp: Free_def split: prod.splits)
qed simp_all

theorem Allocate_Free_roundtrip_witness:
  "refcounts (fst (Free kv_example ''a'')) = refcounts kv_fresh3"
  using Allocate_Free_roundtrip [OF kv_fresh3_inv kv_fresh3_room _ kv_example_alloc kv_example_free]
  by (simp add: kv_example_free)

text \<open>
  No block leaks: once every sequence is freed and every prefix unpinned, in whatever order
  the calls came, all blocks are back on the free list.
\<close>

theorem kv_no_leak:
  assumes "MakePagedKvCache n b = Inr kv0" and "kv_step\<^sup>*\<^sup>* kv0 kv"
    and "sequence_blocks kv = []" and "prefix_blocks kv = []"
  shows "free_blocks kv = total_blocks kv \<and> allocated_blocks kv = 0"
proof -
  have inv: "kv_inv kv" using assms(1,2) by (intro kv_run.inv_reachable) (auto simp: kv_initial_def)
  have "kv_entries kv = {#}" using assms(3,4) by (simp add: kv_entries_def)
  then have f: "free_blocks kv = total_blocks kv" by (rule free_blocks_none [OF inv])
  moreover have "total_blocks kv < u64" using inv by (simp add: kv_inv_def kv_shape_def total_blocks_def)
  ultimately show ?thesis by (simp add: allocated_blocks_def sub64_exact)
qed

theorem kv_no_leak_witness:
  "kv_step\<^sup>*\<^sup>* kv_fresh3 (fst (Free kv_example ''a'')) \<and> free_blocks (fst (Free kv_example ''a'')) = 3"
proof -
  have run: "kv_step\<^sup>*\<^sup>* kv_fresh3 (fst (Free kv_example ''a''))"
    using kv_example_run kv_step.free [OF kv_example_room, of "''a''"]
    by (metis rtranclp.rtrancl_into_rtrancl surjective_pairing)
  with kv_no_leak [OF kv_fresh3_make run] show ?thesis
    by (simp add: kv_example_free kv_fresh3_def total_blocks_def)
qed

end
