(* ===== verification/RadixCache.thy ===== *)
theory RadixCache
  imports KvCache
begin

text \<open>
  The radix prefix cache of \<open>cpp/src/radix_prefix_cache.cpp\<close>: one tree per namespace, one
  node per cached prompt block, each node pinning its block in the KV cache under its own pin
  key. A node holds its children as an association list (the \<open>unordered_map\<close>); a pointer
  to a children map is the path of block hashes that leads to it. The KV cache the class refers
  to is passed in and returned.
\<close>

section \<open>State and operations\<close>

datatype node = Node (nd_block: nat) (nd_pin_key: string) (nd_last_access: nat)
  (nd_children: "(string \<times> node) list")

type_synonym children = "(string \<times> node) list"

record Match =
  m_blocks :: "nat list"
  matched_block_count :: nat

record RadixPrefixCache =
  rx_capacity :: nat
  rx_roots :: "(string \<times> children) list"
  rx_node_count :: nat
  rx_access_clock :: nat
  rx_next_pin_id :: nat

definition MakeRadixPrefixCache :: "nat \<Rightarrow> error + RadixPrefixCache" where
  "MakeRadixPrefixCache node_capacity =
     (if node_capacity = 0
      then Inl (InvalidArgument ''radix prefix cache capacity must be positive'')
      else Inr \<lparr>rx_capacity = node_capacity, rx_roots = [], rx_node_count = 0,
                rx_access_clock = 0, rx_next_pin_id = 0\<rparr>)"

text \<open>The loop of \<open>GetLongest\<close>: descend while a child matches, stamping the nodes.\<close>

fun walk :: "children \<Rightarrow> string list \<Rightarrow> nat \<Rightarrow> children \<times> nat list \<times> nat" where
  "walk ch [] clock = (ch, [], clock)"
| "walk ch (h # hs) clock =
     (case map_of ch h of
        None \<Rightarrow> (ch, [], clock)
      | Some (Node b pin la sub) \<Rightarrow>
          (let clock' = add64 clock 1;
               (sub', bs, clock'') = walk sub hs clock'
           in (AList.update h (Node b pin clock' sub') ch, b # bs, clock'')))"

definition GetLongest ::
    "RadixPrefixCache \<Rightarrow> string \<Rightarrow> string list \<Rightarrow> RadixPrefixCache \<times> Match option" where
  "GetLongest rx cache_namespace prompt_block_hashes =
     (case map_of (rx_roots rx) cache_namespace of
        None \<Rightarrow> (rx, None)
      | Some ch \<Rightarrow>
          (case walk ch prompt_block_hashes (rx_access_clock rx) of
             (ch', blocks, clock') \<Rightarrow>
               (rx\<lparr>rx_roots := AList.update cache_namespace ch' (rx_roots rx), rx_access_clock := clock'\<rparr>,
                if blocks = [] then None
                else Some \<lparr>m_blocks = blocks, matched_block_count = length blocks\<rparr>)))"

text \<open>
  \<open>FindOldestLeaf\<close>: the candidate's \<open>parent\<close> pointer is a namespace and the path
  of hashes from its root; a later leaf replaces the candidate only with a smaller stamp.
\<close>

record LeafCandidate =
  lc_namespace :: string
  lc_path :: "string list"
  lc_key :: string
  lc_last_access :: nat

definition older_leaf :: "LeafCandidate option \<Rightarrow> LeafCandidate \<Rightarrow> LeafCandidate option" where
  "older_leaf candidate leaf =
     (case candidate of
        None \<Rightarrow> Some leaf
      | Some c \<Rightarrow> if lc_last_access leaf < lc_last_access c then Some leaf else candidate)"

fun FindOldestLeaf ::
    "string \<Rightarrow> string list \<Rightarrow> children \<Rightarrow> LeafCandidate option \<Rightarrow> LeafCandidate option" where
  "FindOldestLeaf ns path [] candidate = candidate"
| "FindOldestLeaf ns path ((key, Node b pin la sub) # rest) candidate =
     FindOldestLeaf ns path rest
       (if sub \<noteq> [] then FindOldestLeaf ns (path @ [key]) sub candidate
        else older_leaf candidate
               \<lparr>lc_namespace = ns, lc_path = path, lc_key = key, lc_last_access = la\<rparr>)"

text \<open>Following the candidate's pointer: the node at a path, and erasing it there.\<close>

fun node_at :: "children \<Rightarrow> string list \<Rightarrow> string \<Rightarrow> node option" where
  "node_at ch [] key = map_of ch key"
| "node_at ch (h # hs) key =
     (case map_of ch h of None \<Rightarrow> None | Some n \<Rightarrow> node_at (nd_children n) hs key)"

fun erase_at :: "children \<Rightarrow> string list \<Rightarrow> string \<Rightarrow> children" where
  "erase_at ch [] key = AList.delete key ch"
| "erase_at ch (h # hs) key =
     (case map_of ch h of
        None \<Rightarrow> ch
      | Some (Node b pin la sub) \<Rightarrow> AList.update h (Node b pin la (erase_at sub hs key)) ch)"

fun find_in_roots :: "(string \<times> children) list \<Rightarrow> LeafCandidate option \<Rightarrow> LeafCandidate option" where
  "find_in_roots [] candidate = candidate"
| "find_in_roots ((ns, ch) # rest) candidate =
     find_in_roots rest (FindOldestLeaf ns [] ch candidate)"

definition EvictOldest ::
    "RadixPrefixCache \<Rightarrow> PagedKvCache \<Rightarrow> RadixPrefixCache \<times> PagedKvCache \<times> bool" where
  "EvictOldest rx kv =
     (case find_in_roots (rx_roots rx) None of
        None \<Rightarrow> (rx, kv, False)
      | Some c \<Rightarrow>
          (case map_of (rx_roots rx) (lc_namespace c) of
             None \<Rightarrow> (rx, kv, False)
           | Some ch \<Rightarrow>
               (case node_at ch (lc_path c) (lc_key c) of
                  None \<Rightarrow> (rx, kv, False)
                | Some n \<Rightarrow>
                    (rx\<lparr>rx_roots := AList.update (lc_namespace c)
                           (erase_at ch (lc_path c) (lc_key c)) (rx_roots rx),
                        rx_node_count := sub64 (rx_node_count rx) 1\<rparr>,
                     fst (UnpinPrefix kv (nd_pin_key n)), True))))"

section \<open>Pins, well-formedness, leaves\<close>

text \<open>The pins of a tree, in the order of \<open>UnpinTree\<close>'s recursion turned inside out.\<close>

fun pins_of :: "children \<Rightarrow> (string \<times> nat list) list" where
  "pins_of [] = []"
| "pins_of ((k, Node b pin la sub) # rest) = (pin, [b]) # pins_of sub @ pins_of rest"

definition root_pins :: "(string \<times> children) list \<Rightarrow> (string \<times> nat list) list" where
  "root_pins roots = concat (map (\<lambda>(ns, ch). pins_of ch) roots)"

fun trie_wf :: "children \<Rightarrow> bool" where
  "trie_wf [] = True"
| "trie_wf ((k, Node b pin la sub) # rest) = (k \<notin> fst ` set rest \<and> trie_wf sub \<and> trie_wf rest)"

lemma pins_of_append [simp]: "pins_of (xs @ ys) = pins_of xs @ pins_of ys"
  by (induction xs rule: pins_of.induct) auto

lemma trie_wf_distinct: "trie_wf ch \<Longrightarrow> distinct (map fst ch)"
  by (induction ch rule: trie_wf.induct) auto

lemma trie_wf_append [simp]:
  "trie_wf (xs @ ys) \<longleftrightarrow> trie_wf xs \<and> trie_wf ys \<and> fst ` set xs \<inter> fst ` set ys = {}"
  by (induction xs rule: trie_wf.induct) auto

lemma pins_of_empty [simp]: "pins_of ch = [] \<longleftrightarrow> ch = []"
  by (cases ch rule: pins_of.cases) auto

lemma length_pins_delete:
  "map_of ch k = Some n \<Longrightarrow> length (pins_of (AList.delete k ch)) < length (pins_of ch)"
proof (induction ch rule: pins_of.induct)
  case (2 k' b pin la sub rest)
  have "length (pins_of (AList.delete k ch)) \<le> length (pins_of ch)" for ch
    by (induction ch rule: pins_of.induct) (auto simp: AList.delete_simps)
  from this [of rest] 2 show ?case by (auto simp: AList.delete_simps split: if_splits)
qed simp

lemma length_pins_update:
  "map_of ch h = Some (Node b pin la sub) \<Longrightarrow>
     length (pins_of (AList.update h (Node b' pin' la' sub') ch)) + length (pins_of sub)
       = length (pins_of ch) + length (pins_of sub')"
  by (induction ch rule: pins_of.induct) (auto split: if_splits)

lemma length_pins_erase:
  "node_at ch path key = Some n \<Longrightarrow> length (pins_of (erase_at ch path key)) < length (pins_of ch)"
proof (induction ch path key rule: erase_at.induct)
  case (1 ch key)
  then show ?case by (simp add: length_pins_delete)
next
  case (2 ch h hs key)
  then obtain m where m: "map_of ch h = Some m" by (auto split: option.splits)
  obtain b pin la sub where n: "m = Node b pin la sub" by (cases m)
  have "length (pins_of (erase_at sub hs key)) < length (pins_of sub)"
    using 2 m n by simp
  with length_pins_update [of ch h b pin la sub b pin la "erase_at sub hs key"] m n
  show ?case by simp
qed

lemma root_pins_update:
  "map_of roots ns = Some ch \<Longrightarrow>
     length (root_pins (AList.update ns ch' roots)) + length (pins_of ch)
       = length (root_pins roots) + length (pins_of ch')"
  by (induction roots) (auto simp: root_pins_def split: if_splits)

lemma EvictOldest_True:
  assumes "EvictOldest rx kv = (rx', kv', True)"
  obtains c ch n where "find_in_roots (rx_roots rx) None = Some c"
    "map_of (rx_roots rx) (lc_namespace c) = Some ch" "node_at ch (lc_path c) (lc_key c) = Some n"
    "rx' = rx\<lparr>rx_roots := AList.update (lc_namespace c) (erase_at ch (lc_path c) (lc_key c)) (rx_roots rx),
              rx_node_count := sub64 (rx_node_count rx) 1\<rparr>"
    "kv' = fst (UnpinPrefix kv (nd_pin_key n))"
proof -
  from assms obtain c where c: "find_in_roots (rx_roots rx) None = Some c"
    by (auto simp: EvictOldest_def split: option.splits)
  with assms obtain ch where ch: "map_of (rx_roots rx) (lc_namespace c) = Some ch"
    by (auto simp: EvictOldest_def split: option.splits)
  with assms c obtain n where n: "node_at ch (lc_path c) (lc_key c) = Some n"
    by (auto simp: EvictOldest_def split: option.splits)
  show thesis by (rule that [OF c ch n]) (use assms c ch n in \<open>auto simp: EvictOldest_def\<close>)
qed

lemma EvictOldest_shrinks:
  assumes "EvictOldest rx kv = (rx', kv', True)"
  shows "length (root_pins (rx_roots rx')) < length (root_pins (rx_roots rx))"
  using assms
proof (cases rule: EvictOldest_True)
  case (1 c ch n)
  from length_pins_erase [OF 1(3)] root_pins_update [OF 1(2), of "erase_at ch (lc_path c) (lc_key c)"] 1(4)
  show ?thesis by simp
qed

section \<open>Insertion and clearing\<close>

text \<open>The locals and fields that the loop of \<open>PutBlockPrefixes\<close> updates.\<close>

record PutState =
  ps_kv :: PagedKvCache
  ps_clock :: nat
  ps_next_pin_id :: nat
  ps_node_count :: nat
  ps_inserted :: nat

definition radix_pin_key :: "nat \<Rightarrow> string" where
  "radix_pin_key n = ''radix-prefix-'' @ to_string n"

fun put_path :: "children \<Rightarrow> string list \<Rightarrow> nat list \<Rightarrow> PutState \<Rightarrow> children \<times> PutState" where
  "put_path ch (h # hs) (blk # bs) st =
     (case map_of ch h of
        Some (Node b pin la sub) \<Rightarrow>
          (let clock = add64 (ps_clock st) 1;
               (sub', st') = put_path sub hs bs (st\<lparr>ps_clock := clock\<rparr>)
           in (AList.update h (Node b pin clock sub') ch, st'))
      | None \<Rightarrow>
          (let pin = radix_pin_key (ps_next_pin_id st);
               st1 = st\<lparr>ps_next_pin_id := add64 (ps_next_pin_id st) 1\<rparr>
           in case PinPrefix (ps_kv st) pin [blk] of
                (kv', pinned) \<Rightarrow>
                  if \<not> pinned then (ch, st1)
                  else
                    (let clock = add64 (ps_clock st) 1;
                         (sub', st') = put_path [] hs bs
                           (st1\<lparr>ps_kv := kv', ps_clock := clock,
                               ps_node_count := add64 (ps_node_count st) 1,
                               ps_inserted := add64 (ps_inserted st) 1\<rparr>)
                     in ((h, Node blk pin clock sub') # ch, st'))))"
| "put_path ch [] bs st = (ch, st)"
| "put_path ch hs [] st = (ch, st)"

text \<open>The loop that evicts down to the capacity.\<close>

function evict_to_capacity :: "RadixPrefixCache \<Rightarrow> PagedKvCache \<Rightarrow> RadixPrefixCache \<times> PagedKvCache" where
  "evict_to_capacity rx kv =
     (if rx_node_count rx > rx_capacity rx
      then (case EvictOldest rx kv of
              (rx', kv', evicted) \<Rightarrow> if \<not> evicted then (rx', kv') else evict_to_capacity rx' kv')
      else (rx, kv))"
  by pat_completeness auto
termination
  by (relation "measure (\<lambda>(rx, kv). length (root_pins (rx_roots rx)))")
    (auto dest!: EvictOldest_shrinks [OF sym])

declare evict_to_capacity.simps [simp del]

definition PutBlockPrefixes ::
    "RadixPrefixCache \<Rightarrow> PagedKvCache \<Rightarrow> string \<Rightarrow> string list \<Rightarrow> nat list
       \<Rightarrow> RadixPrefixCache \<times> PagedKvCache \<times> nat" where
  "PutBlockPrefixes rx kv cache_namespace prompt_block_hashes blocks =
     (let ch = (case map_of (rx_roots rx) cache_namespace of None \<Rightarrow> [] | Some ch \<Rightarrow> ch)
      in case put_path ch prompt_block_hashes blocks
                \<lparr>ps_kv = kv, ps_clock = rx_access_clock rx, ps_next_pin_id = rx_next_pin_id rx,
                 ps_node_count = rx_node_count rx, ps_inserted = 0\<rparr> of
           (ch', st) \<Rightarrow>
             (case evict_to_capacity
                     (rx\<lparr>rx_roots := AList.update cache_namespace ch' (rx_roots rx),
                         rx_node_count := ps_node_count st, rx_access_clock := ps_clock st,
                         rx_next_pin_id := ps_next_pin_id st\<rparr>) (ps_kv st) of
                (rx', kv') \<Rightarrow> (rx', kv', ps_inserted st)))"

fun UnpinTree :: "children \<Rightarrow> PagedKvCache \<Rightarrow> PagedKvCache" where
  "UnpinTree [] kv = kv"
| "UnpinTree ((k, Node b pin la sub) # rest) kv =
     UnpinTree rest (fst (UnpinPrefix (UnpinTree sub kv) pin))"

definition RadixClear :: "RadixPrefixCache \<Rightarrow> PagedKvCache \<Rightarrow> RadixPrefixCache \<times> PagedKvCache" where
  "RadixClear rx kv =
     (rx\<lparr>rx_roots := [], rx_node_count := 0\<rparr>,
      fold (\<lambda>(ns, ch) kv. UnpinTree ch kv) (rx_roots rx) kv)"


section \<open>Replacing a child\<close>

lemma update_child_split:
  assumes "trie_wf ch" and "map_of ch h = Some n"
  obtains xs ys where "ch = xs @ (h, n) # ys" "AList.update h n' ch = xs @ (h, n') # ys"
    "h \<notin> fst ` set xs" "h \<notin> fst ` set ys"
  using map_of_split_update [OF trie_wf_distinct [OF assms(1)] assms(2)] by metis

lemma trie_wf_child: "trie_wf ch \<Longrightarrow> map_of ch h = Some (Node b pin la sub) \<Longrightarrow> trie_wf sub"
  by (induction ch rule: trie_wf.induct) (auto split: if_splits)

lemma trie_wf_update:
  assumes "trie_wf ch" "map_of ch h = Some n" "trie_wf sub'"
  shows "trie_wf (AList.update h (Node b pin la sub') ch)"
  using assms(1,2)
proof (cases rule: update_child_split [where n' = "Node b pin la sub'"])
  case (1 xs ys)
  then show ?thesis using assms by (cases n) auto
qed

lemma mset_pins_update:
  assumes "trie_wf ch" "map_of ch h = Some (Node b pin la sub)"
  shows "mset (pins_of (AList.update h (Node b pin la' sub') ch)) + mset (pins_of sub)
    = mset (pins_of ch) + mset (pins_of sub')"
  using assms
  by (cases rule: update_child_split [where n' = "Node b pin la' sub'"]) (simp add: ac_simps)

lemma pins_child_subset:
  "map_of ch h = Some (Node b pin la sub) \<Longrightarrow> set (pins_of sub) \<subseteq> set (pins_of ch) \<and> (pin, [b]) \<in> set (pins_of ch)"
  by (induction ch rule: pins_of.induct) (auto split: if_splits)

text \<open>Blocks are distinct along every path from a root.\<close>

fun tdist :: "nat set \<Rightarrow> children \<Rightarrow> bool" where
  "tdist S [] = True"
| "tdist S ((k, Node b pin la sub) # rest) = (b \<notin> S \<and> tdist (insert b S) sub \<and> tdist S rest)"

lemma tdist_append [simp]: "tdist S (xs @ ys) \<longleftrightarrow> tdist S xs \<and> tdist S ys"
  by (induction xs rule: pins_of.induct) auto

lemma tdist_child:
  "tdist S ch \<Longrightarrow> map_of ch h = Some (Node b pin la sub) \<Longrightarrow> b \<notin> S \<and> tdist (insert b S) sub"
  by (induction ch rule: pins_of.induct) (auto split: if_splits)

lemma tdist_update:
  assumes "trie_wf ch" "map_of ch h = Some (Node b pin la sub)" "tdist S ch" "tdist (insert b S) sub'"
  shows "tdist S (AList.update h (Node b pin la' sub') ch)"
  using assms(1,2)
proof (cases rule: update_child_split [where n' = "Node b pin la' sub'"])
  case (1 xs ys)
  then show ?thesis using assms by auto
qed

section \<open>Lookup\<close>

text \<open>The blocks of the longest cached prefix, read without touching the tree.\<close>

fun tpath :: "children \<Rightarrow> string list \<Rightarrow> nat list" where
  "tpath ch [] = []"
| "tpath ch (h # hs) =
     (case map_of ch h of None \<Rightarrow> [] | Some (Node b pin la sub) \<Rightarrow> b # tpath sub hs)"

lemma tpath_distinct: "tdist S ch \<Longrightarrow> distinct (tpath ch hs) \<and> set (tpath ch hs) \<inter> S = {}"
proof (induction ch hs arbitrary: S rule: tpath.induct)
  case (2 ch h hs)
  show ?case
  proof (cases "map_of ch h")
    case (Some n)
    obtain b pin la sub where n: "n = Node b pin la sub" by (cases n)
    with Some "2.prems" have "b \<notin> S" "tdist (insert b S) sub" using tdist_child by metis+
    with "2.IH" [OF Some n] Some n show ?thesis by auto
  qed simp
qed simp

lemma tpath_pinned: "b \<in> set (tpath ch hs) \<Longrightarrow> \<exists>pin. (pin, [b]) \<in> set (pins_of ch)"
proof (induction ch hs rule: tpath.induct)
  case (2 ch h hs)
  then obtain n where Some: "map_of ch h = Some n" by (cases "map_of ch h") simp_all
  obtain b' pin la sub where n: "n = Node b' pin la sub" by (cases n)
  with "2.prems" Some have "b = b' \<or> b \<in> set (tpath sub hs)" by simp
  with "2.IH" [OF Some n] pins_child_subset [of ch h b' pin la sub] Some n show ?case by blast
qed simp

lemma tpath_length: "length (tpath ch hs) \<le> length hs"
  by (induction ch hs rule: tpath.induct) (auto split: option.splits node.splits)

lemma walk_spec:
  assumes "walk ch hs clock = (ch', bs, clock')" and "trie_wf ch"
  shows "bs = tpath ch hs \<and> trie_wf ch' \<and> mset (pins_of ch') = mset (pins_of ch)
    \<and> (\<forall>S. tdist S ch \<longrightarrow> tdist S ch') \<and> (\<forall>gs. tpath ch' gs = tpath ch gs)"
  using assms
proof (induction ch hs clock arbitrary: ch' bs clock' rule: walk.induct)
  case (1 ch clock)
  then show ?case by simp
next
  case (2 ch h hs clock)
  show ?case
  proof (cases "map_of ch h")
    case None
    with "2.prems" show ?thesis by simp
  next
    case (Some n)
    obtain b pin la sub where n: "n = Node b pin la sub" by (cases n)
    obtain sub' bs' c' where w: "walk sub hs (add64 clock 1) = (sub', bs', c')" using prod_cases3 by blast
    let ?n' = "Node b pin (add64 clock 1) sub'"
    from "2.prems"(1) Some n w have ch': "ch' = AList.update h ?n' ch" and bs: "bs = b # bs'"
      by (auto simp: Let_def)
    note wfs = trie_wf_child [OF "2.prems"(2) Some [unfolded n]]
    note IH = "2.IH" [OF Some n refl w wfs]
    have "trie_wf ch'" unfolding ch' using "2.prems"(2) Some IH by (intro trie_wf_update) auto
    moreover have "mset (pins_of ch') = mset (pins_of ch)"
      using mset_pins_update [OF "2.prems"(2) Some [unfolded n], of "add64 clock 1" sub'] IH ch' by simp
    moreover have "tdist S ch'" if "tdist S ch" for S
      unfolding ch' using that IH tdist_child [OF that Some [unfolded n]]
      by (intro tdist_update [OF "2.prems"(2) Some [unfolded n] that]) blast
    moreover have "tpath ch' gs = tpath ch gs" for gs
      using Some n IH unfolding ch' by (cases gs) (auto simp: AList.update_conv')
    ultimately show ?thesis using bs Some n IH by auto
  qed
qed

section \<open>Eviction\<close>

text \<open>\<open>FindOldestLeaf\<close> finds a leaf of the tree, with the least stamp among all of them.\<close>

definition leaf_at :: "children \<Rightarrow> string list \<Rightarrow> string \<Rightarrow> nat \<Rightarrow> bool" where
  "leaf_at ch path key la \<longleftrightarrow>
     (\<exists>n. node_at ch path key = Some n \<and> nd_children n = [] \<and> nd_last_access n = la)"

lemma node_at_rest:
  assumes "k \<notin> fst ` set rest" and "node_at rest path key = Some n"
  shows "node_at ((k, m) # rest) path key = Some n"
  using assms by (cases path) (auto split: option.splits dest!: map_of_SomeD simp: image_iff)

lemma leaf_at_Cons:
  assumes "trie_wf ((k, Node b pin la sub) # rest)"
  shows "leaf_at ((k, Node b pin la sub) # rest) path key stamp \<longleftrightarrow>
    (if sub = [] then path = [] \<and> key = k \<and> stamp = la
     else \<exists>path'. path = k # path' \<and> leaf_at sub path' key stamp)
    \<or> leaf_at rest path key stamp"
proof -
  have k: "k \<notin> fst ` set rest" using assms by simp
  then have nk: "map_of rest k = None" by (simp add: map_of_eq_None_iff)
  have sub: "leaf_at [] path key stamp = False" for path key stamp
    by (cases path) (auto simp: leaf_at_def)
  show ?thesis
  proof (cases path)
    case Nil
    then show ?thesis using nk by (auto simp: leaf_at_def split: if_splits)
  next
    case (Cons h hs)
    then show ?thesis using nk sub by (auto simp: leaf_at_def split: if_splits option.splits)
  qed
qed

lemma older_leaf_cases: "older_leaf cand x = cand \<and> cand \<noteq> None \<or> older_leaf cand x = Some x"
  by (auto simp: older_leaf_def split: option.splits)

lemma FindOldestLeaf_found:
  assumes "trie_wf ch" and "FindOldestLeaf ns path ch cand = Some c"
  shows "cand = Some c \<or> lc_namespace c = ns \<and>
    (\<exists>p. lc_path c = path @ p \<and> leaf_at ch p (lc_key c) (lc_last_access c))"
  using assms
proof (induction ns path ch cand arbitrary: c rule: FindOldestLeaf.induct)
  case (1 ns path cand)
  then show ?case by simp
next
  case (2 ns path key b pin la sub rest cand)
  note leaf = leaf_at_Cons [OF "2.prems"(1)]
  let ?cand = "if sub \<noteq> [] then FindOldestLeaf ns (path @ [key]) sub cand
     else older_leaf cand \<lparr>lc_namespace = ns, lc_path = path, lc_key = key, lc_last_access = la\<rparr>"
  have "?cand = Some c \<or> lc_namespace c = ns \<and>
      (\<exists>p. lc_path c = path @ p \<and> leaf_at rest p (lc_key c) (lc_last_access c))"
    using "2.IH"(2) [of c] "2.prems" by simp
  then show ?case
  proof
    assume eq: "?cand = Some c"
    show ?case
    proof (cases "sub = []")
      case True
      with eq older_leaf_cases [of cand] have "cand = Some c \<or>
          c = \<lparr>lc_namespace = ns, lc_path = path, lc_key = key, lc_last_access = la\<rparr>"
        by (metis option.inject)
      then show ?thesis using True leaf [of "[]" key la] by auto
    next
      case False
      with eq "2.IH"(1) [OF False, of c] "2.prems"(1) have "cand = Some c \<or> lc_namespace c = ns \<and>
          (\<exists>p. lc_path c = (path @ [key]) @ p \<and> leaf_at sub p (lc_key c) (lc_last_access c))" by simp
      then show ?thesis using False by (auto simp: leaf)
    qed
  qed (auto simp: leaf)
qed


lemma FindOldestLeaf_keeps:
  assumes "cand = Some c0"
  shows "\<exists>c. FindOldestLeaf ns path ch cand = Some c \<and> lc_last_access c \<le> lc_last_access c0"
  using assms
proof (induction ns path ch cand arbitrary: c0 rule: FindOldestLeaf.induct)
  case (1 ns path cand)
  then show ?case by simp
next
  case (2 ns path key b pin la sub rest cand)
  let ?cand = "if sub \<noteq> [] then FindOldestLeaf ns (path @ [key]) sub cand
     else older_leaf cand \<lparr>lc_namespace = ns, lc_path = path, lc_key = key, lc_last_access = la\<rparr>"
  have "\<exists>c1. ?cand = Some c1 \<and> lc_last_access c1 \<le> lc_last_access c0"
    using "2.IH"(1) [of c0] "2.prems" by (auto simp: older_leaf_def)
  then obtain c1 where c1: "?cand = Some c1" "lc_last_access c1 \<le> lc_last_access c0" by blast
  from "2.IH"(2) [OF c1(1)] c1(2) show ?case by (metis FindOldestLeaf.simps(2) order_trans)
qed

lemma FindOldestLeaf_nonempty: "ch \<noteq> [] \<Longrightarrow> FindOldestLeaf ns path ch cand \<noteq> None"
proof (induction ns path ch cand rule: FindOldestLeaf.induct)
  case (2 ns path key b pin la sub rest cand)
  let ?cand = "if sub \<noteq> [] then FindOldestLeaf ns (path @ [key]) sub cand
     else older_leaf cand \<lparr>lc_namespace = ns, lc_path = path, lc_key = key, lc_last_access = la\<rparr>"
  have "?cand \<noteq> None" using "2.IH"(1) by (auto simp: older_leaf_def split: option.splits)
  then show ?case using FindOldestLeaf_keeps [of ?cand _ ns path rest] by force
qed simp

lemma FindOldestLeaf_least:
  assumes "trie_wf ch" and "FindOldestLeaf ns path ch cand = Some c" and "leaf_at ch p key stamp"
  shows "lc_last_access c \<le> stamp"
  using assms
proof (induction ns path ch cand arbitrary: p c rule: FindOldestLeaf.induct)
  case (1 ns path cand)
  then show ?case by (cases p) (auto simp: leaf_at_def)
next
  case (2 ns path k b pin la sub rest cand)
  let ?cand = "if sub \<noteq> [] then FindOldestLeaf ns (path @ [k]) sub cand
     else older_leaf cand \<lparr>lc_namespace = ns, lc_path = path, lc_key = k, lc_last_access = la\<rparr>"
  have res: "FindOldestLeaf ns path rest ?cand = Some c" using "2.prems"(2) by simp
  have wf: "trie_wf sub" "trie_wf rest" using "2.prems"(1) by simp_all
  from "2.prems"(3) leaf_at_Cons [OF "2.prems"(1)]
  consider (rest) "leaf_at rest p key stamp" | (here) "sub = []" "stamp = la"
    | (sub) p' where "sub \<noteq> []" "leaf_at sub p' key stamp" by (metis (full_types))
  then show ?case
  proof cases
    case rest
    then show ?thesis using "2.IH"(2) [OF wf(2) res] by simp
  next
    case here
    then have "\<exists>c1. ?cand = Some c1 \<and> lc_last_access c1 \<le> la"
      by (simp add: older_leaf_def split: option.splits)
    then obtain c1 where "?cand = Some c1" "lc_last_access c1 \<le> la" by blast
    with FindOldestLeaf_keeps [of ?cand c1 ns path rest] res here show ?thesis by force
  next
    case (sub p')
    obtain c1 where c1: "?cand = Some c1"
      using FindOldestLeaf_nonempty [OF sub(1), of ns "path @ [k]" cand] sub(1) by auto
    with "2.IH"(1) [OF sub(1) wf(1), of c1 p'] sub have "lc_last_access c1 \<le> stamp" by simp
    with FindOldestLeaf_keeps [of ?cand c1 ns path rest] res c1 show ?thesis by force
  qed
qed


lemma erase_at_spec:
  assumes "trie_wf ch" and "node_at ch path key = Some n" and "nd_children n = []"
  shows "trie_wf (erase_at ch path key)
    \<and> mset (pins_of ch) = add_mset (nd_pin_key n, [nd_block n]) (mset (pins_of (erase_at ch path key)))
    \<and> (\<forall>S. tdist S ch \<longrightarrow> tdist S (erase_at ch path key))
    \<and> fst ` set (erase_at ch path key) \<subseteq> fst ` set ch"
  using assms
proof (induction ch path key rule: erase_at.induct)
  case (1 ch key)
  then have m: "map_of ch key = Some n" by simp
  from map_of_split_delete [OF trie_wf_distinct [OF "1.prems"(1)] m]
  obtain xs ys where ch: "ch = xs @ (key, n) # ys" "AList.delete key ch = xs @ ys" by blast
  obtain b pin la where n: "n = Node b pin la []" using "1.prems"(3) by (cases n) auto
  show ?case using "1.prems"(1) unfolding erase_at.simps ch(2) unfolding ch(1) n by auto
next
  case (2 ch h hs key)
  then obtain m where m: "map_of ch h = Some m" by (cases "map_of ch h") simp_all
  obtain b pin la sub where nd: "m = Node b pin la sub" by (cases m)
  note m' = m [unfolded nd]
  have wfs: "trie_wf sub" by (rule trie_wf_child [OF "2.prems"(1) m'])
  let ?sub = "erase_at sub hs key"
  have "node_at sub hs key = Some n" using "2.prems"(2) m nd by simp
  note IH = "2.IH" [OF m nd wfs this "2.prems"(3)]
  have e: "erase_at ch (h # hs) key = AList.update h (Node b pin la ?sub) ch" using m nd by simp
  have "trie_wf (erase_at ch (h # hs) key)"
    unfolding e using "2.prems"(1) m IH by (intro trie_wf_update) auto
  moreover have "mset (pins_of ch) =
      add_mset (nd_pin_key n, [nd_block n]) (mset (pins_of (erase_at ch (h # hs) key)))"
    using mset_pins_update [OF "2.prems"(1) m', of la ?sub] IH unfolding e by simp
  moreover have "tdist S (erase_at ch (h # hs) key)" if "tdist S ch" for S
    unfolding e using IH tdist_child [OF that m'] by (intro tdist_update [OF "2.prems"(1) m' that]) blast
  moreover have "h \<in> fst ` set ch" using m by (metis map_of_eq_None_iff option.distinct(1))
  then have "fst ` set (erase_at ch (h # hs) key) \<subseteq> fst ` set ch"
    unfolding e by (simp add: fst_set_update)
  ultimately show ?case by blast
qed

section \<open>The cache as a whole\<close>

definition rx_inv :: "RadixPrefixCache \<Rightarrow> PagedKvCache \<Rightarrow> bool" where
  "rx_inv rx kv \<longleftrightarrow> 0 < rx_capacity rx \<and> distinct (map fst (rx_roots rx)) \<and>
     (\<forall>(ns, ch) \<in> set (rx_roots rx). trie_wf ch) \<and>
     rx_node_count rx = length (root_pins (rx_roots rx)) \<and>
     mset (prefix_blocks kv) = mset (root_pins (rx_roots rx))"

definition rx_paths_distinct :: "RadixPrefixCache \<Rightarrow> bool" where
  "rx_paths_distinct rx \<longleftrightarrow> (\<forall>(ns, ch) \<in> set (rx_roots rx). tdist {} ch)"

lemma rx_inv_root: "rx_inv rx kv \<Longrightarrow> map_of (rx_roots rx) ns = Some ch \<Longrightarrow> trie_wf ch"
  by (auto simp: rx_inv_def dest!: map_of_SomeD)

lemma rx_inv_node_count: "rx_inv rx kv \<Longrightarrow> rx_node_count rx = length (prefix_blocks kv)"
  by (metis rx_inv_def size_mset)

lemma set_update_subset: "set (AList.update k v al) \<subseteq> insert (k, v) (set al)"
  by (induction al) auto

lemma root_pins_Some:
  assumes "distinct (map fst roots)" and "map_of roots ns = Some ch"
  shows "mset (root_pins (AList.update ns ch' roots)) + mset (pins_of ch)
    = mset (root_pins roots) + mset (pins_of ch')"
proof -
  from map_of_split_update [OF assms] obtain xs ys where "roots = xs @ (ns, ch) # ys"
    "AList.update ns ch' roots = xs @ (ns, ch') # ys" by blast
  then show ?thesis by (simp add: root_pins_def ac_simps)
qed

lemma root_pins_None:
  "map_of roots ns = None \<Longrightarrow> mset (root_pins (AList.update ns ch roots)) = mset (root_pins roots) + mset (pins_of ch)"
  by (induction roots) (auto simp: root_pins_def split: if_splits)

lemma find_in_roots_found:
  assumes "\<forall>(ns, ch) \<in> set roots. trie_wf ch" and "find_in_roots roots cand = Some c"
  shows "cand = Some c \<or>
    (\<exists>ch. (lc_namespace c, ch) \<in> set roots \<and> leaf_at ch (lc_path c) (lc_key c) (lc_last_access c))"
  using assms
proof (induction roots cand rule: find_in_roots.induct)
  case (2 ns ch rest cand)
  from 2 have "FindOldestLeaf ns [] ch cand = Some c \<or>
      (\<exists>ch. (lc_namespace c, ch) \<in> set rest \<and> leaf_at ch (lc_path c) (lc_key c) (lc_last_access c))" by simp
  with FindOldestLeaf_found [of ch ns "[]" cand c] "2.prems"(1) show ?case by auto
qed simp

lemma find_in_roots_keeps:
  "cand = Some c0 \<Longrightarrow> \<exists>c. find_in_roots roots cand = Some c \<and> lc_last_access c \<le> lc_last_access c0"
proof (induction roots cand arbitrary: c0 rule: find_in_roots.induct)
  case (2 ns ch rest cand)
  obtain c1 where "FindOldestLeaf ns [] ch cand = Some c1" "lc_last_access c1 \<le> lc_last_access c0"
    using FindOldestLeaf_keeps [OF "2.prems"] by blast
  with "2.IH" [of c1] show ?case by (metis find_in_roots.simps(2) order_trans)
qed simp

lemma find_in_roots_nonempty: "root_pins roots \<noteq> [] \<Longrightarrow> find_in_roots roots cand \<noteq> None"
proof (induction roots cand rule: find_in_roots.induct)
  case (2 ns ch rest cand)
  show ?case
  proof (cases "ch = []")
    case True
    with 2 show ?thesis by (simp add: root_pins_def)
  next
    case False
    then obtain c1 where "FindOldestLeaf ns [] ch cand = Some c1"
      using FindOldestLeaf_nonempty by blast
    with find_in_roots_keeps [of _ c1 rest] show ?thesis by force
  qed
qed (simp add: root_pins_def)

lemma find_in_roots_least:
  assumes "\<forall>(ns, ch) \<in> set roots. trie_wf ch" and "find_in_roots roots cand = Some c"
    and "(ns, ch) \<in> set roots" and "leaf_at ch p key stamp"
  shows "lc_last_access c \<le> stamp"
  using assms
proof (induction roots cand rule: find_in_roots.induct)
  case (2 ns' ch' rest cand)
  show ?case
  proof (cases "(ns, ch) \<in> set rest")
    case True
    with 2 show ?thesis by simp
  next
    case False
    with "2.prems" have ch: "ch' = ch" by simp
    have "ch \<noteq> []" using "2.prems"(4) by (cases p) (auto simp: leaf_at_def)
    then obtain c1 where c1: "FindOldestLeaf ns' [] ch cand = Some c1"
      using FindOldestLeaf_nonempty by blast
    with "2.prems" ch have "lc_last_access c1 \<le> stamp"
      by (intro FindOldestLeaf_least [OF _ c1]) auto
    with find_in_roots_keeps [of _ c1 rest] c1 ch "2.prems"(2) show ?thesis by force
  qed
qed simp


lemma rx_inv_update_root:
  assumes inv: "rx_inv rx kv" and ch: "map_of (rx_roots rx) ns = Some ch" and wf: "trie_wf ch'"
    and pins: "mset (prefix_blocks kv') + mset (pins_of ch) = mset (prefix_blocks kv) + mset (pins_of ch')"
  shows "rx_inv (rx\<lparr>rx_roots := AList.update ns ch' (rx_roots rx),
     rx_node_count := length (prefix_blocks kv'), rx_access_clock := c, rx_next_pin_id := p\<rparr>) kv'"
proof -
  have d: "distinct (map fst (rx_roots rx))" using inv by (simp add: rx_inv_def)
  have "mset (root_pins (AList.update ns ch' (rx_roots rx))) + mset (pins_of ch)
      = mset (prefix_blocks kv') + mset (pins_of ch)"
    using root_pins_Some [OF d ch, of ch'] inv pins by (simp add: rx_inv_def)
  then have m: "mset (root_pins (AList.update ns ch' (rx_roots rx))) = mset (prefix_blocks kv')" by simp
  then have "length (prefix_blocks kv') = length (root_pins (AList.update ns ch' (rx_roots rx)))"
    by (metis size_mset)
  with m inv wf set_update_subset [of ns ch' "rx_roots rx"] show ?thesis
    by (auto simp: rx_inv_def AList.distinct_update)
qed

lemma rx_paths_update_root:
  assumes "rx_paths_distinct rx" and "tdist {} ch'"
  shows "rx_paths_distinct (rx\<lparr>rx_roots := AList.update ns ch' (rx_roots rx),
     rx_node_count := n, rx_access_clock := c, rx_next_pin_id := p\<rparr>)"
  using assms set_update_subset [of ns ch' "rx_roots rx"] by (auto simp: rx_paths_distinct_def)

subsection \<open>Evicting the oldest leaf\<close>

lemma EvictOldest_candidate:
  assumes inv: "rx_inv rx kv" and "find_in_roots (rx_roots rx) None = Some c"
  obtains ch n where "map_of (rx_roots rx) (lc_namespace c) = Some ch" "trie_wf ch"
    "node_at ch (lc_path c) (lc_key c) = Some n" "nd_children n = []" "nd_last_access n = lc_last_access c"
proof -
  have wf: "\<forall>(ns, ch) \<in> set (rx_roots rx). trie_wf ch" and d: "distinct (map fst (rx_roots rx))"
    using inv by (simp_all add: rx_inv_def)
  from find_in_roots_found [OF wf assms(2)] obtain ch where
    "(lc_namespace c, ch) \<in> set (rx_roots rx)" "leaf_at ch (lc_path c) (lc_key c) (lc_last_access c)" by auto
  with d wf that show thesis by (auto simp: leaf_at_def)
qed

lemma EvictOldest_fails:
  assumes "rx_inv rx kv" and "rx_node_count rx = 0"
  shows "EvictOldest rx kv = (rx, kv, False)"
proof -
  have z: "root_pins (rx_roots rx) = []" using assms by (simp add: rx_inv_def)
  have "find_in_roots roots cand = cand" if "root_pins roots = []" for roots cand
    using that by (induction roots cand rule: find_in_roots.induct) (auto simp: root_pins_def)
  with z show ?thesis by (simp add: EvictOldest_def)
qed

lemma EvictOldest_unpins:
  assumes inv: "rx_inv rx kv" and kv: "kv_inv kv" and c: "find_in_roots (rx_roots rx) None = Some c"
    and ch: "map_of (rx_roots rx) (lc_namespace c) = Some ch"
    and n: "node_at ch (lc_path c) (lc_key c) = Some n" "nd_children n = []"
  shows "mset (prefix_blocks kv) =
    add_mset (nd_pin_key n, [nd_block n]) (mset (prefix_blocks (fst (UnpinPrefix kv (nd_pin_key n)))))"
proof -
  obtain kv' r where un: "UnpinPrefix kv (nd_pin_key n) = (kv', r)" by fastforce
  note er = erase_at_spec [OF rx_inv_root [OF inv ch] n]
  have "set (pins_of ch) \<subseteq> set (root_pins (rx_roots rx))"
    using ch by (auto simp: root_pins_def dest!: map_of_SomeD)
  moreover have "(nd_pin_key n, [nd_block n]) \<in> set (pins_of ch)"
    using er by (metis union_single_eq_member set_mset_mset)
  ultimately have "(nd_pin_key n, [nd_block n]) \<in> set (prefix_blocks kv)"
    using inv unfolding rx_inv_def by (metis mset_eq_setD subsetD)
  moreover have dk: "distinct (map fst (prefix_blocks kv))" using kv by (simp add: kv_inv_def kv_shape_def)
  ultimately have "map_of (prefix_blocks kv) (nd_pin_key n) = Some [nd_block n]" by simp
  from mset_delete_key [OF dk this] UnpinPrefix_frame(2) [OF un] un show ?thesis by simp
qed

lemma EvictOldest_succeeds:
  assumes inv: "rx_inv rx kv" and kv: "kv_inv kv" and ne: "rx_node_count rx \<noteq> 0"
    and ec: "entry_count kv < u32"
  obtains rx' kv' c n where "EvictOldest rx kv = (rx', kv', True)" "rx_inv rx' kv'" "kv_inv kv'"
    "Suc (rx_node_count rx') = rx_node_count rx" "kv_same_seqs kv kv'"
    "rx_capacity rx' = rx_capacity rx" "rx_paths_distinct rx \<longrightarrow> rx_paths_distinct rx'"
    "Suc (entry_count kv') = entry_count kv"
    "find_in_roots (rx_roots rx) None = Some c"
    "mset (prefix_blocks kv) = add_mset (nd_pin_key n, [nd_block n]) (mset (prefix_blocks kv'))"
proof -
  have "root_pins (rx_roots rx) \<noteq> []" using inv ne by (auto simp: rx_inv_def)
  then obtain c where c: "find_in_roots (rx_roots rx) None = Some c"
    using find_in_roots_nonempty by blast
  from EvictOldest_candidate [OF inv c] obtain ch n where
    ch: "map_of (rx_roots rx) (lc_namespace c) = Some ch" "trie_wf ch" and
    n: "node_at ch (lc_path c) (lc_key c) = Some n" "nd_children n = []" by metis
  let ?ch = "erase_at ch (lc_path c) (lc_key c)" and ?pin = "nd_pin_key n"
  obtain kv' r where un: "UnpinPrefix kv ?pin = (kv', r)" by fastforce
  let ?rx = "rx\<lparr>rx_roots := AList.update (lc_namespace c) ?ch (rx_roots rx),
      rx_node_count := sub64 (rx_node_count rx) 1\<rparr>"
  note er = erase_at_spec [OF ch(2) n]
  have pm: "mset (prefix_blocks kv) = add_mset (?pin, [nd_block n]) (mset (prefix_blocks kv'))"
    using EvictOldest_unpins [OF inv kv c ch(1) n] un by simp
  then have len: "Suc (length (prefix_blocks kv')) = length (prefix_blocks kv)"
    by (metis size_add_mset size_mset)
  have "rx_node_count rx < u64" using rx_inv_node_count [OF inv] ec by (simp add: entry_count_def)
  then have cnt: "sub64 (rx_node_count rx) 1 = length (prefix_blocks kv')"
    using len rx_inv_node_count [OF inv] by (simp add: sub64_exact)
  have "rx_inv (rx\<lparr>rx_roots := AList.update (lc_namespace c) ?ch (rx_roots rx),
     rx_node_count := length (prefix_blocks kv'), rx_access_clock := rx_access_clock rx,
     rx_next_pin_id := rx_next_pin_id rx\<rparr>) kv'"
    using er pm by (intro rx_inv_update_root [OF inv ch(1)]) auto
  then have "rx_inv ?rx kv'" unfolding cnt by simp
  moreover have "rx_paths_distinct ?rx" if "rx_paths_distinct rx"
  proof -
    have "tdist {} ch" using that ch(1) by (auto simp: rx_paths_distinct_def dest!: map_of_SomeD)
    with er that have "rx_paths_distinct (rx\<lparr>rx_roots := AList.update (lc_namespace c) ?ch (rx_roots rx),
       rx_node_count := sub64 (rx_node_count rx) 1, rx_access_clock := rx_access_clock rx,
       rx_next_pin_id := rx_next_pin_id rx\<rparr>)" by (intro rx_paths_update_root) auto
    then show ?thesis by simp
  qed
  moreover have "EvictOldest rx kv = (?rx, kv', True)" using c ch n un by (simp add: EvictOldest_def)
  moreover have "kv_inv kv'" by (rule UnpinPrefix_inv [OF kv ec un])
  moreover have "kv_same_seqs kv kv'" using UnpinPrefix_frame [OF un] by (simp add: kv_same_seqs_def)
  moreover have "Suc (entry_count kv') = entry_count kv"
    using len UnpinPrefix_frame(1) [OF un] by (simp add: entry_count_def)
  ultimately show thesis using cnt len rx_inv_node_count [OF inv] c pm
    by (intro that [of ?rx kv' c n]) simp_all
qed


lemma evict_to_capacity_spec:
  assumes "rx_inv rx kv" and "kv_inv kv" and "entry_count kv < u32"
    and "evict_to_capacity rx kv = (rx', kv')"
  shows "rx_inv rx' kv' \<and> kv_inv kv' \<and> rx_node_count rx' \<le> rx_capacity rx' \<and> kv_same_seqs kv kv'
    \<and> rx_capacity rx' = rx_capacity rx \<and> (rx_paths_distinct rx \<longrightarrow> rx_paths_distinct rx')
    \<and> rx_node_count rx' \<le> rx_node_count rx"
  using assms
proof (induction rx kv rule: evict_to_capacity.induct)
  case (1 rx kv)
  show ?case
  proof (cases "rx_node_count rx > rx_capacity rx")
    case False
    then have "rx' = rx" "kv' = kv" using "1.prems"(4) by (simp_all add: evict_to_capacity.simps [of rx kv])
    with False "1.prems" show ?thesis by simp
  next
    case True
    then have "rx_node_count rx \<noteq> 0" by simp
    from EvictOldest_succeeds [OF "1.prems"(1,2) this "1.prems"(3)] obtain rx1 kv1 where
      ev: "EvictOldest rx kv = (rx1, kv1, True)" "rx_inv rx1 kv1" "kv_inv kv1"
      and len: "Suc (rx_node_count rx1) = rx_node_count rx"
      and frame: "kv_same_seqs kv kv1" "rx_capacity rx1 = rx_capacity rx"
      "rx_paths_distinct rx \<longrightarrow> rx_paths_distinct rx1" "Suc (entry_count kv1) = entry_count kv"
      by metis
    have "evict_to_capacity rx1 kv1 = (rx', kv')"
      using "1.prems"(4) True ev(1) by (simp add: evict_to_capacity.simps [of rx kv])
    from "1.IH" [OF True ev(1) [symmetric] refl _ ev(2,3) _ this] frame "1.prems"(3) len
    show ?thesis using kv_same_seqs_trans by auto
  qed
qed

subsection \<open>Lookup\<close>

definition rx_path :: "RadixPrefixCache \<Rightarrow> string \<Rightarrow> string list \<Rightarrow> nat list" where
  "rx_path rx ns hashes = (case map_of (rx_roots rx) ns of None \<Rightarrow> [] | Some ch \<Rightarrow> tpath ch hashes)"

lemma GetLongest_spec:
  assumes inv: "rx_inv rx kv" and get: "GetLongest rx ns hs = (rx', m)"
  shows "rx_inv rx' kv" and "rx_paths_distinct rx \<Longrightarrow> rx_paths_distinct rx'"
    and "m = (if rx_path rx ns hs = [] then None
              else Some \<lparr>m_blocks = rx_path rx ns hs, matched_block_count = length (rx_path rx ns hs)\<rparr>)"
    and "rx_path rx' ns' gs = rx_path rx ns' gs"
    and "rx_capacity rx' = rx_capacity rx" and "rx_node_count rx' = rx_node_count rx"
proof -
  have "rx_inv rx' kv \<and> (rx_paths_distinct rx \<longrightarrow> rx_paths_distinct rx')
    \<and> m = (if rx_path rx ns hs = [] then None
           else Some \<lparr>m_blocks = rx_path rx ns hs, matched_block_count = length (rx_path rx ns hs)\<rparr>)
    \<and> (\<forall>ns' gs. rx_path rx' ns' gs = rx_path rx ns' gs)
    \<and> rx_capacity rx' = rx_capacity rx \<and> rx_node_count rx' = rx_node_count rx"
  proof (cases "map_of (rx_roots rx) ns")
    case None
    with inv get show ?thesis by (auto simp: GetLongest_def rx_path_def)
  next
    case (Some ch)
    obtain ch' bs c' where w: "walk ch hs (rx_access_clock rx) = (ch', bs, c')" using prod_cases3 by blast
    have wf: "trie_wf ch" by (rule rx_inv_root [OF inv Some])
    note ws = walk_spec [OF w wf]
    have rx': "rx' = rx\<lparr>rx_roots := AList.update ns ch' (rx_roots rx), rx_access_clock := c'\<rparr>"
      and m: "m = (if bs = [] then None else Some \<lparr>m_blocks = bs, matched_block_count = length bs\<rparr>)"
      using get Some w by (auto simp: GetLongest_def)
    have "rx_inv (rx\<lparr>rx_roots := AList.update ns ch' (rx_roots rx), rx_node_count := length (prefix_blocks kv),
        rx_access_clock := c', rx_next_pin_id := rx_next_pin_id rx\<rparr>) kv"
      using ws by (intro rx_inv_update_root [OF inv Some]) auto
    then have "rx_inv rx' kv" using rx' rx_inv_node_count [OF inv] by (simp add: rx_inv_def)
    moreover have "rx_paths_distinct rx'" if "rx_paths_distinct rx"
    proof -
      have "tdist {} ch" using that Some by (auto simp: rx_paths_distinct_def dest!: map_of_SomeD)
      with ws that have "rx_paths_distinct (rx\<lparr>rx_roots := AList.update ns ch' (rx_roots rx),
         rx_node_count := rx_node_count rx, rx_access_clock := c', rx_next_pin_id := rx_next_pin_id rx\<rparr>)"
        by (intro rx_paths_update_root) auto
      then show ?thesis using rx' by simp
    qed
    moreover have "rx_path rx' ns' gs = rx_path rx ns' gs" for ns' gs
      using Some ws rx' by (simp add: rx_path_def AList.update_conv')
    ultimately show ?thesis using m ws Some rx' by (simp add: rx_path_def)
  qed
  then show "rx_inv rx' kv" "rx_paths_distinct rx \<Longrightarrow> rx_paths_distinct rx'"
    "m = (if rx_path rx ns hs = [] then None
          else Some \<lparr>m_blocks = rx_path rx ns hs, matched_block_count = length (rx_path rx ns hs)\<rparr>)"
    "rx_path rx' ns' gs = rx_path rx ns' gs" "rx_capacity rx' = rx_capacity rx"
    "rx_node_count rx' = rx_node_count rx" by blast+
qed

lemma rx_path_length: "length (rx_path rx ns hs) \<le> length hs"
  using tpath_length by (auto simp: rx_path_def split: option.splits)

text \<open>What the cache returns can be shared: live blocks, without repetition.\<close>

lemma rx_path_usable:
  assumes inv: "rx_inv rx kv" and kv: "kv_inv kv" and "rx_paths_distinct rx"
  shows "blocks_usable (refcounts kv) [] (rx_path rx ns hs)"
proof (cases "map_of (rx_roots rx) ns")
  case None
  then show ?thesis by (simp add: rx_path_def)
next
  case (Some ch)
  have "tdist {} ch" using assms(3) Some by (auto simp: rx_paths_distinct_def dest!: map_of_SomeD)
  then have d: "distinct (tpath ch hs)" using tpath_distinct by blast
  have "b < length (refcounts kv) \<and> refcounts kv ! b \<noteq> 0" if b: "b \<in> set (tpath ch hs)" for b
  proof -
    obtain pin where "(pin, [b]) \<in> set (pins_of ch)" using tpath_pinned [OF b] by blast
    moreover have "set (pins_of ch) \<subseteq> set (root_pins (rx_roots rx))"
      using Some by (auto simp: root_pins_def dest!: map_of_SomeD)
    ultimately have "(pin, [b]) \<in> set (prefix_blocks kv)"
      using inv unfolding rx_inv_def by (metis mset_eq_setD subsetD)
    then have e: "[b] \<in># kv_entries kv" by (force simp: kv_entries_def)
    then have "b < total_blocks kv" using kv_inv_entry [OF kv e] by simp
    moreover have "b \<notin> set (free_list kv)" using free_list_not_held [OF kv _ e, of b] by auto
    ultimately show ?thesis using kv_inv_free_iff [OF kv, of b] by (simp add: total_blocks_def)
  qed
  with d Some show ?thesis by (simp add: rx_path_def blocks_usable_iff)
qed


subsection \<open>Insertion\<close>

lemma put_path_spec:
  assumes "put_path ch hs bs st = (ch', st')" and "trie_wf ch" and "kv_inv (ps_kv st)"
    and "entry_count (ps_kv st) + length hs + 2 < u32"
    and "ps_node_count st + length hs < u64"
  shows "trie_wf ch' \<and> kv_inv (ps_kv st') \<and> kv_same_seqs (ps_kv st) (ps_kv st')
    \<and> fst ` set ch \<subseteq> fst ` set ch'
    \<and> (\<exists>new. prefix_blocks (ps_kv st') = new @ prefix_blocks (ps_kv st) \<and> length new \<le> length hs
          \<and> mset (pins_of ch') = mset (pins_of ch) + mset new
          \<and> ps_node_count st' = ps_node_count st + length new)"
  using assms
proof (induction ch hs bs st arbitrary: ch' st' rule: put_path.induct)
  case (1 ch h hs blk bs st)
  show ?case
  proof (cases "map_of ch h")
    case (Some n)
    obtain b pin la sub where n: "n = Node b pin la sub" by (cases n)
    let ?clock = "add64 (ps_clock st) 1"
    obtain sub' st1 where p: "put_path sub hs bs (st\<lparr>ps_clock := ?clock\<rparr>) = (sub', st1)" by fastforce
    from "1.prems"(1) Some n p have res: "ch' = AList.update h (Node b pin ?clock sub') ch" "st' = st1"
      by (auto simp: Let_def)
    note m = Some [unfolded n]
    from "1.IH"(2) [OF Some n refl p trie_wf_child [OF "1.prems"(2) m]] "1.prems"
    obtain new where new: "trie_wf sub'" "kv_inv (ps_kv st1)" "kv_same_seqs (ps_kv st) (ps_kv st1)"
      "prefix_blocks (ps_kv st1) = new @ prefix_blocks (ps_kv st)" "length new \<le> length hs"
      "mset (pins_of sub') = mset (pins_of sub) + mset new"
      "ps_node_count st1 = ps_node_count st + length new" by auto
    have "mset (pins_of ch') = mset (pins_of ch) + mset new"
      using mset_pins_update [OF "1.prems"(2) m, of ?clock sub'] new(6) res(1) by simp
    moreover have "trie_wf ch'" unfolding res using "1.prems"(2) Some new(1) by (intro trie_wf_update)
    moreover have "fst ` set ch \<subseteq> fst ` set ch'" unfolding res by (auto simp: fst_set_update)
    ultimately show ?thesis using new res(2) by auto
  next
    case None
    let ?pin = "radix_pin_key (ps_next_pin_id st)" and ?clock = "add64 (ps_clock st) 1"
    let ?st1 = "st\<lparr>ps_next_pin_id := add64 (ps_next_pin_id st) 1\<rparr>"
    obtain kv' ok where pin: "PinPrefix (ps_kv st) ?pin [blk] = (kv', ok)" by fastforce
    show ?thesis
    proof (cases ok)
      case False
      with "1.prems"(1) None pin have "ch' = ch" "st' = ?st1" by (simp_all add: Let_def)
      with "1.prems" show ?thesis by simp
    next
      case True
      let ?st2 = "?st1\<lparr>ps_kv := kv', ps_clock := ?clock,
          ps_node_count := add64 (ps_node_count st) 1, ps_inserted := add64 (ps_inserted st) 1\<rparr>"
      obtain sub' st3 where p: "put_path [] hs bs ?st2 = (sub', st3)" by fastforce
      from "1.prems"(1) None pin True p have res: "ch' = (h, Node blk ?pin ?clock sub') # ch" "st' = st3"
        by (auto simp: Let_def)
      have room: "kv_room (ps_kv st)" using "1.prems"(4) by (simp add: kv_room_def)
      have inv': "kv_inv kv'" by (rule PinPrefix_inv [OF "1.prems"(3) room pin])
      note fr = PinPrefix_frame [OF pin]
      have cnt: "add64 (ps_node_count st) 1 = Suc (ps_node_count st)"
        using "1.prems"(5) by (simp add: add64_exact)
      from "1.IH"(1) [OF None refl refl pin [symmetric] _ refl p] True inv' fr "1.prems"(4,5) cnt
      obtain new where new: "trie_wf sub'" "kv_inv (ps_kv st3)" "kv_same_seqs kv' (ps_kv st3)"
        "prefix_blocks (ps_kv st3) = new @ prefix_blocks kv'" "length new \<le> length hs"
        "mset (pins_of sub') = mset new" "ps_node_count st3 = Suc (ps_node_count st) + length new"
        by (auto simp: entry_count_def)
      have "kv_same_seqs (ps_kv st) (ps_kv st3)"
        using new(3) fr by (simp add: kv_same_seqs_def)
      moreover have "h \<notin> fst ` set ch" using None by (simp add: map_of_eq_None_iff)
      moreover have "\<exists>nw. prefix_blocks (ps_kv st3) = nw @ prefix_blocks (ps_kv st) \<and> length nw \<le> length (h # hs)
          \<and> mset (pins_of ch') = mset (pins_of ch) + mset nw \<and> ps_node_count st3 = ps_node_count st + length nw"
        using new fr(3) True res(1) by (intro exI [of _ "new @ [(?pin, [blk])]"]) simp
      ultimately show ?thesis using new res "1.prems"(2) by auto
    qed
  qed
qed auto

text \<open>
  Insertion keeps the blocks of a path distinct when the blocks handed in extend the cached
  prefix: that is how the engine calls it, with a sequence whose leading blocks are the match.
\<close>

lemma put_path_tdist:
  assumes "put_path ch hs bs st = (ch', st')" and "trie_wf ch" and "tdist S ch"
    and "take (length (tpath ch hs)) bs = tpath ch hs" and "distinct bs" and "set bs \<inter> S = {}"
  shows "tdist S ch'"
  using assms
proof (induction ch hs bs st arbitrary: ch' st' S rule: put_path.induct)
  case (1 ch h hs blk bs st)
  show ?case
  proof (cases "map_of ch h")
    case (Some n)
    obtain b pin la sub where n: "n = Node b pin la sub" by (cases n)
    let ?clock = "add64 (ps_clock st) 1"
    obtain sub' st1 where p: "put_path sub hs bs (st\<lparr>ps_clock := ?clock\<rparr>) = (sub', st1)" by fastforce
    from "1.prems"(1) Some n p have res: "ch' = AList.update h (Node b pin ?clock sub') ch"
      by (auto simp: Let_def)
    note m = Some [unfolded n]
    have td: "b \<notin> S" "tdist (insert b S) sub" using tdist_child [OF "1.prems"(3) m] by simp_all
    have bs: "blk = b" "take (length (tpath sub hs)) bs = tpath sub hs" using "1.prems"(4) Some n by simp_all
    have "tdist (insert b S) sub'"
      using "1.IH"(2) [OF Some n refl p trie_wf_child [OF "1.prems"(2) m] td(2) bs(2)] "1.prems"(5,6) bs(1)
      by auto
    then show ?thesis unfolding res by (rule tdist_update [OF "1.prems"(2) m "1.prems"(3)])
  next
    case None
    let ?pin = "radix_pin_key (ps_next_pin_id st)" and ?clock = "add64 (ps_clock st) 1"
    let ?st1 = "st\<lparr>ps_next_pin_id := add64 (ps_next_pin_id st) 1\<rparr>"
    obtain kv' ok where pin: "PinPrefix (ps_kv st) ?pin [blk] = (kv', ok)" by fastforce
    show ?thesis
    proof (cases ok)
      case False
      with "1.prems"(1,3) None pin show ?thesis by (simp add: Let_def)
    next
      case True
      let ?st2 = "?st1\<lparr>ps_kv := kv', ps_clock := ?clock,
          ps_node_count := add64 (ps_node_count st) 1, ps_inserted := add64 (ps_inserted st) 1\<rparr>"
      obtain sub' st3 where p: "put_path [] hs bs ?st2 = (sub', st3)" by fastforce
      from "1.prems"(1) None pin True p have res: "ch' = (h, Node blk ?pin ?clock sub') # ch"
        by (auto simp: Let_def)
      have "tpath [] hs = []" by (cases hs) simp_all
      then have "tdist (insert blk S) sub'"
        using "1.IH"(1) [OF None refl refl pin [symmetric] _ refl p, of "insert blk S"] True "1.prems"(5,6)
        by auto
      with "1.prems"(3,6) show ?thesis by (simp add: res)
    qed
  qed
qed auto


lemma put_path_lookup:
  assumes "put_path ch hs bs st = (ch', st')" and "ps_inserted st + length hs < u64"
  shows "\<exists>j. ps_inserted st' = ps_inserted st + j \<and> j \<le> length hs
    \<and> tpath ch' hs = tpath ch hs @ take j (drop (length (tpath ch hs)) bs)"
  using assms
proof (induction ch hs bs st arbitrary: ch' st' rule: put_path.induct)
  case (1 ch h hs blk bs st)
  show ?case
  proof (cases "map_of ch h")
    case (Some n)
    obtain b pin la sub where n: "n = Node b pin la sub" by (cases n)
    let ?clock = "add64 (ps_clock st) 1"
    obtain sub' st1 where p: "put_path sub hs bs (st\<lparr>ps_clock := ?clock\<rparr>) = (sub', st1)" by fastforce
    from "1.prems"(1) Some n p have res: "ch' = AList.update h (Node b pin ?clock sub') ch" "st' = st1"
      by (auto simp: Let_def)
    from "1.IH"(2) [OF Some n refl p] "1.prems"(2) obtain j where
      "ps_inserted st1 = ps_inserted st + j" "j \<le> length hs"
      "tpath sub' hs = tpath sub hs @ take j (drop (length (tpath sub hs)) bs)" by auto
    with Some n show ?thesis unfolding res
      by (intro exI [of _ j]) (simp add: AList.update_conv')
  next
    case None
    let ?pin = "radix_pin_key (ps_next_pin_id st)" and ?clock = "add64 (ps_clock st) 1"
    let ?st1 = "st\<lparr>ps_next_pin_id := add64 (ps_next_pin_id st) 1\<rparr>"
    obtain kv' ok where pin: "PinPrefix (ps_kv st) ?pin [blk] = (kv', ok)" by fastforce
    show ?thesis
    proof (cases ok)
      case False
      with "1.prems"(1) None pin have "ch' = ch" "st' = ?st1" by (simp_all add: Let_def)
      with None show ?thesis by (intro exI [of _ 0]) simp
    next
      case True
      let ?st2 = "?st1\<lparr>ps_kv := kv', ps_clock := ?clock,
          ps_node_count := add64 (ps_node_count st) 1, ps_inserted := add64 (ps_inserted st) 1\<rparr>"
      obtain sub' st3 where p: "put_path [] hs bs ?st2 = (sub', st3)" by fastforce
      from "1.prems"(1) None pin True p have res: "ch' = (h, Node blk ?pin ?clock sub') # ch" "st' = st3"
        by (auto simp: Let_def)
      have ins: "add64 (ps_inserted st) 1 = Suc (ps_inserted st)"
        using "1.prems"(2) by (simp add: add64_exact)
      have nil: "tpath [] hs = []" by (cases hs) simp_all
      from "1.IH"(1) [OF None refl refl pin [symmetric] _ refl p] True "1.prems"(2) ins nil obtain j where
        "ps_inserted st3 = Suc (ps_inserted st) + j" "j \<le> length hs" "tpath sub' hs = take j bs" by auto
      with None show ?thesis unfolding res by (intro exI [of _ "Suc j"]) simp
    qed
  qed
qed auto

lemma PutBlockPrefixes_unfold:
  assumes put: "PutBlockPrefixes rx kv ns hs bs = (rx', kv', k)" and inv: "rx_inv rx kv" and kv: "kv_inv kv"
    and room: "entry_count kv + length hs + 2 < u32"
  obtains ch ch' st rx1 where
    "ch = (case map_of (rx_roots rx) ns of None \<Rightarrow> [] | Some ch \<Rightarrow> ch)" "trie_wf ch"
    "put_path ch hs bs \<lparr>ps_kv = kv, ps_clock = rx_access_clock rx, ps_next_pin_id = rx_next_pin_id rx,
       ps_node_count = rx_node_count rx, ps_inserted = 0\<rparr> = (ch', st)"
    "rx1 = rx\<lparr>rx_roots := AList.update ns ch' (rx_roots rx), rx_node_count := ps_node_count st,
       rx_access_clock := ps_clock st, rx_next_pin_id := ps_next_pin_id st\<rparr>"
    "evict_to_capacity rx1 (ps_kv st) = (rx', kv')" "k = ps_inserted st"
    "rx_inv rx1 (ps_kv st)" "kv_inv (ps_kv st)" "kv_same_seqs kv (ps_kv st)"
    "entry_count (ps_kv st) \<le> entry_count kv + length hs"
    "rx_node_count rx1 \<le> rx_node_count rx + length hs"
proof -
  define ch where "ch = (case map_of (rx_roots rx) ns of None \<Rightarrow> [] | Some ch \<Rightarrow> ch)"
  let ?st = "\<lparr>ps_kv = kv, ps_clock = rx_access_clock rx, ps_next_pin_id = rx_next_pin_id rx,
       ps_node_count = rx_node_count rx, ps_inserted = 0\<rparr>"
  obtain ch' st where p: "put_path ch hs bs ?st = (ch', st)" by fastforce
  define rx1 where "rx1 = rx\<lparr>rx_roots := AList.update ns ch' (rx_roots rx), rx_node_count := ps_node_count st,
       rx_access_clock := ps_clock st, rx_next_pin_id := ps_next_pin_id st\<rparr>"
  have wf: "trie_wf ch" using rx_inv_root [OF inv] by (auto simp: ch_def split: option.splits)
  have ev: "evict_to_capacity rx1 (ps_kv st) = (rx', kv')" "k = ps_inserted st"
    using put p unfolding PutBlockPrefixes_def ch_def [symmetric] rx1_def by (auto simp: Let_def split: prod.splits)
  have nc: "rx_node_count rx = length (prefix_blocks kv)" by (rule rx_inv_node_count [OF inv])
  from put_path_spec [OF p wf] kv room nc obtain new where
    st: "trie_wf ch'" "kv_inv (ps_kv st)" "kv_same_seqs kv (ps_kv st)"
    "prefix_blocks (ps_kv st) = new @ prefix_blocks kv" "length new \<le> length hs"
    "mset (pins_of ch') = mset (pins_of ch) + mset new"
    "ps_node_count st = rx_node_count rx + length new" by (auto simp: entry_count_def)
  have cnt: "ps_node_count st = length (prefix_blocks (ps_kv st))" using st(4,7) nc by simp
  have "rx_inv rx1 (ps_kv st)"
  proof (cases "map_of (rx_roots rx) ns")
    case (Some c)
    with st(4,6) ch_def have "mset (prefix_blocks (ps_kv st)) + mset (pins_of c)
        = mset (prefix_blocks kv) + mset (pins_of ch')" by simp
    from rx_inv_update_root [OF inv Some st(1) this] show ?thesis unfolding rx1_def cnt by simp
  next
    case None
    then have "ch = []" by (simp add: ch_def)
    with root_pins_None [OF None, of ch'] st(4,6) inv
    have m: "mset (root_pins (AList.update ns ch' (rx_roots rx))) = mset (prefix_blocks (ps_kv st))"
      by (simp add: rx_inv_def)
    then have "length (root_pins (AList.update ns ch' (rx_roots rx))) = length (prefix_blocks (ps_kv st))"
      by (metis size_mset)
    with m inv st(1) set_update_subset [of ns ch' "rx_roots rx"] cnt show ?thesis
      unfolding rx1_def by (auto simp: rx_inv_def AList.distinct_update)
  qed
  moreover have "entry_count (ps_kv st) \<le> entry_count kv + length hs"
    using st(3,4,5) by (simp add: entry_count_def kv_same_seqs_def)
  moreover have "rx_node_count rx1 \<le> rx_node_count rx + length hs" using st(5,7) by (simp add: rx1_def)
  ultimately show thesis using that [OF ch_def wf p rx1_def ev] st(2,3) by blast
qed

lemma PutBlockPrefixes_spec:
  assumes put: "PutBlockPrefixes rx kv ns hs bs = (rx', kv', k)" and inv: "rx_inv rx kv" and kv: "kv_inv kv"
    and room: "entry_count kv + length hs + 2 < u32"
  shows "rx_inv rx' kv'" and "kv_inv kv'" and "rx_node_count rx' \<le> rx_capacity rx'"
    and "kv_same_seqs kv kv'" and "rx_capacity rx' = rx_capacity rx"
    and "rx_paths_distinct rx \<Longrightarrow> take (length (rx_path rx ns hs)) bs = rx_path rx ns hs \<Longrightarrow> distinct bs
      \<Longrightarrow> rx_paths_distinct rx'"
proof -
  from PutBlockPrefixes_unfold [OF assms] obtain ch ch' st rx1 where
    u: "ch = (case map_of (rx_roots rx) ns of None \<Rightarrow> [] | Some ch \<Rightarrow> ch)" "trie_wf ch"
    "put_path ch hs bs \<lparr>ps_kv = kv, ps_clock = rx_access_clock rx, ps_next_pin_id = rx_next_pin_id rx,
       ps_node_count = rx_node_count rx, ps_inserted = 0\<rparr> = (ch', st)"
    "rx1 = rx\<lparr>rx_roots := AList.update ns ch' (rx_roots rx), rx_node_count := ps_node_count st,
       rx_access_clock := ps_clock st, rx_next_pin_id := ps_next_pin_id st\<rparr>"
    "evict_to_capacity rx1 (ps_kv st) = (rx', kv')"
    "rx_inv rx1 (ps_kv st)" "kv_inv (ps_kv st)" "kv_same_seqs kv (ps_kv st)"
    "entry_count (ps_kv st) \<le> entry_count kv + length hs" by metis
  have "entry_count (ps_kv st) < u32" using u(9) room by simp
  note ev = evict_to_capacity_spec [OF u(6,7) this u(5)]
  show "rx_inv rx' kv'" "kv_inv kv'" "rx_node_count rx' \<le> rx_capacity rx'" using ev by auto
  show "kv_same_seqs kv kv'" using ev u(8) kv_same_seqs_trans by blast
  show "rx_capacity rx' = rx_capacity rx" using ev u(4) by simp
  show "rx_paths_distinct rx'" if d: "rx_paths_distinct rx" "distinct bs"
    and t: "take (length (rx_path rx ns hs)) bs = rx_path rx ns hs"
  proof -
    have path: "rx_path rx ns hs = tpath ch hs"
      unfolding rx_path_def u(1) by (cases hs) (auto split: option.splits)
    have "tdist {} ch" using d(1) u(1) by (auto simp: rx_paths_distinct_def split: option.splits dest!: map_of_SomeD)
    then have "tdist {} ch'" using put_path_tdist [OF u(3,2)] t d(2) path by simp
    then have "rx_paths_distinct rx1" unfolding u(4) by (rule rx_paths_update_root [OF d(1)])
    then show ?thesis using ev by blast
  qed
qed

subsection \<open>Clearing\<close>

fun unpin_order :: "children \<Rightarrow> string list" where
  "unpin_order [] = []"
| "unpin_order ((k, Node b pin la sub) # rest) = unpin_order sub @ pin # unpin_order rest"

lemma UnpinTree_fold: "UnpinTree ch kv = fold (\<lambda>k kv. fst (UnpinPrefix kv k)) (unpin_order ch) kv"
  by (induction ch kv rule: UnpinTree.induct) simp_all

lemma set_unpin_order: "set (unpin_order ch) = fst ` set (pins_of ch)"
  by (induction ch rule: unpin_order.induct) auto

lemma unpin_roots_fold:
  "fold (\<lambda>(ns, ch) kv. UnpinTree ch kv) roots kv =
     fold (\<lambda>k kv. fst (UnpinPrefix kv k)) (concat (map (unpin_order \<circ> snd) roots)) kv"
  by (induction roots arbitrary: kv) (auto simp: UnpinTree_fold)

lemma RadixClear_spec:
  assumes inv: "rx_inv rx kv" and kv: "kv_inv kv" and room: "kv_room kv"
    and clr: "RadixClear rx kv = (rx', kv')"
  shows "prefix_blocks kv' = []" and "kv_inv kv'" and "kv_same_seqs kv kv'" and "rx_inv rx' kv'"
    and "rx_node_count rx' = 0" and "rx_paths_distinct rx'" and "rx_capacity rx' = rx_capacity rx"
proof -
  let ?ks = "concat (map (unpin_order \<circ> snd) (rx_roots rx))"
  have kv': "kv' = fold (\<lambda>k kv. fst (UnpinPrefix kv k)) ?ks kv"
    and rx': "rx' = rx\<lparr>rx_roots := [], rx_node_count := 0\<rparr>"
    using clr by (simp_all add: RadixClear_def unpin_roots_fold)
  have "fst ` set (prefix_blocks kv) = fst ` set (root_pins (rx_roots rx))"
    using inv unfolding rx_inv_def by (metis mset_eq_setD)
  then have "fst ` set (prefix_blocks kv) \<subseteq> set ?ks"
    by (auto simp: root_pins_def set_unpin_order image_iff) force
  then show p: "prefix_blocks kv' = []" unfolding kv' by (rule kv_pins.unpin_all_empty)
  show "kv_inv kv'" unfolding kv' using kv_pins.unpin_all_inv [OF kv] room by (simp add: pin_room_left_pos)
  show "kv_same_seqs kv kv'" unfolding kv' by (rule unpin_all_frame)
  show "rx_inv rx' kv'" using inv p by (simp add: rx' rx_inv_def root_pins_def)
  show "rx_node_count rx' = 0" "rx_paths_distinct rx'" "rx_capacity rx' = rx_capacity rx"
    by (simp_all add: rx' rx_paths_distinct_def)
qed

section \<open>Runs\<close>

text \<open>
  The calls an engine makes on the pair of caches: those of the prefix cache, and the calls on
  sequences of the KV cache. The guards bound the table entries well below the 32-bit counts.
\<close>

inductive rx_step :: "RadixPrefixCache \<times> PagedKvCache \<Rightarrow> RadixPrefixCache \<times> PagedKvCache \<Rightarrow> bool" where
  get: "GetLongest rx ns hs = (rx', m) \<Longrightarrow> rx_step (rx, kv) (rx', kv)"
| put: "entry_count kv + length hs + 2 < u32 \<Longrightarrow> PutBlockPrefixes rx kv ns hs bs = (rx', kv', k)
    \<Longrightarrow> rx_step (rx, kv) (rx', kv')"
| evict: "kv_room kv \<Longrightarrow> EvictOldest rx kv = (rx', kv', r) \<Longrightarrow> rx_step (rx, kv) (rx', kv')"
| clear: "kv_room kv \<Longrightarrow> RadixClear rx kv = (rx', kv') \<Longrightarrow> rx_step (rx, kv) (rx', kv')"
| allocate: "kv_room kv \<Longrightarrow> n < u64 \<Longrightarrow> Allocate kv s n shared = (kv', st) \<Longrightarrow> rx_step (rx, kv) (rx, kv')"
| free: "kv_room kv \<Longrightarrow> Free kv s = (kv', r) \<Longrightarrow> rx_step (rx, kv) (rx, kv')"
| append: "kv_room kv \<Longrightarrow> AppendBlocks kv s n = (kv', st) \<Longrightarrow> rx_step (rx, kv) (rx, kv')"

definition rx_initial :: "RadixPrefixCache \<times> PagedKvCache \<Rightarrow> bool" where
  "rx_initial s \<longleftrightarrow> kv_initial (snd s) \<and> (\<exists>cap. MakeRadixPrefixCache cap = Inr (fst s))"

definition rx_state_inv :: "RadixPrefixCache \<times> PagedKvCache \<Rightarrow> bool" where
  "rx_state_inv s \<longleftrightarrow> rx_inv (fst s) (snd s) \<and> kv_inv (snd s) \<and>
     rx_node_count (fst s) \<le> rx_capacity (fst s)"

lemma rx_inv_same_pins: "rx_inv rx kv \<Longrightarrow> prefix_blocks kv' = prefix_blocks kv \<Longrightarrow> rx_inv rx kv'"
  by (simp add: rx_inv_def)

lemma MakeRadixPrefixCache_inv:
  "MakeRadixPrefixCache cap = Inr rx \<Longrightarrow> prefix_blocks kv = [] \<Longrightarrow>
     rx_inv rx kv \<and> rx_paths_distinct rx \<and> rx_node_count rx = 0 \<and> rx_capacity rx = cap"
  by (auto simp: MakeRadixPrefixCache_def rx_inv_def rx_paths_distinct_def root_pins_def split: if_splits)

lemma EvictOldest_state_inv:
  assumes "rx_state_inv (rx, kv)" and "kv_room kv" and "EvictOldest rx kv = (rx', kv', r)"
  shows "rx_state_inv (rx', kv')"
proof (cases "rx_node_count rx = 0")
  case True
  with assms EvictOldest_fails show ?thesis by (fastforce simp: rx_state_inv_def)
next
  case False
  have inv: "rx_inv rx kv" "kv_inv kv" using assms(1) by (simp_all add: rx_state_inv_def)
  from EvictOldest_succeeds [OF inv False kv_room_entries [OF assms(2)]] obtain rx1 kv1 where
    "EvictOldest rx kv = (rx1, kv1, True)" "rx_inv rx1 kv1" "kv_inv kv1"
    "Suc (rx_node_count rx1) = rx_node_count rx" "rx_capacity rx1 = rx_capacity rx" by metis
  with assms(1,3) show ?thesis by (simp add: rx_state_inv_def)
qed

lemma rx_step_inv: "rx_step s t \<Longrightarrow> rx_state_inv s \<Longrightarrow> rx_state_inv t"
proof (induction rule: rx_step.induct)
  case (get rx ns hs rx' m kv)
  then have inv: "rx_inv rx kv" by (simp add: rx_state_inv_def)
  from GetLongest_spec [OF inv get(1)] get show ?case by (simp add: rx_state_inv_def)
next
  case (put kv hs rx ns bs rx' kv' k)
  then have inv: "rx_inv rx kv" "kv_inv kv" by (simp_all add: rx_state_inv_def)
  from PutBlockPrefixes_spec [OF put(2) inv put(1)] show ?case by (simp add: rx_state_inv_def)
next
  case (evict kv rx rx' kv' r)
  then show ?case using EvictOldest_state_inv by blast
next
  case (clear kv rx rx' kv')
  then have inv: "rx_inv rx kv" "kv_inv kv" by (simp_all add: rx_state_inv_def)
  from RadixClear_spec [OF inv clear(1,2)] show ?case by (simp add: rx_state_inv_def)
next
  case (allocate kv n s shared kv' st rx)
  then show ?case unfolding rx_state_inv_def
    by (auto intro: Allocate_inv rx_inv_same_pins [OF _ Allocate_frame(1)])
next
  case (free kv s kv' r rx)
  then show ?case unfolding rx_state_inv_def
    by (auto intro: Free_inv kv_room_entries rx_inv_same_pins [OF _ Free_frame(2)])
next
  case (append kv s n kv' st rx)
  then show ?case unfolding rx_state_inv_def
    by (auto intro: AppendBlocks_inv rx_inv_same_pins [OF _ AppendBlocks_frame(1)])
qed

interpretation rx_run: invariant_system rx_initial rx_step rx_state_inv
proof
  fix s t
  show "rx_initial s \<Longrightarrow> rx_state_inv s"
    using MakeRadixPrefixCache_inv MakePagedKvCache_no_pins MakePagedKvCache_inv
    by (fastforce simp: rx_initial_def kv_initial_def rx_state_inv_def)
  show "rx_state_inv s \<Longrightarrow> rx_step s t \<Longrightarrow> rx_state_inv t" using rx_step_inv by blast
qed

section \<open>Insertion is complete\<close>

definition pins_fresh :: "nat \<Rightarrow> PagedKvCache \<Rightarrow> bool" where
  "pins_fresh next kv \<longleftrightarrow> (\<forall>(k, bs) \<in> set (prefix_blocks kv). \<exists>i < next. k = radix_pin_key i)"

definition blocks_live :: "PagedKvCache \<Rightarrow> nat list \<Rightarrow> bool" where
  "blocks_live kv bs \<longleftrightarrow> (\<forall>b \<in> set bs. b < total_blocks kv \<and> b \<notin> set (free_list kv))"

lemma pins_fresh_pin:
  assumes kv: "kv_inv kv" and "pins_fresh n kv" and "blocks_live kv [b]" and "Suc n < u64"
  obtains kv' where "PinPrefix kv (radix_pin_key n) [b] = (kv', True)" "pins_fresh (Suc n) kv'"
    "add64 n 1 = Suc n"
proof -
  have k: "map_of (prefix_blocks kv) (radix_pin_key n) = None"
    using assms(2) by (fastforce simp: pins_fresh_def map_of_eq_None_iff radix_pin_key_def)
  have "blocks_usable (refcounts kv) [] [b]"
    using assms(3) kv_inv_free_iff [OF kv, of b] by (auto simp: blocks_live_def total_blocks_def)
  with k have pin: "PinPrefix kv (radix_pin_key n) [b] = (fst (PinPrefix kv (radix_pin_key n) [b]), True)"
    by (simp add: PinPrefix_def)
  from PinPrefix_frame(3) [OF pin] assms(2)
  have "pins_fresh (Suc n) (fst (PinPrefix kv (radix_pin_key n) [b]))"
    by (fastforce simp: pins_fresh_def less_Suc_eq)
  with pin assms(4) show thesis by (intro that) (simp_all add: add64_exact)
qed

lemma put_path_complete:
  assumes "put_path ch hs bs st = (ch', st')" and "kv_inv (ps_kv st)"
    and "entry_count (ps_kv st) + length hs + 2 < u32" and "ps_inserted st + length hs < u64"
    and "pins_fresh (ps_next_pin_id st) (ps_kv st)" and "ps_next_pin_id st + length hs < u64"
    and "blocks_live (ps_kv st) bs"
  shows "ps_inserted st' = ps_inserted st + (min (length hs) (length bs) - length (tpath ch hs))"
  using assms
proof (induction ch hs bs st arbitrary: ch' st' rule: put_path.induct)
  case (1 ch h hs blk bs st)
  have live: "blocks_live (ps_kv st) bs" "blocks_live (ps_kv st) [blk]"
    using "1.prems"(7) by (simp_all add: blocks_live_def)
  show ?case
  proof (cases "map_of ch h")
    case (Some n)
    obtain b pin la sub where n: "n = Node b pin la sub" by (cases n)
    obtain sub' st1 where p: "put_path sub hs bs (st\<lparr>ps_clock := add64 (ps_clock st) 1\<rparr>) = (sub', st1)"
      by fastforce
    from "1.IH"(2) [OF Some n refl p] "1.prems" live p Some n show ?thesis by simp
  next
    case None
    let ?pin = "radix_pin_key (ps_next_pin_id st)"
    have "Suc (ps_next_pin_id st) < u64" using "1.prems"(6) by simp
    with "1.prems"(2,5) live(2) obtain kv' where pin: "PinPrefix (ps_kv st) ?pin [blk] = (kv', True)"
      "pins_fresh (Suc (ps_next_pin_id st)) kv'" "add64 (ps_next_pin_id st) 1 = Suc (ps_next_pin_id st)"
      using pins_fresh_pin by blast
    let ?st2 = "st\<lparr>ps_next_pin_id := add64 (ps_next_pin_id st) 1\<rparr>
        \<lparr>ps_kv := kv', ps_clock := add64 (ps_clock st) 1, ps_node_count := add64 (ps_node_count st) 1,
         ps_inserted := add64 (ps_inserted st) 1\<rparr>"
    obtain sub' st3 where p': "put_path [] hs bs ?st2 = (sub', st3)" by fastforce
    have room: "kv_room (ps_kv st)" using "1.prems"(3) by (simp add: kv_room_def)
    have inv': "kv_inv kv'" by (rule PinPrefix_inv [OF "1.prems"(2) room pin(1)])
    note fr = PinPrefix_frame [OF pin(1)]
    have ins: "add64 (ps_inserted st) 1 = Suc (ps_inserted st)" using "1.prems"(4) by (simp add: add64_exact)
    have live': "blocks_live kv' bs" using live(1) fr by (simp add: blocks_live_def)
    have nil: "tpath [] hs = []" by (cases hs) simp_all
    have "st' = st3" using "1.prems"(1) None pin p' by (simp add: Let_def)
    with "1.IH"(1) [OF None refl refl pin(1) [symmetric] _ refl p'] inv' pin fr live' ins nil None "1.prems"
    show ?thesis by (simp add: entry_count_def)
  qed
qed auto

lemma PutBlockPrefixes_lookup:
  assumes put: "PutBlockPrefixes rx kv ns hs bs = (rx', kv', k)" and inv: "rx_inv rx kv" and kv: "kv_inv kv"
    and room: "entry_count kv + length hs + 2 < u32"
    and fresh: "pins_fresh (rx_next_pin_id rx) kv" "rx_next_pin_id rx + length hs < u64"
    and live: "blocks_live kv bs" and fits: "rx_node_count rx + length hs \<le> rx_capacity rx"
  shows "rx_path rx' ns hs = rx_path rx ns hs @ drop (length (rx_path rx ns hs)) (take (length hs) bs)"
    and "k = min (length hs) (length bs) - length (rx_path rx ns hs)"
proof -
  from PutBlockPrefixes_unfold [OF put inv kv room] obtain ch ch' st rx1 where
    u: "ch = (case map_of (rx_roots rx) ns of None \<Rightarrow> [] | Some ch \<Rightarrow> ch)"
    "put_path ch hs bs \<lparr>ps_kv = kv, ps_clock = rx_access_clock rx, ps_next_pin_id = rx_next_pin_id rx,
       ps_node_count = rx_node_count rx, ps_inserted = 0\<rparr> = (ch', st)"
    "rx1 = rx\<lparr>rx_roots := AList.update ns ch' (rx_roots rx), rx_node_count := ps_node_count st,
       rx_access_clock := ps_clock st, rx_next_pin_id := ps_next_pin_id st\<rparr>"
    "evict_to_capacity rx1 (ps_kv st) = (rx', kv')" "k = ps_inserted st"
    "rx_node_count rx1 \<le> rx_node_count rx + length hs" by metis
  have "\<not> rx_node_count rx1 > rx_capacity rx1" using u(3,6) fits by simp
  with u(4) have "rx' = rx1" by (simp only: evict_to_capacity.simps [of rx1] if_False prod.inject)
  moreover have path: "rx_path rx ns hs = tpath ch hs"
    unfolding rx_path_def u(1) by (cases hs) (auto split: option.splits)
  moreover show k: "k = min (length hs) (length bs) - length (rx_path rx ns hs)"
    using put_path_complete [OF u(2)] kv room fresh live u(5) path by simp
  moreover obtain j where "k = j" "tpath ch' hs = tpath ch hs @ take j (drop (length (tpath ch hs)) bs)"
    using put_path_lookup [OF u(2)] u(5) room by auto
  moreover have "take (min (length hs) (length bs) - n) (drop n bs) = drop n (take (length hs) bs)" for n
    by (cases "length hs \<le> length bs") (simp_all add: drop_take min_def)
  ultimately show "rx_path rx' ns hs = rx_path rx ns hs @ drop (length (rx_path rx ns hs)) (take (length hs) bs)"
    using u(3) by (simp add: rx_path_def AList.update_conv')
qed

section \<open>Properties\<close>

text \<open>A sequence of three blocks, a cache of two nodes, and the state after a cached prompt.\<close>

definition rx_fresh2 :: RadixPrefixCache where
  "rx_fresh2 = \<lparr>rx_capacity = 2, rx_roots = [], rx_node_count = 0, rx_access_clock = 0, rx_next_pin_id = 0\<rparr>"

definition kv_seq3 :: PagedKvCache where
  "kv_seq3 = fst (Allocate kv_fresh3 ''s'' 3 [])"

definition rx_example :: "RadixPrefixCache \<times> PagedKvCache" where
  "rx_example = (case PutBlockPrefixes rx_fresh2 kv_seq3 ''m'' [''a'', ''b'', ''c''] [0, 1, 2] of
     (rx, kv, n) \<Rightarrow> (rx, kv))"

lemma rx_fresh2_make: "MakeRadixPrefixCache 2 = Inr rx_fresh2"
  by (simp add: MakeRadixPrefixCache_def rx_fresh2_def)

lemma kv_seq3_alloc: "Allocate kv_fresh3 ''s'' 3 [] = (kv_seq3, kAllocated)"
  by code_simp

lemma rx_example_put:
  "PutBlockPrefixes rx_fresh2 kv_seq3 ''m'' [''a'', ''b'', ''c''] [0, 1, 2] = (fst rx_example, snd rx_example, 3)"
  by code_simp

lemma rx_example_initial: "rx_initial (rx_fresh2, kv_fresh3)"
  using rx_fresh2_make kv_fresh3_make by (auto simp: rx_initial_def kv_initial_def)

lemma rx_example_run: "rx_step\<^sup>*\<^sup>* (rx_fresh2, kv_fresh3) rx_example"
proof -
  have "rx_step (rx_fresh2, kv_fresh3) (rx_fresh2, kv_seq3)"
    by (rule rx_step.allocate [OF _ _ kv_seq3_alloc]) (simp_all add: kv_room_def entry_count_def kv_fresh3_def)
  moreover have "entry_count kv_seq3 = 1" by code_simp
  then have "rx_step (rx_fresh2, kv_seq3) (fst rx_example, snd rx_example)"
    by (intro rx_step.put [OF _ rx_example_put]) simp
  ultimately show ?thesis by (simp add: converse_rtranclp_into_rtranclp)
qed

lemma rx_example_inv: "rx_inv (fst rx_example) (snd rx_example)" "kv_inv (snd rx_example)"
  "kv_room (snd rx_example)"
proof -
  have "entry_count (snd rx_example) = 3" by code_simp
  then show "kv_room (snd rx_example)" by (simp add: kv_room_def)
qed (use rx_run.inv_reachable [OF rx_example_initial rx_example_run] in \<open>simp_all add: rx_state_inv_def\<close>)

lemma kv_seq3_inv: "kv_inv kv_seq3" "rx_inv rx_fresh2 kv_seq3" "entry_count kv_seq3 = 1"
proof -
  show "entry_count kv_seq3 = 1" by code_simp
  have "prefix_blocks kv_seq3 = []" by code_simp
  then show "rx_inv rx_fresh2 kv_seq3" using MakeRadixPrefixCache_inv [OF rx_fresh2_make] by blast
  have "kv_inv kv_fresh3" by (rule MakePagedKvCache_inv [OF kv_fresh3_make])
  then show "kv_inv kv_seq3"
    using Allocate_inv [OF _ _ _ kv_seq3_alloc] by (simp add: kv_room_def entry_count_def kv_fresh3_def)
qed

text \<open>
  C11: whatever sequence of lookups, insertions, evictions, clears and KV-cache calls has run since
  both caches were built, the pins of the KV cache are exactly one pin per node of the radix
  trees, the node counter is the number of nodes, it never exceeds the capacity, and the KV
  cache's own invariant check succeeds.
\<close>

theorem radix_pins_match_nodes:
  assumes "MakeRadixPrefixCache cap = Inr rx0" and "MakePagedKvCache n b = Inr kv0"
    and "rx_step\<^sup>*\<^sup>* (rx0, kv0) (rx, kv)" and "kv_room kv"
  shows "mset (prefix_blocks kv) = mset (root_pins (rx_roots rx)) \<and>
    rx_node_count rx = length (root_pins (rx_roots rx)) \<and> rx_node_count rx \<le> rx_capacity rx \<and> CheckInvariants kv"
proof -
  have "rx_state_inv (rx, kv)"
    using assms by (intro rx_run.inv_reachable [OF _ assms(3)]) (auto simp: rx_initial_def kv_initial_def)
  then have i: "rx_inv rx kv" "kv_inv kv" "rx_node_count rx \<le> rx_capacity rx"
    by (simp_all add: rx_state_inv_def)
  then show ?thesis using CheckInvariants_iff_refs_ok [OF kv_room_entries [OF assms(4)]]
    by (simp add: rx_inv_def kv_inv_def kv_shape_def)
qed

theorem radix_pins_match_nodes_witness:
  "rx_step\<^sup>*\<^sup>* (rx_fresh2, kv_fresh3) (fst rx_example, snd rx_example)
     \<and> mset (prefix_blocks (snd rx_example)) = mset (root_pins (rx_roots (fst rx_example)))
     \<and> rx_node_count (fst rx_example) \<le> rx_capacity (fst rx_example) \<and> CheckInvariants (snd rx_example)"
proof -
  have run: "rx_step\<^sup>*\<^sup>* (rx_fresh2, kv_fresh3) (fst rx_example, snd rx_example)"
    using rx_example_run by simp
  from run radix_pins_match_nodes [OF rx_fresh2_make kv_fresh3_make run rx_example_inv(3)]
  show ?thesis by blast
qed

text \<open>
  Inserting a prompt and looking it up. When the blocks handed in are live, the pin counter
  has not been exhausted and the new nodes fit the capacity, the lookup that follows returns the
  previously cached prefix followed by the remaining blocks handed in, one per prompt block, and
  the insertion reports how many nodes it created.
\<close>

theorem PutBlockPrefixes_GetLongest:
  assumes "rx_inv rx kv" and "kv_inv kv" and "entry_count kv + length hs + 2 < u32"
    and "pins_fresh (rx_next_pin_id rx) kv" and "rx_next_pin_id rx + length hs < u64"
    and "blocks_live kv bs" and "rx_node_count rx + length hs \<le> rx_capacity rx"
    and put: "PutBlockPrefixes rx kv ns hs bs = (rx', kv', k)"
    and get: "GetLongest rx' ns hs = (rx'', m)"
  shows "let old = rx_path rx ns hs; found = old @ drop (length old) (take (length hs) bs) in
      k = min (length hs) (length bs) - length old \<and>
      m = (if found = [] then None else Some \<lparr>m_blocks = found, matched_block_count = length found\<rparr>)"
proof -
  note l = PutBlockPrefixes_lookup [OF put assms(1-7)]
  have "rx_inv rx' kv'" using PutBlockPrefixes_spec [OF put assms(1-3)] by blast
  from GetLongest_spec(3) [OF this get] show ?thesis unfolding l Let_def by simp
qed

theorem PutBlockPrefixes_GetLongest_witness:
  "\<exists>rx' kv' rx'' m. PutBlockPrefixes rx_fresh2 kv_seq3 ''m'' [''a'', ''b''] [0, 1] = (rx', kv', 2) \<and>
     GetLongest rx' ''m'' [''a'', ''b''] = (rx'', Some \<lparr>m_blocks = [0, 1], matched_block_count = 2\<rparr>)"
proof -
  obtain rx' kv' k where put: "PutBlockPrefixes rx_fresh2 kv_seq3 ''m'' [''a'', ''b''] [0, 1] = (rx', kv', k)"
    using prod_cases3 by blast
  obtain rx'' m where get: "GetLongest rx' ''m'' [''a'', ''b''] = (rx'', m)" by fastforce
  have "pins_fresh (rx_next_pin_id rx_fresh2) kv_seq3" "blocks_live kv_seq3 [0, 1]" by code_simp+
  moreover have "rx_path rx_fresh2 ''m'' [''a'', ''b''] = []" by code_simp
  ultimately show ?thesis
    using PutBlockPrefixes_GetLongest [OF kv_seq3_inv(2,1) _ _ _ _ _ put get] put get kv_seq3_inv(3)
    by (simp add: rx_fresh2_def Let_def)
qed

text \<open>
  Eviction takes the least recently used leaf. On a non-empty cache \<open>EvictOldest\<close> returns
  true; it removes one childless node whose access stamp is the least among all childless nodes of
  all namespaces, and the pin it drops from the KV cache is that node's.
\<close>

theorem EvictOldest_least_recent_leaf:
  assumes inv: "rx_inv rx kv" and kv: "kv_inv kv" and ne: "rx_node_count rx \<noteq> 0" and room: "kv_room kv"
  shows "\<exists>rx' kv' ns ch path key n. EvictOldest rx kv = (rx', kv', True) \<and>
    map_of (rx_roots rx) ns = Some ch \<and> node_at ch path key = Some n \<and> nd_children n = [] \<and>
    (\<forall>ns' ch' path' key' stamp. (ns', ch') \<in> set (rx_roots rx) \<and> leaf_at ch' path' key' stamp
        \<longrightarrow> nd_last_access n \<le> stamp) \<and>
    rx_roots rx' = AList.update ns (erase_at ch path key) (rx_roots rx) \<and>
    Suc (rx_node_count rx') = rx_node_count rx \<and>
    mset (prefix_blocks kv) = add_mset (nd_pin_key n, [nd_block n]) (mset (prefix_blocks kv'))"
proof -
  from EvictOldest_succeeds [OF inv kv ne kv_room_entries [OF room]] obtain rx' kv' c n' where
    ev: "EvictOldest rx kv = (rx', kv', True)" "Suc (rx_node_count rx') = rx_node_count rx"
    "find_in_roots (rx_roots rx) None = Some c" by metis
  from EvictOldest_candidate [OF inv ev(3)] obtain ch n where
    n: "map_of (rx_roots rx) (lc_namespace c) = Some ch" "node_at ch (lc_path c) (lc_key c) = Some n"
    "nd_children n = []" "nd_last_access n = lc_last_access c" by metis
  have wf: "\<forall>(ns, ch) \<in> set (rx_roots rx). trie_wf ch" using inv by (simp add: rx_inv_def)
  have "nd_last_access n \<le> stamp"
    if "(ns', ch') \<in> set (rx_roots rx)" "leaf_at ch' path' key' stamp" for ns' ch' path' key' stamp
    using find_in_roots_least [OF wf ev(3) that] n(4) by simp
  moreover have "rx_roots rx' = AList.update (lc_namespace c) (erase_at ch (lc_path c) (lc_key c)) (rx_roots rx)"
    using ev(1,3) n by (auto simp: EvictOldest_def)
  moreover have "mset (prefix_blocks kv) = add_mset (nd_pin_key n, [nd_block n]) (mset (prefix_blocks kv'))"
    using EvictOldest_unpins [OF inv kv ev(3) n(1,2,3)] ev(1,3) n by (simp add: EvictOldest_def)
  ultimately show ?thesis using ev n by blast
qed

theorem EvictOldest_least_recent_leaf_witness:
  "rx_node_count (fst rx_example) = 2 \<and>
   (\<exists>rx' kv'. EvictOldest (fst rx_example) (snd rx_example) = (rx', kv', True) \<and> rx_node_count rx' = 1)"
proof -
  have c: "rx_node_count (fst rx_example) = 2" by code_simp
  with EvictOldest_least_recent_leaf [OF rx_example_inv(1,2) _ rx_example_inv(3)]
  show ?thesis by (metis Suc_1 nat.inject zero_neq_numeral)
qed

text \<open>
  \<open>Clear\<close> gives every cached block back. It leaves no pin and no node; the sequences of the
  KV cache keep their blocks, and when there are none, every block of the cache is free.
\<close>

theorem RadixClear_releases_all:
  assumes "rx_inv rx kv" and "kv_inv kv" and "kv_room kv" and "RadixClear rx kv = (rx', kv')"
  shows "prefix_blocks kv' = [] \<and> root_pins (rx_roots rx') = [] \<and> rx_node_count rx' = 0 \<and>
    sequence_blocks kv' = sequence_blocks kv \<and> (sequence_blocks kv = [] \<longrightarrow> free_blocks kv' = total_blocks kv)"
proof -
  note c = RadixClear_spec [OF assms]
  have p: "prefix_blocks kv' = []" and "rx_node_count rx' = 0" and s: "sequence_blocks kv' = sequence_blocks kv"
    using c by (simp_all add: kv_same_seqs_def)
  moreover have "root_pins (rx_roots rx') = []" using c(4,5) by (simp add: rx_inv_def)
  moreover have "free_blocks kv' = total_blocks kv" if "sequence_blocks kv = []"
    using free_blocks_none [OF c(2)] p s that c(3) by (simp add: kv_entries_def kv_same_seqs_def)
  ultimately show ?thesis by blast
qed

theorem RadixClear_releases_all_witness:
  "prefix_blocks (snd rx_example) \<noteq> [] \<and>
   prefix_blocks (snd (RadixClear (fst rx_example) (snd rx_example))) = []"
proof -
  have "prefix_blocks (snd rx_example) \<noteq> []" by code_simp
  with RadixClear_releases_all [OF rx_example_inv surjective_pairing] show ?thesis by blast
qed

end
