(* ===== verification/CostModel.thy ===== *)
theory CostModel
  imports Prelude
begin

text \<open>
  The simulated cost model of \<open>cpp/src/cost_model.cpp\<close> and the \<open>FakeClock\<close> of
  \<open>fake_clock.hpp\<close>. Nanosecond counts are \<open>int\<close>; \<open>int64_max\<close> is the
  largest value of their C++ representation. The random source
  (\<open>std::mt19937_64\<close> read through \<open>std::uniform_int_distribution\<close>, whose algorithm the
  C++ standard leaves open) is a parameter: a state, and a function that draws from
  \<open>-m .. m\<close> and returns the next state.
\<close>

abbreviation int64_max :: int where "int64_max \<equiv> 9223372036854775807"

section \<open>The clock\<close>

definition Advance :: "int \<Rightarrow> int \<Rightarrow> int" where
  "Advance now delta = (if delta > 0 then now + delta else now)"

lemma Advance_ge: "now \<le> Advance now delta"
  by (simp add: Advance_def)

lemma Advance_to: "Advance now (t - now) = max now t"
  by (simp add: Advance_def)

section \<open>Costs\<close>

record CostModelConfig =
  prefill_fixed :: int
  prefill_per_token :: int
  decode_fixed :: int
  decode_per_sequence :: int
  jitter_basis_points :: nat

type_synonym draw = "int \<Rightarrow> nat \<Rightarrow> int \<times> nat"

record DeterministicCostModel =
  cm_config :: CostModelConfig
  cm_random :: nat
  cm_draw :: draw

text \<open>\<open>static_cast<Rep>(units)\<close> of a \<open>size_t\<close>: two's complement.\<close>

definition to_int64 :: "nat \<Rightarrow> int" where
  "to_int64 n = (if int n \<le> int64_max then int n else int n - int u64)"

definition SaturatingCost :: "int \<Rightarrow> int \<Rightarrow> nat \<Rightarrow> int" where
  "SaturatingCost fixed per_unit units =
     (if per_unit > 0 \<and> units > nat ((int64_max - fixed) div per_unit) then int64_max
      else fixed + per_unit * to_int64 units)"

definition MakeCostModel ::
    "draw \<Rightarrow> nat \<Rightarrow> CostModelConfig \<Rightarrow> error + DeterministicCostModel" where
  "MakeCostModel draw seed config =
     (if prefill_fixed config < 0 \<or> prefill_per_token config < 0 \<or> decode_fixed config < 0
         \<or> decode_per_sequence config < 0 \<or> jitter_basis_points config > 10000
      then Inl (InvalidArgument ''invalid cost model configuration'')
      else Inr \<lparr>cm_config = config, cm_random = seed, cm_draw = draw\<rparr>)"

definition ApplyJitter :: "DeterministicCostModel \<Rightarrow> int \<Rightarrow> DeterministicCostModel \<times> int" where
  "ApplyJitter cm base =
     (if jitter_basis_points (cm_config cm) = 0 \<or> base = int64_max then (cm, base)
      else
        let magnitude = int (jitter_basis_points (cm_config cm));
            (adjustment, random') = cm_draw cm magnitude (cm_random cm);
            quotient = base div 10000;
            remainder = base mod 10000;
            magnitude_adjustment = (if adjustment < 0 then - adjustment else adjustment);
            delta = quotient * magnitude_adjustment + (remainder * magnitude_adjustment) div 10000;
            cm' = cm\<lparr>cm_random := random'\<rparr>
        in if adjustment < 0 then (cm', base - delta)
           else if delta > int64_max - base then (cm', int64_max)
           else (cm', base + delta))"

definition Prefill :: "DeterministicCostModel \<Rightarrow> nat \<Rightarrow> DeterministicCostModel \<times> int" where
  "Prefill cm uncached_prompt_tokens =
     ApplyJitter cm (SaturatingCost (prefill_fixed (cm_config cm))
       (prefill_per_token (cm_config cm)) uncached_prompt_tokens)"

definition DecodeStep :: "DeterministicCostModel \<Rightarrow> nat \<Rightarrow> DeterministicCostModel \<times> int" where
  "DecodeStep cm active_sequences =
     ApplyJitter cm (SaturatingCost (decode_fixed (cm_config cm))
       (decode_per_sequence (cm_config cm)) active_sequences)"

section \<open>Well-formed configurations and the law of the random source\<close>

definition cost_config_ok :: "CostModelConfig \<Rightarrow> bool" where
  "cost_config_ok c \<longleftrightarrow> 0 \<le> prefill_fixed c \<and> prefill_fixed c \<le> int64_max
     \<and> 0 \<le> prefill_per_token c \<and> 0 \<le> decode_fixed c \<and> decode_fixed c \<le> int64_max
     \<and> 0 \<le> decode_per_sequence c \<and> jitter_basis_points c \<le> 10000"

text \<open>\<open>uniform_int_distribution(-m, m)\<close> yields values of its interval.\<close>

definition draw_in_range :: "draw \<Rightarrow> bool" where
  "draw_in_range d \<longleftrightarrow> (\<forall>m s. 0 \<le> m \<longrightarrow> - m \<le> fst (d m s) \<and> fst (d m s) \<le> m)"

lemma SaturatingCost_min:
  assumes "0 \<le> fixed" "fixed \<le> int64_max" "0 \<le> per_unit"
  shows "SaturatingCost fixed per_unit units = min int64_max (fixed + per_unit * int units)"
proof (cases "per_unit = 0")
  case True
  with assms show ?thesis by (simp add: SaturatingCost_def)
next
  case False
  with assms(3) have p: "0 < per_unit" by simp
  let ?q = "(int64_max - fixed) div per_unit"
  have q: "0 \<le> ?q" using assms p by (simp add: pos_imp_zdiv_nonneg_iff)
  show ?thesis
  proof (cases "units > nat ?q")
    case True
    then have "?q < int units" using q by (simp add: nat_less_iff)
    then have "per_unit * (?q + 1) \<le> per_unit * int units" using p by (intro mult_left_mono) auto
    moreover have "int64_max - fixed < per_unit * (?q + 1)"
      using mult_div_mod_eq [of per_unit "int64_max - fixed"] pos_mod_bound [OF p, of "int64_max - fixed"]
      unfolding distrib_left mult_1_right by linarith
    ultimately have "int64_max - fixed < per_unit * int units" by linarith
    with True p show ?thesis by (simp add: SaturatingCost_def)
  next
    case False
    then have "int units \<le> ?q" using q by simp
    then have "per_unit * int units \<le> per_unit * ?q" using p by (intro mult_left_mono) auto
    then have le: "per_unit * int units \<le> int64_max - fixed"
      using mult_div_mod_eq [of per_unit "int64_max - fixed"] pos_mod_sign [OF p, of "int64_max - fixed"]
      by linarith
    moreover have "1 * int units \<le> per_unit * int units" using p by (intro mult_right_mono) auto
    ultimately have "int units \<le> int64_max" using assms(1) by simp
    with False le p show ?thesis by (simp add: SaturatingCost_def to_int64_def)
  qed
qed

lemma jitter_delta:
  fixes base mag :: int
  shows "(base div 10000) * mag + ((base mod 10000) * mag) div 10000 = (base * mag) div 10000"
proof -
  obtain q r where qr: "q = base div 10000" "r = base mod 10000" by blast
  then have b: "base = 10000 * q + r" by simp
  have "base * mag = r * mag + 10000 * (q * mag)" unfolding b by (simp add: algebra_simps)
  then have "(base * mag) div 10000 = (r * mag) div 10000 + q * mag" by simp
  then show ?thesis unfolding qr by simp
qed

lemma jitter_bounds:
  fixes base mag j :: int
  assumes "0 \<le> base" "0 \<le> mag" "mag \<le> j" "j \<le> 10000"
  shows "0 \<le> (base * mag) div 10000" and "(base * mag) div 10000 \<le> (base * j) div 10000"
    and "(base * mag) div 10000 \<le> base"
proof -
  show "0 \<le> (base * mag) div 10000" using assms by (simp add: pos_imp_zdiv_nonneg_iff)
  show "(base * mag) div 10000 \<le> (base * j) div 10000"
    using assms by (intro zdiv_mono1 mult_left_mono) auto
  have "(base * mag) div 10000 \<le> (base * 10000) div 10000"
    using assms by (intro zdiv_mono1 mult_left_mono) auto
  then show "(base * mag) div 10000 \<le> base" by simp
qed

lemma ApplyJitter_bounds:
  assumes cfg: "cost_config_ok (cm_config cm)" and draw: "draw_in_range (cm_draw cm)"
    and base: "0 \<le> base" "base \<le> int64_max" and app: "ApplyJitter cm base = (cm', cost)"
  shows "0 \<le> cost \<and> cost \<le> int64_max
    \<and> \<bar>cost - base\<bar> \<le> (base * int (jitter_basis_points (cm_config cm))) div 10000
    \<and> cm_config cm' = cm_config cm \<and> cm_draw cm' = cm_draw cm"
proof -
  let ?j = "int (jitter_basis_points (cm_config cm))"
  obtain a r where d: "cm_draw cm ?j (cm_random cm) = (a, r)" by fastforce
  have a: "\<bar>a\<bar> \<le> ?j" using draw d unfolding draw_in_range_def
    by (metis abs_le_iff fst_conv minus_le_iff of_nat_0_le_iff)
  have j: "?j \<le> 10000" using cfg by (simp add: cost_config_ok_def)
  note b = jitter_bounds [OF base(1) abs_ge_zero a j]
  have m: "(if a < 0 then - a else a) = \<bar>a\<bar>" by simp
  have 0: "0 \<le> (base * ?j) div 10000" using base by (simp add: pos_imp_zdiv_nonneg_iff)
  show ?thesis
    using app b base d 0 unfolding ApplyJitter_def Let_def jitter_delta m
    by (auto split: if_splits)
qed

section \<open>Properties\<close>

text \<open>
  The saturating cost is exact arithmetic clipped to the largest representable duration;
  in particular the guard rules out every overflow of the product and the sum.
\<close>

theorem SaturatingCost_exact:
  assumes "cost_config_ok c"
  shows "SaturatingCost (prefill_fixed c) (prefill_per_token c) units
      = min int64_max (prefill_fixed c + prefill_per_token c * int units)
    \<and> SaturatingCost (decode_fixed c) (decode_per_sequence c) units
      = min int64_max (decode_fixed c + decode_per_sequence c * int units)"
  using assms by (simp add: SaturatingCost_min cost_config_ok_def)

definition cost_example :: CostModelConfig where
  "cost_example = \<lparr>prefill_fixed = 10000, prefill_per_token = 1000, decode_fixed = 5000,
     decode_per_sequence = 2000, jitter_basis_points = 100\<rparr>"

theorem SaturatingCost_exact_witness: "SaturatingCost 10000 1000 16 = 26000"
  using SaturatingCost_exact [of cost_example 16] by (simp add: cost_config_ok_def cost_example_def)

text \<open>
  A simulated duration is never negative, never exceeds the representable range, and the
  jitter moves it by at most the configured basis points of the unjittered cost.
\<close>

theorem cost_jitter_bounds:
  assumes "cost_config_ok (cm_config cm)" and "draw_in_range (cm_draw cm)"
    and "Prefill cm units = (cm', cost)"
  defines "base \<equiv> SaturatingCost (prefill_fixed (cm_config cm)) (prefill_per_token (cm_config cm)) units"
  shows "0 \<le> cost \<and> cost \<le> int64_max
    \<and> \<bar>cost - base\<bar> \<le> (base * int (jitter_basis_points (cm_config cm))) div 10000"
proof -
  have "base = min int64_max (prefill_fixed (cm_config cm) + prefill_per_token (cm_config cm) * int units)"
    using assms(1) by (simp add: base_def SaturatingCost_min cost_config_ok_def)
  then have "0 \<le> base" "base \<le> int64_max" using assms(1) by (auto simp: cost_config_ok_def)
  with ApplyJitter_bounds [OF assms(1,2)] assms(3) show ?thesis
    unfolding Prefill_def base_def by blast
qed

definition cost_model_example :: DeterministicCostModel where
  "cost_model_example = \<lparr>cm_config = cost_example, cm_random = 1, cm_draw = (\<lambda>m s. (- m, s))\<rparr>"

theorem cost_jitter_bounds_witness:
  "draw_in_range (\<lambda>m s. (- m, s)) \<and> 0 \<le> snd (Prefill cost_model_example 16)
     \<and> \<bar>snd (Prefill cost_model_example 16) - 26000\<bar> \<le> 260"
proof -
  have d: "draw_in_range (\<lambda>m s. (- m, s))" by (simp add: draw_in_range_def)
  have c: "cost_config_ok (cm_config cost_model_example)" "draw_in_range (cm_draw cost_model_example)"
    using d by (simp_all add: cost_model_example_def cost_example_def cost_config_ok_def)
  have b: "SaturatingCost (prefill_fixed (cm_config cost_model_example))
      (prefill_per_token (cm_config cost_model_example)) 16 = 26000"
    "jitter_basis_points (cm_config cost_model_example) = 100"
    by (simp_all add: cost_model_example_def cost_example_def SaturatingCost_min)
  show ?thesis using cost_jitter_bounds [OF c surjective_pairing, of 16] d unfolding b by simp
qed

end
