(* ===== verification/ExecutionStates.thy ===== *)
theory ExecutionStates
  imports Prelude
begin

text \<open>
  The per-sequence lifecycle of \<open>cpp/src/execution_state.cpp\<close>: the enum
  \<open>ExecutionState\<close>, the transition table \<open>CanTransition\<close>, \<open>IsTerminal\<close>,
  \<open>ToString\<close> and the guarded update \<open>TransitionTo\<close> of \<open>ExecutionStateMachine\<close>.
\<close>

datatype ExecutionState =
  kWaitingAdmission | kPrefill | kDecode | kPreempted | kCompleted | kFailed

definition CanTransition :: "ExecutionState \<Rightarrow> ExecutionState \<Rightarrow> bool" where
  "CanTransition from to =
     (if from = kCompleted \<or> from = kFailed then False
      else if to = kFailed then True
      else case from of
        kWaitingAdmission \<Rightarrow> to = kPrefill
      | kPrefill \<Rightarrow> to = kDecode \<or> to = kPreempted
      | kDecode \<Rightarrow> to = kCompleted \<or> to = kPreempted
      | kPreempted \<Rightarrow> to = kWaitingAdmission
      | kCompleted \<Rightarrow> False
      | kFailed \<Rightarrow> False)"

definition IsTerminalState :: "ExecutionState \<Rightarrow> bool" where
  "IsTerminalState s \<longleftrightarrow> s = kCompleted \<or> s = kFailed"

fun StateToString :: "ExecutionState \<Rightarrow> string" where
  "StateToString kWaitingAdmission = ''WAITING_ADMISSION''"
| "StateToString kPrefill = ''PREFILL''"
| "StateToString kDecode = ''DECODE''"
| "StateToString kPreempted = ''PREEMPTED''"
| "StateToString kCompleted = ''COMPLETED''"
| "StateToString kFailed = ''FAILED''"

text \<open>\<open>TransitionTo\<close> returns the new value of \<open>state_\<close> and whether it moved.\<close>

definition TransitionTo :: "ExecutionState \<Rightarrow> ExecutionState \<Rightarrow> ExecutionState \<times> bool" where
  "TransitionTo state next = (if \<not> CanTransition state next then (state, False) else (next, True))"

abbreviation InitialState :: ExecutionState where
  "InitialState \<equiv> kWaitingAdmission"

section \<open>The state machine as a step relation\<close>

inductive state_step :: "ExecutionState \<Rightarrow> ExecutionState \<Rightarrow> bool" where
  moved: "TransitionTo s next = (t, True) \<Longrightarrow> state_step s t"

lemma TransitionTo_moved: "TransitionTo s n = (t, True) \<longleftrightarrow> CanTransition s n \<and> t = n"
  by (auto simp: TransitionTo_def)

lemma state_step_iff: "state_step s t \<longleftrightarrow> CanTransition s t"
  by (auto simp: state_step.simps TransitionTo_moved)

inductive_cases state_step_cases: "state_step s t"

lemma IsTerminalState_no_step: "IsTerminalState s \<Longrightarrow> \<not> state_step s t"
  by (simp add: state_step_iff CanTransition_def IsTerminalState_def)

text \<open>
  A sequence completes only after a decode phase: \<open>kCompleted\<close> is entered from
  \<open>kDecode\<close> alone, and \<open>kDecode\<close> from \<open>kPrefill\<close> alone.
\<close>

lemma CanTransition_to_completed: "CanTransition s kCompleted \<longleftrightarrow> s = kDecode"
  by (cases s) (simp_all add: CanTransition_def)

lemma CanTransition_to_decode: "CanTransition s kDecode \<longleftrightarrow> s = kPrefill"
  by (cases s) (simp_all add: CanTransition_def)

lemma CanTransition_to_prefill: "CanTransition s kPrefill \<longleftrightarrow> s = kWaitingAdmission"
  by (cases s) (simp_all add: CanTransition_def)

lemma terminal_steps_stay:
  assumes "state_step\<^sup>*\<^sup>* s t" and "IsTerminalState s"
  shows "t = s"
  using assms by (induction rule: rtranclp_induct) (auto dest: IsTerminalState_no_step)

text \<open>The two phases a sequence passes through on admission, as the engines write them.\<close>

lemma admission_path:
  "TransitionTo InitialState kPrefill = (kPrefill, True)"
  "TransitionTo kPrefill kDecode = (kDecode, True)"
  "TransitionTo kDecode kCompleted = (kCompleted, True)"
  "TransitionTo kDecode kPreempted = (kPreempted, True)"
  "TransitionTo kPreempted kWaitingAdmission = (kWaitingAdmission, True)"
  by (simp_all add: TransitionTo_def CanTransition_def)

section \<open>Properties\<close>

text \<open>
  A run that ends in \<open>kCompleted\<close> and did not start there passed through
  \<open>kDecode\<close>: nothing reaches \<open>kCompleted\<close> without decoding.
\<close>

lemma completed_only_via_decode:
  assumes "state_step\<^sup>*\<^sup>* s kCompleted" and "s \<noteq> kCompleted"
  shows "state_step\<^sup>*\<^sup>* s kDecode \<and> state_step kDecode kCompleted"
  using assms(1)
proof (cases rule: rtranclp.cases)
  case rtrancl_refl
  with assms(2) show ?thesis by simp
next
  case (rtrancl_into_rtrancl b)
  then have "b = kDecode" by (simp add: state_step_iff CanTransition_to_completed)
  with rtrancl_into_rtrancl show ?thesis by simp
qed

end
