(* ===== verification/ResultCaches.thy ===== *)
theory ResultCaches
  imports Prelude
begin

text \<open>
  The result cache of \<open>cpp/src/result_cache.cpp\<close> (a bounded least-recently-used map) and
  the cache keys: \<open>BuildResultCacheKey\<close> of \<open>cpp/src/result_cache_key.cpp\<close> and the
  length-prefixed parts (\<open>AppendPart\<close>, \<open>AppendKeyPart\<close>) that the engines build
  their prefix keys from. The list \<open>recency_\<close> holds the keys, most recent first; an
  \<open>Entry\<close>'s iterator into it is the position of the key, so \<open>splice\<close> to the front is
  moving the key to the front.
\<close>

section \<open>The least-recently-used map\<close>

record ResultCache =
  rc_capacity :: nat
  rc_recency :: "string list"
  rc_entries :: "(string \<times> string) list"
  rc_hits :: nat
  rc_misses :: nat

definition MakeResultCache :: "nat \<Rightarrow> error + ResultCache" where
  "MakeResultCache capacity =
     (if capacity = 0 then Inl (InvalidArgument ''result cache capacity must be positive'')
      else Inr \<lparr>rc_capacity = capacity, rc_recency = [], rc_entries = [], rc_hits = 0, rc_misses = 0\<rparr>)"

definition move_to_front :: "'a \<Rightarrow> 'a list \<Rightarrow> 'a list" where
  "move_to_front x xs = x # remove1 x xs"

definition ResultCache_Put :: "ResultCache \<Rightarrow> string \<Rightarrow> string \<Rightarrow> ResultCache" where
  "ResultCache_Put c key result =
     (if map_of (rc_entries c) key \<noteq> None
      then c\<lparr>rc_entries := AList.update key result (rc_entries c),
             rc_recency := move_to_front key (rc_recency c)\<rparr>
      else
        let c' = (if length (rc_entries c) = rc_capacity c
                  then c\<lparr>rc_entries := AList.delete (last (rc_recency c)) (rc_entries c),
                         rc_recency := butlast (rc_recency c)\<rparr>
                  else c)
        in c'\<lparr>rc_recency := key # rc_recency c', rc_entries := (key, result) # rc_entries c'\<rparr>)"

definition ResultCache_Get :: "ResultCache \<Rightarrow> string \<Rightarrow> ResultCache \<times> string option" where
  "ResultCache_Get c key =
     (case map_of (rc_entries c) key of
        None \<Rightarrow> (c\<lparr>rc_misses := add64 (rc_misses c) 1\<rparr>, None)
      | Some result \<Rightarrow>
          (c\<lparr>rc_hits := add64 (rc_hits c) 1, rc_recency := move_to_front key (rc_recency c)\<rparr>,
           Some result))"

definition rc_inv :: "ResultCache \<Rightarrow> bool" where
  "rc_inv c \<longleftrightarrow> 0 < rc_capacity c \<and> distinct (map fst (rc_entries c)) \<and> distinct (rc_recency c) \<and>
     set (rc_recency c) = fst ` set (rc_entries c) \<and> length (rc_entries c) \<le> rc_capacity c"

lemma set_move_to_front [simp]: "x \<in> set xs \<Longrightarrow> set (move_to_front x xs) = set xs"
  by (induction xs) (auto simp: move_to_front_def split: if_splits)

lemma distinct_move_to_front [simp]: "distinct xs \<Longrightarrow> distinct (move_to_front x xs)"
  by (simp add: move_to_front_def)

lemma MakeResultCache_inv: "MakeResultCache n = Inr c \<Longrightarrow> rc_inv c \<and> rc_entries c = []"
  by (auto simp: MakeResultCache_def rc_inv_def split: if_splits)

lemma ResultCache_Get_inv:
  assumes "rc_inv c" and "ResultCache_Get c k = (c', r)"
  shows "rc_inv c'" and "rc_entries c' = rc_entries c" and "rc_capacity c' = rc_capacity c"
    and "r = map_of (rc_entries c) k"
  using assms
  by (auto simp: ResultCache_Get_def rc_inv_def split: option.splits dest!: map_of_SomeD)
    (force simp: move_to_front_def split: if_splits)+

text \<open>The state after making room for a new key.\<close>

lemma rc_evict:
  assumes inv: "rc_inv c" and full: "length (rc_entries c) = rc_capacity c"
  defines "c' \<equiv> c\<lparr>rc_entries := AList.delete (last (rc_recency c)) (rc_entries c),
                    rc_recency := butlast (rc_recency c)\<rparr>"
  shows "rc_inv c'" and "length (rc_entries c') < rc_capacity c'"
proof -
  have "rc_entries c \<noteq> []" using inv full by (auto simp: rc_inv_def)
  then have ne: "rc_recency c \<noteq> []" using inv by (auto simp: rc_inv_def)
  then obtain ys y where ys: "rc_recency c = ys @ [y]" by (metis append_butlast_last_id)
  with inv have y: "y \<in> fst ` set (rc_entries c)" "y \<notin> set ys" "distinct ys"
    "set ys = fst ` set (rc_entries c) - {y}"
    by (auto simp: rc_inv_def)
  from y(1) obtain v where "map_of (rc_entries c) y = Some v"
    using map_of_eq_None_iff by (metis option.exhaust)
  then have len: "Suc (length (AList.delete y (rc_entries c))) = length (rc_entries c)"
    using inv by (intro length_delete_key) (auto simp: rc_inv_def)
  show "length (rc_entries c') < rc_capacity c'" using len full ys by (simp add: c'_def)
  show "rc_inv c'" using inv len ys y
    by (simp add: c'_def rc_inv_def AList.distinct_delete fst_set_delete)
qed

lemma ResultCache_Put_inv:
  assumes inv: "rc_inv c"
  shows "rc_inv (ResultCache_Put c k v)"
proof (cases "map_of (rc_entries c) k")
  case (Some w)
  then have "k \<in> fst ` set (rc_entries c)" by (metis map_of_eq_None_iff option.distinct(1))
  then show ?thesis using inv Some
    by (simp add: ResultCache_Put_def rc_inv_def AList.distinct_update fst_set_update
        length_update_key insert_absorb)
next
  case None
  then have k: "k \<notin> fst ` set (rc_entries c)" by (simp add: map_of_eq_None_iff)
  show ?thesis
  proof (cases "length (rc_entries c) = rc_capacity c")
    case True
    from rc_evict [OF inv True] k None True show ?thesis
      by (simp add: ResultCache_Put_def rc_inv_def fst_set_delete)
  next
    case False
    with inv k None show ?thesis by (auto simp: ResultCache_Put_def rc_inv_def)
  qed
qed

lemma ResultCache_Put_lookup: "map_of (rc_entries (ResultCache_Put c k v)) k = Some v"
  by (simp add: ResultCache_Put_def AList.update_conv' Let_def)

text \<open>Entries only come from puts: every entry after a put is the new one or an old one.\<close>

lemma ResultCache_Put_entries:
  "set (rc_entries (ResultCache_Put c k v)) \<subseteq> insert (k, v) (set (rc_entries c))"
proof -
  have "set (AList.update k v al) \<subseteq> insert (k, v) (set al)" for al :: "(string \<times> string) list"
    by (induction al) auto
  then show ?thesis by (auto simp: ResultCache_Put_def Let_def AList.delete_eq)
qed


section \<open>The contract of a least-recently-used cache\<close>

text \<open>
  The abstract cache is its contents, most recent first: a put moves the key to the front and
  drops what exceeds the capacity, a hit moves the key to the front. What a client may rely on
  is proved once from these laws.
\<close>

locale lru_cache =
  fixes put :: "'c \<Rightarrow> 'k \<Rightarrow> 'v \<Rightarrow> 'c"
    and get :: "'c \<Rightarrow> 'k \<Rightarrow> 'c \<times> 'v option"
    and view :: "'c \<Rightarrow> ('k \<times> 'v) list"
    and cap :: "'c \<Rightarrow> nat"
    and inv :: "'c \<Rightarrow> bool"
  assumes view_put: "inv c \<Longrightarrow> view (put c k v) = take (cap c) ((k, v) # filter (\<lambda>p. fst p \<noteq> k) (view c))"
    and get_result: "inv c \<Longrightarrow> snd (get c k) = map_of (view c) k"
    and view_get: "inv c \<Longrightarrow> view (fst (get c k)) =
      (case map_of (view c) k of None \<Rightarrow> view c | Some v \<Rightarrow> (k, v) # filter (\<lambda>p. fst p \<noteq> k) (view c))"
    and inv_put: "inv c \<Longrightarrow> inv (put c k v)"
    and inv_get: "inv c \<Longrightarrow> inv (fst (get c k))"
    and cap_put: "inv c \<Longrightarrow> cap (put c k v) = cap c"
    and cap_get: "inv c \<Longrightarrow> cap (fst (get c k)) = cap c"
    and cap_pos: "inv c \<Longrightarrow> 0 < cap c"
begin

lemma get_after_put: "inv c \<Longrightarrow> snd (get (put c k v) k) = Some v"
  using cap_pos [of c] by (cases "cap c") (simp_all add: get_result view_put inv_put)

lemma size_after_put: "inv c \<Longrightarrow> length (view (put c k v)) \<le> cap (put c k v)"
  by (simp add: view_put cap_put)

lemma put_all:
  assumes "inv c" and "\<forall>p \<in> set (view c). P p" and "P (k, v)"
  shows "\<forall>p \<in> set (view (put c k v)). P p"
  using assms by (auto simp: view_put dest!: in_set_takeD)

lemma get_all:
  assumes "inv c" and "\<forall>p \<in> set (view c). P p"
  shows "\<forall>p \<in> set (view (fst (get c k))). P p"
  using assms by (auto simp: view_get split: option.splits dest: map_of_SomeD)

lemma hit_in_view: "inv c \<Longrightarrow> snd (get c k) = Some v \<Longrightarrow> (k, v) \<in> set (view c)"
  by (simp add: get_result map_of_SomeD)

lemma put_keeps:
  assumes inv: "inv c" and view: "view c = A @ (k, v) # B" and A: "distinct (map fst A)"
    "fst ` set A \<subseteq> K" and K: "finite K" "card K < cap c" "k \<notin> K" "k' \<in> K"
  shows "\<exists>A' B'. view (put c k' v') = A' @ (k, v) # B' \<and> distinct (map fst A') \<and> fst ` set A' \<subseteq> K"
proof -
  let ?A = "(k', v') # filter (\<lambda>p. fst p \<noteq> k') A"
  let ?B = "filter (\<lambda>p. fst p \<noteq> k') B"
  from K have "k \<noteq> k'" by blast
  then have eq: "view (put c k' v') = take (cap c) (?A @ (k, v) # ?B)"
    by (simp add: view_put [OF inv] view)
  have dist: "distinct (map fst ?A)" using A(1) by (auto simp: distinct_map_filter)
  moreover have sub: "fst ` set ?A \<subseteq> K" using A(2) K by auto
  ultimately have "length ?A \<le> card K"
    using K(1) by (metis card_mono distinct_card length_map set_map)
  with K(2) obtain m where m: "cap c = length ?A + Suc m"
    by (metis Suc_diff_le add_Suc_right less_imp_Suc_add order_le_less_trans add.commute add_Suc)
  have "take (cap c) (?A @ (k, v) # ?B) = ?A @ (k, v) # take m ?B"
    unfolding m take_append by simp
  with eq dist sub show ?thesis by metis
qed

text \<open>A key put last survives puts of fewer than capacity many other keys.\<close>

lemma put_retained:
  assumes inv: "inv c" and K: "finite K" "card K < cap c" "k \<notin> K" "fst ` set kvs \<subseteq> K"
  shows "snd (get (fold (\<lambda>(k', v') c. put c k' v') kvs (put c k v)) k) = Some v"
proof -
  have "\<exists>A B. inv (fold (\<lambda>(k', v') c. put c k' v') kvs d)
      \<and> view (fold (\<lambda>(k', v') c. put c k' v') kvs d) = A @ (k, v) # B
      \<and> distinct (map fst A) \<and> fst ` set A \<subseteq> K"
    if "inv d" "cap d = cap c" "view d = A @ (k, v) # B" "distinct (map fst A)" "fst ` set A \<subseteq> K" for d A B
    using that K(4)
  proof (induction kvs arbitrary: d A B)
    case Nil
    then show ?case by auto
  next
    case (Cons kv kvs)
    obtain k' v' where kv: "kv = (k', v')" by fastforce
    with Cons.prems K put_keeps [of d A k v B K k' v'] obtain A' B' where
      "view (put d k' v') = A' @ (k, v) # B'" "distinct (map fst A')" "fst ` set A' \<subseteq> K" by auto
    with Cons kv show ?case by (simp add: inv_put cap_put)
  qed
  note step = this
  have first: "view (put c k v) = [] @ (k, v) # take (cap c - 1) (filter (\<lambda>p. fst p \<noteq> k) (view c))"
    using cap_pos [OF inv] by (cases "cap c") (simp_all add: view_put [OF inv])
  obtain A B where *: "inv (fold (\<lambda>(k', v') c. put c k' v') kvs (put c k v))"
    "view (fold (\<lambda>(k', v') c. put c k' v') kvs (put c k v)) = A @ (k, v) # B" "fst ` set A \<subseteq> K"
    using step [OF inv_put [OF inv] cap_put [OF inv] first] by auto
  then have "map_of A k = None" using K(3) by (auto simp: map_of_eq_None_iff)
  with * show ?thesis by (simp add: get_result map_add_def)
qed

end

text \<open>The concrete cache refines the abstract one.\<close>

definition rc_view :: "ResultCache \<Rightarrow> (string \<times> string) list" where
  "rc_view c = map (\<lambda>k. (k, the (map_of (rc_entries c) k))) (rc_recency c)"

lemma filter_remove1: "distinct xs \<Longrightarrow> remove1 x xs = filter (\<lambda>y. y \<noteq> x) xs"
  by (induction xs) (auto intro: sym [OF filter_True])

lemma rc_view_map_of: "rc_inv c \<Longrightarrow> map_of (rc_view c) k = map_of (rc_entries c) k"
proof (cases "k \<in> set (rc_recency c)")
  case True
  moreover assume "rc_inv c"
  ultimately obtain v where "map_of (rc_entries c) k = Some v"
    unfolding rc_inv_def by (metis map_of_eq_None_iff option.exhaust)
  with True show ?thesis by (simp add: rc_view_def map_of_map_restrict)
next
  case False
  moreover assume "rc_inv c"
  ultimately have "map_of (rc_entries c) k = None" by (simp add: rc_inv_def map_of_eq_None_iff)
  with False show ?thesis by (simp add: rc_view_def map_of_map_restrict)
qed

lemma rc_recency_length: "rc_inv c \<Longrightarrow> length (rc_recency c) = length (rc_entries c)"
  by (metis distinct_card length_map rc_inv_def set_map)

lemma rc_view_get:
  assumes inv: "rc_inv c"
  shows "rc_view (fst (ResultCache_Get c k)) =
    (case map_of (rc_view c) k of None \<Rightarrow> rc_view c
     | Some v \<Rightarrow> (k, v) # filter (\<lambda>p. fst p \<noteq> k) (rc_view c))"
proof (cases "map_of (rc_entries c) k")
  case None
  then show ?thesis using rc_view_map_of [OF inv, of k]
    by (simp add: ResultCache_Get_def) (simp add: rc_view_def)
next
  case (Some v)
  have "distinct (rc_recency c)" using inv by (simp add: rc_inv_def)
  then show ?thesis using Some rc_view_map_of [OF inv, of k]
    by (simp add: ResultCache_Get_def)
      (simp add: rc_view_def move_to_front_def filter_remove1 filter_map comp_def)
qed

lemma rc_view_put:
  assumes inv: "rc_inv c"
  shows "rc_view (ResultCache_Put c k v) =
    take (rc_capacity c) ((k, v) # filter (\<lambda>p. fst p \<noteq> k) (rc_view c))"
proof (cases "map_of (rc_entries c) k")
  case (Some w)
  then have k: "k \<in> set (rc_recency c)" using inv
    unfolding rc_inv_def by (metis map_of_eq_None_iff option.distinct(1))
  have d: "distinct (rc_recency c)" using inv by (simp add: rc_inv_def)
  have "Suc (length (filter (\<lambda>y. y \<noteq> k) (rc_recency c))) = length (rc_recency c)"
    using k d by (metis filter_remove1 length_Suc_conv One_nat_def Suc_pred length_pos_if_in_set length_remove1)
  moreover have "length (rc_recency c) \<le> rc_capacity c"
    using inv rc_recency_length by (simp add: rc_inv_def)
  ultimately have len: "Suc (length (filter (\<lambda>y. y \<noteq> k) (rc_recency c))) \<le> rc_capacity c" by simp
  have "rc_view (ResultCache_Put c k v) = (k, v) # filter (\<lambda>p. fst p \<noteq> k) (rc_view c)"
    using Some d by (auto simp: ResultCache_Put_def rc_view_def move_to_front_def filter_remove1
        filter_map comp_def AList.update_conv')
  moreover have "length (filter (\<lambda>p. fst p \<noteq> k) (rc_view c)) < rc_capacity c"
    using len by (simp add: rc_view_def filter_map comp_def)
  ultimately show ?thesis by (cases "rc_capacity c") simp_all
next
  case None
  then have k: "k \<notin> set (rc_recency c)" using inv by (simp add: rc_inv_def map_of_eq_None_iff)
  have pos: "0 < rc_capacity c" and le: "length (rc_recency c) \<le> rc_capacity c"
    using inv rc_recency_length [OF inv] by (simp_all add: rc_inv_def)
  have filt: "filter (\<lambda>p. fst p \<noteq> k) (rc_view c) = rc_view c"
    using k by (intro filter_True) (auto simp: rc_view_def)
  show ?thesis
  proof (cases "length (rc_entries c) = rc_capacity c")
    case True
    with rc_recency_length [OF inv] pos obtain ys y where ys: "rc_recency c = ys @ [y]"
      by (metis append_butlast_last_id length_greater_0_conv)
    have "y \<notin> set ys" using inv ys by (auto simp: rc_inv_def)
    with k ys None True have "rc_view (ResultCache_Put c k v) = (k, v) # butlast (rc_view c)"
      by (auto simp: ResultCache_Put_def rc_view_def AList.delete_conv')
    moreover have "length (rc_view c) = rc_capacity c"
      using rc_recency_length [OF inv] True by (simp add: rc_view_def)
    ultimately show ?thesis unfolding filt using pos
      by (cases "rc_capacity c") (simp_all add: butlast_conv_take)
  next
    case False
    with rc_recency_length [OF inv] le have "length (rc_view c) < rc_capacity c" by (simp add: rc_view_def)
    moreover have "rc_view (ResultCache_Put c k v) = (k, v) # rc_view c"
      using None False k by (auto simp: ResultCache_Put_def rc_view_def)
    ultimately show ?thesis unfolding filt by (cases "rc_capacity c") simp_all
  qed
qed

lemma rc_capacity_put [simp]: "rc_capacity (ResultCache_Put c k v) = rc_capacity c"
  by (simp add: ResultCache_Put_def Let_def)

interpretation rc: lru_cache ResultCache_Put ResultCache_Get rc_view rc_capacity rc_inv
proof unfold_locales
  fix c :: ResultCache and k v :: string
  assume inv: "rc_inv c"
  obtain c' r where g: "ResultCache_Get c k = (c', r)" by fastforce
  show "rc_view (ResultCache_Put c k v) = take (rc_capacity c) ((k, v) # filter (\<lambda>p. fst p \<noteq> k) (rc_view c))"
    by (rule rc_view_put [OF inv])
  show "snd (ResultCache_Get c k) = map_of (rc_view c) k"
    using ResultCache_Get_inv(4) [OF inv g] rc_view_map_of [OF inv] g by simp
  show "rc_view (fst (ResultCache_Get c k)) = (case map_of (rc_view c) k of None \<Rightarrow> rc_view c
      | Some v \<Rightarrow> (k, v) # filter (\<lambda>p. fst p \<noteq> k) (rc_view c))" by (rule rc_view_get [OF inv])
  show "rc_inv (ResultCache_Put c k v)" by (rule ResultCache_Put_inv [OF inv])
  show "rc_inv (fst (ResultCache_Get c k))" "rc_capacity (fst (ResultCache_Get c k)) = rc_capacity c"
    using ResultCache_Get_inv [OF inv g] g by simp_all
  show "rc_capacity (ResultCache_Put c k v) = rc_capacity c" by simp
  show "0 < rc_capacity c" using inv by (simp add: rc_inv_def)
qed


section \<open>Cache keys\<close>

record ResultCacheKeyParts =
  kp_model_revision :: string
  kp_tokenizer_revision :: string
  kp_prompt_hash :: string
  kp_max_output_tokens :: nat
  kp_temperature_micros :: nat
  kp_top_p_micros :: nat
  kp_seed :: nat

definition AppendPart :: "string \<Rightarrow> string \<Rightarrow> string" where
  "AppendPart output value = output @ to_string (length value) @ '':'' @ value @ ''|''"

definition BuildResultCacheKey :: "ResultCacheKeyParts \<Rightarrow> string" where
  "BuildResultCacheKey parts =
     (let key = [];
          key = AppendPart key (kp_model_revision parts);
          key = AppendPart key (kp_tokenizer_revision parts);
          key = AppendPart key (kp_prompt_hash parts);
          key = key @ to_string (kp_max_output_tokens parts) @ ''|'';
          key = key @ to_string (kp_temperature_micros parts) @ ''|'';
          key = key @ to_string (kp_top_p_micros parts) @ ''|'';
          key = key @ to_string (kp_seed parts)
      in key)"

text \<open>
  A length-prefixed part can be read back in one way, whatever follows it, so a concatenation
  of parts determines them.
\<close>

lemma part_inject:
  "to_string (length v) @ CHR '':'' # v @ CHR ''|'' # xs
     = to_string (length w) @ CHR '':'' # w @ CHR ''|'' # ys \<longleftrightarrow> v = w \<and> xs = ys"
  by (auto simp: to_string_sep_inject)

lemma AppendPart_inject: "AppendPart out v = AppendPart out w \<longleftrightarrow> v = w"
  using part_inject [of v "[]" w "[]"] by (simp add: AppendPart_def)

lemma AppendPart2_inject:
  "AppendPart (AppendPart [] a) b = AppendPart (AppendPart [] c) d \<longleftrightarrow> a = c \<and> b = d"
  using part_inject [of a "to_string (length b) @ CHR '':'' # b @ ''|''" c
      "to_string (length d) @ CHR '':'' # d @ ''|''"] part_inject [of b "[]" d "[]"]
  by (auto simp: AppendPart_def)

lemma BuildResultCacheKey_expand:
  "BuildResultCacheKey p =
     to_string (length (kp_model_revision p)) @ CHR '':'' # kp_model_revision p @ CHR ''|'' #
     to_string (length (kp_tokenizer_revision p)) @ CHR '':'' # kp_tokenizer_revision p @ CHR ''|'' #
     to_string (length (kp_prompt_hash p)) @ CHR '':'' # kp_prompt_hash p @ CHR ''|'' #
     to_string (kp_max_output_tokens p) @ CHR ''|'' # to_string (kp_temperature_micros p) @
     CHR ''|'' # to_string (kp_top_p_micros p) @ CHR ''|'' # to_string (kp_seed p)"
  by (simp add: BuildResultCacheKey_def AppendPart_def Let_def)

lemma BuildResultCacheKey_iff: "BuildResultCacheKey p = BuildResultCacheKey q \<longleftrightarrow> p = q"
  unfolding BuildResultCacheKey_expand part_inject
  by (auto simp: to_string_sep_inject intro!: ResultCacheKeyParts.equality)

section \<open>Properties\<close>

text \<open>
  The result-cache key is injective: two requests share a key only if they agree on model
  revision, tokenizer revision, prompt hash, output length, temperature, top-p and seed,
  whatever separators the strings contain.
\<close>

theorem BuildResultCacheKey_injective: "inj BuildResultCacheKey"
  by (rule injI) (simp add: BuildResultCacheKey_iff)

text \<open>
  C37: the result cache refines the abstract least-recently-used cache: with the contents read
  in recency order, \<open>Put\<close> places the pair in front, removes an older value of the key and
  drops what exceeds the capacity, and \<open>Get\<close> returns the stored value and moves a hit to
  the front.
\<close>

theorem ResultCache_refines_lru:
  assumes "rc_inv c"
  shows "rc_view (ResultCache_Put c k v) =
      take (rc_capacity c) ((k, v) # filter (\<lambda>p. fst p \<noteq> k) (rc_view c)) \<and>
    snd (ResultCache_Get c k) = map_of (rc_view c) k \<and>
    rc_view (fst (ResultCache_Get c k)) =
      (case map_of (rc_view c) k of None \<Rightarrow> rc_view c
       | Some w \<Rightarrow> (k, w) # filter (\<lambda>p. fst p \<noteq> k) (rc_view c)) \<and>
    rc_inv (ResultCache_Put c k v) \<and> rc_inv (fst (ResultCache_Get c k))"
  using rc.view_put [OF assms] rc.get_result [OF assms] rc.view_get [OF assms]
    rc.inv_put [OF assms] rc.inv_get [OF assms] by simp

definition rc_example :: ResultCache where
  "rc_example = \<lparr>rc_capacity = 2, rc_recency = [''b'', ''a''],
     rc_entries = [(''a'', ''1''), (''b'', ''2'')], rc_hits = 0, rc_misses = 0\<rparr>"

lemma rc_example_inv: "rc_inv rc_example"
  by (auto simp: rc_inv_def rc_example_def)

theorem ResultCache_refines_lru_witness:
  "rc_view (ResultCache_Put rc_example ''c'' ''3'') = [(''c'', ''3''), (''b'', ''2'')]"
proof -
  have v: "rc_view rc_example = [(''b'', ''2''), (''a'', ''1'')]" by code_simp
  show ?thesis using ResultCache_refines_lru [OF rc_example_inv, of "''c''" "''3''"]
    unfolding v by (simp add: rc_example_def)
qed

text \<open>
  A result stays available until at least as many other keys as the capacity have been
  stored: after a \<open>Put\<close>, any puts of fewer distinct other keys than the capacity leave
  the value readable.
\<close>

theorem ResultCache_retains:
  assumes "rc_inv c" and "k \<notin> fst ` set kvs" and "card (fst ` set kvs) < rc_capacity c"
  shows "snd (ResultCache_Get (fold (\<lambda>(k', v') c. ResultCache_Put c k' v') kvs (ResultCache_Put c k v)) k)
    = Some v"
  using rc.put_retained [OF assms(1), of "fst ` set kvs" k kvs v] assms(2,3) by simp

theorem ResultCache_retains_witness:
  "snd (ResultCache_Get (ResultCache_Put (ResultCache_Put rc_example ''c'' ''3'') ''d'' ''4'') ''c'') = Some ''3''"
  using ResultCache_retains [OF rc_example_inv, of "''c''" "[(''d'', ''4'')]" "''3''"]
  by (simp add: rc_example_def)

end
