(* ===== verification/EngineTypes.thy ===== *)
theory EngineTypes
  imports CostModel ExecutionStates ResultCaches
begin

text \<open>
  The data the two engines share: \<open>EngineConfig\<close>, \<open>EngineRequest\<close> and
  \<open>EngineResult\<close> of \<open>deterministic_engine.hpp\<close>, block arithmetic, the result key and
  the simulated output, and the queue of \<open>cpp/src/request_queue.cpp\<close>.
\<close>

section \<open>Configuration, requests, results\<close>

record EngineConfig =
  kv_blocks :: nat
  kv_block_size_tokens :: nat
  max_batch_sequences :: nat
  max_batch_tokens :: nat
  max_prefill_sequences_per_iteration :: nat
  result_cache_entries :: nat
  prefix_cache_entries :: nat
  seed :: nat
  cost_model :: CostModelConfig

record EngineRequest =
  request_id :: string
  model_revision :: string
  tokenizer_revision :: string
  prompt_hash :: string
  prompt_block_hashes :: "string list"
  prompt_tokens :: nat
  max_output_tokens :: nat
  priority :: nat
  sampling_seed :: nat
  temperature_micros :: nat
  top_p_micros :: nat
  arrival_time :: int

record EngineResult =
  res_request_id :: string
  res_output :: string
  completed_at :: int
  first_token_at :: int
  result_cache_hit :: bool
  prefix_cache_hit :: bool
  succeeded :: bool
  failure_reason :: string

text \<open>The member initialisers of \<open>EngineResult\<close>.\<close>

definition DefaultResult :: "string \<Rightarrow> EngineResult" where
  "DefaultResult rid = \<lparr>res_request_id = rid, res_output = [], completed_at = 0, first_token_at = 0,
     result_cache_hit = False, prefix_cache_hit = False, succeeded = True, failure_reason = []\<rparr>"

text \<open>The ranges of the C++ types of a request's counters.\<close>

definition request_ok :: "EngineRequest \<Rightarrow> bool" where
  "request_ok r \<longleftrightarrow> prompt_tokens r < u64 \<and> max_output_tokens r < u64"

definition BlocksForTokens :: "nat \<Rightarrow> nat \<Rightarrow> nat" where
  "BlocksForTokens tokens block_size =
     tokens div block_size + (if tokens mod block_size \<noteq> 0 then 1 else 0)"

definition ResultKey :: "EngineRequest \<Rightarrow> string" where
  "ResultKey r = BuildResultCacheKey
     \<lparr>kp_model_revision = model_revision r, kp_tokenizer_revision = tokenizer_revision r,
      kp_prompt_hash = prompt_hash r, kp_max_output_tokens = max_output_tokens r,
      kp_temperature_micros = temperature_micros r, kp_top_p_micros = top_p_micros r,
      kp_seed = sampling_seed r\<rparr>"

definition SimulatedOutput :: "EngineRequest \<Rightarrow> string" where
  "SimulatedOutput r = ''simulated:'' @ model_revision r @ '':'' @ prompt_hash r @ '':'' @
     to_string (max_output_tokens r) @ '':'' @ to_string (sampling_seed r)"

lemma BlocksForTokens_bounds:
  assumes "0 < b"
  shows "t \<le> BlocksForTokens t b * b" and "BlocksForTokens t b * b < t + b"
    and "BlocksForTokens t b \<le> t"
proof -
  obtain q m where qm: "q = t div b" "m = t mod b" by blast
  then have t: "t = b * q + m" and m: "m < b" using assms by simp_all
  have B: "BlocksForTokens t b = q + (if m \<noteq> 0 then 1 else 0)"
    unfolding BlocksForTokens_def qm by simp
  show "t \<le> BlocksForTokens t b * b" using t m unfolding B by (auto simp: algebra_simps)
  show lt: "BlocksForTokens t b * b < t + b" using t m assms unfolding B by (auto simp: algebra_simps)
  show "BlocksForTokens t b \<le> t"
  proof (cases "t mod b = 0")
    case False
    then have "t \<noteq> 0" by (metis mod_0)
    show ?thesis
    proof (cases "b = 1")
      case False
      with assms \<open>t \<noteq> 0\<close> have "t div b < t" by (intro div_less_dividend) auto
      then show ?thesis by (simp add: BlocksForTokens_def)
    qed (use False in simp)
  qed (simp add: BlocksForTokens_def)
qed

lemma BlocksForTokens_mono: "s \<le> t \<Longrightarrow> BlocksForTokens s b \<le> BlocksForTokens t b"
proof (cases "b = 0")
  case False
  then have b: "0 < b" by simp
  assume "s \<le> t"
  have "BlocksForTokens s b * b < s + b" by (rule BlocksForTokens_bounds [OF b])
  also have "\<dots> \<le> (BlocksForTokens t b + 1) * b"
    using BlocksForTokens_bounds(1) [OF b, of t] \<open>s \<le> t\<close> by simp
  finally show ?thesis by (metis Suc_eq_plus1 less_Suc_eq_le mult_less_cancel2)
qed (simp add: BlocksForTokens_def)

lemma BlocksForTokens_less: "0 < b \<Longrightarrow> m < BlocksForTokens t b \<Longrightarrow> m * b < t"
proof -
  assume b: "0 < b" and "m < BlocksForTokens t b"
  then have "(m + 1) * b \<le> BlocksForTokens t b * b" by (intro mult_right_mono) auto
  with BlocksForTokens_bounds(2) [OF b, of t] show ?thesis by simp
qed

text \<open>The output is a function of what the key holds.\<close>

lemma ResultKey_output: "ResultKey r = ResultKey q \<Longrightarrow> SimulatedOutput r = SimulatedOutput q"
  by (simp add: ResultKey_def BuildResultCacheKey_iff SimulatedOutput_def)

section \<open>Outcomes and the result cache\<close>

text \<open>What a result says: the request's id with the reason it was refused for, or its output.\<close>

type_synonym outcome = "string \<times> (string + string)"

definition result_outcome :: "EngineResult \<Rightarrow> outcome" where
  "result_outcome x = (res_request_id x, if succeeded x then Inr (res_output x) else Inl (failure_reason x))"

text \<open>A result cache is sound when every entry is the simulated output of a request under its key.\<close>

definition output_entry :: "string \<times> string \<Rightarrow> bool" where
  "output_entry p \<longleftrightarrow> (\<exists>r. p = (ResultKey r, SimulatedOutput r))"

definition result_cache_sound :: "ResultCache \<Rightarrow> bool" where
  "result_cache_sound c \<longleftrightarrow> rc_inv c \<and> (\<forall>p \<in> set (rc_view c). output_entry p)"

lemma result_cache_get:
  assumes "result_cache_sound c" and "ResultCache_Get c (ResultKey r) = (c', v)"
  shows "result_cache_sound c'" and "v = Some out \<Longrightarrow> out = SimulatedOutput r"
proof -
  have inv: "rc_inv c" "\<forall>p \<in> set (rc_view c). output_entry p"
    using assms(1) by (simp_all add: result_cache_sound_def)
  show "result_cache_sound c'"
    using rc.get_all [OF inv, of "ResultKey r"] rc.inv_get [OF inv(1), of "ResultKey r"] assms(2)
    by (simp add: result_cache_sound_def)
  show "out = SimulatedOutput r" if "v = Some out"
  proof -
    have "(ResultKey r, out) \<in> set (rc_view c)"
      using rc.hit_in_view [OF inv(1), of "ResultKey r" out] that assms(2) by simp
    with inv(2) obtain q where "ResultKey r = ResultKey q" "out = SimulatedOutput q"
      by (auto simp: output_entry_def)
    then show ?thesis using ResultKey_output by metis
  qed
qed

lemma result_cache_put:
  assumes "result_cache_sound c"
  shows "result_cache_sound (ResultCache_Put c (ResultKey r) (SimulatedOutput r))"
proof -
  have inv: "rc_inv c" "\<forall>p \<in> set (rc_view c). output_entry p"
    using assms by (simp_all add: result_cache_sound_def)
  have "output_entry (ResultKey r, SimulatedOutput r)" by (auto simp: output_entry_def)
  from rc.put_all [OF inv this] rc.inv_put [OF inv(1)] show ?thesis by (simp add: result_cache_sound_def)
qed

section \<open>The request queue\<close>

text \<open>
  \<open>std::priority_queue\<close> with the comparator \<open>Later\<close>: its top is an element that no
  other precedes. The model keeps the elements in order. Elements that \<open>Later\<close> does not
  separate (same arrival time and same request id) leave in the order they came; the C++
  container leaves that open.
\<close>

definition Later :: "EngineRequest \<Rightarrow> EngineRequest \<Rightarrow> bool" where
  "Later lhs rhs =
     (if arrival_time lhs \<noteq> arrival_time rhs then arrival_time lhs > arrival_time rhs
      else request_id lhs > request_id rhs)"

fun RequestQueue_Push :: "EngineRequest list \<Rightarrow> EngineRequest \<Rightarrow> EngineRequest list" where
  "RequestQueue_Push [] r = [r]"
| "RequestQueue_Push (x # xs) r = (if Later x r then r # x # xs else x # RequestQueue_Push xs r)"

definition PopReady :: "EngineRequest list \<Rightarrow> int \<Rightarrow> EngineRequest list \<times> EngineRequest option" where
  "PopReady queue now =
     (case queue of
        [] \<Rightarrow> (queue, None)
      | first # rest \<Rightarrow> if arrival_time first > now then (queue, None) else (rest, Some first))"

definition NextArrival :: "EngineRequest list \<Rightarrow> int option" where
  "NextArrival queue = (case queue of [] \<Rightarrow> None | first # _ \<Rightarrow> Some (arrival_time first))"

text \<open>The order of service: arrival time, then request id.\<close>

definition service_key :: "EngineRequest \<Rightarrow> int \<times> string" where
  "service_key r = (arrival_time r, request_id r)"

lemma Later_key: "Later a b \<longleftrightarrow> service_key b < service_key a"
  by (auto simp: Later_def service_key_def less_prod_def)

lemma mset_Push [simp]: "mset (RequestQueue_Push q r) = add_mset r (mset q)"
  by (induction q r rule: RequestQueue_Push.induct) auto

lemma set_Push [simp]: "set (RequestQueue_Push q r) = insert r (set q)"
  by (metis mset_Push set_mset_add_mset_insert set_mset_mset)

lemma length_Push [simp]: "length (RequestQueue_Push q r) = Suc (length q)"
  by (metis mset_Push size_add_mset size_mset)

lemma sorted_Push:
  "sorted (map service_key q) \<Longrightarrow> sorted (map service_key (RequestQueue_Push q r))"
  by (induction q r rule: RequestQueue_Push.induct) (auto simp: Later_key intro: order.strict_implies_order)

text \<open>
  What the engine relies on: pushing adds one request, popping takes the earliest one if it has
  arrived, nothing is lost or made up.
\<close>

locale arrival_queue =
  fixes push :: "'q \<Rightarrow> 'r \<Rightarrow> 'q"
    and pop :: "'q \<Rightarrow> int \<Rightarrow> 'q \<times> 'r option"
    and next_arrival :: "'q \<Rightarrow> int option"
    and contents :: "'q \<Rightarrow> 'r multiset"
    and key :: "'r \<Rightarrow> 'k :: linorder"
    and arrival :: "'r \<Rightarrow> int"
    and inv :: "'q \<Rightarrow> bool"
  assumes push_contents: "contents (push q r) = add_mset r (contents q)"
    and push_inv: "inv q \<Longrightarrow> inv (push q r)"
    and pop_inv: "inv q \<Longrightarrow> inv (fst (pop q now))"
    and pop_Some: "pop q now = (q', Some r) \<Longrightarrow> contents q = add_mset r (contents q') \<and> arrival r \<le> now"
    and pop_min: "inv q \<Longrightarrow> pop q now = (q', Some r) \<Longrightarrow> x \<in># contents q \<Longrightarrow> key r \<le> key x"
    and pop_None: "pop q now = (q', None) \<Longrightarrow> q' = q"
    and pop_None_iff: "inv q \<Longrightarrow> snd (pop q now) = None \<longleftrightarrow> (\<forall>x. x \<in># contents q \<longrightarrow> now < arrival x)"
    and next_arrival_None: "next_arrival q = None \<longleftrightarrow> contents q = {#}"
    and next_arrival_min: "inv q \<Longrightarrow> next_arrival q = Some t \<Longrightarrow>
      (\<exists>x. x \<in># contents q \<and> arrival x = t) \<and> (\<forall>x. x \<in># contents q \<longrightarrow> t \<le> arrival x)"
begin

lemma push_all_contents: "contents (fold (\<lambda>r q. push q r) rs q) = mset rs + contents q"
  by (induction rs arbitrary: q) (auto simp: push_contents)

lemma push_all_inv: "inv q \<Longrightarrow> inv (fold (\<lambda>r q. push q r) rs q)"
  by (induction rs arbitrary: q) (auto simp: push_inv)

text \<open>Advancing the clock to the next arrival makes a request ready.\<close>

lemma pop_at_next_arrival:
  assumes "inv q" and "next_arrival q = Some t" and "t \<le> now"
  shows "\<exists>q' r. pop q now = (q', Some r)"
proof -
  from next_arrival_min [OF assms(1,2)] obtain x where "x \<in># contents q" "arrival x = t" by blast
  then have "snd (pop q now) \<noteq> None" using assms(3) pop_None_iff [OF assms(1), of now] by (metis not_le)
  then show ?thesis by (metis option.exhaust prod.collapse)
qed

end

definition queue_inv :: "EngineRequest list \<Rightarrow> bool" where
  "queue_inv q \<longleftrightarrow> sorted (map service_key q)"

lemma queue_inv_Cons:
  "queue_inv (x # q) \<longleftrightarrow> (\<forall>y \<in> set q. service_key x \<le> service_key y) \<and> queue_inv q"
  by (simp add: queue_inv_def)

lemma service_key_arrival: "service_key a \<le> service_key b \<Longrightarrow> arrival_time a \<le> arrival_time b"
  by (auto simp: service_key_def less_eq_prod_def)

interpretation rq: arrival_queue RequestQueue_Push PopReady NextArrival mset service_key arrival_time queue_inv
proof unfold_locales
  fix q q' :: "EngineRequest list" and r x now t
  show "mset (RequestQueue_Push q r) = add_mset r (mset q)" by simp
  show "queue_inv q \<Longrightarrow> queue_inv (RequestQueue_Push q r)" unfolding queue_inv_def by (rule sorted_Push)
  show "queue_inv q \<Longrightarrow> queue_inv (fst (PopReady q now))"
    by (auto simp: PopReady_def queue_inv_Cons split: list.splits)
  show "PopReady q now = (q', Some r) \<Longrightarrow> mset q = add_mset r (mset q') \<and> arrival_time r \<le> now"
    by (auto simp: PopReady_def split: list.splits if_splits)
  show "queue_inv q \<Longrightarrow> PopReady q now = (q', Some r) \<Longrightarrow> x \<in># mset q \<Longrightarrow> service_key r \<le> service_key x"
    by (auto simp: PopReady_def queue_inv_Cons split: list.splits if_splits)
  show "PopReady q now = (q', None) \<Longrightarrow> q' = q"
    by (auto simp: PopReady_def split: list.splits if_splits)
  show "queue_inv q \<Longrightarrow> (snd (PopReady q now) = None) = (\<forall>x. x \<in># mset q \<longrightarrow> now < arrival_time x)"
    by (auto simp: PopReady_def queue_inv_Cons split: list.splits dest!: service_key_arrival)
      (fastforce dest: service_key_arrival)+
  show "(NextArrival q = None) = (mset q = {#})" by (simp add: NextArrival_def split: list.splits)
  show "queue_inv q \<Longrightarrow> NextArrival q = Some t \<Longrightarrow>
      (\<exists>x. x \<in># mset q \<and> arrival_time x = t) \<and> (\<forall>x. x \<in># mset q \<longrightarrow> t \<le> arrival_time x)"
    by (auto simp: NextArrival_def queue_inv_Cons split: list.splits dest: service_key_arrival)
qed

section \<open>Properties\<close>

text \<open>
  The queue is deterministic: pushing the same requests in any order gives the same queue,
  provided no two agree on both arrival time and request id.
\<close>

theorem queue_push_order_irrelevant:
  assumes "mset rs = mset qs" and "distinct (map service_key rs)"
  shows "fold (\<lambda>r q. RequestQueue_Push q r) rs [] = fold (\<lambda>r q. RequestQueue_Push q r) qs []"
proof -
  let ?p = "\<lambda>rs. fold (\<lambda>r q. RequestQueue_Push q r) rs []"
  have m: "mset (?p rs) = mset rs" "mset (?p qs) = mset rs"
    using rq.push_all_contents [of rs "[]"] rq.push_all_contents [of qs "[]"] assms(1) by simp_all
  have s: "sorted (map service_key (?p rs))" "sorted (map service_key (?p qs))"
    using rq.push_all_inv [of "[]"] by (simp_all add: queue_inv_def)
  have "map service_key (?p rs) = map service_key (?p qs)"
    using m s by (metis mset_map properties_for_sort)
  moreover have "inj_on service_key (set (?p rs) \<union> set (?p qs))"
    using assms(2) m by (metis distinct_map mset_eq_setD sup.idem)
  ultimately show ?thesis by (rule map_inj_on)
qed

definition req_example :: "string \<Rightarrow> int \<Rightarrow> EngineRequest" where
  "req_example rid t = \<lparr>request_id = rid, model_revision = ''m'', tokenizer_revision = ''t'',
     prompt_hash = ''p'', prompt_block_hashes = [], prompt_tokens = 16, max_output_tokens = 2,
     priority = 0, sampling_seed = 0, temperature_micros = 0, top_p_micros = 1000000, arrival_time = t\<rparr>"

theorem queue_push_order_irrelevant_witness:
  "fold (\<lambda>r q. RequestQueue_Push q r) [req_example ''b'' 5, req_example ''a'' 5] [] =
   fold (\<lambda>r q. RequestQueue_Push q r) [req_example ''a'' 5, req_example ''b'' 5] []"
  by (rule queue_push_order_irrelevant) (simp_all add: service_key_def req_example_def add_mset_commute)

end
