(* ===== verification/ContinuousEngines.thy ===== *)
theory ContinuousEngines
  imports RadixCache EngineTypes
begin

text \<open>
  The continuous-batching engine of \<open>cpp/src/continuous_engine.cpp\<close>: admission of ready
  requests with prefix sharing and eviction, block growth with preemption, one decode step per
  iteration, completion, and the loop that runs until nothing is outstanding. The engine object
  is a record that every method takes and returns; the loops are recursions, terminating ones as
  functions and \<open>RunUntilIdle\<close> as a partial function whose result \<open>None\<close> means that
  the loop does not end.
\<close>

section \<open>State\<close>

record ContinuousEngineStats =
  iterations :: nat
  admissions :: nat
  preemptions :: nat
  peak_active_sequences :: nat
  prefix_cache_requests :: nat
  prefix_cache_request_hits :: nat
  result_cache_requests :: nat
  result_cache_request_hits :: nat
  peak_pending_requests :: nat
  simulated_busy_time :: int

record ActiveRequest =
  ar_request :: EngineRequest
  ar_state :: ExecutionState
  generated_tokens :: nat
  ar_prefix_cache_hit :: bool
  ar_first_token_at :: int

record ContinuousEngine =
  ce_config :: EngineConfig
  ce_clock :: int
  ce_cost_model :: DeterministicCostModel
  ce_kv_cache :: PagedKvCache
  ce_prefix_cache :: RadixPrefixCache
  ce_result_cache :: ResultCache
  ce_pending :: "EngineRequest list"
  ce_active :: "ActiveRequest list"
  ce_results :: "EngineResult list"
  ce_stats :: ContinuousEngineStats
  ce_preempted :: "string set"
  ce_prefix_accounted :: "string set"

definition zero_stats :: ContinuousEngineStats where
  "zero_stats = \<lparr>iterations = 0, admissions = 0, preemptions = 0, peak_active_sequences = 0,
     prefix_cache_requests = 0, prefix_cache_request_hits = 0, result_cache_requests = 0,
     result_cache_request_hits = 0, peak_pending_requests = 0, simulated_busy_time = 0\<rparr>"

text \<open>The constructor: the members in their order, each of which may throw, then its body.\<close>

definition MakeContinuousEngine :: "draw \<Rightarrow> EngineConfig \<Rightarrow> error + ContinuousEngine" where
  "MakeContinuousEngine draw config =
     (case MakeCostModel draw (seed config) (cost_model config) of Inl err \<Rightarrow> Inl err | Inr cm \<Rightarrow>
      case MakePagedKvCache (kv_blocks config) (kv_block_size_tokens config) of Inl err \<Rightarrow> Inl err | Inr kv \<Rightarrow>
      case MakeRadixPrefixCache (prefix_cache_entries config) of Inl err \<Rightarrow> Inl err | Inr rx \<Rightarrow>
      case MakeResultCache (result_cache_entries config) of Inl err \<Rightarrow> Inl err | Inr rc \<Rightarrow>
      if max_batch_sequences config = 0 \<or> max_batch_tokens config = 0
         \<or> max_prefill_sequences_per_iteration config = 0
      then Inl (InvalidArgument ''continuous batching limits must be positive'')
      else Inr \<lparr>ce_config = config, ce_clock = 0, ce_cost_model = cm, ce_kv_cache = kv,
                ce_prefix_cache = rx, ce_result_cache = rc, ce_pending = [], ce_active = [],
                ce_results = [], ce_stats = zero_stats, ce_preempted = {}, ce_prefix_accounted = {}\<rparr>)"

definition Submit :: "ContinuousEngine \<Rightarrow> EngineRequest \<Rightarrow> ContinuousEngine" where
  "Submit e request =
     (let pending = RequestQueue_Push (ce_pending e) request
      in e\<lparr>ce_pending := pending,
           ce_stats := (ce_stats e)\<lparr>peak_pending_requests :=
             max (peak_pending_requests (ce_stats e)) (length pending)\<rparr>\<rparr>)"

section \<open>Admission\<close>

definition ImpossibleReason :: "ContinuousEngine \<Rightarrow> EngineRequest \<Rightarrow> string option" where
  "ImpossibleReason e r =
     (if prompt_tokens r > (u64 - 1) - max_output_tokens r then Some ''token_count_overflow''
      else if prompt_tokens r > max_batch_tokens (ce_config e) then Some ''exceeds_max_batch_tokens''
      else if BlocksForTokens (prompt_tokens r + max_output_tokens r) (kv_block_size_tokens (ce_config e))
                > total_blocks (ce_kv_cache e)
      then Some ''exceeds_kv_capacity''
      else None)"

definition PrefixNamespace :: "EngineRequest \<Rightarrow> string" where
  "PrefixNamespace r = AppendPart (AppendPart [] (model_revision r)) (tokenizer_revision r)"

text \<open>A lookup that is skipped when there is nothing to look up.\<close>

definition longest_match ::
    "RadixPrefixCache \<Rightarrow> EngineRequest \<Rightarrow> string list \<Rightarrow> RadixPrefixCache \<times> Match option" where
  "longest_match rx candidate hashes =
     (if hashes = [] then (rx, None) else GetLongest rx (PrefixNamespace candidate) hashes)"

lemma length_pins_walk: "walk ch hs c = (ch', bs, c') \<Longrightarrow> length (pins_of ch') = length (pins_of ch)"
proof (induction ch hs c arbitrary: ch' bs c' rule: walk.induct)
  case (2 ch h hs c)
  show ?case
  proof (cases "map_of ch h")
    case (Some n)
    obtain b pin la sub where n: "n = Node b pin la sub" by (cases n)
    obtain sub' bs' c1 where w: "walk sub hs (add64 c 1) = (sub', bs', c1)" using prod_cases3 by blast
    from "2.prems" Some n w have "ch' = AList.update h (Node b pin (add64 c 1) sub') ch"
      by (auto simp: Let_def)
    with "2.IH" [OF Some n refl w] length_pins_update [OF Some [unfolded n], of b pin "add64 c 1" sub']
    show ?thesis by simp
  qed (use 2 in simp)
qed simp

lemma length_pins_longest_match:
  "longest_match rx r hs = (rx', m) \<Longrightarrow> length (root_pins (rx_roots rx')) = length (root_pins (rx_roots rx))"
proof -
  assume l: "longest_match rx r hs = (rx', m)"
  show ?thesis
  proof (cases "hs = [] \<or> map_of (rx_roots rx) (PrefixNamespace r) = None")
    case False
    then obtain ch where ch: "map_of (rx_roots rx) (PrefixNamespace r) = Some ch" by blast
    obtain ch' bs c' where w: "walk ch hs (rx_access_clock rx) = (ch', bs, c')" using prod_cases3 by blast
    have "rx_roots rx' = AList.update (PrefixNamespace r) ch' (rx_roots rx)"
      using l False ch w by (auto simp: longest_match_def GetLongest_def)
    with root_pins_update [OF ch, of ch'] length_pins_walk [OF w] show ?thesis by simp
  qed (use l in \<open>auto simp: longest_match_def GetLongest_def split: if_splits\<close>)
qed

text \<open>The loop that allocates, evicting cached prefixes and matching again while blocks are short.\<close>

function allocate_evicting ::
    "RadixPrefixCache \<Rightarrow> PagedKvCache \<Rightarrow> EngineRequest \<Rightarrow> nat \<Rightarrow> string list \<Rightarrow> Match option
       \<Rightarrow> RadixPrefixCache \<times> PagedKvCache \<times> Match option \<times> AllocationStatus" where
  "allocate_evicting rx kv candidate prompt_blocks hashes match =
     (let shared = (case match of None \<Rightarrow> [] | Some m \<Rightarrow> m_blocks m)
      in case Allocate kv (request_id candidate) prompt_blocks shared of
           (kv1, status) \<Rightarrow>
             if status \<noteq> kInsufficientBlocks then (rx, kv1, match, status)
             else (case EvictOldest rx kv1 of
                     (rx2, kv2, evicted) \<Rightarrow>
                       if \<not> evicted then (rx2, kv2, match, status)
                       else (case longest_match rx2 candidate hashes of
                               (rx3, match') \<Rightarrow> allocate_evicting rx3 kv2 candidate prompt_blocks hashes match')))"
  by pat_completeness auto
termination
  by (relation "measure (\<lambda>(rx, _). length (root_pins (rx_roots rx)))")
    (auto dest!: EvictOldest_shrinks [OF sym] length_pins_longest_match [OF sym])

declare allocate_evicting.simps [simp del]

text \<open>The engine and the locals of \<open>AdmitReady\<close>'s loop.\<close>

record AdmitState =
  as_engine :: ContinuousEngine
  prefill_budget :: nat
  prefill_sequences :: nat
  deferred :: "EngineRequest list"
  admitted_any :: bool

definition defer_candidate :: "AdmitState \<Rightarrow> EngineRequest \<Rightarrow> AdmitState" where
  "defer_candidate st candidate = st\<lparr>deferred := deferred st @ [candidate]\<rparr>"

text \<open>
  What happens once blocks are allocated, in four parts: the prompt tokens that no cached block
  covers, the caching of the prompt's blocks, the counters, and the transition as a whole.
\<close>

definition uncached_tokens :: "ContinuousEngine \<Rightarrow> EngineRequest \<Rightarrow> nat \<Rightarrow> Match option \<Rightarrow> nat" where
  "uncached_tokens e candidate prompt_blocks match =
     (let matched_blocks = (case match of None \<Rightarrow> 0 | Some m \<Rightarrow> matched_block_count m);
          cached_tokens = (if matched_blocks \<ge> prompt_blocks then prompt_tokens candidate
                           else mul64 matched_blocks (kv_block_size_tokens (ce_config e)))
      in sub64 (prompt_tokens candidate) cached_tokens)"

definition cache_prompt ::
    "ContinuousEngine \<Rightarrow> EngineRequest \<Rightarrow> nat \<Rightarrow> string list \<Rightarrow> RadixPrefixCache \<times> PagedKvCache" where
  "cache_prompt e candidate prompt_blocks hashes =
     (if prompt_block_hashes candidate \<noteq> []
      then (let blocks = BlocksFor (ce_kv_cache e) (request_id candidate)
            in case PutBlockPrefixes (ce_prefix_cache e) (ce_kv_cache e) (PrefixNamespace candidate) hashes
                      (take (min (length blocks) prompt_blocks) blocks) of
                 (rx, kv, inserted) \<Rightarrow> (rx, kv))
      else (ce_prefix_cache e, ce_kv_cache e))"

definition admission_stats ::
    "ContinuousEngine \<Rightarrow> EngineRequest \<Rightarrow> string list \<Rightarrow> Match option \<Rightarrow> int \<Rightarrow> ContinuousEngineStats" where
  "admission_stats e candidate hashes match prefill_cost =
     (let s = ce_stats e;
          account = hashes \<noteq> [] \<and> request_id candidate \<notin> ce_prefix_accounted e
      in s\<lparr>admissions := add64 (admissions s) 1,
           peak_active_sequences := max (peak_active_sequences s) (length (ce_active e) + 1),
           prefix_cache_requests :=
             (if account then add64 (prefix_cache_requests s) 1 else prefix_cache_requests s),
           prefix_cache_request_hits :=
             (if account \<and> match \<noteq> None then add64 (prefix_cache_request_hits s) 1
              else prefix_cache_request_hits s),
           simulated_busy_time := simulated_busy_time s + prefill_cost\<rparr>)"

definition start_candidate :: "AdmitState \<Rightarrow> EngineRequest \<Rightarrow> nat \<Rightarrow> string list \<Rightarrow> Match option \<Rightarrow> AdmitState" where
  "start_candidate st candidate prompt_blocks hashes match =
     (let e = as_engine st
      in case Prefill (ce_cost_model e) (uncached_tokens e candidate prompt_blocks match) of
           (cm, prefill_cost) \<Rightarrow>
         case cache_prompt e candidate prompt_blocks hashes of
           (rx, kv) \<Rightarrow>
             (let state = fst (TransitionTo (fst (TransitionTo kWaitingAdmission kPrefill)) kDecode)
              in st\<lparr>as_engine := e\<lparr>ce_clock := Advance (ce_clock e) prefill_cost, ce_cost_model := cm,
                      ce_kv_cache := kv, ce_prefix_cache := rx,
                      ce_active := ce_active e @ [\<lparr>ar_request = candidate, ar_state = state,
                        generated_tokens = 0, ar_prefix_cache_hit = (match \<noteq> None), ar_first_token_at = 0\<rparr>],
                      ce_stats := admission_stats e candidate hashes match prefill_cost,
                      ce_prefix_accounted := (if hashes \<noteq> []
                        then insert (request_id candidate) (ce_prefix_accounted e) else ce_prefix_accounted e)\<rparr>,
                    prefill_budget := add64 (prefill_budget st) (prompt_tokens candidate),
                    prefill_sequences := add64 (prefill_sequences st) 1,
                    admitted_any := True\<rparr>))"

text \<open>
  From the lookup in the prefix cache on. The match and the allocation have changed the caches
  whether or not the candidate is admitted.
\<close>

definition place_candidate :: "AdmitState \<Rightarrow> EngineRequest \<Rightarrow> AdmitState" where
  "place_candidate st candidate =
     (let e = as_engine st;
          prompt_blocks = BlocksForTokens (prompt_tokens candidate) (kv_block_size_tokens (ce_config e));
          hashes = take (min (length (prompt_block_hashes candidate)) prompt_blocks)
                     (prompt_block_hashes candidate);
          (rx0, match0) = longest_match (ce_prefix_cache e) candidate hashes
      in case allocate_evicting rx0 (ce_kv_cache e) candidate prompt_blocks hashes match0 of
           (rx, kv, match, status) \<Rightarrow>
             (let st' = st\<lparr>as_engine := e\<lparr>ce_kv_cache := kv, ce_prefix_cache := rx\<rparr>\<rparr>
              in if status \<noteq> kAllocated then defer_candidate st' candidate
                 else start_candidate st' candidate prompt_blocks hashes match))"

definition cached_result :: "AdmitState \<Rightarrow> EngineRequest \<Rightarrow> AdmitState \<times> bool" where
  "cached_result st candidate =
     (let e = as_engine st;
          s = (ce_stats e)\<lparr>result_cache_requests := add64 (result_cache_requests (ce_stats e)) 1\<rparr>
      in case ResultCache_Get (ce_result_cache e) (ResultKey candidate) of
           (rc, None) \<Rightarrow> (st\<lparr>as_engine := e\<lparr>ce_result_cache := rc, ce_stats := s\<rparr>\<rparr>, False)
         | (rc, Some cached) \<Rightarrow>
             (st\<lparr>as_engine := e\<lparr>ce_result_cache := rc,
                   ce_results := ce_results e @ [(DefaultResult (request_id candidate))
                     \<lparr>res_output := cached, completed_at := ce_clock e, first_token_at := ce_clock e,
                      result_cache_hit := True\<rparr>],
                   ce_stats := s\<lparr>result_cache_request_hits := add64 (result_cache_request_hits s) 1\<rparr>\<rparr>,
                 admitted_any := True\<rparr>, True))"

text \<open>One candidate; the boolean tells whether the loop goes on.\<close>

definition admit_candidate :: "AdmitState \<Rightarrow> EngineRequest \<Rightarrow> AdmitState \<times> bool" where
  "admit_candidate st candidate =
     (let e = as_engine st
      in case ImpossibleReason e candidate of
           Some reason \<Rightarrow>
             (st\<lparr>as_engine := e\<lparr>ce_results := ce_results e @ [(DefaultResult (request_id candidate))
                   \<lparr>completed_at := ce_clock e, succeeded := False, failure_reason := reason\<rparr>]\<rparr>,
                 admitted_any := True\<rparr>, True)
         | None \<Rightarrow>
             if ce_active e \<noteq> [] \<and> request_id candidate \<in> ce_preempted e
             then (defer_candidate st candidate, True)
             else if prefill_sequences st = max_prefill_sequences_per_iteration (ce_config e)
             then (defer_candidate st candidate, False)
             else if length (ce_active e) > sub64 (max_batch_tokens (ce_config e)) (prefill_budget st)
                     \<or> prompt_tokens candidate >
                         sub64 (sub64 (max_batch_tokens (ce_config e)) (prefill_budget st)) (length (ce_active e))
             then (defer_candidate st candidate, True)
             else (case cached_result st candidate of
                     (st', hit) \<Rightarrow> if hit then (st', True) else (place_candidate st' candidate, True)))"

fun admit_loop :: "nat \<Rightarrow> AdmitState \<Rightarrow> AdmitState" where
  "admit_loop 0 st = st"
| "admit_loop (Suc scans) st =
     (let e = as_engine st
      in if length (ce_active e) < max_batch_sequences (ce_config e)
         then (case PopReady (ce_pending e) (ce_clock e) of
                 (queue, None) \<Rightarrow> st
               | (queue, Some candidate) \<Rightarrow>
                   (case admit_candidate (st\<lparr>as_engine := e\<lparr>ce_pending := queue\<rparr>\<rparr>) candidate of
                      (st', continue) \<Rightarrow> if continue then admit_loop scans st' else st'))
         else st)"

definition AdmitReady :: "ContinuousEngine \<Rightarrow> ContinuousEngine \<times> bool" where
  "AdmitReady e =
     (let st = admit_loop (length (ce_pending e))
                 \<lparr>as_engine = e, prefill_budget = 0, prefill_sequences = 0, deferred = [], admitted_any = False\<rparr>;
          e' = as_engine st
      in (e'\<lparr>ce_pending := fold (\<lambda>r q. RequestQueue_Push q r) (deferred st) (ce_pending e')\<rparr>, admitted_any st))"

section \<open>Decode blocks and preemption\<close>

definition older_victim :: "ActiveRequest list \<Rightarrow> nat \<Rightarrow> nat \<Rightarrow> nat" where
  "older_victim active index victim =
     (let candidate = active ! index;
          selected = active ! victim;
          candidate_remaining = sub64 (max_output_tokens (ar_request candidate)) (generated_tokens candidate);
          selected_remaining = sub64 (max_output_tokens (ar_request selected)) (generated_tokens selected)
      in if priority (ar_request candidate) < priority (ar_request selected)
            \<or> priority (ar_request candidate) = priority (ar_request selected)
                \<and> candidate_remaining > selected_remaining
         then index else victim)"

definition SelectVictim :: "ContinuousEngine \<Rightarrow> nat" where
  "SelectVictim e = fold (older_victim (ce_active e)) [1..<length (ce_active e)] 0"

definition Preempt :: "ContinuousEngine \<Rightarrow> nat \<Rightarrow> ContinuousEngine" where
  "Preempt e active_index =
     (let victim = ce_active e ! active_index;
          request = (ar_request victim)\<lparr>arrival_time := ce_clock e\<rparr>
      in e\<lparr>ce_kv_cache := fst (Free (ce_kv_cache e) (request_id (ar_request victim))),
           ce_pending := RequestQueue_Push (ce_pending e) request,
           ce_active := take active_index (ce_active e) @ drop (Suc active_index) (ce_active e),
           ce_stats := (ce_stats e)\<lparr>preemptions := add64 (preemptions (ce_stats e)) 1\<rparr>,
           ce_preempted := insert (request_id (ar_request victim)) (ce_preempted e)\<rparr>)"

text \<open>The retry of \<open>AppendBlocks\<close> while it is short of blocks and a cached prefix can go.\<close>

function append_evicting ::
    "RadixPrefixCache \<Rightarrow> PagedKvCache \<Rightarrow> string \<Rightarrow> nat \<Rightarrow> RadixPrefixCache \<times> PagedKvCache \<times> AllocationStatus" where
  "append_evicting rx kv sequence_id additional =
     (case AppendBlocks kv sequence_id additional of
        (kv1, status) \<Rightarrow>
          if status \<noteq> kInsufficientBlocks then (rx, kv1, status)
          else (case EvictOldest rx kv1 of
                  (rx2, kv2, evicted) \<Rightarrow>
                    if \<not> evicted then (rx2, kv2, status)
                    else append_evicting rx2 kv2 sequence_id additional))"
  by pat_completeness auto
termination
  by (relation "measure (\<lambda>(rx, _). length (root_pins (rx_roots rx)))")
    (auto dest!: EvictOldest_shrinks [OF sym])

declare append_evicting.simps [simp del]

definition NeededBlocks :: "ContinuousEngine \<Rightarrow> ActiveRequest \<Rightarrow> nat" where
  "NeededBlocks e a =
     BlocksForTokens (add64 (add64 (prompt_tokens (ar_request a)) (generated_tokens a)) 1)
       (kv_block_size_tokens (ce_config e))"

text \<open>One round of the loop: the blocks of one sequence; the status is that of the last attempt.\<close>

definition grow_sequence :: "ContinuousEngine \<Rightarrow> ActiveRequest \<Rightarrow> ContinuousEngine \<times> AllocationStatus" where
  "grow_sequence e a =
     (let needed = NeededBlocks e a;
          current = length (BlocksFor (ce_kv_cache e) (request_id (ar_request a)))
      in if needed \<le> current then (e, kAllocated)
         else (case append_evicting (ce_prefix_cache e) (ce_kv_cache e) (request_id (ar_request a))
                      (needed - current) of
                 (rx, kv, status) \<Rightarrow> (e\<lparr>ce_kv_cache := kv, ce_prefix_cache := rx\<rparr>, status)))"

lemma grow_sequence_active [simp]: "ce_active (fst (grow_sequence e a)) = ce_active e"
  by (simp add: grow_sequence_def Let_def split: prod.splits)

lemma older_victim_less: "index < n \<Longrightarrow> victim < n \<Longrightarrow> older_victim active index victim < n"
  by (simp add: older_victim_def Let_def)

lemma SelectVictim_less: "ce_active e \<noteq> [] \<Longrightarrow> SelectVictim e < length (ce_active e)"
proof -
  have "fold (older_victim (ce_active e)) xs v < n" if "v < n" "set xs \<subseteq> {..<n}" for xs v n
    using that by (induction xs arbitrary: v) (auto intro: older_victim_less)
  moreover assume "ce_active e \<noteq> []"
  ultimately show ?thesis unfolding SelectVictim_def by (metis atLeastLessThan_iff lessThan_iff length_greater_0_conv set_upt subsetI)
qed

lemma length_Preempt: "i < length (ce_active e) \<Longrightarrow> length (ce_active (Preempt e i)) < length (ce_active e)"
  by (simp add: Preempt_def Let_def)

function prepare_from :: "nat \<Rightarrow> ContinuousEngine \<Rightarrow> ContinuousEngine" where
  "prepare_from index e =
     (if index < length (ce_active e)
      then (case grow_sequence e (ce_active e ! index) of
              (e', status) \<Rightarrow>
                if status = kAllocated then prepare_from (Suc index) e'
                else prepare_from 0 (Preempt e' (SelectVictim e')))
      else e)"
  by pat_completeness auto
termination
proof (relation "measures [\<lambda>(i, e). length (ce_active e), \<lambda>(i, e). length (ce_active e) - i]", goal_cases)
  case (2 index e e' status)
  then have "ce_active e' = ce_active e" by (metis fst_conv grow_sequence_active)
  with 2 show ?case by auto
next
  case (3 index e e' status)
  then have "ce_active e' = ce_active e" by (metis fst_conv grow_sequence_active)
  with 3 have "ce_active e' \<noteq> []" by auto
  from length_Preempt [OF SelectVictim_less [OF this]] \<open>ce_active e' = ce_active e\<close> show ?case by simp
qed simp

declare prepare_from.simps [simp del]

definition PrepareDecodeBlocks :: "ContinuousEngine \<Rightarrow> ContinuousEngine \<times> bool" where
  "PrepareDecodeBlocks e = (let e' = prepare_from 0 e in (e', ce_active e' \<noteq> []))"

section \<open>Completion\<close>

definition complete_one :: "ContinuousEngine \<Rightarrow> ActiveRequest \<Rightarrow> ContinuousEngine" where
  "complete_one e a =
     (let r = ar_request a
      in e\<lparr>ce_kv_cache := fst (Free (ce_kv_cache e) (request_id r)),
           ce_result_cache := ResultCache_Put (ce_result_cache e) (ResultKey r) (SimulatedOutput r),
           ce_results := ce_results e @ [(DefaultResult (request_id r))
             \<lparr>res_output := SimulatedOutput r, completed_at := ce_clock e,
              first_token_at := (if generated_tokens a = 0 then ce_clock e else ar_first_token_at a),
              prefix_cache_hit := ar_prefix_cache_hit a\<rparr>]\<rparr>)"

text \<open>The erasing loop over \<open>active_\<close>: what is kept is collected in order.\<close>

fun complete_from :: "ActiveRequest list \<Rightarrow> ActiveRequest list \<Rightarrow> ContinuousEngine \<Rightarrow> ContinuousEngine" where
  "complete_from kept [] e = e\<lparr>ce_active := kept\<rparr>"
| "complete_from kept (a # rest) e =
     (if generated_tokens a < max_output_tokens (ar_request a) then complete_from (kept @ [a]) rest e
      else complete_from kept rest (complete_one e a))"

definition CompleteFinished :: "ContinuousEngine \<Rightarrow> ContinuousEngine" where
  "CompleteFinished e = complete_from [] (ce_active e) e"

section \<open>Iterations\<close>

definition decode_one :: "int \<Rightarrow> ActiveRequest \<Rightarrow> ActiveRequest" where
  "decode_one now a =
     (let g = add64 (generated_tokens a) 1
      in a\<lparr>generated_tokens := g, ar_first_token_at := (if g = 1 then now else ar_first_token_at a)\<rparr>)"

definition decode_step :: "ContinuousEngine \<Rightarrow> ContinuousEngine" where
  "decode_step e =
     (case DecodeStep (ce_cost_model e) (length (ce_active e)) of
        (cm, decode_cost) \<Rightarrow>
          (let now = Advance (ce_clock e) decode_cost;
               s = ce_stats e
           in e\<lparr>ce_clock := now, ce_cost_model := cm, ce_active := map (decode_one now) (ce_active e),
                ce_stats := s\<lparr>simulated_busy_time := simulated_busy_time s + decode_cost,
                              iterations := add64 (iterations s) 1\<rparr>\<rparr>))"

definition RunOneIteration :: "ContinuousEngine \<Rightarrow> ContinuousEngine \<times> bool" where
  "RunOneIteration e =
     (let e0 = (if ce_active e = [] then e\<lparr>ce_preempted := {}\<rparr> else e)
      in case AdmitReady e0 of
           (e1, progressed) \<Rightarrow>
             (let e2 = CompleteFinished e1
              in if ce_active e2 = [] then (e2, progressed)
                 else (case PrepareDecodeBlocks e2 of
                         (e3, ready) \<Rightarrow>
                           if \<not> ready then (e3, progressed)
                           else (CompleteFinished (decode_step e3), True))))"

partial_function (option) RunUntilIdle :: "ContinuousEngine \<Rightarrow> ContinuousEngine option" where
  "RunUntilIdle e =
     (if ce_pending e \<noteq> [] \<or> ce_active e \<noteq> []
      then (case RunOneIteration e of
              (e', progressed) \<Rightarrow>
                if progressed then RunUntilIdle e'
                else (case NextArrival (ce_pending e') of
                        Some t \<Rightarrow> RunUntilIdle (e'\<lparr>ce_clock := Advance (ce_clock e') (t - ce_clock e')\<rparr>)
                      | None \<Rightarrow> Some e'))
      else Some e)"

declare RunUntilIdle.simps [code]

definition ClearCaches :: "ContinuousEngine \<Rightarrow> ContinuousEngine" where
  "ClearCaches e =
     (case RadixClear (ce_prefix_cache e) (ce_kv_cache e) of
        (rx, kv) \<Rightarrow> e\<lparr>ce_kv_cache := kv, ce_prefix_cache := rx\<rparr>)"

end
