(* ===== verification/ContinuousInvariants.thy ===== *)
theory ContinuousInvariants
  imports ContinuousEngines
begin

text \<open>
  What every step of the continuous engine keeps: the two caches agree with each other and with
  the list of active sequences, the result cache only holds simulated outputs under their keys,
  and a ledger of what every request is owed does not change. A measure on the outstanding work
  goes down with every iteration that reports progress.
\<close>

section \<open>The pair of caches under a given set of sequences\<close>

definition config_ok :: "EngineConfig \<Rightarrow> bool" where
  "config_ok c \<longleftrightarrow> max_batch_sequences c + prefix_cache_entries c + kv_blocks c + 3 < u32 \<and>
     0 < max_batch_sequences c \<and> 0 < max_batch_tokens c \<and> max_batch_tokens c < u64 \<and>
     0 < max_prefill_sequences_per_iteration c \<and> 0 < kv_block_size_tokens c"

definition caches_inv :: "EngineConfig \<Rightarrow> string multiset \<Rightarrow> RadixPrefixCache \<Rightarrow> PagedKvCache \<Rightarrow> bool" where
  "caches_inv cfg ids rx kv \<longleftrightarrow> config_ok cfg \<and> rx_inv rx kv \<and> kv_inv kv \<and> rx_paths_distinct rx \<and>
     rx_node_count rx \<le> rx_capacity rx \<and> rx_capacity rx = prefix_cache_entries cfg \<and>
     total_blocks kv = kv_blocks cfg \<and> mset (map fst (sequence_blocks kv)) = ids \<and>
     size ids \<le> max_batch_sequences cfg"

lemma caches_inv_entries:
  assumes "caches_inv cfg ids rx kv"
  shows "entry_count kv = size ids + rx_node_count rx" and "entry_count kv + kv_blocks cfg + 3 < u32"
    and "kv_room kv" and "entry_count kv < u32"
proof -
  have "length (sequence_blocks kv) = size ids"
    using assms unfolding caches_inv_def by (metis length_map size_mset)
  moreover have "rx_node_count rx = length (prefix_blocks kv)"
    using assms by (intro rx_inv_node_count) (simp add: caches_inv_def)
  ultimately show e: "entry_count kv = size ids + rx_node_count rx" by (simp add: entry_count_def)
  with assms show "entry_count kv + kv_blocks cfg + 3 < u32"
    by (auto simp: caches_inv_def config_ok_def)
  then show "kv_room kv" "entry_count kv < u32" by (simp_all add: kv_room_def)
qed

lemma caches_inv_seq:
  assumes "caches_inv cfg ids rx kv"
  shows "s \<in># ids \<longleftrightarrow> map_of (sequence_blocks kv) s \<noteq> None" and "distinct (map fst (sequence_blocks kv))"
proof -
  show "distinct (map fst (sequence_blocks kv))"
    using assms by (simp add: caches_inv_def kv_inv_def kv_shape_def)
  have "set_mset ids = set (map fst (sequence_blocks kv))"
    using assms unfolding caches_inv_def by (metis set_mset_mset)
  then show "s \<in># ids \<longleftrightarrow> map_of (sequence_blocks kv) s \<noteq> None"
    unfolding map_of_eq_None_iff by simp
qed

lemma caches_inv_same_seqs:
  assumes "caches_inv cfg ids rx kv" and "rx_inv rx' kv'" "kv_inv kv'" "rx_paths_distinct rx'"
    and "rx_node_count rx' \<le> rx_capacity rx'" "rx_capacity rx' = rx_capacity rx" "kv_same_seqs kv kv'"
  shows "caches_inv cfg ids rx' kv'"
  using assms by (simp add: caches_inv_def kv_same_seqs_def)

definition match_blocks :: "Match option \<Rightarrow> nat list" where
  "match_blocks m = (case m of None \<Rightarrow> [] | Some m \<Rightarrow> m_blocks m)"

lemma rx_path_Nil [simp]: "rx_path rx ns [] = []"
  by (simp add: rx_path_def split: option.splits)

lemma longest_match_caches:
  assumes inv: "caches_inv cfg ids rx kv" and l: "longest_match rx r hs = (rx', m)"
  shows "caches_inv cfg ids rx' kv" and "match_blocks m = rx_path rx' (PrefixNamespace r) hs"
    and "rx_node_count rx' = rx_node_count rx"
proof -
  have "caches_inv cfg ids rx' kv \<and> match_blocks m = rx_path rx' (PrefixNamespace r) hs
      \<and> rx_node_count rx' = rx_node_count rx"
  proof (cases "hs = []")
    case True
    with inv l show ?thesis by (simp add: longest_match_def match_blocks_def)
  next
    case False
    with l have g: "GetLongest rx (PrefixNamespace r) hs = (rx', m)" by (simp add: longest_match_def)
    have rx: "rx_inv rx kv" using inv by (simp add: caches_inv_def)
    note s = GetLongest_spec [OF rx g]
    have "caches_inv cfg ids rx' kv"
      using inv s(1,2,5,6) by (intro caches_inv_same_seqs [OF inv]) (auto simp: caches_inv_def)
    then show ?thesis using s(3,4,6) by (simp add: match_blocks_def)
  qed
  then show "caches_inv cfg ids rx' kv" "match_blocks m = rx_path rx' (PrefixNamespace r) hs"
    "rx_node_count rx' = rx_node_count rx" by simp_all
qed

lemma EvictOldest_caches:
  assumes inv: "caches_inv cfg ids rx kv" and ev: "EvictOldest rx kv = (rx', kv', ok)"
  shows "caches_inv cfg ids rx' kv'" and "kv_same_seqs kv kv'"
    and "ok \<longleftrightarrow> rx_node_count rx \<noteq> 0" and "\<not> ok \<Longrightarrow> rx' = rx \<and> kv' = kv"
proof -
  have i: "rx_inv rx kv" "kv_inv kv" "rx_paths_distinct rx" "rx_node_count rx \<le> rx_capacity rx"
    using inv by (simp_all add: caches_inv_def)
  have "caches_inv cfg ids rx' kv' \<and> kv_same_seqs kv kv' \<and> (ok \<longleftrightarrow> rx_node_count rx \<noteq> 0)
      \<and> (\<not> ok \<longrightarrow> rx' = rx \<and> kv' = kv)"
  proof (cases "rx_node_count rx = 0")
    case True
    with EvictOldest_fails [OF i(1)] ev inv show ?thesis by simp
  next
    case False
    from EvictOldest_succeeds [OF i(1,2) False caches_inv_entries(4) [OF inv]] obtain rx1 kv1 where
      e: "EvictOldest rx kv = (rx1, kv1, True)" "rx_inv rx1 kv1" "kv_inv kv1"
      "Suc (rx_node_count rx1) = rx_node_count rx" "kv_same_seqs kv kv1" "rx_capacity rx1 = rx_capacity rx"
      "rx_paths_distinct rx \<longrightarrow> rx_paths_distinct rx1" by metis
    with ev have "rx' = rx1" "kv' = kv1" "ok" by simp_all
    with e i False show ?thesis using caches_inv_same_seqs [OF inv, of rx1 kv1] by simp
  qed
  then show "caches_inv cfg ids rx' kv'" "kv_same_seqs kv kv'" "ok \<longleftrightarrow> rx_node_count rx \<noteq> 0"
    "\<not> ok \<Longrightarrow> rx' = rx \<and> kv' = kv" by simp_all
qed

lemma Free_caches:
  assumes inv: "caches_inv cfg (add_mset s ids) rx kv"
  shows "caches_inv cfg ids rx (fst (Free kv s))"
    and "sequence_blocks (fst (Free kv s)) = AList.delete s (sequence_blocks kv)"
proof -
  obtain kv' r where f: "Free kv s = (kv', r)" by fastforce
  note fr = Free_frame [OF f]
  have d: "distinct (map fst (sequence_blocks kv))" by (rule caches_inv_seq(2) [OF inv])
  obtain bs where "map_of (sequence_blocks kv) s = Some bs"
    using caches_inv_seq(1) [OF inv, of s] by auto
  from arg_cong [OF mset_delete_key [OF d this], of "image_mset fst"] inv
  have m: "mset (map fst (sequence_blocks kv')) = ids"
    by (simp add: fr(1) caches_inv_def)
  have "kv_inv kv" using inv by (simp add: caches_inv_def)
  then have "kv_inv kv'" by (rule Free_inv [OF _ caches_inv_entries(4) [OF inv] f])
  with m inv fr show "caches_inv cfg ids rx (fst (Free kv s))"
    using rx_inv_same_pins f by (auto simp: caches_inv_def)
  show "sequence_blocks (fst (Free kv s)) = AList.delete s (sequence_blocks kv)" using f fr by simp
qed

lemma Allocate_caches:
  assumes inv: "caches_inv cfg ids rx kv" and n: "n \<le> kv_blocks cfg" and sh: "sh = rx_path rx ns hs"
    and len: "length hs \<le> n" and al: "Allocate kv s n sh = (kv', st)" and sz: "size ids < max_batch_sequences cfg"
  obtains (allocated) fresh where "st = kAllocated" "caches_inv cfg (add_mset s ids) rx kv'"
      "sequence_blocks kv' = (s, sh @ fresh) # sequence_blocks kv" "length (sh @ fresh) = n"
  | (exists) "st = kSequenceAlreadyExists" "kv' = kv" "s \<in># ids"
  | (short) "st = kInsufficientBlocks" "kv' = kv" "free_blocks kv < n"
proof -
  have i: "rx_inv rx kv" "kv_inv kv" "rx_paths_distinct rx" using inv by (simp_all add: caches_inv_def)
  have n64: "n < u64" using n inv by (simp add: caches_inv_def config_ok_def)
  have usable: "blocks_usable (refcounts kv) [] sh" unfolding sh by (rule rx_path_usable [OF i])
  have shn: "length sh \<le> n" using rx_path_length [of rx ns hs] len unfolding sh by simp
  note fr = Allocate_frame [OF al]
  from i(2) n64 al show thesis
  proof (cases rule: Allocate_cases)
    case exists
    then have "s \<in># ids" by (simp add: caches_inv_seq(1) [OF inv] map_of_eq_None_iff)
    with exists show thesis using that(2) by blast
  next
    case invalid
    with usable shn show thesis by simp
  next
    case insufficient
    then show thesis using that(3) by simp
  next
    case (allocated fresh refs)
    have kvi: "kv_inv kv'" by (rule Allocate_inv [OF i(2) caches_inv_entries(3) [OF inv] n64 al])
    have sq: "sequence_blocks kv' = (s, sh @ fresh) # sequence_blocks kv" using allocated(8) by simp
    have "length fresh = n - length sh" using allocated(5,6) by (simp add: free_blocks_def)
    then have lf: "length (sh @ fresh) = n" using shn by simp
    have "caches_inv cfg (add_mset s ids) rx kv'"
      using inv fr sq kvi sz rx_inv_same_pins [OF i(1) fr(1)] by (simp add: caches_inv_def)
    with allocated(1) sq lf show thesis using that(1) by blast
  qed
qed

text \<open>Allocation with eviction: what it leaves, and that it only fails next to other sequences.\<close>

lemma allocate_evicting_spec:
  assumes "caches_inv cfg ids rx kv" and "n \<le> kv_blocks cfg" and "length hs \<le> n"
    and "match_blocks m = rx_path rx (PrefixNamespace r) hs" and "size ids < max_batch_sequences cfg"
    and "allocate_evicting rx kv r n hs m = (rx', kv', m', st)"
  shows "(st = kAllocated \<and> caches_inv cfg (add_mset (request_id r) ids) rx' kv' \<and>
      match_blocks m' = rx_path rx' (PrefixNamespace r) hs \<and>
      (\<exists>fresh. sequence_blocks kv' = (request_id r, match_blocks m' @ fresh) # sequence_blocks kv
         \<and> length (match_blocks m' @ fresh) = n))
    \<or> (st \<noteq> kAllocated \<and> caches_inv cfg ids rx' kv' \<and> kv_same_seqs kv kv' \<and> ids \<noteq> {#})"
  using assms
proof (induction rx kv r n hs m rule: allocate_evicting.induct)
  case (1 rx kv r n hs m)
  have sh: "(case m of None \<Rightarrow> [] | Some m \<Rightarrow> m_blocks m) = match_blocks m" by (simp add: match_blocks_def)
  obtain kv1 st1 where al: "Allocate kv (request_id r) n (match_blocks m) = (kv1, st1)" by fastforce
  note unf = "1.prems"(6) [unfolded allocate_evicting.simps [of rx kv r n hs m] Let_def sh]
  from "1.prems"(1,2,4,3) al "1.prems"(5) show ?case
  proof (cases rule: Allocate_caches)
    case (allocated fresh)
    then have "rx' = rx" "kv' = kv1" "m' = m" "st = kAllocated" using unf al by simp_all
    with allocated "1.prems"(4) show ?thesis by auto
  next
    case exists
    then have "rx' = rx" "kv' = kv1" "st = kSequenceAlreadyExists" using unf al by simp_all
    with exists "1.prems"(1) show ?thesis by auto
  next
    case short
    obtain rx2 kv2 ok where ev: "EvictOldest rx kv1 = (rx2, kv2, ok)" using prod_cases3 by blast
    note e = EvictOldest_caches [OF "1.prems"(1), of rx2 kv2 ok] ev [unfolded short(2)]
    show ?thesis
    proof (cases ok)
      case True
      obtain rx3 m3 where l: "longest_match rx2 r hs = (rx3, m3)" by fastforce
      have rec: "allocate_evicting rx3 kv2 r n hs m3 = (rx', kv', m', st)"
        using unf al short ev True l by simp
      note lm = longest_match_caches [OF e(1) [OF e(5)] l]
      have "kv_same_seqs kv kv2" using e by blast
      with "1.IH" [OF refl al [unfolded sh [symmetric], symmetric] _ ev [symmetric] refl _ l [symmetric]
          lm(1) "1.prems"(2,3) lm(2) "1.prems"(5) rec] True short
      show ?thesis by (auto simp: kv_same_seqs_def)
    next
      case False
      then have res: "rx' = rx" "kv' = kv" "st = kInsufficientBlocks"
        using unf al short ev e(4,5) by simp_all
      have "rx_node_count rx = 0" using e(3,5) False by blast
      moreover have "kv_entries kv = {#}" if "ids = {#}"
      proof -
        have "prefix_blocks kv = []" using \<open>rx_node_count rx = 0\<close> "1.prems"(1) rx_inv_node_count [of rx kv]
          by (simp add: caches_inv_def)
        then show ?thesis using that "1.prems"(1) by (simp add: kv_entries_def caches_inv_def)
      qed
      ultimately have "ids \<noteq> {#}"
        using free_blocks_none [of kv] short(3) "1.prems"(1,2) by (auto simp: caches_inv_def)
      with res "1.prems"(1) show ?thesis by simp
    qed
  qed
qed

lemma append_evicting_spec:
  assumes "caches_inv cfg ids rx kv" and "s \<in># ids" and "append_evicting rx kv s n = (rx', kv', st)"
  shows "caches_inv cfg ids rx' kv'
    \<and> (\<forall>t. t \<noteq> s \<longrightarrow> BlocksFor kv' t = BlocksFor kv t)
    \<and> (st = kAllocated \<longrightarrow> length (BlocksFor kv' s) = length (BlocksFor kv s) + n)
    \<and> (st \<noteq> kAllocated \<longrightarrow> kv_same_seqs kv kv' \<and> rx_node_count rx' = 0 \<and> free_blocks kv' < n)"
  using assms
proof (induction rx kv s n rule: append_evicting.induct)
  case (1 rx kv s n)
  have i: "rx_inv rx kv" "kv_inv kv" using "1.prems"(1) by (simp_all add: caches_inv_def)
  obtain kv1 st1 where app: "AppendBlocks kv s n = (kv1, st1)" by fastforce
  note unf = "1.prems"(3) [unfolded append_evicting.simps [of rx kv s n]]
  from app show ?case
  proof (cases rule: AppendBlocks_cases)
    case missing
    with caches_inv_seq(1) [OF "1.prems"(1)] "1.prems"(2) show ?thesis by blast
  next
    case (appended held refs fresh)
    have res: "rx' = rx" "kv' = kv1" "st = kAllocated" using unf app appended(1) by simp_all
    have "kv_inv kv1" by (rule AppendBlocks_inv [OF i(2) app])
    then have "caches_inv cfg ids rx kv1"
      using "1.prems"(1) AppendBlocks_frame [OF app] AppendBlocks_keys [OF app] rx_inv_same_pins [OF i(1)]
      unfolding caches_inv_def by metis
    moreover have "length fresh = n" using appended(3,4) by (simp add: free_blocks_def)
    ultimately show ?thesis
      using res appended(1,3,4) AppendBlocks_map_of [OF app] by (simp add: BlocksFor_def)
  next
    case insufficient
    obtain rx2 kv2 ok where ev: "EvictOldest rx kv1 = (rx2, kv2, ok)" using prod_cases3 by blast
    note e = EvictOldest_caches [OF "1.prems"(1), of rx2 kv2 ok] ev [unfolded insufficient(2)]
    show ?thesis
    proof (cases ok)
      case True
      have rec: "append_evicting rx2 kv2 s n = (rx', kv', st)" using unf app insufficient ev True by simp
      have "kv_same_seqs kv kv2" using e by blast
      with "1.IH" [OF app [symmetric] _ ev [symmetric] refl _ e(1) [OF e(5)] "1.prems"(2) rec] True insufficient
      show ?thesis by (auto simp: kv_same_seqs_def BlocksFor_def)
    next
      case False
      then have res: "rx' = rx" "kv' = kv" "st = kInsufficientBlocks"
        using unf app insufficient ev e(4,5) by simp_all
      moreover have "rx_node_count rx = 0" using e(3,5) False by blast
      ultimately show ?thesis using "1.prems"(1) insufficient by simp
    qed
  qed
qed

lemma PutBlockPrefixes_caches:
  assumes inv: "caches_inv cfg ids rx kv" and len: "length hs \<le> kv_blocks cfg"
    and bs: "take (length (rx_path rx ns hs)) bs = rx_path rx ns hs" "distinct bs"
    and put: "PutBlockPrefixes rx kv ns hs bs = (rx', kv', k)"
  shows "caches_inv cfg ids rx' kv'" and "kv_same_seqs kv kv'"
proof -
  have i: "rx_inv rx kv" "kv_inv kv" "rx_paths_distinct rx" using inv by (simp_all add: caches_inv_def)
  have room: "entry_count kv + length hs + 2 < u32" using caches_inv_entries(2) [OF inv] len by simp
  note s = PutBlockPrefixes_spec [OF put i(1,2) room]
  show "kv_same_seqs kv kv'" by (rule s(4))
  show "caches_inv cfg ids rx' kv'"
    using s bs i(3) by (intro caches_inv_same_seqs [OF inv]) simp_all
qed

section \<open>What every request is owed\<close>

definition impossible_reason :: "EngineConfig \<Rightarrow> EngineRequest \<Rightarrow> string option" where
  "impossible_reason cfg r =
     (if prompt_tokens r > (u64 - 1) - max_output_tokens r then Some ''token_count_overflow''
      else if prompt_tokens r > max_batch_tokens cfg then Some ''exceeds_max_batch_tokens''
      else if BlocksForTokens (prompt_tokens r + max_output_tokens r) (kv_block_size_tokens cfg) > kv_blocks cfg
      then Some ''exceeds_kv_capacity''
      else None)"

text \<open>A request's id with the reason it is refused for, or its output.\<close>

definition request_outcome :: "EngineConfig \<Rightarrow> EngineRequest \<Rightarrow> outcome" where
  "request_outcome cfg r = (request_id r,
     case impossible_reason cfg r of Some reason \<Rightarrow> Inl reason | None \<Rightarrow> Inr (SimulatedOutput r))"

definition ledger :: "ContinuousEngine \<Rightarrow> outcome multiset" where
  "ledger e = image_mset (request_outcome (ce_config e)) (mset (ce_pending e)) +
     image_mset (request_outcome (ce_config e) \<circ> ar_request) (mset (ce_active e)) +
     image_mset result_outcome (mset (ce_results e))"

lemma ImpossibleReason_cfg:
  "total_blocks (ce_kv_cache e) = kv_blocks (ce_config e) \<Longrightarrow> ImpossibleReason e r = impossible_reason (ce_config e) r"
  by (simp add: ImpossibleReason_def impossible_reason_def)

lemma request_outcome_arrival [simp]: "request_outcome cfg (r\<lparr>arrival_time := t\<rparr>) = request_outcome cfg r"
  by (simp add: request_outcome_def impossible_reason_def SimulatedOutput_def)

lemma request_outcome_possible:
  "impossible_reason cfg r = None \<Longrightarrow> request_outcome cfg r = (request_id r, Inr (SimulatedOutput r))"
  by (simp add: request_outcome_def)

section \<open>The engine's invariant\<close>

definition aid :: "ActiveRequest \<Rightarrow> string" where
  "aid a = request_id (ar_request a)"

definition active_ok :: "EngineConfig \<Rightarrow> int \<Rightarrow> ActiveRequest \<Rightarrow> bool" where
  "active_ok cfg now a \<longleftrightarrow> impossible_reason cfg (ar_request a) = None \<and> request_ok (ar_request a) \<and>
     generated_tokens a \<le> max_output_tokens (ar_request a) \<and> ar_state a = kDecode \<and>
     (0 < generated_tokens a \<longrightarrow> ar_first_token_at a \<le> now)"

definition ce_rest :: "ContinuousEngine \<Rightarrow> bool" where
  "ce_rest e \<longleftrightarrow> result_cache_sound (ce_result_cache e) \<and> queue_inv (ce_pending e) \<and>
     (\<forall>a \<in> set (ce_active e). active_ok (ce_config e) (ce_clock e) a) \<and>
     (\<forall>r \<in> set (ce_pending e). request_ok r) \<and>
     (\<forall>x \<in> set (ce_results e). succeeded x \<longrightarrow> first_token_at x \<le> completed_at x)"

definition ce_caches :: "string multiset \<Rightarrow> ContinuousEngine \<Rightarrow> bool" where
  "ce_caches ids e \<longleftrightarrow> caches_inv (ce_config e) ids (ce_prefix_cache e) (ce_kv_cache e)"

definition ce_inv :: "ContinuousEngine \<Rightarrow> bool" where
  "ce_inv e \<longleftrightarrow> ce_caches (mset (map aid (ce_active e))) e \<and> ce_rest e"

lemma active_ok_mono: "active_ok cfg t a \<Longrightarrow> t \<le> t' \<Longrightarrow> active_ok cfg t' a"
  by (auto simp: active_ok_def)

section \<open>Admission\<close>

text \<open>One candidate either gets its result, or is put aside, or becomes active.\<close>

definition admit_effect :: "AdmitState \<Rightarrow> EngineRequest \<Rightarrow> AdmitState \<Rightarrow> bool" where
  "admit_effect st c st' \<longleftrightarrow> (let e = as_engine st; e' = as_engine st' in
     ce_inv e' \<and> ce_config e' = ce_config e \<and> ce_pending e' = ce_pending e \<and> ce_preempted e' = ce_preempted e \<and>
     prefill_budget st' \<le> max_batch_tokens (ce_config e) \<and>
     ((\<exists>x. ce_results e' = ce_results e @ [x] \<and> result_outcome x = request_outcome (ce_config e) c \<and>
          ce_active e' = ce_active e \<and> deferred st' = deferred st \<and> admitted_any st')
      \<or> (ce_results e' = ce_results e \<and> ce_active e' = ce_active e \<and> deferred st' = deferred st @ [c] \<and>
          admitted_any st' = admitted_any st \<and>
          (ce_active e \<noteq> [] \<or> prefill_sequences st \<noteq> 0 \<or> prefill_budget st \<noteq> 0))
      \<or> (\<exists>a. ce_results e' = ce_results e \<and> ce_active e' = ce_active e @ [a] \<and> ar_request a = c \<and>
          generated_tokens a = 0 \<and> deferred st' = deferred st \<and> admitted_any st' \<and>
          (ce_active e \<noteq> [] \<longrightarrow> request_id c \<notin> ce_preempted e))))"

lemma start_candidate_spec:
  fixes st :: AdmitState and c :: EngineRequest
  defines "e \<equiv> as_engine st"
  assumes rest: "ce_rest e" and caches: "ce_caches (add_mset (request_id c) (mset (map aid (ce_active e)))) e"
    and c: "impossible_reason (ce_config e) c = None" "request_ok c"
    and hs: "length hs \<le> kv_blocks (ce_config e)"
    and m: "match_blocks m = rx_path (ce_prefix_cache e) (PrefixNamespace c) hs"
    and blocks: "BlocksFor (ce_kv_cache e) (request_id c) = match_blocks m @ fresh"
    and n: "length (match_blocks m @ fresh) = n"
    and budget: "prefill_budget st + prompt_tokens c \<le> max_batch_tokens (ce_config e)"
    and pre: "ce_active e \<noteq> [] \<longrightarrow> request_id c \<notin> ce_preempted e"
  shows "admit_effect st c (start_candidate st c n hs m)"
proof -
  let ?st = "start_candidate st c n hs m"
  let ?bs = "match_blocks m @ fresh"
  obtain cm cost where pf: "Prefill (ce_cost_model e) (uncached_tokens e c n m) = (cm, cost)" by fastforce
  obtain rx kv where put: "cache_prompt e c n hs = (rx, kv)" by fastforce
  let ?ids = "add_mset (request_id c) (mset (map aid (ce_active e)))"
  have ci: "caches_inv (ce_config e) ?ids (ce_prefix_cache e) (ce_kv_cache e)"
    using caches by (simp add: ce_caches_def)
  have "request_id c \<in># ?ids" by simp
  then obtain bs where "map_of (sequence_blocks (ce_kv_cache e)) (request_id c) = Some bs"
    using caches_inv_seq(1) [OF ci] by blast
  with blocks have "(request_id c, ?bs) \<in> set (sequence_blocks (ce_kv_cache e))"
    by (auto simp: BlocksFor_def dest: map_of_SomeD)
  then have "?bs \<in># kv_entries (ce_kv_cache e)" by (force simp: kv_entries_def)
  moreover have "kv_inv (ce_kv_cache e)" using ci by (simp add: caches_inv_def)
  ultimately have "distinct ?bs" using kv_inv_entry by blast
  then have new: "caches_inv (ce_config e) ?ids rx kv"
    using put ci PutBlockPrefixes_caches(1) [OF ci hs, of "PrefixNamespace c" ?bs] m n blocks
    by (auto simp: cache_prompt_def Let_def split: if_splits prod.splits)
  let ?a = "\<lparr>ar_request = c, ar_state = kDecode, generated_tokens = 0, ar_prefix_cache_hit = (m \<noteq> None),
      ar_first_token_at = 0\<rparr>"
  have state: "fst (TransitionTo (fst (TransitionTo kWaitingAdmission kPrefill)) kDecode) = kDecode"
    by (simp add: TransitionTo_def CanTransition_def)
  have e': "as_engine ?st = e\<lparr>ce_clock := Advance (ce_clock e) cost, ce_cost_model := cm, ce_kv_cache := kv,
      ce_prefix_cache := rx, ce_active := ce_active e @ [?a],
      ce_stats := admission_stats e c hs m cost, ce_prefix_accounted := (if hs \<noteq> []
        then insert (request_id c) (ce_prefix_accounted e) else ce_prefix_accounted e)\<rparr>"
    and st': "deferred ?st = deferred st" "admitted_any ?st"
      "prefill_budget ?st = add64 (prefill_budget st) (prompt_tokens c)"
    unfolding start_candidate_def e_def [symmetric] Let_def pf put state by simp_all
  have b: "prefill_budget ?st \<le> max_batch_tokens (ce_config e)"
    using budget st'(3) ci by (simp add: add64_exact caches_inv_def config_ok_def)
  have "ce_inv (as_engine ?st)"
    using rest new c Advance_ge [of "ce_clock e" cost] active_ok_mono
    unfolding e' by (auto simp: ce_inv_def ce_caches_def ce_rest_def aid_def active_ok_def)
  with b st' pre show ?thesis
    unfolding admit_effect_def Let_def e_def [symmetric] e' by simp
qed

lemma place_candidate_spec:
  fixes st :: AdmitState and c :: EngineRequest
  defines "e \<equiv> as_engine st"
  assumes inv: "ce_inv e" and c: "impossible_reason (ce_config e) c = None" "request_ok c"
    and sz: "length (ce_active e) < max_batch_sequences (ce_config e)"
    and budget: "prefill_budget st + prompt_tokens c \<le> max_batch_tokens (ce_config e)"
    and pre: "ce_active e \<noteq> [] \<longrightarrow> request_id c \<notin> ce_preempted e"
  shows "admit_effect st c (place_candidate st c)"
proof -
  let ?cfg = "ce_config e" and ?ids = "mset (map aid (ce_active e))"
  define n where "n = BlocksForTokens (prompt_tokens c) (kv_block_size_tokens ?cfg)"
  define hs where "hs = take (min (length (prompt_block_hashes c)) n) (prompt_block_hashes c)"
  obtain rx0 m0 where l: "longest_match (ce_prefix_cache e) c hs = (rx0, m0)" by fastforce
  obtain rx kv m s where al: "allocate_evicting rx0 (ce_kv_cache e) c n hs m0 = (rx, kv, m, s)"
    using prod_cases4 by blast
  let ?st = "st\<lparr>as_engine := e\<lparr>ce_kv_cache := kv, ce_prefix_cache := rx\<rparr>\<rparr>"
  have res: "place_candidate st c = (if s \<noteq> kAllocated then defer_candidate ?st c
      else start_candidate ?st c n hs m)"
    unfolding place_candidate_def e_def [symmetric] Let_def n_def [symmetric] hs_def [symmetric]
    by (simp add: l al)
  have ci: "caches_inv ?cfg ?ids (ce_prefix_cache e) (ce_kv_cache e)" and rest: "ce_rest e"
    using inv by (simp_all add: ce_inv_def ce_caches_def)
  have "n \<le> BlocksForTokens (prompt_tokens c + max_output_tokens c) (kv_block_size_tokens ?cfg)"
    unfolding n_def by (rule BlocksForTokens_mono) simp
  then have n: "n \<le> kv_blocks ?cfg" using c(1) by (simp add: impossible_reason_def split: if_splits)
  have hn: "length hs \<le> n" unfolding hs_def by simp
  note lm = longest_match_caches [OF ci l]
  have "size ?ids < max_batch_sequences ?cfg" using sz by simp
  note sp = allocate_evicting_spec [OF lm(1) n hn lm(2) this al]
  show ?thesis
  proof (cases "s = kAllocated")
    case True
    with sp obtain fresh where a: "caches_inv ?cfg (add_mset (request_id c) ?ids) rx kv"
      "match_blocks m = rx_path rx (PrefixNamespace c) hs"
      "sequence_blocks kv = (request_id c, match_blocks m @ fresh) # sequence_blocks (ce_kv_cache e)"
      "length (match_blocks m @ fresh) = n" by blast
    have "admit_effect ?st c (start_candidate ?st c n hs m)"
      by (rule start_candidate_spec)
        (use a rest c n hn budget pre in \<open>simp_all add: ce_rest_def ce_caches_def BlocksFor_def\<close>)
    then show ?thesis using True unfolding res
      by (simp add: admit_effect_def Let_def e_def [symmetric])
  next
    case False
    with sp have a: "caches_inv ?cfg ?ids rx kv" "?ids \<noteq> {#}" by blast+
    then have "ce_inv (e\<lparr>ce_kv_cache := kv, ce_prefix_cache := rx\<rparr>)" "ce_active e \<noteq> []"
      using rest by (auto simp: ce_inv_def ce_caches_def ce_rest_def)
    with False budget show ?thesis unfolding res
      by (simp add: admit_effect_def defer_candidate_def Let_def e_def [symmetric])
  qed
qed

lemma cached_result_spec:
  fixes st :: AdmitState and c :: EngineRequest
  defines "e \<equiv> as_engine st"
  assumes inv: "ce_inv e" and c: "impossible_reason (ce_config e) c = None"
    and budget: "prefill_budget st \<le> max_batch_tokens (ce_config e)"
    and get: "cached_result st c = (st', hit)"
  shows "hit \<Longrightarrow> admit_effect st c st'"
    and "\<not> hit \<Longrightarrow> ce_inv (as_engine st') \<and> (\<exists>rc s. st' = st\<lparr>as_engine := e\<lparr>ce_result_cache := rc, ce_stats := s\<rparr>\<rparr>)"
proof -
  obtain rc v where g: "ResultCache_Get (ce_result_cache e) (ResultKey c) = (rc, v)" by fastforce
  have snd_rc: "result_cache_sound (ce_result_cache e)" using inv by (simp add: ce_inv_def ce_rest_def)
  note r = result_cache_get [OF snd_rc g]
  show "admit_effect st c st'" if hit
  proof -
    have "v \<noteq> None"
      using get g that unfolding cached_result_def e_def [symmetric] by (auto simp: Let_def split: option.splits)
    then obtain out where v: "v = Some out" by blast
    then have out: "out = SimulatedOutput c" using r by blast
    obtain s where "st' = st\<lparr>as_engine := e\<lparr>ce_result_cache := rc, ce_results := ce_results e @
        [(DefaultResult (request_id c))\<lparr>res_output := out, completed_at := ce_clock e,
           first_token_at := ce_clock e, result_cache_hit := True\<rparr>], ce_stats := s\<rparr>, admitted_any := True\<rparr>"
      using get g v unfolding cached_result_def e_def [symmetric] by (auto simp: Let_def)
    with inv r(1) out budget show ?thesis
      by (simp add: admit_effect_def Let_def e_def [symmetric] result_outcome_def DefaultResult_def
          request_outcome_possible [OF c] ce_inv_def ce_caches_def ce_rest_def)
  qed
  show "ce_inv (as_engine st') \<and> (\<exists>rc s. st' = st\<lparr>as_engine := e\<lparr>ce_result_cache := rc, ce_stats := s\<rparr>\<rparr>)"
    if "\<not> hit"
  proof -
    have "v = None"
      using get g that unfolding cached_result_def e_def [symmetric] by (cases v) (auto simp: Let_def)
    then have "\<exists>s. st' = st\<lparr>as_engine := e\<lparr>ce_result_cache := rc, ce_stats := s\<rparr>\<rparr>"
      using get g unfolding cached_result_def e_def [symmetric] by (auto simp: Let_def)
    with inv r(1) show ?thesis by (auto simp: ce_inv_def ce_caches_def ce_rest_def)
  qed
qed

lemma admit_candidate_spec:
  fixes st :: AdmitState and c :: EngineRequest
  defines "e \<equiv> as_engine st"
  assumes inv: "ce_inv e" and ok: "request_ok c"
    and sz: "length (ce_active e) < max_batch_sequences (ce_config e)"
    and budget: "prefill_budget st \<le> max_batch_tokens (ce_config e)"
    and ad: "admit_candidate st c = (st', continue)"
  shows "admit_effect st c st'"
proof -
  let ?cfg = "ce_config e"
  have cfg: "config_ok ?cfg" "total_blocks (ce_kv_cache e) = kv_blocks ?cfg"
    using inv by (simp_all add: ce_inv_def ce_caches_def caches_inv_def)
  note imp = ImpossibleReason_cfg [OF cfg(2), of c]
  have b64: "max_batch_tokens ?cfg < u64" "0 < max_prefill_sequences_per_iteration ?cfg"
    using cfg(1) by (simp_all add: config_ok_def)
  have sub: "sub64 (max_batch_tokens ?cfg) (prefill_budget st) = max_batch_tokens ?cfg - prefill_budget st"
    using budget b64 by (simp add: sub64_exact)
  have dfr: "admit_effect st c (defer_candidate st c)"
    if "ce_active e \<noteq> [] \<or> prefill_sequences st \<noteq> 0 \<or> prefill_budget st \<noteq> 0"
    using inv budget that by (simp add: admit_effect_def defer_candidate_def Let_def e_def [symmetric])
  note unf = ad [unfolded admit_candidate_def e_def [symmetric] Let_def]
  show ?thesis
  proof (cases "impossible_reason ?cfg c")
    case (Some reason)
    then have "st' = st\<lparr>as_engine := e\<lparr>ce_results := ce_results e @ [(DefaultResult (request_id c))
        \<lparr>completed_at := ce_clock e, succeeded := False, failure_reason := reason\<rparr>]\<rparr>, admitted_any := True\<rparr>"
      using unf imp by simp
    with Some inv budget show ?thesis
      by (simp add: admit_effect_def Let_def e_def [symmetric] result_outcome_def request_outcome_def
          DefaultResult_def ce_inv_def ce_caches_def ce_rest_def)
  next
    case None
    then have prompt: "prompt_tokens c \<le> max_batch_tokens ?cfg"
      by (simp add: impossible_reason_def split: if_splits)
    show ?thesis
    proof (cases "ce_active e \<noteq> [] \<and> request_id c \<in> ce_preempted e
        \<or> prefill_sequences st = max_prefill_sequences_per_iteration ?cfg
        \<or> length (ce_active e) > max_batch_tokens ?cfg - prefill_budget st
        \<or> prompt_tokens c > sub64 (max_batch_tokens ?cfg - prefill_budget st) (length (ce_active e))")
      case True
      then have "st' = defer_candidate st c" using unf imp None sub by (auto split: if_splits)
      moreover have "ce_active e \<noteq> [] \<or> prefill_sequences st \<noteq> 0 \<or> prefill_budget st \<noteq> 0"
        using True b64 prompt by (auto simp: sub64_exact)
      ultimately show ?thesis using dfr by simp
    next
      case False
      then have pre: "ce_active e \<noteq> [] \<longrightarrow> request_id c \<notin> ce_preempted e" by blast
      have fits: "prefill_budget st + prompt_tokens c \<le> max_batch_tokens ?cfg"
        using False b64 budget by (auto simp: sub64_exact)
      obtain st1 hit where cr: "cached_result st c = (st1, hit)" by fastforce
      note r = cached_result_spec [OF inv [unfolded e_def] None [unfolded e_def] budget [unfolded e_def] cr]
      show ?thesis
      proof (cases hit)
        case True
        then have "st' = st1" using unf imp None False sub cr by (auto split: if_splits)
        with r(1) True show ?thesis by simp
      next
        case nohit: False
        then have st': "st' = place_candidate st1 c" using unf imp None False sub cr by (auto split: if_splits)
        from r(2) [OF nohit] obtain rc s where st1: "ce_inv (as_engine st1)"
          "st1 = st\<lparr>as_engine := e\<lparr>ce_result_cache := rc, ce_stats := s\<rparr>\<rparr>" unfolding e_def by blast
        have "admit_effect st1 c (place_candidate st1 c)"
          by (rule place_candidate_spec) (use st1 None ok sz fits pre in simp_all)
        then show ?thesis unfolding st' st1(2) by (simp add: admit_effect_def Let_def e_def [symmetric])
      qed
    qed
  qed
qed

section \<open>Outstanding work\<close>

text \<open>
  The number of requests without a result, then the decode steps they still need in the current
  epoch. A preempted request costs nothing until the active list has drained, because it is not
  admitted before; any other waiting request costs its admission and its output tokens.
\<close>

definition remaining :: "ActiveRequest \<Rightarrow> nat" where
  "remaining a = max_output_tokens (ar_request a) - generated_tokens a"

definition waiting :: "string set \<Rightarrow> EngineRequest \<Rightarrow> nat" where
  "waiting P r = (if request_id r \<in> P then 0 else max_output_tokens r + 1)"

definition load :: "string set \<Rightarrow> ActiveRequest list \<Rightarrow> EngineRequest multiset \<Rightarrow> nat \<times> nat" where
  "load P active M =
     (length active + size M, sum_list (map remaining active) + sum_mset (image_mset (waiting P) M))"

definition bag :: "AdmitState \<Rightarrow> EngineRequest multiset" where
  "bag st = mset (ce_pending (as_engine st)) + mset (deferred st)"

definition st_load :: "AdmitState \<Rightarrow> nat \<times> nat" where
  "st_load st = load (ce_preempted (as_engine st)) (ce_active (as_engine st)) (bag st)"

definition st_ledger :: "AdmitState \<Rightarrow> outcome multiset" where
  "st_ledger st = (let e = as_engine st in
     image_mset (request_outcome (ce_config e)) (bag st) +
     image_mset (request_outcome (ce_config e) \<circ> ar_request) (mset (ce_active e)) +
     image_mset result_outcome (mset (ce_results e)))"

text \<open>What holds of the loop's state, and how a later state relates to an earlier one.\<close>

definition admit_inv :: "AdmitState \<Rightarrow> bool" where
  "admit_inv st \<longleftrightarrow> ce_inv (as_engine st) \<and> (\<forall>r \<in> set (deferred st). request_ok r) \<and>
     prefill_budget st \<le> max_batch_tokens (ce_config (as_engine st)) \<and>
     (ce_active (as_engine st) = [] \<longrightarrow> ce_preempted (as_engine st) = {})"

definition admit_rel :: "AdmitState \<Rightarrow> AdmitState \<Rightarrow> bool" where
  "admit_rel st st' \<longleftrightarrow> ce_config (as_engine st') = ce_config (as_engine st) \<and>
     ce_preempted (as_engine st') = ce_preempted (as_engine st) \<and> st_ledger st' = st_ledger st \<and>
     st_load st' \<le> st_load st \<and> (ce_active (as_engine st') = [] \<longrightarrow> ce_active (as_engine st) = []) \<and>
     (admitted_any st \<longrightarrow> admitted_any st') \<and>
     (admitted_any st' \<and> \<not> admitted_any st \<longrightarrow> st_load st' < st_load st) \<and>
     (\<not> admitted_any st' \<longrightarrow> bag st' = bag st \<and> ce_active (as_engine st') = ce_active (as_engine st))"

lemma admit_rel_refl [simp]: "admit_rel st st"
  by (simp add: admit_rel_def)

lemma admit_rel_trans:
  assumes ab: "admit_rel a b" and bc: "admit_rel b c"
  shows "admit_rel a c"
proof -
  have le: "st_load c \<le> st_load b" "st_load b \<le> st_load a"
    and flags: "admitted_any a \<longrightarrow> admitted_any b" "admitted_any b \<longrightarrow> admitted_any c"
    using ab bc by (simp_all add: admit_rel_def)
  have "st_load c < st_load a" if "admitted_any c" "\<not> admitted_any a"
  proof (cases "admitted_any b")
    case True
    with that ab have "st_load b < st_load a" by (simp add: admit_rel_def)
    with le show ?thesis by (meson le_less_trans)
  next
    case False
    with that bc have "st_load c < st_load b" by (simp add: admit_rel_def)
    with le show ?thesis by (meson less_le_trans)
  qed
  moreover have "st_load c \<le> st_load a" using le by (rule order_trans)
  ultimately show ?thesis using flags ab bc unfolding admit_rel_def by metis
qed

lemma admit_step:
  fixes st :: AdmitState
  defines "e \<equiv> as_engine st"
  assumes inv: "admit_inv st" and pop: "PopReady (ce_pending e) (ce_clock e) = (queue, Some c)"
    and sz: "length (ce_active e) < max_batch_sequences (ce_config e)"
    and ad: "admit_candidate (st\<lparr>as_engine := e\<lparr>ce_pending := queue\<rparr>\<rparr>) c = (st', continue)"
  shows "admit_inv st'" and "admit_rel st st'"
    and "ce_active e = [] \<and> prefill_sequences st = 0 \<and> prefill_budget st = 0 \<Longrightarrow> admitted_any st'"
proof -
  let ?st = "st\<lparr>as_engine := e\<lparr>ce_pending := queue\<rparr>\<rparr>"
  have q: "mset (ce_pending e) = add_mset c (mset queue)" using rq.pop_Some [OF pop] by simp
  have qs: "set (ce_pending e) = insert c (set queue)" using arg_cong [OF q, of set_mset] by simp
  have i: "ce_inv e" and pr: "ce_active e = [] \<longrightarrow> ce_preempted e = {}"
    using inv by (simp_all add: admit_inv_def e_def)
  have "queue_inv queue" using rq.pop_inv [of "ce_pending e" "ce_clock e"] pop i by (simp add: ce_inv_def ce_rest_def)
  then have "ce_inv (e\<lparr>ce_pending := queue\<rparr>)" "request_ok c"
    using i qs by (auto simp: ce_inv_def ce_rest_def ce_caches_def)
  then have eff: "admit_effect ?st c st'"
    using ad sz inv by (intro admit_candidate_spec) (simp_all add: admit_inv_def e_def)
  let ?e' = "as_engine st'"
  have common: "ce_inv ?e'" "ce_config ?e' = ce_config e" "ce_pending ?e' = queue" "ce_preempted ?e' = ce_preempted e"
    "prefill_budget st' \<le> max_batch_tokens (ce_config e)"
    using eff by (simp_all add: admit_effect_def Let_def)
  from eff consider
      (resolved) x where "ce_results ?e' = ce_results e @ [x]" "result_outcome x = request_outcome (ce_config e) c"
        "ce_active ?e' = ce_active e" "deferred st' = deferred st" "admitted_any st'"
    | (put_off) "ce_results ?e' = ce_results e" "ce_active ?e' = ce_active e" "deferred st' = deferred st @ [c]"
        "admitted_any st' = admitted_any st" "ce_active e \<noteq> [] \<or> prefill_sequences st \<noteq> 0 \<or> prefill_budget st \<noteq> 0"
    | (started) a where "ce_results ?e' = ce_results e" "ce_active ?e' = ce_active e @ [a]" "ar_request a = c"
        "generated_tokens a = 0" "deferred st' = deferred st" "admitted_any st'"
        "ce_active e \<noteq> [] \<longrightarrow> request_id c \<notin> ce_preempted e"
    unfolding admit_effect_def Let_def by auto
  then have "admit_inv st' \<and> admit_rel st st' \<and>
      (ce_active e = [] \<and> prefill_sequences st = 0 \<and> prefill_budget st = 0 \<longrightarrow> admitted_any st')"
  proof cases
    case resolved
    then show ?thesis using common q inv pr
      by (simp add: admit_inv_def admit_rel_def st_load_def st_ledger_def bag_def load_def Let_def e_def [symmetric])
  next
    case put_off
    then show ?thesis using common q inv pr \<open>request_ok c\<close>
      by (auto simp: admit_inv_def admit_rel_def st_load_def st_ledger_def bag_def load_def Let_def e_def [symmetric])
  next
    case started
    then have "request_id c \<notin> ce_preempted e" using pr by auto
    with started show ?thesis using common q inv
      by (simp add: admit_inv_def admit_rel_def st_load_def st_ledger_def bag_def load_def Let_def e_def [symmetric]
          remaining_def waiting_def)
  qed
  then show "admit_inv st'" "admit_rel st st'"
    "ce_active e = [] \<and> prefill_sequences st = 0 \<and> prefill_budget st = 0 \<Longrightarrow> admitted_any st'" by simp_all
qed

lemma admit_loop_spec:
  assumes "admit_inv st"
  shows "admit_inv (admit_loop n st) \<and> admit_rel st (admit_loop n st)"
  using assms
proof (induction n st rule: admit_loop.induct)
  case (1 st)
  then show ?case by simp
next
  case (2 n st)
  let ?e = "as_engine st"
  obtain queue got where pop: "PopReady (ce_pending ?e) (ce_clock ?e) = (queue, got)" by fastforce
  show ?case
  proof (cases "length (ce_active ?e) < max_batch_sequences (ce_config ?e) \<and> got \<noteq> None")
    case True
    then obtain c where c: "got = Some c" by blast
    obtain st1 go where ad: "admit_candidate (st\<lparr>as_engine := ?e\<lparr>ce_pending := queue\<rparr>\<rparr>) c = (st1, go)" by fastforce
    note step = admit_step [OF "2.prems" pop [unfolded c] _ ad]
    show ?thesis
    proof (cases go)
      case go: True
      have "admit_inv (admit_loop n st1) \<and> admit_rel st1 (admit_loop n st1)"
        using "2.IH" [OF refl _ pop [symmetric] c ad [symmetric] go] True step(1) by simp
      with step(2) True admit_rel_trans show ?thesis using pop c ad go by (auto simp: Let_def)
    qed (use True pop c ad step in \<open>simp add: Let_def\<close>)
  qed (use "2.prems" pop in \<open>auto simp: Let_def split: option.splits\<close>)
qed

text \<open>With nothing active, the first ready request is resolved or admitted.\<close>

lemma admit_loop_progress:
  assumes inv: "admit_inv st" and "ce_active (as_engine st) = []" "prefill_sequences st = 0" "prefill_budget st = 0"
    and pop: "PopReady (ce_pending (as_engine st)) (ce_clock (as_engine st)) = (queue, Some c)"
  shows "admitted_any (admit_loop (Suc n) st)"
proof -
  let ?e = "as_engine st"
  have "0 < max_batch_sequences (ce_config ?e)"
    using inv by (simp add: admit_inv_def ce_inv_def ce_caches_def caches_inv_def config_ok_def)
  then have sz: "length (ce_active ?e) < max_batch_sequences (ce_config ?e)" using assms(2) by simp
  obtain st1 go where ad: "admit_candidate (st\<lparr>as_engine := ?e\<lparr>ce_pending := queue\<rparr>\<rparr>) c = (st1, go)" by fastforce
  note step = admit_step [OF inv pop sz ad]
  have "admitted_any st1" using step(3) assms by simp
  moreover have "admit_rel st1 (admit_loop n st1)" using admit_loop_spec [OF step(1)] by blast
  ultimately show ?thesis using pop ad sz by (simp add: Let_def admit_rel_def)
qed

definition ce_load :: "ContinuousEngine \<Rightarrow> nat \<times> nat" where
  "ce_load e = load (ce_preempted e) (ce_active e) (mset (ce_pending e))"

lemma AdmitReady_spec:
  assumes inv: "ce_inv e" and pre: "ce_active e = [] \<longrightarrow> ce_preempted e = {}" and ad: "AdmitReady e = (e', progressed)"
  shows "ce_inv e'" and "ce_config e' = ce_config e" and "ce_preempted e' = ce_preempted e"
    and "ledger e' = ledger e" and "ce_load e' \<le> ce_load e" and "progressed \<Longrightarrow> ce_load e' < ce_load e"
    and "ce_active e' = [] \<Longrightarrow> ce_active e = []"
    and "\<not> progressed \<Longrightarrow> mset (ce_pending e') = mset (ce_pending e) \<and> ce_active e' = ce_active e"
    and "ce_active e = [] \<Longrightarrow> r \<in> set (ce_pending e) \<Longrightarrow> arrival_time r \<le> ce_clock e \<Longrightarrow> progressed"
proof -
  let ?st0 = "\<lparr>as_engine = e, prefill_budget = 0, prefill_sequences = 0, deferred = [], admitted_any = False\<rparr>"
  define st where "st = admit_loop (length (ce_pending e)) ?st0"
  let ?q = "fold (\<lambda>r q. RequestQueue_Push q r) (deferred st) (ce_pending (as_engine st))"
  have e': "e' = (as_engine st)\<lparr>ce_pending := ?q\<rparr>" and p: "progressed = admitted_any st"
    using ad unfolding AdmitReady_def st_def [symmetric] Let_def by simp_all
  have i0: "admit_inv ?st0" using inv pre by (simp add: admit_inv_def)
  have ai: "admit_inv st" and rel: "admit_rel ?st0 st" using admit_loop_spec [OF i0] by (simp_all add: st_def)
  have q: "mset ?q = bag st" using rq.push_all_contents by (simp add: bag_def)
  have "set ?q = set_mset (bag st)" using q by (metis set_mset_mset)
  then have "set ?q = set (ce_pending (as_engine st)) \<union> set (deferred st)" by (simp add: bag_def)
  then show "ce_inv e'"
    using ai rq.push_all_inv [of "ce_pending (as_engine st)" "deferred st"] unfolding e'
    by (auto simp: admit_inv_def ce_inv_def ce_rest_def ce_caches_def)
  have bag0: "bag ?st0 = mset (ce_pending e)" by (simp add: bag_def)
  show "ce_config e' = ce_config e" "ce_preempted e' = ce_preempted e"
    and c: "ce_active e' = [] \<Longrightarrow> ce_active e = []"
    using rel by (simp_all add: e' admit_rel_def)
  have "ledger e' = st_ledger st" "ledger e = st_ledger ?st0"
    by (simp_all add: e' ledger_def st_ledger_def Let_def q bag0)
  with rel show "ledger e' = ledger e" by (simp add: admit_rel_def)
  have l: "ce_load e' = st_load st" "ce_load e = st_load ?st0"
    by (simp_all add: e' ce_load_def st_load_def q bag0)
  show "ce_load e' \<le> ce_load e" using rel unfolding l by (simp add: admit_rel_def)
  show "ce_load e' < ce_load e" if progressed using rel that p unfolding l by (simp add: admit_rel_def)
  show "mset (ce_pending e') = mset (ce_pending e) \<and> ce_active e' = ce_active e" if "\<not> progressed"
    using rel that p bag0 q by (simp add: admit_rel_def e')
  show progressed if h: "ce_active e = []" "r \<in> set (ce_pending e)" "arrival_time r \<le> ce_clock e"
  proof -
    have "queue_inv (ce_pending e)" using inv by (simp add: ce_inv_def ce_rest_def)
    then have "snd (PopReady (ce_pending e) (ce_clock e)) \<noteq> None"
      using rq.pop_None_iff [of "ce_pending e" "ce_clock e"] h(2,3) by (metis not_le set_mset_mset)
    then obtain queue c where "PopReady (ce_pending e) (ce_clock e) = (queue, Some c)"
      by (metis option.exhaust prod.collapse)
    moreover obtain n where "length (ce_pending e) = Suc n" using h(2) by (cases "ce_pending e") auto
    ultimately show ?thesis using admit_loop_progress [OF i0, of queue c n] h(1) p by (simp add: st_def)
  qed
qed

end
