(* ===== verification/ContinuousProgress.thy ===== *)
theory ContinuousProgress
  imports ContinuousInvariants
begin

text \<open>
  Completion, block growth, decode steps and whole iterations of the continuous engine: each
  keeps the invariant and the ledger, an iteration that reports progress lowers the load, and
  the loop \<open>RunUntilIdle\<close> returns with nothing outstanding.
\<close>

section \<open>Completion\<close>

definition unfinished :: "ActiveRequest \<Rightarrow> bool" where
  "unfinished a \<longleftrightarrow> generated_tokens a < max_output_tokens (ar_request a)"

lemma complete_one_spec:
  assumes inv: "ce_inv (e\<lparr>ce_active := kept @ a # rest\<rparr>)"
  shows "ce_inv ((complete_one e a)\<lparr>ce_active := kept @ rest\<rparr>)"
    and "ledger ((complete_one e a)\<lparr>ce_active := kept @ rest\<rparr>) = ledger (e\<lparr>ce_active := kept @ a # rest\<rparr>)"
proof -
  let ?r = "ar_request a" and ?cfg = "ce_config e"
  have ok: "active_ok ?cfg (ce_clock e) a" using inv by (simp add: ce_inv_def ce_rest_def)
  have ci: "caches_inv ?cfg (add_mset (request_id ?r) (mset (map aid (kept @ rest)))) (ce_prefix_cache e) (ce_kv_cache e)"
    using inv by (simp add: ce_inv_def ce_caches_def aid_def)
  have "caches_inv ?cfg (mset (map aid (kept @ rest))) (ce_prefix_cache e) (fst (Free (ce_kv_cache e) (request_id ?r)))"
    by (rule Free_caches(1) [OF ci])
  then show "ce_inv ((complete_one e a)\<lparr>ce_active := kept @ rest\<rparr>)"
    using inv ok result_cache_put [of "ce_result_cache e" ?r]
    by (auto simp: complete_one_def Let_def ce_inv_def ce_caches_def ce_rest_def active_ok_def)
  have "request_outcome ?cfg ?r = (request_id ?r, Inr (SimulatedOutput ?r))"
    using ok by (intro request_outcome_possible) (simp add: active_ok_def)
  then show "ledger ((complete_one e a)\<lparr>ce_active := kept @ rest\<rparr>) = ledger (e\<lparr>ce_active := kept @ a # rest\<rparr>)"
    by (simp add: complete_one_def Let_def ledger_def result_outcome_def DefaultResult_def)
qed

lemma complete_from_spec:
  assumes "ce_inv (e\<lparr>ce_active := kept @ rest\<rparr>)" and "\<forall>a \<in> set kept. unfinished a"
  shows "ce_inv (complete_from kept rest e)
    \<and> ledger (complete_from kept rest e) = ledger (e\<lparr>ce_active := kept @ rest\<rparr>)
    \<and> ce_active (complete_from kept rest e) = kept @ filter unfinished rest
    \<and> ce_pending (complete_from kept rest e) = ce_pending e
    \<and> ce_preempted (complete_from kept rest e) = ce_preempted e
    \<and> ce_config (complete_from kept rest e) = ce_config e
    \<and> ce_clock (complete_from kept rest e) = ce_clock e"
  using assms
proof (induction kept rest e rule: complete_from.induct)
  case (2 kept a rest e)
  show ?case
  proof (cases "unfinished a")
    case True
    with "2.IH"(1) "2.prems" show ?thesis by (simp add: unfinished_def)
  next
    case False
    note c = complete_one_spec [OF "2.prems"(1)]
    have "ce_pending (complete_one e a) = ce_pending e" "ce_preempted (complete_one e a) = ce_preempted e"
      "ce_config (complete_one e a) = ce_config e" "ce_clock (complete_one e a) = ce_clock e"
      by (simp_all add: complete_one_def Let_def)
    with "2.IH"(2) c False "2.prems"(2) show ?thesis by (simp add: unfinished_def)
  qed
qed simp

lemma CompleteFinished_spec:
  assumes "ce_inv e"
  shows "ce_inv (CompleteFinished e)" and "ledger (CompleteFinished e) = ledger e"
    and "ce_active (CompleteFinished e) = filter unfinished (ce_active e)"
    and "ce_pending (CompleteFinished e) = ce_pending e" and "ce_preempted (CompleteFinished e) = ce_preempted e"
    and "ce_config (CompleteFinished e) = ce_config e" and "ce_clock (CompleteFinished e) = ce_clock e"
  using complete_from_spec [of "[]" "ce_active e" e] assms by (simp_all add: CompleteFinished_def)

text \<open>Completing lowers the load whenever it removes a sequence.\<close>

lemma CompleteFinished_load:
  assumes "ce_inv e"
  shows "ce_load (CompleteFinished e) \<le> ce_load e"
    and "\<exists>a \<in> set (ce_active e). \<not> unfinished a \<Longrightarrow> ce_load (CompleteFinished e) < ce_load e"
    and "\<exists>a \<in> set (ce_active e). \<not> unfinished a \<Longrightarrow> fst (ce_load (CompleteFinished e)) < fst (ce_load e)"
proof -
  note c = CompleteFinished_spec [OF assms]
  have eq: "filter unfinished (ce_active e) = ce_active e" if "\<forall>a \<in> set (ce_active e). unfinished a"
    using that by simp
  show f: "fst (ce_load (CompleteFinished e)) < fst (ce_load e)" if "\<exists>a \<in> set (ce_active e). \<not> unfinished a"
    using that length_filter_less c by (fastforce simp: ce_load_def load_def)
  show l: "ce_load (CompleteFinished e) < ce_load e" if "\<exists>a \<in> set (ce_active e). \<not> unfinished a"
    using f [OF that] by (simp add: less_prod_def)
  show "ce_load (CompleteFinished e) \<le> ce_load e"
    using l eq c by (cases "\<forall>a \<in> set (ce_active e). unfinished a") (auto simp: ce_load_def)
qed

section \<open>Growing sequences and preemption\<close>

definition has_blocks :: "ContinuousEngine \<Rightarrow> ActiveRequest \<Rightarrow> bool" where
  "has_blocks e a \<longleftrightarrow> NeededBlocks e a \<le> length (BlocksFor (ce_kv_cache e) (aid a))"

lemma NeededBlocks_capacity:
  assumes inv: "ce_inv e" and a: "a \<in> set (ce_active e)" "unfinished a"
  shows "NeededBlocks e a \<le> kv_blocks (ce_config e)"
proof -
  let ?r = "ar_request a"
  have ok: "impossible_reason (ce_config e) ?r = None" "request_ok ?r"
    using inv a by (auto simp: ce_inv_def ce_rest_def active_ok_def)
  then have "prompt_tokens ?r + max_output_tokens ?r < u64"
    by (auto simp: impossible_reason_def request_ok_def split: if_splits)
  then have t: "add64 (add64 (prompt_tokens ?r) (generated_tokens a)) 1 = prompt_tokens ?r + generated_tokens a + 1"
    using a(2) by (simp add: add64_exact unfinished_def)
  have "NeededBlocks e a \<le> BlocksForTokens (prompt_tokens ?r + max_output_tokens ?r) (kv_block_size_tokens (ce_config e))"
    unfolding NeededBlocks_def t using a(2) by (intro BlocksForTokens_mono) (simp add: unfinished_def)
  then show ?thesis using ok(1) by (simp add: impossible_reason_def split: if_splits)
qed

lemma grow_sequence_spec:
  assumes inv: "ce_inv e" and a: "a \<in> set (ce_active e)" "unfinished a" and g: "grow_sequence e a = (e', st)"
  shows "ce_inv e'" and "\<exists>rx kv. e' = e\<lparr>ce_kv_cache := kv, ce_prefix_cache := rx\<rparr>"
    and "st = kAllocated \<Longrightarrow> has_blocks e' a"
    and "aid b \<noteq> aid a \<Longrightarrow> has_blocks e b \<Longrightarrow> has_blocks e' b"
    and "st \<noteq> kAllocated \<Longrightarrow> 1 < length (ce_active e)"
proof -
  let ?cur = "length (BlocksFor (ce_kv_cache e) (aid a))" and ?need = "NeededBlocks e a"
  let ?ids = "mset (map aid (ce_active e))"
  have ci: "caches_inv (ce_config e) ?ids (ce_prefix_cache e) (ce_kv_cache e)" and rest: "ce_rest e"
    using inv by (simp_all add: ce_inv_def ce_caches_def)
  have id: "aid a \<in># ?ids" using a by simp
  have "ce_inv e' \<and> (\<exists>rx kv. e' = e\<lparr>ce_kv_cache := kv, ce_prefix_cache := rx\<rparr>) \<and> (st = kAllocated \<longrightarrow> has_blocks e' a)
      \<and> (\<forall>b. aid b \<noteq> aid a \<longrightarrow> has_blocks e b \<longrightarrow> has_blocks e' b) \<and> (st \<noteq> kAllocated \<longrightarrow> 1 < length (ce_active e))"
  proof (cases "?need \<le> ?cur")
    case True
    with g have e': "e' = e" "st = kAllocated" by (simp_all add: grow_sequence_def aid_def)
    have "e = e\<lparr>ce_kv_cache := ce_kv_cache e, ce_prefix_cache := ce_prefix_cache e\<rparr>" by simp
    with e' inv True show ?thesis unfolding has_blocks_def by blast
  next
    case False
    obtain rx kv s where ap: "append_evicting (ce_prefix_cache e) (ce_kv_cache e) (aid a) (?need - ?cur) = (rx, kv, s)"
      using prod_cases3 by blast
    have e': "e' = e\<lparr>ce_kv_cache := kv, ce_prefix_cache := rx\<rparr>" "st = s"
      using g False ap by (simp_all add: grow_sequence_def aid_def Let_def)
    note sp = append_evicting_spec [OF ci id ap]
    have need: "NeededBlocks (e\<lparr>ce_kv_cache := kv, ce_prefix_cache := rx\<rparr>) b = NeededBlocks e b" for b
      by (simp add: NeededBlocks_def)
    have "1 < length (ce_active e)" if "s \<noteq> kAllocated"
    proof (rule ccontr)
      assume "\<not> 1 < length (ce_active e)"
      with a have act: "ce_active e = [a]" by (cases "ce_active e" rule: list.exhaust; auto)
      have ci': "caches_inv (ce_config e) ?ids rx kv" and sq: "sequence_blocks kv = sequence_blocks (ce_kv_cache e)"
        and "rx_node_count rx = 0" and free: "free_blocks kv < ?need - ?cur"
        using sp that by (simp_all add: kv_same_seqs_def)
      then have "prefix_blocks kv = []" using rx_inv_node_count [of rx kv] by (simp add: caches_inv_def)
      moreover have "mset (map fst (sequence_blocks kv)) = {#aid a#}" using ci' act by (simp add: caches_inv_def)
      then have "map fst (sequence_blocks kv) = [aid a]" by (simp only: mset_single_iff)
      then obtain bs where "sequence_blocks kv = [(aid a, bs)]" by (auto simp: map_eq_Cons_conv)
      ultimately have "kv_entries kv = {#bs#}" "?cur = length bs" using sq by (simp_all add: kv_entries_def BlocksFor_def)
      then have "free_blocks kv = kv_blocks (ce_config e) - ?cur"
        using free_blocks_single [of kv bs] ci' by (simp add: caches_inv_def)
      with free NeededBlocks_capacity [OF inv a] show False by linarith
    qed
    moreover have "ce_inv e'" using sp rest by (auto simp: e' ce_inv_def ce_caches_def ce_rest_def)
    moreover have "has_blocks e' a" if "s = kAllocated"
      using sp that False by (simp add: has_blocks_def e' need)
    moreover have "has_blocks e' b" if "aid b \<noteq> aid a" "has_blocks e b" for b
      using sp that by (simp add: has_blocks_def e' need)
    ultimately show ?thesis using e' by blast
  qed
  then show "ce_inv e'" "\<exists>rx kv. e' = e\<lparr>ce_kv_cache := kv, ce_prefix_cache := rx\<rparr>"
    "st = kAllocated \<Longrightarrow> has_blocks e' a" "aid b \<noteq> aid a \<Longrightarrow> has_blocks e b \<Longrightarrow> has_blocks e' b"
    "st \<noteq> kAllocated \<Longrightarrow> 1 < length (ce_active e)" by blast+
qed

lemma Preempt_spec:
  assumes inv: "ce_inv e" and i: "i < length (ce_active e)"
  shows "ce_inv (Preempt e i)" and "ledger (Preempt e i) = ledger e" and "ce_load (Preempt e i) \<le> ce_load e"
    and "fst (ce_load (Preempt e i)) = fst (ce_load e)"
    and "set (ce_active (Preempt e i)) \<subseteq> set (ce_active e)"
    and "Suc (length (ce_active (Preempt e i))) = length (ce_active e)"
    and "ce_config (Preempt e i) = ce_config e" and "ce_clock (Preempt e i) = ce_clock e"
proof -
  obtain v xs ys where vxy: "v = ce_active e ! i" "xs = take i (ce_active e)" "ys = drop (Suc i) (ce_active e)" by blast
  then have act: "ce_active e = xs @ v # ys" using i by (simp add: id_take_nth_drop)
  let ?r = "ar_request v" and ?ids = "mset (map aid (xs @ ys))"
  let ?r' = "?r\<lparr>arrival_time := ce_clock e\<rparr>"
  have e': "Preempt e i = e\<lparr>ce_kv_cache := fst (Free (ce_kv_cache e) (request_id ?r)),
      ce_pending := RequestQueue_Push (ce_pending e) ?r', ce_active := xs @ ys,
      ce_stats := (ce_stats e)\<lparr>preemptions := add64 (preemptions (ce_stats e)) 1\<rparr>,
      ce_preempted := insert (request_id ?r) (ce_preempted e)\<rparr>"
    unfolding Preempt_def Let_def vxy ..
  have "caches_inv (ce_config e) (add_mset (request_id ?r) ?ids) (ce_prefix_cache e) (ce_kv_cache e)"
    using inv by (simp add: ce_inv_def ce_caches_def act aid_def)
  from Free_caches(1) [OF this] have "ce_caches ?ids (Preempt e i)" by (simp add: e' ce_caches_def)
  moreover have "ce_rest (Preempt e i)"
    using inv rq.push_inv by (auto simp: e' act ce_inv_def ce_rest_def active_ok_def request_ok_def)
  ultimately show "ce_inv (Preempt e i)" by (simp add: ce_inv_def e')
  show "ledger (Preempt e i) = ledger e" by (simp add: e' act ledger_def)
  show f: "fst (ce_load (Preempt e i)) = fst (ce_load e)" by (simp add: e' act ce_load_def load_def)
  have "waiting (insert s P) r \<le> waiting P r" for s P r by (simp add: waiting_def)
  then have "sum_mset (image_mset (waiting (insert s P)) M) \<le> sum_mset (image_mset (waiting P) M)" for s P M
    by (rule sum_mset_mono)
  moreover have "waiting (insert (request_id ?r) (ce_preempted e)) ?r' = 0" by (simp add: waiting_def)
  ultimately have "snd (ce_load (Preempt e i)) \<le> snd (ce_load e)"
    by (simp add: e' act ce_load_def load_def trans_le_add2)
  with f show "ce_load (Preempt e i) \<le> ce_load e" by (simp add: less_eq_prod_def)
  show "set (ce_active (Preempt e i)) \<subseteq> set (ce_active e)"
    "Suc (length (ce_active (Preempt e i))) = length (ce_active e)"
    "ce_config (Preempt e i) = ce_config e" "ce_clock (Preempt e i) = ce_clock e" by (auto simp: e' act)
qed

text \<open>
  The whole loop: some sequence always stays, because the last one never fails to grow, and in
  the end every sequence has the blocks its next token needs.
\<close>

definition prepared :: "ContinuousEngine \<Rightarrow> ContinuousEngine \<Rightarrow> bool" where
  "prepared e e' \<longleftrightarrow> ce_inv e' \<and> ce_active e' \<noteq> [] \<and> set (ce_active e') \<subseteq> set (ce_active e) \<and>
     (\<forall>a \<in> set (ce_active e'). has_blocks e' a) \<and> ledger e' = ledger e \<and> ce_load e' \<le> ce_load e \<and>
     fst (ce_load e') = fst (ce_load e) \<and> ce_config e' = ce_config e"

lemma prepared_after:
  assumes "prepared e1 e'" and "set (ce_active e1) \<subseteq> set (ce_active e)" "ledger e1 = ledger e"
    "ce_load e1 \<le> ce_load e" "fst (ce_load e1) = fst (ce_load e)" "ce_config e1 = ce_config e"
  shows "prepared e e'"
  using assms order_trans [of "ce_load e'" "ce_load e1" "ce_load e"] by (auto simp: prepared_def)

lemma distinct_aids: "ce_inv e \<Longrightarrow> distinct (map aid (ce_active e))"
  using caches_inv_seq(2) mset_eq_imp_distinct_iff
  unfolding ce_inv_def ce_caches_def caches_inv_def by metis

lemma prepare_from_spec:
  assumes "ce_inv e" and "ce_active e \<noteq> []" and "\<forall>a \<in> set (ce_active e). unfinished a"
    and "\<forall>j < index. j < length (ce_active e) \<longrightarrow> has_blocks e (ce_active e ! j)"
  shows "prepared e (prepare_from index e)"
  using assms
proof (induction index e rule: prepare_from.induct)
  case (1 index e)
  show ?case
  proof (cases "index < length (ce_active e)")
    case False
    then have "\<forall>a \<in> set (ce_active e). has_blocks e a" using "1.prems"(4) by (auto simp: in_set_conv_nth)
    with False "1.prems" show ?thesis by (simp add: prepare_from.simps [of index e] prepared_def)
  next
    case True
    let ?a = "ce_active e ! index"
    obtain e1 st where g: "grow_sequence e ?a = (e1, st)" by fastforce
    have a: "?a \<in> set (ce_active e)" "unfinished ?a" using True "1.prems"(3) by auto
    note gs = grow_sequence_spec [OF "1.prems"(1) a g]
    from gs(2) have same: "ce_active e1 = ce_active e" "ce_pending e1 = ce_pending e" "ce_preempted e1 = ce_preempted e"
      "ce_config e1 = ce_config e" "ce_results e1 = ce_results e" by auto
    then have ll: "ledger e1 = ledger e" "ce_load e1 = ce_load e" by (simp_all add: ledger_def ce_load_def)
    show ?thesis
    proof (cases "st = kAllocated")
      case st: True
      have "has_blocks e1 (ce_active e1 ! j)" if j: "j < Suc index" "j < length (ce_active e1)" for j
      proof (cases "j = index")
        case False
        with j True distinct_aids [OF "1.prems"(1)] same have "aid (ce_active e ! j) \<noteq> aid ?a"
          by (simp add: distinct_conv_nth)
        with gs(4) False j "1.prems"(4) same show ?thesis by simp
      qed (use gs(3) st same in simp)
      then have "prepared e1 (prepare_from (Suc index) e1)"
        using "1.IH"(1) [OF True g [symmetric] st gs(1)] "1.prems" same by simp
      then have "prepared e (prepare_from (Suc index) e1)" by (rule prepared_after) (simp_all add: same ll)
      then show ?thesis using True g st by (simp add: prepare_from.simps [of index e])
    next
      case st: False
      let ?e2 = "Preempt e1 (SelectVictim e1)"
      have "SelectVictim e1 < length (ce_active e1)" using same "1.prems"(2) by (intro SelectVictim_less) simp
      note ps = Preempt_spec [OF gs(1) this]
      have "ce_active ?e2 \<noteq> []" using ps(6) gs(5) [OF st] same by auto
      moreover have "\<forall>a \<in> set (ce_active ?e2). unfinished a" using ps(5) "1.prems"(3) same by auto
      ultimately have "prepared ?e2 (prepare_from 0 ?e2)"
        using "1.IH"(2) [OF True g [symmetric] st ps(1)] by simp
      then have "prepared e (prepare_from 0 ?e2)" by (rule prepared_after) (use ps same ll in simp_all)
      then show ?thesis using True g st by (simp add: prepare_from.simps [of index e])
    qed
  qed
qed

section \<open>Decode steps\<close>

lemma decode_step_spec:
  assumes inv: "ce_inv e" and u: "\<forall>a \<in> set (ce_active e). unfinished a" and ne: "ce_active e \<noteq> []"
  shows "ce_inv (decode_step e)" and "ledger (decode_step e) = ledger e" and "ce_load (decode_step e) < ce_load e"
    and "ce_config (decode_step e) = ce_config e" and "ce_active (decode_step e) \<noteq> []"
    and "fst (ce_load (decode_step e)) = fst (ce_load e)"
proof -
  obtain cm cost where d: "DecodeStep (ce_cost_model e) (length (ce_active e)) = (cm, cost)" by fastforce
  let ?now = "Advance (ce_clock e) cost"
  obtain s where e': "decode_step e = e\<lparr>ce_clock := ?now, ce_cost_model := cm,
      ce_active := map (decode_one ?now) (ce_active e), ce_stats := s\<rparr>"
    using d by (simp add: decode_step_def Let_def)
  have g: "generated_tokens (decode_one ?now a) = Suc (generated_tokens a)"
    "ar_request (decode_one ?now a) = ar_request a" "ar_state (decode_one ?now a) = ar_state a"
    if "a \<in> set (ce_active e)" for a
  proof -
    have "generated_tokens a + 1 < u64"
      using that u inv by (force simp: unfinished_def ce_inv_def ce_rest_def active_ok_def request_ok_def)
    then show "generated_tokens (decode_one ?now a) = Suc (generated_tokens a)"
      "ar_request (decode_one ?now a) = ar_request a" "ar_state (decode_one ?now a) = ar_state a"
      by (simp_all add: decode_one_def Let_def add64_exact)
  qed
  have ok: "active_ok (ce_config e) ?now (decode_one ?now a)" if a: "a \<in> set (ce_active e)" for a
  proof -
    have "active_ok (ce_config e) (ce_clock e) a" "unfinished a"
      using a inv u by (simp_all add: ce_inv_def ce_rest_def)
    moreover have "ar_first_token_at (decode_one ?now a) \<le> ?now"
      using calculation Advance_ge [of "ce_clock e" cost] g(1) [OF a]
      by (auto simp: decode_one_def Let_def active_ok_def unfinished_def)
    ultimately show ?thesis using g [OF a] by (simp add: active_ok_def unfinished_def)
  qed
  have ids: "map aid (map (decode_one ?now) (ce_active e)) = map aid (ce_active e)"
    using g by (simp add: aid_def)
  have reqs: "map ar_request (map (decode_one ?now) (ce_active e)) = map ar_request (ce_active e)"
    using g by simp
  have "ce_caches (mset (map aid (ce_active (decode_step e)))) (decode_step e)"
    using inv arg_cong [OF ids, of mset] by (simp add: e' ce_inv_def ce_caches_def del: mset_map)
  moreover have "ce_rest (decode_step e)" using inv ok by (simp add: e' ce_inv_def ce_rest_def)
  ultimately show "ce_inv (decode_step e)" by (simp add: ce_inv_def)
  show "ledger (decode_step e) = ledger e"
    using arg_cong [OF reqs, of "\<lambda>rs. image_mset (request_outcome (ce_config e)) (mset rs)"]
    unfolding e' ledger_def by (simp add: image_mset.compositionality o_def)
  have rem: "Suc (remaining (decode_one ?now a)) = remaining a" if "a \<in> set (ce_active e)" for a
    using g [OF that] u that by (auto simp: remaining_def unfinished_def)
  have "sum_list (map (remaining \<circ> decode_one ?now) as) + length as = sum_list (map remaining as)"
    if "set as \<subseteq> set (ce_active e)" for as
    using that
  proof (induction as)
    case (Cons a as)
    with rem [of a] show ?case by simp
  qed simp
  from this [of "ce_active e"] ne show "ce_load (decode_step e) < ce_load e"
    unfolding e' ce_load_def load_def less_prod_def by (cases "ce_active e") auto
  show "ce_config (decode_step e) = ce_config e" "ce_active (decode_step e) \<noteq> []"
    "fst (ce_load (decode_step e)) = fst (ce_load e)"
    using ne by (simp_all add: e' ce_load_def load_def)
qed

section \<open>Iterations\<close>

text \<open>Preempted requests are only held back while something is active.\<close>

definition held_back :: "ContinuousEngine \<Rightarrow> string set" where
  "held_back e = (if ce_active e = [] then {} else ce_preempted e)"

definition epoch_load :: "ContinuousEngine \<Rightarrow> nat \<times> nat" where
  "epoch_load e = load (held_back e) (ce_active e) (mset (ce_pending e))"

definition settled :: "ContinuousEngine \<Rightarrow> bool" where
  "settled e \<longleftrightarrow> ce_inv e \<and> (\<forall>a \<in> set (ce_active e). unfinished a)"

lemma epoch_load_active: "ce_active e \<noteq> [] \<Longrightarrow> epoch_load e = ce_load e"
  by (simp add: epoch_load_def held_back_def ce_load_def)

lemma epoch_load_fst: "fst (ce_load e) < n \<Longrightarrow> epoch_load e < (n, m)"
  by (simp add: epoch_load_def ce_load_def load_def less_prod_def)

lemma CompleteFinished_settled: "ce_inv e \<Longrightarrow> settled (CompleteFinished e)"
  using CompleteFinished_spec [of e] by (simp add: settled_def)

lemma CompleteFinished_epoch:
  assumes "ce_inv e" and "ce_active e \<noteq> []" and "ce_load e < L \<or> fst (ce_load e) < fst L"
  shows "epoch_load (CompleteFinished e) < L"
proof -
  obtain n m where L: "L = (n, m)" by fastforce
  have le: "fst (ce_load e) \<le> n" using assms(3) L by (auto simp: less_prod_def)
  show ?thesis
  proof (cases "\<forall>a \<in> set (ce_active e). unfinished a")
    case True
    then have "ce_active (CompleteFinished e) = ce_active e"
      using CompleteFinished_spec(3) [OF assms(1)] by simp
    moreover have "ce_load (CompleteFinished e) \<le> ce_load e" by (rule CompleteFinished_load(1) [OF assms(1)])
    moreover have "ce_load e < L" using assms(3) by (auto simp: less_prod_def)
    ultimately show ?thesis using assms(2) by (metis epoch_load_active le_less_trans)
  next
    case False
    then have "fst (ce_load (CompleteFinished e)) < n" using CompleteFinished_load(3) [OF assms(1)] le by fastforce
    then show ?thesis unfolding L by (rule epoch_load_fst)
  qed
qed

lemma RunOneIteration_spec:
  assumes s: "settled e" and run: "RunOneIteration e = (e', progressed)"
  shows "settled e'" and "ledger e' = ledger e" and "ce_config e' = ce_config e"
    and "progressed \<Longrightarrow> epoch_load e' < epoch_load e"
    and "\<not> progressed \<Longrightarrow> ce_active e = [] \<and> ce_active e' = [] \<and> mset (ce_pending e') = mset (ce_pending e)
      \<and> (\<forall>r \<in> set (ce_pending e). ce_clock e < arrival_time r)"
proof -
  define e0 where "e0 = (if ce_active e = [] then e\<lparr>ce_preempted := {}\<rparr> else e)"
  obtain e1 p where ad: "AdmitReady e0 = (e1, p)" by fastforce
  have e0: "ce_inv e0" "ce_active e0 = [] \<longrightarrow> ce_preempted e0 = {}" "ledger e0 = ledger e"
    "ce_load e0 = epoch_load e" "ce_active e0 = ce_active e" "ce_pending e0 = ce_pending e"
    "ce_clock e0 = ce_clock e" "ce_config e0 = ce_config e"
    using s by (auto simp: e0_def settled_def ce_inv_def ce_caches_def ce_rest_def ledger_def ce_load_def
        epoch_load_def held_back_def)
  note a = AdmitReady_spec [OF e0(1,2) ad]
  let ?e2 = "CompleteFinished e1"
  note c = CompleteFinished_spec [OF a(1)]
  have ll: "ledger ?e2 = ledger e" "ce_config ?e2 = ce_config e" using a c e0 by simp_all
  have e2: "settled ?e2" by (rule CompleteFinished_settled [OF a(1)])
  have low: "epoch_load ?e2 < epoch_load e" if p
  proof (cases "ce_active e1 = []")
    case True
    then have "ce_active e = []" "ce_preempted e1 = {}" using a(3,7) e0 by auto
    then have "epoch_load ?e2 = ce_load e1"
      using c True by (simp add: epoch_load_def ce_load_def held_back_def)
    with a(6) that e0(4) show ?thesis by simp
  next
    case False
    with CompleteFinished_epoch [OF a(1) False] a(6) that e0(4) show ?thesis by simp
  qed
  have stuck: "ce_active e = [] \<and> (\<forall>r \<in> set (ce_pending e). ce_clock e < arrival_time r)
      \<and> mset (ce_pending ?e2) = mset (ce_pending e)" if "\<not> p" "ce_active ?e2 = []"
  proof -
    have eq: "ce_active e1 = ce_active e" "mset (ce_pending e1) = mset (ce_pending e)" using a(8) that e0 by simp_all
    then have "ce_active e = []" using that c(3) s by (auto simp: settled_def filter_empty_conv)
    with a(9) that e0 eq c(4) show ?thesis by (metis linorder_not_le)
  qed
  have "settled e' \<and> ledger e' = ledger e \<and> ce_config e' = ce_config e \<and> (progressed \<longrightarrow> epoch_load e' < epoch_load e)
      \<and> (\<not> progressed \<longrightarrow> ce_active e = [] \<and> ce_active e' = [] \<and> mset (ce_pending e') = mset (ce_pending e)
          \<and> (\<forall>r \<in> set (ce_pending e). ce_clock e < arrival_time r))"
  proof (cases "ce_active ?e2 = []")
    case True
    then have "e' = ?e2" "progressed = p" using run ad by (simp_all add: RunOneIteration_def e0_def [symmetric] Let_def)
    with True e2 ll low stuck show ?thesis by blast
  next
    case False
    let ?e3 = "prepare_from 0 ?e2"
    have u: "\<forall>a \<in> set (ce_active ?e2). unfinished a" using e2 by (simp add: settled_def)
    have pr: "prepared ?e2 ?e3" using e2 False u by (intro prepare_from_spec) (simp_all add: settled_def)
    then have e': "e' = CompleteFinished (decode_step ?e3)" "progressed"
      using run ad False
      by (simp_all add: RunOneIteration_def e0_def [symmetric] Let_def PrepareDecodeBlocks_def prepared_def)
    have "\<forall>a \<in> set (ce_active ?e3). unfinished a" using pr u by (auto simp: prepared_def)
    with pr have d: "ce_inv (decode_step ?e3)" "ledger (decode_step ?e3) = ledger e" "ce_load (decode_step ?e3) < ce_load ?e3"
      "ce_config (decode_step ?e3) = ce_config e" "ce_active (decode_step ?e3) \<noteq> []"
      using decode_step_spec [of ?e3] ll by (simp_all add: prepared_def)
    have "ce_load ?e3 \<le> ce_load e0"
      using pr CompleteFinished_load(1) [OF a(1)] a(5) unfolding prepared_def by (meson order_trans)
    with d(3) e0(4) have "ce_load (decode_step ?e3) < epoch_load e" by simp
    then have "epoch_load e' < epoch_load e" unfolding e' using CompleteFinished_epoch [OF d(1,5)] by blast
    then show ?thesis using e' CompleteFinished_settled [OF d(1)] CompleteFinished_spec [OF d(1)] d by simp
  qed
  then show "settled e'" "ledger e' = ledger e" "ce_config e' = ce_config e"
    "progressed \<Longrightarrow> epoch_load e' < epoch_load e"
    "\<not> progressed \<Longrightarrow> ce_active e = [] \<and> ce_active e' = [] \<and> mset (ce_pending e') = mset (ce_pending e)
      \<and> (\<forall>r \<in> set (ce_pending e). ce_clock e < arrival_time r)" by blast+
qed

section \<open>Running until idle\<close>

definition idle_flag :: "ContinuousEngine \<Rightarrow> nat" where
  "idle_flag e = (if ce_active e = [] \<and> (\<forall>r \<in> set (ce_pending e). ce_clock e < arrival_time r) then 1 else 0)"

definition run_measure :: "ContinuousEngine \<Rightarrow> (nat \<times> nat) \<times> nat" where
  "run_measure e = (epoch_load e, idle_flag e)"

text \<open>After an iteration without progress, the clock jumps to an arrival and a request is ready.\<close>

lemma clock_jump:
  assumes s: "settled e" and run: "RunOneIteration e = (e', False)" and t: "NextArrival (ce_pending e') = Some t"
    and e'': "e'' = e'\<lparr>ce_clock := Advance (ce_clock e') (t - ce_clock e')\<rparr>"
  shows "settled e''" and "ledger e'' = ledger e" and "ce_config e'' = ce_config e" and "run_measure e'' < run_measure e"
proof -
  note r = RunOneIteration_spec [OF s run]
  have q: "ce_active e = []" "ce_active e' = []" "mset (ce_pending e') = mset (ce_pending e)"
    "\<forall>r \<in> set (ce_pending e). ce_clock e < arrival_time r" using r(5) by simp_all
  show "settled e''" using r(1) q(2) by (simp add: e'' settled_def ce_inv_def ce_caches_def ce_rest_def)
  show "ledger e'' = ledger e" "ce_config e'' = ce_config e" using r(2,3) by (simp_all add: e'' ledger_def)
  have "queue_inv (ce_pending e')" using r(1) by (simp add: settled_def ce_inv_def ce_rest_def)
  then obtain x where "x \<in> set (ce_pending e')" "arrival_time x = t"
    using rq.next_arrival_min [OF _ t] by auto
  then have "idle_flag e'' = 0" by (force simp: idle_flag_def e'' Advance_to)
  moreover have "idle_flag e = 1" using q by (simp add: idle_flag_def)
  moreover have "epoch_load e'' = epoch_load e" using q by (simp add: epoch_load_def held_back_def e'')
  ultimately show "run_measure e'' < run_measure e" by (simp add: run_measure_def)
qed

lemma RunUntilIdle_returns:
  assumes "settled e"
  shows "\<exists>e'. RunUntilIdle e = Some e' \<and> settled e' \<and> ce_pending e' = [] \<and> ce_active e' = []
    \<and> ledger e' = ledger e \<and> ce_config e' = ce_config e"
  using assms
proof (induction "run_measure e" arbitrary: e rule: less_induct)
  case less
  show ?case
  proof (cases "ce_pending e \<noteq> [] \<or> ce_active e \<noteq> []")
    case False
    with less.prems show ?thesis by (simp add: RunUntilIdle.simps)
  next
    case True
    obtain e1 p where run: "RunOneIteration e = (e1, p)" by fastforce
    note r = RunOneIteration_spec [OF less.prems run]
    show ?thesis
    proof (cases p)
      case p: True
      then have "run_measure e1 < run_measure e" using r(4) by (simp add: run_measure_def)
      from less.hyps [OF this r(1)] True run p r(2,3) show ?thesis
        by (simp add: RunUntilIdle.simps [of e])
    next
      case p: False
      with r(5) True have "ce_pending e1 \<noteq> []" by auto
      then obtain t where t: "NextArrival (ce_pending e1) = Some t" by (cases "ce_pending e1") (auto simp: NextArrival_def)
      have run': "RunOneIteration e = (e1, False)" using run p by simp
      note j = clock_jump [OF less.prems run' t refl]
      from less.hyps [OF j(4,1)] j(2,3) True run p t show ?thesis by (simp add: RunUntilIdle.simps [of e])
    qed
  qed
qed

section \<open>Construction, submission, clearing\<close>

lemma MakeContinuousEngine_settled:
  assumes make: "MakeContinuousEngine draw cfg = Inr e"
    and small: "max_batch_sequences cfg + prefix_cache_entries cfg + kv_blocks cfg + 3 < u32"
      "max_batch_tokens cfg < u64"
  shows "settled e" and "ce_config e = cfg" and "ledger e = {#}" and "ce_pending e = []" and "ce_active e = []"
proof -
  obtain cm kv rx rc where m: "MakeCostModel draw (seed cfg) (cost_model cfg) = Inr cm"
    "MakePagedKvCache (kv_blocks cfg) (kv_block_size_tokens cfg) = Inr kv"
    "MakeRadixPrefixCache (prefix_cache_entries cfg) = Inr rx" "MakeResultCache (result_cache_entries cfg) = Inr rc"
    using make by (auto simp: MakeContinuousEngine_def split: sum.splits)
  from make m have pos: "0 < max_batch_sequences cfg" "0 < max_batch_tokens cfg"
    "0 < max_prefill_sequences_per_iteration cfg" and e: "e = \<lparr>ce_config = cfg, ce_clock = 0, ce_cost_model = cm,
      ce_kv_cache = kv, ce_prefix_cache = rx, ce_result_cache = rc, ce_pending = [], ce_active = [],
      ce_results = [], ce_stats = zero_stats, ce_preempted = {}, ce_prefix_accounted = {}\<rparr>"
    by (auto simp: MakeContinuousEngine_def split: if_splits)
  have kv: "kv_inv kv" "prefix_blocks kv = []" "sequence_blocks kv = []" "total_blocks kv = kv_blocks cfg"
    "0 < kv_block_size_tokens cfg"
    using m(2) MakePagedKvCache_inv [OF m(2)] MakePagedKvCache_no_pins [OF m(2)]
    by (auto simp: MakePagedKvCache_def total_blocks_def split: if_splits)
  note rx = MakeRadixPrefixCache_inv [OF m(3) kv(2)]
  have rc: "rc_inv rc" "rc_view rc = []" using MakeResultCache_inv [OF m(4)] m(4)
    by (auto simp: rc_view_def MakeResultCache_def split: if_splits)
  show "settled e" using kv rx rc pos small
    by (simp add: e settled_def ce_inv_def ce_caches_def ce_rest_def caches_inv_def config_ok_def
        result_cache_sound_def queue_inv_def)
  show "ce_config e = cfg" "ledger e = {#}" "ce_pending e = []" "ce_active e = []" by (simp_all add: e ledger_def)
qed

lemma Submit_settled:
  assumes "settled e" and "request_ok r"
  shows "settled (Submit e r)" and "ledger (Submit e r) = add_mset (request_outcome (ce_config e) r) (ledger e)"
    and "ce_config (Submit e r) = ce_config e"
  using assms rq.push_inv
  by (auto simp: Submit_def Let_def settled_def ce_inv_def ce_caches_def ce_rest_def ledger_def)

lemma ClearCaches_settled:
  assumes "settled e"
  shows "settled (ClearCaches e)" and "ledger (ClearCaches e) = ledger e" and "ce_config (ClearCaches e) = ce_config e"
proof -
  obtain rx kv where c: "RadixClear (ce_prefix_cache e) (ce_kv_cache e) = (rx, kv)" by fastforce
  have ci: "caches_inv (ce_config e) (mset (map aid (ce_active e))) (ce_prefix_cache e) (ce_kv_cache e)"
    using assms by (simp add: settled_def ce_inv_def ce_caches_def)
  then have "rx_inv (ce_prefix_cache e) (ce_kv_cache e)" "kv_inv (ce_kv_cache e)" by (simp_all add: caches_inv_def)
  note s = RadixClear_spec [OF this caches_inv_entries(3) [OF ci] c]
  have "caches_inv (ce_config e) (mset (map aid (ce_active e))) rx kv"
    using s by (intro caches_inv_same_seqs [OF ci]) simp_all
  then show "settled (ClearCaches e)"
    using assms c by (simp add: ClearCaches_def settled_def ce_inv_def ce_caches_def ce_rest_def)
  show "ledger (ClearCaches e) = ledger e" "ce_config (ClearCaches e) = ce_config e"
    using c by (simp_all add: ClearCaches_def ledger_def)
qed

lemma Submit_all:
  assumes "settled e" and "\<forall>r \<in> set rs. request_ok r"
  shows "settled (fold (\<lambda>r e. Submit e r) rs e) \<and> ce_config (fold (\<lambda>r e. Submit e r) rs e) = ce_config e
    \<and> ledger (fold (\<lambda>r e. Submit e r) rs e) = image_mset (request_outcome (ce_config e)) (mset rs) + ledger e"
  using assms
proof (induction rs arbitrary: e)
  case (Cons r rs)
  with Submit_settled [of e r] show ?case by simp
qed simp

section \<open>Runs of the engine\<close>

text \<open>
  Any client's use of the engine, with the list of requests submitted so far: submissions, single
  iterations, complete runs and cache clears, in any order.
\<close>

inductive ce_step :: "EngineRequest list \<times> ContinuousEngine \<Rightarrow> EngineRequest list \<times> ContinuousEngine \<Rightarrow> bool" where
  submit: "request_ok r \<Longrightarrow> ce_step (rs, e) (r # rs, Submit e r)"
| iterate: "RunOneIteration e = (e', p) \<Longrightarrow> ce_step (rs, e) (rs, e')"
| run: "RunUntilIdle e = Some e' \<Longrightarrow> ce_step (rs, e) (rs, e')"
| clear: "ce_step (rs, e) (rs, ClearCaches e)"

definition small_config :: "EngineConfig \<Rightarrow> bool" where
  "small_config cfg \<longleftrightarrow> max_batch_sequences cfg + prefix_cache_entries cfg + kv_blocks cfg + 3 < u32
     \<and> max_batch_tokens cfg < u64"

definition ce_initial :: "EngineRequest list \<times> ContinuousEngine \<Rightarrow> bool" where
  "ce_initial s \<longleftrightarrow> fst s = [] \<and> (\<exists>draw cfg. small_config cfg \<and> MakeContinuousEngine draw cfg = Inr (snd s))"

definition ce_accounted :: "EngineRequest list \<times> ContinuousEngine \<Rightarrow> bool" where
  "ce_accounted s \<longleftrightarrow> settled (snd s) \<and>
     ledger (snd s) = image_mset (request_outcome (ce_config (snd s))) (mset (fst s))"

lemma ce_step_accounted: "ce_step s t \<Longrightarrow> ce_accounted s \<Longrightarrow> ce_accounted t"
proof (induction rule: ce_step.induct)
  case (submit r rs e)
  with Submit_settled [of e r] show ?case by (simp add: ce_accounted_def)
next
  case (iterate e e' p rs)
  with RunOneIteration_spec [of e e' p] show ?case by (simp add: ce_accounted_def)
next
  case (run e e' rs)
  with RunUntilIdle_returns [of e] show ?case by (auto simp: ce_accounted_def)
next
  case (clear rs e)
  with ClearCaches_settled [of e] show ?case by (simp add: ce_accounted_def)
qed

interpretation ce_run: invariant_system ce_initial ce_step ce_accounted
proof
  fix s t
  show "ce_initial s \<Longrightarrow> ce_accounted s"
    using MakeContinuousEngine_settled by (fastforce simp: ce_initial_def small_config_def ce_accounted_def)
  show "ce_accounted s \<Longrightarrow> ce_step s t \<Longrightarrow> ce_accounted t" using ce_step_accounted by blast
qed

lemma settled_CheckInvariants: "settled e \<Longrightarrow> CheckInvariants (ce_kv_cache e)"
proof -
  assume "settled e"
  then have ci: "caches_inv (ce_config e) (mset (map aid (ce_active e))) (ce_prefix_cache e) (ce_kv_cache e)"
    by (simp add: settled_def ce_inv_def ce_caches_def)
  then have "kv_inv (ce_kv_cache e)" by (simp add: caches_inv_def)
  then show ?thesis using CheckInvariants_iff_refs_ok [OF caches_inv_entries(4) [OF ci]]
    by (simp add: kv_inv_def kv_shape_def)
qed

section \<open>Properties\<close>

definition cfg_example :: EngineConfig where
  "cfg_example = \<lparr>kv_blocks = 4, kv_block_size_tokens = 16, max_batch_sequences = 2, max_batch_tokens = 64,
     max_prefill_sequences_per_iteration = 1, result_cache_entries = 2, prefix_cache_entries = 2, seed = 1,
     cost_model = \<lparr>prefill_fixed = 10000, prefill_per_token = 1000, decode_fixed = 5000,
                   decode_per_sequence = 2000, jitter_basis_points = 0\<rparr>\<rparr>"

definition no_jitter :: draw where "no_jitter m s = (0, s)"

definition ce_example :: ContinuousEngine where
  "ce_example = projr (MakeContinuousEngine no_jitter cfg_example)"

definition too_long :: EngineRequest where
  "too_long = (req_example ''c'' 7)\<lparr>prompt_tokens := 80\<rparr>"

lemma ce_example_make: "MakeContinuousEngine no_jitter cfg_example = Inr ce_example"
  by (simp add: ce_example_def MakeContinuousEngine_def cfg_example_def MakeCostModel_def
      MakePagedKvCache_def MakeRadixPrefixCache_def MakeResultCache_def)

lemma cfg_example_small: "small_config cfg_example"
  by (simp add: small_config_def cfg_example_def)

lemma requests_example_ok: "\<forall>r \<in> set [req_example ''a'' 0, req_example ''b'' 5, too_long]. request_ok r"
  by (simp add: request_ok_def req_example_def too_long_def)

lemma continuous_engine_serves:
  assumes make: "MakeContinuousEngine draw cfg = Inr e" and small: "small_config cfg"
    and ok: "\<forall>r \<in> set rs. request_ok r"
  shows "\<exists>e'. RunUntilIdle (fold (\<lambda>r e. Submit e r) rs e) = Some e' \<and>
    ce_pending e' = [] \<and> ce_active e' = [] \<and>
    image_mset result_outcome (mset (ce_results e')) = image_mset (request_outcome cfg) (mset rs) \<and>
    sequence_count (ce_kv_cache e') = 0 \<and> CheckInvariants (ce_kv_cache e')"
proof -
  note m = MakeContinuousEngine_settled [OF make small [unfolded small_config_def, THEN conjunct1]
      small [unfolded small_config_def, THEN conjunct2]]
  note sub = Submit_all [OF m(1) ok]
  from RunUntilIdle_returns [of "fold (\<lambda>r e. Submit e r) rs e"] sub obtain e' where
    e': "RunUntilIdle (fold (\<lambda>r e. Submit e r) rs e) = Some e'" "settled e'" "ce_pending e' = []"
    "ce_active e' = []" "ledger e' = image_mset (request_outcome cfg) (mset rs)" using m(2,3) by auto
  then have "image_mset result_outcome (mset (ce_results e')) = image_mset (request_outcome cfg) (mset rs)"
    by (simp add: ledger_def)
  moreover have "sequence_blocks (ce_kv_cache e') = []"
    using e'(2,4) by (simp add: settled_def ce_inv_def ce_caches_def caches_inv_def)
  ultimately show ?thesis using e' settled_CheckInvariants by (auto simp: sequence_count_def)
qed

text \<open>
  C1: the continuous engine serves every request exactly once and stops. Whatever requests are
  submitted to a freshly constructed engine, \<open>RunUntilIdle\<close> returns; nothing is pending or
  active then, and the results are, as a multiset, exactly one per request: the reason for which
  the request can never be served, or else its simulated output. No sequence holds a KV block any
  more and the KV cache passes its invariant check. This holds for every random source of the cost
  model; the configuration only has to keep the number of table entries below 32 bits.
\<close>

theorem RunUntilIdle_serves_all:
  assumes make: "MakeContinuousEngine draw cfg = Inr e" and small: "small_config cfg"
    and ok: "\<forall>r \<in> set rs. request_ok r"
  shows "\<exists>e'. RunUntilIdle (fold (\<lambda>r e. Submit e r) rs e) = Some e' \<and>
    ce_pending e' = [] \<and> ce_active e' = [] \<and>
    image_mset result_outcome (mset (ce_results e')) = image_mset (request_outcome cfg) (mset rs) \<and>
    sequence_count (ce_kv_cache e') = 0 \<and> CheckInvariants (ce_kv_cache e')"
  by (rule continuous_engine_serves [OF assms])

theorem RunUntilIdle_serves_all_witness:
  "\<exists>e'. RunUntilIdle (fold (\<lambda>r e. Submit e r) [req_example ''a'' 0, req_example ''b'' 5, too_long] ce_example) = Some e' \<and>
    image_mset result_outcome (mset (ce_results e')) =
      {#(''a'', Inr ''simulated:m:p:2:0''), (''b'', Inr ''simulated:m:p:2:0''), (''c'', Inl ''exceeds_max_batch_tokens'')#}"
proof -
  have "map (request_outcome cfg_example) [req_example ''a'' 0, req_example ''b'' 5, too_long] =
      [(''a'', Inr ''simulated:m:p:2:0''), (''b'', Inr ''simulated:m:p:2:0''), (''c'', Inl ''exceeds_max_batch_tokens'')]"
    by code_simp
  from arg_cong [OF this, of mset] RunUntilIdle_serves_all [OF ce_example_make cfg_example_small requests_example_ok]
  show ?thesis by auto
qed

text \<open>
  C7: at every moment of every use of the engine (submissions, iterations, runs and cache clears in
  any order) the KV cache passes its check, the sequences that hold blocks are exactly the active
  requests, there are at most \<open>max_batch_sequences\<close> of them, and every submitted request is
  accounted for exactly once: it is pending, active, or has its result.
\<close>

theorem engine_accounts_for_everything:
  assumes "MakeContinuousEngine draw cfg = Inr e0" and "small_config cfg" and "ce_step\<^sup>*\<^sup>* ([], e0) (rs, e)"
  shows "CheckInvariants (ce_kv_cache e) \<and>
    mset (map fst (sequence_blocks (ce_kv_cache e))) = mset (map (\<lambda>a. request_id (ar_request a)) (ce_active e)) \<and>
    length (ce_active e) \<le> max_batch_sequences (ce_config e) \<and>
    image_mset (request_outcome (ce_config e)) (mset (ce_pending e) + mset (map ar_request (ce_active e)))
      + image_mset result_outcome (mset (ce_results e)) = image_mset (request_outcome (ce_config e)) (mset rs)"
proof -
  have "ce_accounted (rs, e)"
    using assms by (intro ce_run.inv_reachable [OF _ assms(3)]) (auto simp: ce_initial_def)
  then have s: "settled e" and l: "ledger e = image_mset (request_outcome (ce_config e)) (mset rs)"
    by (simp_all add: ce_accounted_def)
  then have ci: "caches_inv (ce_config e) (mset (map aid (ce_active e))) (ce_prefix_cache e) (ce_kv_cache e)"
    by (simp add: settled_def ce_inv_def ce_caches_def)
  have "mset (map fst (sequence_blocks (ce_kv_cache e))) = mset (map (\<lambda>a. request_id (ar_request a)) (ce_active e))"
    using ci by (simp add: caches_inv_def aid_def cong: map_cong)
  moreover have "length (ce_active e) \<le> max_batch_sequences (ce_config e)" using ci by (simp add: caches_inv_def)
  ultimately show ?thesis using settled_CheckInvariants [OF s] l
    by (simp add: ledger_def image_mset.compositionality o_def)
qed

theorem engine_accounts_for_everything_witness:
  "ce_step\<^sup>*\<^sup>* ([], ce_example) ([too_long], Submit ce_example too_long) \<and>
   CheckInvariants (ce_kv_cache (Submit ce_example too_long))"
proof -
  have "ce_step\<^sup>*\<^sup>* ([], ce_example) ([too_long], Submit ce_example too_long)"
    using ce_step.submit [of too_long "[]" ce_example] requests_example_ok by auto
  with engine_accounts_for_everything [OF ce_example_make cfg_example_small this] show ?thesis by blast
qed

text \<open>
  C20: no decode step runs short of KV blocks. When every active sequence still has tokens to
  generate, \<open>PrepareDecodeBlocks\<close> evicts and preempts until each remaining sequence holds the
  blocks its next token needs; it never preempts the last sequence, changes no result and loses
  no request.
\<close>

theorem PrepareDecodeBlocks_enough:
  assumes "settled e" and "ce_active e \<noteq> []"
  shows "\<exists>e'. PrepareDecodeBlocks e = (e', True) \<and> set (ce_active e') \<subseteq> set (ce_active e) \<and> ledger e' = ledger e \<and>
    (\<forall>a \<in> set (ce_active e'). NeededBlocks e' a
       \<le> length (BlocksFor (ce_kv_cache e') (request_id (ar_request a))))"
  using prepare_from_spec [of e 0] assms
  by (auto simp: PrepareDecodeBlocks_def Let_def prepared_def settled_def has_blocks_def aid_def)

definition ce_decoding :: ContinuousEngine where
  "ce_decoding = fst (RunOneIteration (Submit (Submit ce_example (req_example ''a'' 0)) (req_example ''b'' 0)))"

lemma ce_decoding_settled: "settled ce_decoding"
proof -
  have "settled ce_example"
    using MakeContinuousEngine_settled(1) [OF ce_example_make] cfg_example_small by (simp add: small_config_def)
  then have "settled (Submit (Submit ce_example (req_example ''a'' 0)) (req_example ''b'' 0))"
    by (intro Submit_settled) (simp_all add: request_ok_def req_example_def)
  then show ?thesis
    unfolding ce_decoding_def by (rule RunOneIteration_spec(1) [OF _ surjective_pairing])
qed

theorem PrepareDecodeBlocks_enough_witness:
  "length (ce_active ce_decoding) = 1 \<and> (\<exists>e'. PrepareDecodeBlocks ce_decoding = (e', True))"
proof -
  have n: "length (ce_active ce_decoding) = 1" by code_simp
  from PrepareDecodeBlocks_enough [OF ce_decoding_settled] n show ?thesis by fastforce
qed

text \<open>The victim order: lower priority first, then more tokens still to generate.\<close>

definition victim_key :: "ActiveRequest \<Rightarrow> nat \<times> int" where
  "victim_key a = (priority (ar_request a), - int (max_output_tokens (ar_request a) - generated_tokens a))"

lemma older_victim_key:
  assumes "i < length act" "v < length act"
    and "\<forall>a \<in> set act. generated_tokens a \<le> max_output_tokens (ar_request a) \<and> max_output_tokens (ar_request a) < u64"
  shows "older_victim act i v = (if victim_key (act ! i) < victim_key (act ! v) then i else v)"
proof -
  have "sub64 (max_output_tokens (ar_request (act ! j))) (generated_tokens (act ! j)) =
      max_output_tokens (ar_request (act ! j)) - generated_tokens (act ! j)" if "j < length act" for j
    using assms(3) that by (simp add: sub64_exact)
  with assms(1,2) show ?thesis by (auto simp: older_victim_def Let_def victim_key_def)
qed

lemma select_victim_fold:
  assumes "\<forall>a \<in> set act. generated_tokens a \<le> max_output_tokens (ar_request a) \<and> max_output_tokens (ar_request a) < u64"
    and "0 < n" "n \<le> length act"
  shows "let v = fold (older_victim act) [1..<n] 0 in v < n \<and> (\<forall>j < n. victim_key (act ! v) \<le> victim_key (act ! j))
    \<and> (\<forall>j < v. victim_key (act ! v) < victim_key (act ! j))"
  using assms(2,3)
proof (induction n)
  case (Suc n)
  show ?case
  proof (cases "n = 0")
    case False
    let ?v = "fold (older_victim act) [1..<n] 0"
    have IH: "?v < n" "\<forall>j < n. victim_key (act ! ?v) \<le> victim_key (act ! j)"
      "\<forall>j < ?v. victim_key (act ! ?v) < victim_key (act ! j)"
      using Suc.IH Suc.prems False by (simp_all add: Let_def)
    have f: "fold (older_victim act) [1..<Suc n] 0 = (if victim_key (act ! n) < victim_key (act ! ?v) then n else ?v)"
      using older_victim_key [of n act ?v] assms(1) IH(1) Suc.prems False by (simp add: upt_Suc_append)
    show ?thesis unfolding f Let_def using IH
      by (auto simp: less_Suc_eq not_less intro: order.strict_implies_order dest: less_le_trans)
  qed simp
qed simp

text \<open>
  Preemption follows the documented order. The victim \<open>SelectVictim\<close> picks is an active
  sequence such that no other has a lower priority, or the same priority and more tokens left to
  generate; among equals it is the one admitted first.
\<close>

theorem SelectVictim_order:
  assumes "settled e" and "ce_active e \<noteq> []"
  shows "SelectVictim e < length (ce_active e) \<and>
    (\<forall>j < length (ce_active e). victim_key (ce_active e ! SelectVictim e) \<le> victim_key (ce_active e ! j)) \<and>
    (\<forall>j < SelectVictim e. victim_key (ce_active e ! SelectVictim e) < victim_key (ce_active e ! j))"
proof -
  have "\<forall>a \<in> set (ce_active e). generated_tokens a \<le> max_output_tokens (ar_request a) \<and> max_output_tokens (ar_request a) < u64"
    using assms(1) by (simp add: settled_def ce_inv_def ce_rest_def active_ok_def request_ok_def)
  from select_victim_fold [OF this, of "length (ce_active e)"] assms(2) show ?thesis
    by (simp add: SelectVictim_def Let_def)
qed

theorem SelectVictim_order_witness:
  "length (ce_active ce_decoding) = 1 \<and> SelectVictim ce_decoding = 0 \<and>
   victim_key (ce_active ce_decoding ! SelectVictim ce_decoding) \<le> victim_key (ce_active ce_decoding ! 0)"
proof -
  have n: "length (ce_active ce_decoding) = 1" by code_simp
  then have "ce_active ce_decoding \<noteq> []" by auto
  from SelectVictim_order [OF ce_decoding_settled this] n show ?thesis by simp
qed

end
