(* ===== verification/DurableStores.thy ===== *)
theory DurableStores
  imports Prelude
begin

text \<open>
  \<open>cpp/src/durable_store.cpp\<close>: the tables of \<open>DurableStore\<close> and its operations.

  A table is the list of its rows; every operation is one transaction, so it is one function of
  the tables, and an exception (a value that does not fit PostgreSQL's \<open>BIGINT\<close>) leaves them as
  they were. A nullable column is an option, and a comparison with \<open>NULL\<close> selects nothing.
  When an \<open>UPDATE\<close> selects a row, the values it computes are checked first on that row (there is
  at most one, by the unique keys). The timestamps \<open>created_at\<close> and \<open>updated_at\<close>, which no statement reads, are left out;
  \<open>published_at\<close> is kept.
\<close>

section \<open>Tables\<close>

abbreviation i64_max :: int where "i64_max \<equiv> 9223372036854775807"

record Ownership =
  ow_partition_id :: int
  ow_epoch :: int
  ow_router_id :: string

record RequestRow =
  rr_request_id :: string
  rr_state :: string
  rr_state_version :: int
  rr_partition :: int
  rr_offset :: int
  rr_payload :: string
  rr_epoch :: "int option"
  rr_engine_id :: "string option"
  rr_attempt_id :: int
  rr_result :: "string option"

record PoisonRow =
  pr_partition :: int
  pr_offset :: int
  pr_payload :: string
  pr_error :: string

record OutboxRow =
  ob_id :: int
  ob_topic :: string
  ob_key :: string
  ob_payload :: string
  ob_partition :: int
  ob_offset :: int
  ob_published_at :: "int option"

record DurableStore =
  partition_ownership :: "Ownership list"
  inference_requests :: "RequestRow list"
  poison_messages :: "PoisonRow list"
  outbox :: "OutboxRow list"
  outbox_id_seq :: int

text \<open>The empty tables that \<open>Migrate\<close> creates on a fresh database.\<close>

definition Migrate :: "DurableStore option \<Rightarrow> DurableStore" where
  "Migrate db = (case db of
     Some s \<Rightarrow> s
   | None \<Rightarrow> \<lparr>partition_ownership = [], inference_requests = [], poison_messages = [],
        outbox = [], outbox_id_seq = 1\<rparr>)"

record Fence =
  fe_partition_id :: int
  fe_epoch :: nat
  fe_attempt_id :: nat
  fe_engine_id :: string

record Assignment =
  as_fence :: Fence
  as_state_version :: nat

record OutboxRecord =
  or_id :: int
  or_topic :: string
  or_key :: string
  or_payload :: string
  or_partition :: int
  or_offset :: int

record RecoveredRequest =
  rec_request_id :: string
  rec_state :: string
  rec_partition :: int
  rec_offset :: int
  rec_state_version :: nat
  rec_payload :: string

section \<open>Checked conversions and SQL\<close>

definition CheckedInt64 :: "nat \<Rightarrow> error + int" where
  "CheckedInt64 v = (if int v > i64_max
     then Inl (OverflowError ''fence value exceeds PostgreSQL BIGINT'') else Inr (int v))"

definition CheckedUint64 :: "int \<Rightarrow> error + nat" where
  "CheckedUint64 v = (if v < 0 then Inl (RuntimeError ''negative durable counter'') else Inr (nat v))"

definition bind_result :: "error + 'a \<Rightarrow> ('a \<Rightarrow> error + 'b) \<Rightarrow> error + 'b" where
  "bind_result m f = (case m of Inl e \<Rightarrow> Inl e | Inr x \<Rightarrow> f x)"

text \<open>\<open>x + 1\<close> of the type \<open>BIGINT\<close>: PostgreSQL raises an error when it is out of range.\<close>

definition bigint_succ :: "int \<Rightarrow> error + int" where
  "bigint_succ x = (if x = i64_max then Inl (RuntimeError ''bigint out of range'') else Inr (x + 1))"

definition sql_update :: "('r \<Rightarrow> bool) \<Rightarrow> ('r \<Rightarrow> 'r) \<Rightarrow> 'r list \<Rightarrow> 'r list" where
  "sql_update sel upd rows = map (\<lambda>r. if sel r then upd r else r) rows"

definition terminal_states :: "string list" where
  "terminal_states = [''COMPLETED'', ''FAILED_TERMINAL'', ''CANCELLED'', ''TIMED_OUT'']"

definition to_string_int :: "int \<Rightarrow> string" where
  "to_string_int i = (if i < 0 then CHR ''-'' # to_string (nat (- i)) else to_string (nat i))"

definition hex_digit :: "nat \<Rightarrow> char" where
  "hex_digit d = (if d < 10 then char_of (48 + d) else char_of (87 + d))"

text \<open>\<open>encode(\<dots>, 'hex')\<close> of PostgreSQL: two lower-case digits per byte.\<close>

definition encode_hex :: "string \<Rightarrow> string" where
  "encode_hex bs = concat (map (\<lambda>b. [hex_digit ((of_char b :: nat) div 16), hex_digit (of_char b mod 16)]) bs)"

text \<open>
  \<open>INSERT INTO outbox \<dots> ON CONFLICT (topic, message_key) DO NOTHING\<close>. The default of \<open>id\<close> is
  taken from the sequence before the conflict is looked for, so a conflict uses an id up.
\<close>

definition insert_outbox :: "string \<Rightarrow> string \<Rightarrow> string \<Rightarrow> int \<Rightarrow> int \<Rightarrow> DurableStore \<Rightarrow> error + DurableStore" where
  "insert_outbox topic key payload p off s =
     bind_result (bigint_succ (outbox_id_seq s)) (\<lambda>next.
       if \<exists>r \<in> set (outbox s). ob_topic r = topic \<and> ob_key r = key
       then Inr (s\<lparr>outbox_id_seq := next\<rparr>)
       else Inr (s\<lparr>outbox := outbox s @ [\<lparr>ob_id = outbox_id_seq s, ob_topic = topic, ob_key = key,
              ob_payload = payload, ob_partition = p, ob_offset = off, ob_published_at = None\<rparr>],
            outbox_id_seq := next\<rparr>))"

section \<open>Operations\<close>

definition AcquirePartition :: "int \<Rightarrow> string \<Rightarrow> DurableStore \<Rightarrow> error + (nat \<times> DurableStore)" where
  "AcquirePartition p router s =
     (case filter (\<lambda>o'. ow_partition_id o' = p) (partition_ownership s) of
        [] \<Rightarrow> Inr (1, s\<lparr>partition_ownership := partition_ownership s @
                [\<lparr>ow_partition_id = p, ow_epoch = 1, ow_router_id = router\<rparr>]\<rparr>)
      | o' # _ \<Rightarrow> bind_result (bigint_succ (ow_epoch o')) (\<lambda>e.
          bind_result (CheckedUint64 e) (\<lambda>n.
            Inr (n, s\<lparr>partition_ownership := sql_update (\<lambda>q. ow_partition_id q = p)
              (\<lambda>q. q\<lparr>ow_epoch := ow_epoch q + 1, ow_router_id := router\<rparr>) (partition_ownership s)\<rparr>))))"

definition Ingest :: "string \<Rightarrow> int \<Rightarrow> int \<Rightarrow> string \<Rightarrow> DurableStore \<Rightarrow> bool \<times> DurableStore" where
  "Ingest rid p off payload s =
     (if \<exists>r \<in> set (inference_requests s). rr_request_id r = rid \<or> rr_partition r = p \<and> rr_offset r = off
      then (False, s)
      else (True, s\<lparr>inference_requests := inference_requests s @
        [\<lparr>rr_request_id = rid, rr_state = ''RECEIVED'', rr_state_version = 0, rr_partition = p,
          rr_offset = off, rr_payload = payload, rr_epoch = None, rr_engine_id = None,
          rr_attempt_id = 0, rr_result = None\<rparr>]\<rparr>))"

definition assign_sel :: "string \<Rightarrow> int \<Rightarrow> int \<Rightarrow> DurableStore \<Rightarrow> RequestRow \<Rightarrow> bool" where
  "assign_sel rid p e s r \<longleftrightarrow> rr_request_id r = rid \<and> rr_partition r = p \<and>
     (\<exists>o' \<in> set (partition_ownership s). ow_partition_id o' = p \<and> ow_epoch o' = e) \<and>
     rr_state r \<notin> set terminal_states"

definition AssignAttempt ::
  "string \<Rightarrow> int \<Rightarrow> nat \<Rightarrow> string \<Rightarrow> DurableStore \<Rightarrow> error + (Assignment option \<times> DurableStore)" where
  "AssignAttempt rid p epoch engine s =
     bind_result (CheckedInt64 epoch) (\<lambda>e.
       case filter (assign_sel rid p e s) (inference_requests s) of
         [] \<Rightarrow> Inr (None, s)
       | r # _ \<Rightarrow>
           bind_result (bigint_succ (rr_state_version r)) (\<lambda>v.
           bind_result (bigint_succ (rr_attempt_id r)) (\<lambda>a.
           bind_result (CheckedUint64 a) (\<lambda>a'.
           bind_result (CheckedUint64 v) (\<lambda>v'.
             Inr (Some \<lparr>as_fence = \<lparr>fe_partition_id = p, fe_epoch = epoch, fe_attempt_id = a',
                    fe_engine_id = engine\<rparr>, as_state_version = v'\<rparr>,
                  s\<lparr>inference_requests := sql_update (assign_sel rid p e s)
                    (\<lambda>q. q\<lparr>rr_state := ''DISPATCHED'', rr_state_version := rr_state_version q + 1,
                      rr_epoch := Some e, rr_engine_id := Some engine,
                      rr_attempt_id := rr_attempt_id q + 1\<rparr>) (inference_requests s)\<rparr>))))))"

definition transition_sel :: "string \<Rightarrow> int \<Rightarrow> string \<Rightarrow> RequestRow \<Rightarrow> bool" where
  "transition_sel rid v from r \<longleftrightarrow> rr_request_id r = rid \<and> rr_state_version r = v \<and> rr_state r = from \<and>
     rr_state r \<notin> set terminal_states"

definition Transition ::
  "string \<Rightarrow> nat \<Rightarrow> string \<Rightarrow> string \<Rightarrow> DurableStore \<Rightarrow> error + (bool \<times> DurableStore)" where
  "Transition rid expected from next s =
     bind_result (CheckedInt64 expected) (\<lambda>v.
       case filter (transition_sel rid v from) (inference_requests s) of
         [] \<Rightarrow> Inr (False, s)
       | r # _ \<Rightarrow> bind_result (bigint_succ (rr_state_version r)) (\<lambda>v'.
           Inr (True, s\<lparr>inference_requests := sql_update (transition_sel rid v from)
             (\<lambda>q. q\<lparr>rr_state := next, rr_state_version := rr_state_version q + 1\<rparr>) (inference_requests s)\<rparr>)))"

definition finalize_sel :: "string \<Rightarrow> int \<Rightarrow> int \<Rightarrow> int \<Rightarrow> string \<Rightarrow> RequestRow \<Rightarrow> bool" where
  "finalize_sel rid p e a engine r \<longleftrightarrow> rr_request_id r = rid \<and> rr_partition r = p \<and>
     rr_epoch r = Some e \<and> rr_attempt_id r = a \<and> rr_engine_id r = Some engine \<and>
     rr_state r = ''DISPATCHED''"

definition Finalize :: "string \<Rightarrow> Fence \<Rightarrow> string \<Rightarrow> DurableStore \<Rightarrow> error + (bool \<times> DurableStore)" where
  "Finalize rid f payload s =
     bind_result (CheckedInt64 (fe_epoch f)) (\<lambda>e.
     bind_result (CheckedInt64 (fe_attempt_id f)) (\<lambda>a.
       let sel = finalize_sel rid (fe_partition_id f) e a (fe_engine_id f) in
       case filter sel (inference_requests s) of
         [] \<Rightarrow> Inr (False, s)
       | r # _ \<Rightarrow> bind_result (bigint_succ (rr_state_version r)) (\<lambda>v.
           bind_result (insert_outbox ''inference.results'' rid payload (rr_partition r) (rr_offset r)
             (s\<lparr>inference_requests := sql_update sel (\<lambda>q. q\<lparr>rr_state := ''COMPLETED'',
                rr_state_version := rr_state_version q + 1, rr_result := Some payload\<rparr>) (inference_requests s)\<rparr>)) (\<lambda>s'.
           Inr (True, s')))))"

definition poison_key :: "int \<Rightarrow> int \<Rightarrow> string" where
  "poison_key p off = to_string_int p @ '':'' @ to_string_int off"

definition RecordPoison :: "int \<Rightarrow> int \<Rightarrow> string \<Rightarrow> string \<Rightarrow> DurableStore \<Rightarrow> error + (bool \<times> DurableStore)" where
  "RecordPoison p off payload err s =
     (if \<exists>r \<in> set (poison_messages s). pr_partition r = p \<and> pr_offset r = off then Inr (False, s)
      else bind_result (insert_outbox ''inference.dlq'' (poison_key p off) (encode_hex payload) p off
          (s\<lparr>poison_messages := poison_messages s @
            [\<lparr>pr_partition = p, pr_offset = off, pr_payload = payload, pr_error = err\<rparr>]\<rparr>)) (\<lambda>s'.
        Inr (True, s')))"

definition outbox_record :: "OutboxRow \<Rightarrow> OutboxRecord" where
  "outbox_record r = \<lparr>or_id = ob_id r, or_topic = ob_topic r, or_key = ob_key r, or_payload = ob_payload r,
     or_partition = ob_partition r, or_offset = ob_offset r\<rparr>"

definition FetchUnpublished :: "nat \<Rightarrow> DurableStore \<Rightarrow> OutboxRecord list" where
  "FetchUnpublished limit s =
     map outbox_record (take limit (sort_key ob_id (filter (\<lambda>r. ob_published_at r = None) (outbox s))))"

definition MarkPublished :: "int \<Rightarrow> int \<Rightarrow> DurableStore \<Rightarrow> DurableStore" where
  "MarkPublished now oid s = s\<lparr>outbox := sql_update (\<lambda>r. ob_id r = oid)
     (\<lambda>r. r\<lparr>ob_published_at := (case ob_published_at r of None \<Rightarrow> Some now | Some t \<Rightarrow> Some t)\<rparr>) (outbox s)\<rparr>"

definition recovered :: "RequestRow \<Rightarrow> error + RecoveredRequest" where
  "recovered r = bind_result (CheckedUint64 (rr_state_version r)) (\<lambda>v.
     Inr \<lparr>rec_request_id = rr_request_id r, rec_state = rr_state r, rec_partition = rr_partition r,
       rec_offset = rr_offset r, rec_state_version = v, rec_payload = rr_payload r\<rparr>)"

fun collect_results :: "(error + 'a) list \<Rightarrow> error + 'a list" where
  "collect_results [] = Inr []"
| "collect_results (m # ms) = bind_result m (\<lambda>x. bind_result (collect_results ms) (\<lambda>xs. Inr (x # xs)))"

definition RecoverUnresolved :: "DurableStore \<Rightarrow> error + RecoveredRequest list" where
  "RecoverUnresolved s = collect_results (map recovered
     (sort_key (\<lambda>r. (rr_partition r, rr_offset r))
       (filter (\<lambda>r. rr_state r \<notin> set terminal_states) (inference_requests s))))"

definition IsTerminal :: "string \<Rightarrow> DurableStore \<Rightarrow> bool" where
  "IsTerminal rid s = (case filter (\<lambda>r. rr_request_id r = rid) (inference_requests s) of
     [] \<Rightarrow> False | r # _ \<Rightarrow> rr_state r \<in> set terminal_states)"

text \<open>\<open>bool_and\<close> over no row is \<open>NULL\<close>, which counts as not published.\<close>

definition IsSourcePublished :: "int \<Rightarrow> int \<Rightarrow> DurableStore \<Rightarrow> bool" where
  "IsSourcePublished p off s =
     (case filter (\<lambda>r. ob_partition r = p \<and> ob_offset r = off) (outbox s) of
        [] \<Rightarrow> False | rs \<Rightarrow> list_all (\<lambda>r. ob_published_at r \<noteq> None) rs)"

section \<open>Unfolding the operations\<close>

lemma bind_result_Inr [simp]: "bind_result (Inr x) f = f x"
  by (simp add: bind_result_def)

lemma bind_result_Inl [simp]: "bind_result (Inl e) f = Inl e"
  by (simp add: bind_result_def)

lemma bind_result_eq_Inr: "bind_result m f = Inr y \<longleftrightarrow> (\<exists>x. m = Inr x \<and> f x = Inr y)"
  by (cases m) auto

lemma CheckedInt64_eq_Inr [simp]: "CheckedInt64 v = Inr i \<longleftrightarrow> i = int v \<and> int v \<le> i64_max"
  by (auto simp: CheckedInt64_def)

lemma CheckedUint64_eq_Inr [simp]: "CheckedUint64 v = Inr n \<longleftrightarrow> 0 \<le> v \<and> n = nat v"
  by (auto simp: CheckedUint64_def)

lemma bigint_succ_eq_Inr [simp]: "bigint_succ v = Inr w \<longleftrightarrow> v \<noteq> i64_max \<and> w = v + 1"
  by (auto simp: bigint_succ_def)

lemma set_sql_update: "x \<in> set (sql_update sel upd rows) \<longleftrightarrow> (\<exists>q \<in> set rows. x = (if sel q then upd q else q))"
  by (auto simp: sql_update_def)

lemma sql_update_keeps:
  "(\<And>q. f (upd q) = f q) \<Longrightarrow> map f (sql_update sel upd rows) = map f rows"
  by (simp add: sql_update_def)

lemma filter_Cons_in: "filter P xs = r # rs \<Longrightarrow> r \<in> set xs \<and> P r"
proof -
  assume "filter P xs = r # rs"
  then have "r \<in> set (filter P xs)" by simp
  then show ?thesis by simp
qed

definition open_row :: "RequestRow \<Rightarrow> bool" where
  "open_row r \<longleftrightarrow> rr_state r \<notin> set terminal_states"

definition owner_epoch :: "DurableStore \<Rightarrow> int \<Rightarrow> int \<Rightarrow> bool" where
  "owner_epoch s p e \<longleftrightarrow> (\<exists>o' \<in> set (partition_ownership s). ow_partition_id o' = p \<and> ow_epoch o' = e)"

lemma AcquirePartition_cases:
  assumes "AcquirePartition p router s = Inr (n, t)"
  obtains (new) "\<forall>o' \<in> set (partition_ownership s). ow_partition_id o' \<noteq> p" "n = 1"
      "t = s\<lparr>partition_ownership := partition_ownership s @
        [\<lparr>ow_partition_id = p, ow_epoch = 1, ow_router_id = router\<rparr>]\<rparr>"
  | (bump) q where "q \<in> set (partition_ownership s)" "ow_partition_id q = p" "ow_epoch q \<noteq> i64_max"
      "0 \<le> ow_epoch q + 1" "n = nat (ow_epoch q + 1)"
      "t = s\<lparr>partition_ownership := sql_update (\<lambda>q. ow_partition_id q = p)
        (\<lambda>q. q\<lparr>ow_epoch := ow_epoch q + 1, ow_router_id := router\<rparr>) (partition_ownership s)\<rparr>"
proof (cases "filter (\<lambda>o'. ow_partition_id o' = p) (partition_ownership s)")
  case Nil
  then show ?thesis using assms new by (auto simp: AcquirePartition_def filter_empty_conv)
next
  case (Cons q qs)
  then show ?thesis using assms bump [of q] filter_Cons_in [OF Cons]
    by (auto simp: AcquirePartition_def bind_result_eq_Inr)
qed

lemma AssignAttempt_cases:
  assumes "AssignAttempt rid p epoch engine s = Inr (res, t)"
  obtains (none) "res = None" "t = s" "\<forall>r \<in> set (inference_requests s). \<not> assign_sel rid p (int epoch) s r"
  | (some) r where "r \<in> set (inference_requests s)" "assign_sel rid p (int epoch) s r"
      "rr_state_version r \<noteq> i64_max" "rr_attempt_id r \<noteq> i64_max" "0 \<le> rr_attempt_id r + 1"
      "0 \<le> rr_state_version r + 1" "int epoch \<le> i64_max"
      "res = Some \<lparr>as_fence = \<lparr>fe_partition_id = p, fe_epoch = epoch, fe_attempt_id = nat (rr_attempt_id r + 1),
         fe_engine_id = engine\<rparr>, as_state_version = nat (rr_state_version r + 1)\<rparr>"
      "t = s\<lparr>inference_requests := sql_update (assign_sel rid p (int epoch) s)
         (\<lambda>q. q\<lparr>rr_state := ''DISPATCHED'', rr_state_version := rr_state_version q + 1,
           rr_epoch := Some (int epoch), rr_engine_id := Some engine,
           rr_attempt_id := rr_attempt_id q + 1\<rparr>) (inference_requests s)\<rparr>"
proof (cases "filter (assign_sel rid p (int epoch) s) (inference_requests s)")
  case Nil
  then show ?thesis using assms none by (auto simp: AssignAttempt_def filter_empty_conv bind_result_eq_Inr)
next
  case (Cons q qs)
  then show ?thesis using assms some [of q] filter_Cons_in [OF Cons]
    by (auto simp: AssignAttempt_def bind_result_eq_Inr)
qed

lemma Transition_cases:
  assumes "Transition rid expected from nxt s = Inr (res, t)"
  obtains (none) "\<not> res" "t = s" "\<forall>r \<in> set (inference_requests s). \<not> transition_sel rid (int expected) from r"
  | (some) r where "res" "r \<in> set (inference_requests s)" "transition_sel rid (int expected) from r"
      "rr_state_version r \<noteq> i64_max"
      "t = s\<lparr>inference_requests := sql_update (transition_sel rid (int expected) from)
         (\<lambda>q. q\<lparr>rr_state := nxt, rr_state_version := rr_state_version q + 1\<rparr>) (inference_requests s)\<rparr>"
proof (cases "filter (transition_sel rid (int expected) from) (inference_requests s)")
  case Nil
  then show ?thesis using assms none by (auto simp: Transition_def filter_empty_conv bind_result_eq_Inr)
next
  case (Cons q qs)
  then show ?thesis using assms some [of q] filter_Cons_in [OF Cons]
    by (auto simp: Transition_def bind_result_eq_Inr)
qed

abbreviation fence_sel :: "string \<Rightarrow> Fence \<Rightarrow> RequestRow \<Rightarrow> bool" where
  "fence_sel rid f \<equiv> finalize_sel rid (fe_partition_id f) (int (fe_epoch f)) (int (fe_attempt_id f)) (fe_engine_id f)"

lemma Finalize_cases:
  assumes "Finalize rid f payload s = Inr (res, t)"
  obtains (none) "\<not> res" "t = s" "\<forall>r \<in> set (inference_requests s). \<not> fence_sel rid f r"
  | (some) r where "res" "r \<in> set (inference_requests s)" "fence_sel rid f r" "rr_state_version r \<noteq> i64_max"
      "insert_outbox ''inference.results'' rid payload (rr_partition r) (rr_offset r)
        (s\<lparr>inference_requests := sql_update (fence_sel rid f) (\<lambda>q. q\<lparr>rr_state := ''COMPLETED'',
          rr_state_version := rr_state_version q + 1, rr_result := Some payload\<rparr>) (inference_requests s)\<rparr>) = Inr t"
proof (cases "filter (fence_sel rid f) (inference_requests s)")
  case Nil
  then show ?thesis using assms none by (auto simp: Finalize_def filter_empty_conv bind_result_eq_Inr)
next
  case (Cons q qs)
  then show ?thesis using assms some [of q] filter_Cons_in [OF Cons]
    by (auto simp: Finalize_def bind_result_eq_Inr)
qed

lemma insert_outbox_fresh:
  assumes "insert_outbox topic key payload p off s = Inr t"
    and "\<forall>r \<in> set (outbox s). \<not> (ob_topic r = topic \<and> ob_key r = key)"
  shows "outbox_id_seq s \<noteq> i64_max" and "t = s\<lparr>outbox := outbox s @ [\<lparr>ob_id = outbox_id_seq s, ob_topic = topic,
    ob_key = key, ob_payload = payload, ob_partition = p, ob_offset = off, ob_published_at = None\<rparr>],
    outbox_id_seq := outbox_id_seq s + 1\<rparr>"
  using assms by (auto simp: insert_outbox_def bind_result_eq_Inr split: if_splits)

section \<open>The invariant of the tables\<close>

text \<open>The row of the result topic that belongs to a request, and the row of the dead-letter topic that belongs to a poison message.\<close>

definition result_row :: "RequestRow \<Rightarrow> string \<Rightarrow> OutboxRow \<Rightarrow> bool" where
  "result_row r v b \<longleftrightarrow> ob_topic b = ''inference.results'' \<and> ob_key b = rr_request_id r \<and> ob_payload b = v \<and>
     ob_partition b = rr_partition r \<and> ob_offset b = rr_offset r"

definition dlq_row :: "PoisonRow \<Rightarrow> OutboxRow \<Rightarrow> bool" where
  "dlq_row q b \<longleftrightarrow> ob_topic b = ''inference.dlq'' \<and> ob_key b = poison_key (pr_partition q) (pr_offset q) \<and>
     ob_payload b = encode_hex (pr_payload q) \<and> ob_partition b = pr_partition q \<and> ob_offset b = pr_offset q"

definition row_ok :: "RequestRow \<Rightarrow> bool" where
  "row_ok r \<longleftrightarrow> 0 \<le> rr_attempt_id r \<and> rr_attempt_id r \<le> rr_state_version r \<and> rr_state_version r \<le> i64_max \<and>
     (rr_epoch r = None \<longleftrightarrow> rr_attempt_id r = 0) \<and> (rr_engine_id r = None \<longleftrightarrow> rr_attempt_id r = 0) \<and>
     (rr_result r \<noteq> None \<longrightarrow> rr_state r = ''COMPLETED'')"

definition epoch_ok :: "DurableStore \<Rightarrow> RequestRow \<Rightarrow> bool" where
  "epoch_ok s r \<longleftrightarrow> (\<forall>e. rr_epoch r = Some e \<longrightarrow> (\<exists>o' \<in> set (partition_ownership s).
     ow_partition_id o' = rr_partition r \<and> e \<le> ow_epoch o'))"

definition keys_ok :: "DurableStore \<Rightarrow> bool" where
  "keys_ok s \<longleftrightarrow> distinct (map ow_partition_id (partition_ownership s)) \<and>
     distinct (map rr_request_id (inference_requests s)) \<and>
     distinct (map (\<lambda>r. (rr_partition r, rr_offset r)) (inference_requests s)) \<and>
     distinct (map (\<lambda>q. (pr_partition q, pr_offset q)) (poison_messages s)) \<and>
     distinct (map ob_id (outbox s)) \<and> distinct (map (\<lambda>b. (ob_topic b, ob_key b)) (outbox s)) \<and>
     (\<forall>b \<in> set (outbox s). ob_id b < outbox_id_seq s)"

definition outbox_ok :: "DurableStore \<Rightarrow> bool" where
  "outbox_ok s \<longleftrightarrow>
     (\<forall>r \<in> set (inference_requests s). \<forall>v. rr_result r = Some v \<longrightarrow> (\<exists>b \<in> set (outbox s). result_row r v b)) \<and>
     (\<forall>q \<in> set (poison_messages s). \<exists>b \<in> set (outbox s). dlq_row q b) \<and>
     (\<forall>b \<in> set (outbox s). (\<exists>r \<in> set (inference_requests s). \<exists>v. rr_result r = Some v \<and> result_row r v b) \<or>
        (\<exists>q \<in> set (poison_messages s). dlq_row q b))"

definition store_inv :: "DurableStore \<Rightarrow> bool" where
  "store_inv s \<longleftrightarrow> keys_ok s \<and> (\<forall>o' \<in> set (partition_ownership s). 0 < ow_epoch o' \<and> ow_epoch o' \<le> i64_max) \<and>
     (\<forall>r \<in> set (inference_requests s). row_ok r \<and> epoch_ok s r) \<and> outbox_ok s"

lemma Migrate_inv: "store_inv (Migrate None)"
  by (simp add: store_inv_def keys_ok_def outbox_ok_def Migrate_def)

section \<open>Steps\<close>

text \<open>One transaction of any router: an operation that returned, with any arguments.\<close>

inductive store_step :: "DurableStore \<Rightarrow> DurableStore \<Rightarrow> bool" where
  acquire: "AcquirePartition p router s = Inr (n, t) \<Longrightarrow> store_step s t"
| ingest: "Ingest rid p off payload s = (b, t) \<Longrightarrow> store_step s t"
| assign: "AssignAttempt rid p epoch engine s = Inr (a, t) \<Longrightarrow> store_step s t"
| transit: "Transition rid v from nxt s = Inr (b, t) \<Longrightarrow> store_step s t"
| finalize: "Finalize rid f payload s = Inr (b, t) \<Longrightarrow> store_step s t"
| poison: "RecordPoison p off payload err s = Inr (b, t) \<Longrightarrow> store_step s t"
| mark: "store_step s (MarkPublished now oid s)"

lemma unique_key:
  "distinct (map f xs) \<Longrightarrow> x \<in> set xs \<Longrightarrow> y \<in> set xs \<Longrightarrow> f x = f y \<Longrightarrow> x = y"
  by (metis distinct_map inj_on_def)

lemma AcquirePartition_inv:
  assumes "store_inv s" and "AcquirePartition p router s = Inr (n, t)"
  shows "store_inv t"
  using assms(2)
proof (cases rule: AcquirePartition_cases)
  case new
  with assms(1) show ?thesis
    by (auto simp: store_inv_def keys_ok_def outbox_ok_def epoch_ok_def)
next
  case (bump q)
  have e: "epoch_ok t r" if "epoch_ok s r" for r
    unfolding epoch_ok_def
  proof (intro allI impI)
    fix e
    assume "rr_epoch r = Some e"
    with that obtain o' where o': "o' \<in> set (partition_ownership s)" "ow_partition_id o' = rr_partition r" "e \<le> ow_epoch o'"
      by (auto simp: epoch_ok_def)
    let ?u = "if ow_partition_id o' = p then o'\<lparr>ow_epoch := ow_epoch o' + 1, ow_router_id := router\<rparr> else o'"
    have "?u \<in> set (partition_ownership t)" using o'(1) by (auto simp: bump(6) set_sql_update)
    moreover have "ow_partition_id ?u = rr_partition r \<and> e \<le> ow_epoch ?u" using o' by simp
    ultimately show "\<exists>o' \<in> set (partition_ownership t). ow_partition_id o' = rr_partition r \<and> e \<le> ow_epoch o'" by blast
  qed
  have k: "keys_ok t" using assms(1) unfolding store_inv_def keys_ok_def bump(6)
    by (simp add: sql_update_def comp_def if_distrib cong: if_cong)
  have "0 < ow_epoch o' \<and> ow_epoch o' \<le> i64_max" if "o' \<in> set (partition_ownership t)" for o'
  proof -
    from that obtain r where r: "r \<in> set (partition_ownership s)"
      "o' = (if ow_partition_id r = p then r\<lparr>ow_epoch := ow_epoch r + 1, ow_router_id := router\<rparr> else r)"
      by (auto simp: bump(6) set_sql_update)
    have "r = q" if "ow_partition_id r = p"
      using assms(1) r(1) bump(1,2) that by (auto simp: store_inv_def keys_ok_def intro: unique_key)
    then show ?thesis using r assms(1) bump(3) by (fastforce simp: store_inv_def)
  qed
  then show ?thesis using assms(1) e k by (simp add: store_inv_def outbox_ok_def bump(6))
qed

lemma Ingest_inv:
  assumes "store_inv s" and "Ingest rid p off payload s = (b, t)"
  shows "store_inv t"
proof (cases "\<exists>r \<in> set (inference_requests s). rr_request_id r = rid \<or> rr_partition r = p \<and> rr_offset r = off")
  case True
  then show ?thesis using assms by (simp add: Ingest_def)
next
  case False
  then have t: "t = s\<lparr>inference_requests := inference_requests s @
      [\<lparr>rr_request_id = rid, rr_state = ''RECEIVED'', rr_state_version = 0, rr_partition = p,
        rr_offset = off, rr_payload = payload, rr_epoch = None, rr_engine_id = None,
        rr_attempt_id = 0, rr_result = None\<rparr>]\<rparr>"
    using assms(2) by (simp only: Ingest_def if_False) simp
  have "keys_ok t" using assms(1) False by (auto simp: store_inv_def keys_ok_def t)
  moreover have "outbox_ok t" using assms(1) by (auto simp: store_inv_def outbox_ok_def t)
  ultimately show ?thesis using assms(1) by (auto simp: store_inv_def row_ok_def epoch_ok_def t)
qed

text \<open>An update of request rows that keeps their keys.\<close>

definition keeps_keys :: "(RequestRow \<Rightarrow> RequestRow) \<Rightarrow> bool" where
  "keeps_keys upd \<longleftrightarrow> (\<forall>q. rr_request_id (upd q) = rr_request_id q \<and> rr_partition (upd q) = rr_partition q \<and>
     rr_offset (upd q) = rr_offset q)"

lemma request_update_keys:
  assumes "keys_ok s" and "keeps_keys upd"
  shows "keys_ok (s\<lparr>inference_requests := sql_update sel upd (inference_requests s)\<rparr>)"
proof -
  have "map rr_request_id (sql_update sel upd (inference_requests s)) = map rr_request_id (inference_requests s)"
    using assms(2) by (intro sql_update_keeps) (simp add: keeps_keys_def)
  moreover have "map (\<lambda>r. (rr_partition r, rr_offset r)) (sql_update sel upd (inference_requests s)) =
      map (\<lambda>r. (rr_partition r, rr_offset r)) (inference_requests s)"
    using assms(2) by (intro sql_update_keeps) (simp add: keeps_keys_def)
  ultimately show ?thesis using assms(1) by (simp add: keys_ok_def)
qed

lemma result_row_keys:
  "keeps_keys upd \<Longrightarrow> result_row (upd q) v b = result_row q v b"
  by (simp add: result_row_def keeps_keys_def)

lemma request_update_inv:
  assumes inv: "store_inv s" and keys: "keeps_keys upd" and res: "\<And>q. rr_result (upd q) = rr_result q"
    and ok: "\<And>q. q \<in> set (inference_requests s) \<Longrightarrow> sel q \<Longrightarrow> row_ok (upd q) \<and> epoch_ok s (upd q)"
  shows "store_inv (s\<lparr>inference_requests := sql_update sel upd (inference_requests s)\<rparr>)"
proof -
  let ?t = "s\<lparr>inference_requests := sql_update sel upd (inference_requests s)\<rparr>"
  have "row_ok r \<and> epoch_ok ?t r" if "r \<in> set (inference_requests ?t)" for r
    using that ok inv by (auto simp: set_sql_update epoch_ok_def store_inv_def)
  moreover have "outbox_ok ?t"
    unfolding outbox_ok_def
  proof (intro conjI ballI allI impI)
    fix r v
    assume "r \<in> set (inference_requests ?t)" and v: "rr_result r = Some v"
    then obtain q where "q \<in> set (inference_requests s)" "r = (if sel q then upd q else q)" by (auto simp: set_sql_update)
    with v inv show "\<exists>b \<in> set (outbox ?t). result_row r v b"
      by (auto simp: store_inv_def outbox_ok_def result_row_keys [OF keys] res split: if_splits)
  next
    fix q
    assume "q \<in> set (poison_messages ?t)"
    with inv show "\<exists>b \<in> set (outbox ?t). dlq_row q b" by (simp add: store_inv_def outbox_ok_def)
  next
    fix b
    assume b: "b \<in> set (outbox ?t)"
    show "(\<exists>r \<in> set (inference_requests ?t). \<exists>v. rr_result r = Some v \<and> result_row r v b) \<or>
        (\<exists>q \<in> set (poison_messages ?t). dlq_row q b)"
    proof (cases "\<exists>q \<in> set (poison_messages s). dlq_row q b")
      case False
      with b inv obtain q v where q: "q \<in> set (inference_requests s)" "rr_result q = Some v" "result_row q v b"
        by (auto simp: store_inv_def outbox_ok_def)
      let ?u = "if sel q then upd q else q"
      have "?u \<in> set (inference_requests ?t)" using q(1) by (auto simp: set_sql_update)
      moreover have "rr_result ?u = Some v \<and> result_row ?u v b" using q by (simp add: res result_row_keys [OF keys])
      ultimately show ?thesis by blast
    qed simp
  qed
  ultimately show ?thesis using inv request_update_keys [OF _ keys] by (simp add: store_inv_def)
qed

lemma open_row_no_result: "row_ok r \<Longrightarrow> rr_state r \<notin> set terminal_states \<Longrightarrow> rr_result r = None"
  by (auto simp: row_ok_def terminal_states_def)

lemma request_row_unique:
  assumes "store_inv s" and "q \<in> set (inference_requests s)" and "r \<in> set (inference_requests s)"
    and "rr_request_id q = rr_request_id r"
  shows "q = r"
  using assms by (auto simp: store_inv_def keys_ok_def intro: unique_key)

lemma AssignAttempt_inv:
  assumes inv: "store_inv s" and "AssignAttempt rid p epoch engine s = Inr (a, t)"
  shows "store_inv t"
  using assms(2)
proof (cases rule: AssignAttempt_cases)
  case (some r)
  show ?thesis unfolding some(9)
  proof (rule request_update_inv [OF inv])
    fix q
    assume q: "q \<in> set (inference_requests s)" and sel: "assign_sel rid p (int epoch) s q"
    then have "q = r" using request_row_unique [OF inv q some(1)] some(2) by (simp add: assign_sel_def)
    moreover have "row_ok q" using inv q by (simp add: store_inv_def)
    moreover have "rr_result q = None" using \<open>row_ok q\<close> sel by (simp add: assign_sel_def open_row_no_result)
    ultimately show "row_ok (q\<lparr>rr_state := ''DISPATCHED'', rr_state_version := rr_state_version q + 1,
        rr_epoch := Some (int epoch), rr_engine_id := Some engine, rr_attempt_id := rr_attempt_id q + 1\<rparr>) \<and>
      epoch_ok s (q\<lparr>rr_state := ''DISPATCHED'', rr_state_version := rr_state_version q + 1,
        rr_epoch := Some (int epoch), rr_engine_id := Some engine, rr_attempt_id := rr_attempt_id q + 1\<rparr>)"
      using some(3,4) sel by (fastforce simp: row_ok_def epoch_ok_def assign_sel_def)
  qed (simp_all add: keeps_keys_def)
qed (use inv in simp)

lemma Transition_inv:
  assumes inv: "store_inv s" and "Transition rid v from nxt s = Inr (b, t)"
  shows "store_inv t"
  using assms(2)
proof (cases rule: Transition_cases)
  case (some r)
  show ?thesis unfolding some(5)
  proof (rule request_update_inv [OF inv])
    fix q
    assume q: "q \<in> set (inference_requests s)" and sel: "transition_sel rid (int v) from q"
    then have "q = r" using request_row_unique [OF inv q some(2)] some(3) by (simp add: transition_sel_def)
    moreover have ok: "row_ok q" "epoch_ok s q" using inv q by (simp_all add: store_inv_def)
    moreover have "rr_result q = None"
      using open_row_no_result [OF ok(1)] sel unfolding transition_sel_def by blast
    ultimately show "row_ok (q\<lparr>rr_state := nxt, rr_state_version := rr_state_version q + 1\<rparr>) \<and>
      epoch_ok s (q\<lparr>rr_state := nxt, rr_state_version := rr_state_version q + 1\<rparr>)"
      using some(4) by (auto simp: row_ok_def epoch_ok_def)
  qed (simp_all add: keeps_keys_def)
qed (use inv in simp)

lemma insert_outbox_keys:
  assumes "keys_ok s" and fresh: "\<forall>b \<in> set (outbox s). \<not> (ob_topic b = topic \<and> ob_key b = key)"
    and "insert_outbox topic key payload p off s = Inr t"
  shows "keys_ok t"
  using assms(1) fresh unfolding insert_outbox_fresh(2) [OF assms(3) fresh] keys_ok_def by fastforce

abbreviation completed_row :: "string \<Rightarrow> RequestRow \<Rightarrow> RequestRow" where
  "completed_row payload q \<equiv> q\<lparr>rr_state := ''COMPLETED'', rr_state_version := rr_state_version q + 1, rr_result := Some payload\<rparr>"

abbreviation result_outbox :: "DurableStore \<Rightarrow> string \<Rightarrow> string \<Rightarrow> RequestRow \<Rightarrow> OutboxRow" where
  "result_outbox s rid payload r \<equiv> \<lparr>ob_id = outbox_id_seq s, ob_topic = ''inference.results'', ob_key = rid,
     ob_payload = payload, ob_partition = rr_partition r, ob_offset = rr_offset r, ob_published_at = None\<rparr>"

text \<open>The tables after an accepted completion: the fenced row is \<open>COMPLETED\<close> and the result row is new.\<close>

definition accept :: "string \<Rightarrow> string \<Rightarrow> RequestRow \<Rightarrow> DurableStore \<Rightarrow> DurableStore" where
  "accept rid payload r s = s\<lparr>inference_requests := sql_update (\<lambda>q. q = r) (completed_row payload) (inference_requests s),
     outbox := outbox s @ [result_outbox s rid payload r], outbox_id_seq := outbox_id_seq s + 1\<rparr>"

lemma accept_select:
  "inference_requests (accept rid payload r s) = sql_update (\<lambda>q. q = r) (completed_row payload) (inference_requests s)"
  "outbox (accept rid payload r s) = outbox s @ [result_outbox s rid payload r]"
  "partition_ownership (accept rid payload r s) = partition_ownership s"
  "poison_messages (accept rid payload r s) = poison_messages s"
  "outbox_id_seq (accept rid payload r s) = outbox_id_seq s + 1"
  by (simp_all add: accept_def)

lemma Finalize_accepted:
  assumes inv: "store_inv s" and fin: "Finalize rid f payload s = Inr (True, t)"
  obtains r where "r \<in> set (inference_requests s)" "fence_sel rid f r" "rr_state_version r \<noteq> i64_max"
    "\<forall>b \<in> set (outbox s). \<not> (ob_topic b = ''inference.results'' \<and> ob_key b = rid)" "t = accept rid payload r s"
  using fin
proof (cases rule: Finalize_cases)
  case (some r)
  have sel: "fence_sel rid f q \<longleftrightarrow> q = r" if "q \<in> set (inference_requests s)" for q
    using request_row_unique [OF inv that some(2)] some(3) by (auto simp: finalize_sel_def)
  then have upd: "sql_update (fence_sel rid f) (completed_row payload) (inference_requests s) =
      sql_update (\<lambda>q. q = r) (completed_row payload) (inference_requests s)" by (simp add: sql_update_def)
  have fresh: "\<forall>b \<in> set (outbox s). \<not> (ob_topic b = ''inference.results'' \<and> ob_key b = rid)"
  proof (intro ballI notI)
    fix b
    assume b: "b \<in> set (outbox s)" "ob_topic b = ''inference.results'' \<and> ob_key b = rid"
    with inv obtain r' v where "r' \<in> set (inference_requests s)" "rr_result r' = Some v" "rr_request_id r' = rid"
      by (auto simp: store_inv_def outbox_ok_def result_row_def dlq_row_def)
    moreover from this have "r' = r" using request_row_unique [OF inv _ some(2)] some(3) by (simp add: finalize_sel_def)
    ultimately show False using inv some(2,3) by (auto simp: store_inv_def row_ok_def finalize_sel_def)
  qed
  from insert_outbox_fresh [OF some(5)] fresh some(2,3,4) show ?thesis
    by (intro that [of r]) (simp_all add: upd accept_def)
qed simp

lemma accept_keys:
  assumes "keys_ok s" and "\<forall>b \<in> set (outbox s). \<not> (ob_topic b = ''inference.results'' \<and> ob_key b = rid)"
  shows "keys_ok (accept rid payload r s)"
proof -
  have "keys_ok (s\<lparr>inference_requests := sql_update (\<lambda>q. q = r) (completed_row payload) (inference_requests s)\<rparr>)"
    using assms(1) by (rule request_update_keys) (simp add: keeps_keys_def)
  with assms(2) show ?thesis unfolding keys_ok_def accept_select by fastforce
qed

lemma accept_outbox:
  assumes ok: "outbox_ok s" and r: "r \<in> set (inference_requests s)" "rr_request_id r = rid"
    and fresh: "\<forall>b \<in> set (outbox s). \<not> (ob_topic b = ''inference.results'' \<and> ob_key b = rid)"
  shows "outbox_ok (accept rid payload r s)"
  unfolding outbox_ok_def accept_select
proof (intro conjI ballI allI impI)
  fix q v
  assume "q \<in> set (sql_update (\<lambda>q. q = r) (completed_row payload) (inference_requests s))" and v: "rr_result q = Some v"
  then obtain q' where "q' \<in> set (inference_requests s)" "q = (if q' = r then completed_row payload q' else q')"
    by (auto simp: set_sql_update)
  with v ok r(2) show "\<exists>b \<in> set (outbox s @ [result_outbox s rid payload r]). result_row q v b"
    by (auto simp: outbox_ok_def result_row_def split: if_splits)
next
  fix b
  assume b: "b \<in> set (outbox s @ [result_outbox s rid payload r])"
  have new: "completed_row payload r \<in> set (sql_update (\<lambda>q. q = r) (completed_row payload) (inference_requests s))"
    using r(1) by (auto simp: set_sql_update)
  from b ok consider "b = result_outbox s rid payload r" | q where "q \<in> set (poison_messages s)" "dlq_row q b"
    | q v where "b \<in> set (outbox s)" "q \<in> set (inference_requests s)" "rr_result q = Some v" "result_row q v b"
    by (auto simp: outbox_ok_def)
  then show "(\<exists>q \<in> set (sql_update (\<lambda>q. q = r) (completed_row payload) (inference_requests s)).
      \<exists>v. rr_result q = Some v \<and> result_row q v b) \<or> (\<exists>q \<in> set (poison_messages s). dlq_row q b)"
  proof cases
    case 1
    then have "result_row (completed_row payload r) payload b" using r(2) by (simp add: result_row_def)
    with new show ?thesis by force
  next
    case 3
    with r(2) fresh have "q \<noteq> r" by (auto simp: result_row_def)
    with 3 have "q \<in> set (sql_update (\<lambda>q. q = r) (completed_row payload) (inference_requests s))"
      by (auto simp: set_sql_update)
    with 3 show ?thesis by blast
  qed auto
qed (use ok in \<open>auto simp: outbox_ok_def\<close>)

lemma Finalize_inv:
  assumes inv: "store_inv s" and fin: "Finalize rid f payload s = Inr (b, t)"
  shows "store_inv t"
proof (cases b)
  case False
  from fin show ?thesis by (rule Finalize_cases) (use inv False in simp_all)
next
  case True
  with fin have "Finalize rid f payload s = Inr (True, t)" by simp
  then obtain r where r: "r \<in> set (inference_requests s)" "fence_sel rid f r" "rr_state_version r \<noteq> i64_max"
    and fresh: "\<forall>b \<in> set (outbox s). \<not> (ob_topic b = ''inference.results'' \<and> ob_key b = rid)"
    and t: "t = accept rid payload r s" by (rule Finalize_accepted [OF inv])
  have "row_ok q \<and> epoch_ok t q" if "q \<in> set (inference_requests t)" for q
  proof -
    from that obtain q' where q': "q' \<in> set (inference_requests s)" "q = (if q' = r then completed_row payload q' else q')"
      by (auto simp: t accept_select set_sql_update)
    with inv have "row_ok q' \<and> epoch_ok s q'" by (simp add: store_inv_def)
    with q'(2) r(3) show ?thesis by (auto simp: row_ok_def epoch_ok_def t accept_select)
  qed
  moreover have "keys_ok t" "outbox_ok t"
    using accept_keys [OF _ fresh] accept_outbox [OF _ r(1) _ fresh] inv r(2) by (simp_all add: t store_inv_def finalize_sel_def)
  ultimately show ?thesis using inv by (simp add: store_inv_def t accept_select)
qed

text \<open>The key of a poison message names its position: \<open>partition:offset\<close> is read back in one way.\<close>

lemma minus_not_digit: "\<not> is_digit (CHR ''-'')"
  by (simp add: is_digit_def)

lemma to_string_int_inject: "to_string_int i = to_string_int j \<longleftrightarrow> i = j"
proof -
  have "\<not> (CHR ''-'' # xs = to_string n)" for xs n
    using to_string_digits [of "CHR ''-''" n] minus_not_digit by (metis list.set_intros(1))
  then show ?thesis by (auto simp: to_string_int_def split: if_splits) (metis eq_commute)+
qed

lemma colon_not_in_to_string_int: "CHR '':'' \<notin> set (to_string_int i)"
  using to_string_digits [of "CHR '':''"] by (auto simp: to_string_int_def)

lemma before_separator:
  assumes "c \<notin> set xs" and "c \<notin> set ys" and "xs @ c # us = ys @ c # vs"
  shows "xs = ys \<and> us = vs"
proof -
  have "takeWhile (\<lambda>x. x \<noteq> c) (zs @ c # ws) = zs" if "c \<notin> set zs" for zs ws
    using that by (subst takeWhile_append2) auto
  from this [OF assms(1), of us] this [OF assms(2), of vs] assms(3) show ?thesis by simp
qed

lemma poison_key_inject: "poison_key p off = poison_key p' off' \<longleftrightarrow> p = p' \<and> off = off'"
  using before_separator [OF colon_not_in_to_string_int [of p] colon_not_in_to_string_int [of p'],
      of "to_string_int off" "to_string_int off'"]
  by (auto simp: poison_key_def to_string_int_inject)

lemma RecordPoison_inv:
  assumes inv: "store_inv s" and rec: "RecordPoison p off payload err s = Inr (b, t)"
  shows "store_inv t"
proof (cases "\<exists>r \<in> set (poison_messages s). pr_partition r = p \<and> pr_offset r = off")
  case True
  then show ?thesis using assms by (simp add: RecordPoison_def)
next
  case False
  let ?q = "\<lparr>pr_partition = p, pr_offset = off, pr_payload = payload, pr_error = err\<rparr>"
  let ?s = "s\<lparr>poison_messages := poison_messages s @ [?q]\<rparr>"
  from False rec have ins: "insert_outbox ''inference.dlq'' (poison_key p off) (encode_hex payload) p off ?s = Inr t"
    by (simp only: RecordPoison_def if_False) (simp add: bind_result_eq_Inr)
  have fresh: "\<forall>b \<in> set (outbox ?s). \<not> (ob_topic b = ''inference.dlq'' \<and> ob_key b = poison_key p off)"
    using inv False by (fastforce simp: store_inv_def outbox_ok_def result_row_def dlq_row_def poison_key_inject)
  have k: "keys_ok ?s" using inv False by (auto simp: store_inv_def keys_ok_def)
  note t = insert_outbox_fresh(2) [OF ins fresh]
  have "outbox_ok t" using inv unfolding store_inv_def outbox_ok_def t by (fastforce simp: dlq_row_def)
  with insert_outbox_keys [OF k fresh ins] inv show ?thesis
    by (simp add: store_inv_def t epoch_ok_def)
qed

lemma MarkPublished_inv:
  assumes "store_inv s"
  shows "store_inv (MarkPublished now oid s)"
proof -
  define v where "v = (\<lambda>r :: OutboxRow. if ob_id r = oid then r\<lparr>ob_published_at := case ob_published_at r of
    None \<Rightarrow> Some now | Some t \<Rightarrow> Some t\<rparr> else r)"
  have o: "outbox (MarkPublished now oid s) = map v (outbox s)" by (simp add: MarkPublished_def sql_update_def v_def)
  have same: "result_row r x (v b) = result_row r x b" "dlq_row q (v b) = dlq_row q b"
    "ob_id (v b) = ob_id b" "ob_topic (v b) = ob_topic b" "ob_key (v b) = ob_key b" for r x q b
    by (simp_all add: result_row_def dlq_row_def v_def)
  have "outbox_ok (MarkPublished now oid s)"
    using assms unfolding store_inv_def outbox_ok_def o by (simp add: MarkPublished_def same)
  moreover have "keys_ok (MarkPublished now oid s)"
    using assms unfolding store_inv_def keys_ok_def o
    by (simp add: MarkPublished_def comp_def same)
  ultimately show ?thesis using assms by (simp add: store_inv_def MarkPublished_def epoch_ok_def)
qed

lemma store_step_inv: "store_inv s \<Longrightarrow> store_step s t \<Longrightarrow> store_inv t"
  by (auto elim!: store_step.cases intro: AcquirePartition_inv Ingest_inv AssignAttempt_inv Transition_inv
      Finalize_inv RecordPoison_inv MarkPublished_inv)

interpretation store_run: invariant_system "\<lambda>s. s = Migrate None" store_step store_inv
  by unfold_locales (auto intro: Migrate_inv store_step_inv)

end
