(* ===== verification/WireTypes.thy ===== *)
theory WireTypes
  imports Complex_Main DurableStores
begin

text \<open>
  The messages of \<open>proto/infersched.proto\<close> that routers and engines exchange. The protobuf code is
  generated and not part of the repository: serialisation is a parameter of the operations that
  parse a payload. The two \<open>double\<close> fields of \<open>SamplingParams\<close> are rational numbers.
\<close>

record SamplingParams =
  sp_max_output_tokens :: nat
  sp_temperature :: rat
  sp_top_p :: rat
  sp_seed :: nat

record InferenceRequest =
  ir_request_id :: string
  ir_model_id :: string
  ir_model_revision :: string
  ir_tokenizer_revision :: string
  ir_prompt_tokens :: nat
  ir_prompt_hash :: string
  ir_priority :: nat
  ir_deadline_unix_ms :: int
  ir_sampling :: SamplingParams
  ir_trace_id :: string
  ir_span_id :: string

record WireFence =
  wf_partition_id :: int
  wf_epoch :: nat
  wf_attempt_id :: nat

record DispatchRequest =
  dr_request :: InferenceRequest
  dr_fence :: WireFence

datatype AckStatus = ACCEPTED | REJECTED

datatype ProgressKind = ADMITTED | PREFILL_DONE | DECODE_STEP | PREEMPTED | PROGRESS_COMPLETED | PROGRESS_FAILED

record ProgressEvent =
  pe_kind :: ProgressKind
  pe_request_id :: string
  pe_fence :: WireFence
  pe_tokens_generated :: nat
  pe_result_ref :: string
  pe_prefix_cache_hit :: bool
  pe_result_cache_hit :: bool
  pe_failure_reason :: string
  pe_retryable :: bool
  pe_trace_id :: string
  pe_span_id :: string

datatype DispatchEvent = Ack AckStatus string | Progress ProgressEvent

record EngineCapacity =
  cap_free_kv_blocks :: nat
  cap_total_kv_blocks :: nat
  cap_batch_headroom :: nat
  cap_running_seqs :: nat
  cap_waiting_seqs :: nat

end
