(* ===== verification/EngineServices.thy ===== *)
theory EngineServices
  imports ContinuousProgress WireTypes "HOL-Library.Sublist"
begin

text \<open>
  \<open>cpp/src/engine_service.cpp\<close>: the gRPC service around the continuous engine. The service state is
  one record; every section that runs under \<open>mutex_\<close>, and the worker's batch, is one operation, so
  an interleaving of RPC handlers and the worker is a sequence of them. Jobs are shared objects
  (\<open>std::shared_ptr\<close>): they live in \<open>es_jobs\<close> under their number, and the queue, the worker's batch and
  the RPC handlers hold numbers; a \<open>std::weak_ptr\<close> has expired when none of them holds the
  number any more.
\<close>

section \<open>State\<close>

record Job =
  job_dispatch :: DispatchRequest
  job_done :: bool
  job_superseded :: bool
  job_result :: EngineResult

record EngineService =
  es_queue_capacity :: nat
  es_queue :: "nat list"
  es_partition_epochs :: "(int \<times> nat) list"
  es_request_attempts :: "(string \<times> nat) list"
  es_live_jobs :: "(string \<times> nat) list"
  es_draining :: bool
  es_stop :: bool
  es_running_jobs :: nat
  es_engine :: ContinuousEngine
  es_total_kv_blocks :: nat
  es_free_kv_blocks :: nat
  es_jobs :: "nat \<Rightarrow> Job"
  es_next_job :: nat
  es_handlers :: "nat list"
  es_batch :: "nat list"

definition fresh_job :: "DispatchRequest \<Rightarrow> Job" where
  "fresh_job d = \<lparr>job_dispatch = d, job_done = False, job_superseded = False, job_result = DefaultResult []\<rparr>"

text \<open>The members of a \<open>v1::DispatchRequest\<close> that nothing has been assigned to.\<close>

definition default_dispatch :: DispatchRequest where
  "default_dispatch = \<lparr>dr_request = \<lparr>ir_request_id = [], ir_model_id = [], ir_model_revision = [],
       ir_tokenizer_revision = [], ir_prompt_tokens = 0, ir_prompt_hash = [], ir_priority = 0, ir_deadline_unix_ms = 0,
       ir_sampling = \<lparr>sp_max_output_tokens = 0, sp_temperature = 0, sp_top_p = 0, sp_seed = 0\<rparr>,
       ir_trace_id = [], ir_span_id = []\<rparr>,
     dr_fence = \<lparr>wf_partition_id = 0, wf_epoch = 0, wf_attempt_id = 0\<rparr>\<rparr>"

definition MakeEngineService :: "draw \<Rightarrow> EngineConfig \<Rightarrow> nat \<Rightarrow> error + EngineService" where
  "MakeEngineService draw cfg capacity = (case MakeContinuousEngine draw cfg of
     Inl e \<Rightarrow> Inl e
   | Inr engine \<Rightarrow> Inr \<lparr>es_queue_capacity = capacity, es_queue = [], es_partition_epochs = [], es_request_attempts = [],
       es_live_jobs = [], es_draining = False, es_stop = False, es_running_jobs = 0, es_engine = engine,
       es_total_kv_blocks = kv_blocks cfg, es_free_kv_blocks = kv_blocks cfg, es_jobs = (\<lambda>j. fresh_job default_dispatch), es_next_job = 0,
       es_handlers = [], es_batch = []\<rparr>)"

abbreviation job_rid :: "EngineService \<Rightarrow> nat \<Rightarrow> string" where
  "job_rid s j \<equiv> ir_request_id (dr_request (job_dispatch (es_jobs s j)))"

definition expired :: "EngineService \<Rightarrow> nat \<Rightarrow> bool" where
  "expired s j \<longleftrightarrow> j \<notin> set (es_queue s) \<and> j \<notin> set (es_batch s) \<and> j \<notin> set (es_handlers s)"

section \<open>RPC handlers\<close>

text \<open>The empty string means that the job was queued.\<close>

definition ValidateAndReserve :: "DispatchRequest \<Rightarrow> nat \<Rightarrow> EngineService \<Rightarrow> string \<times> EngineService" where
  "ValidateAndReserve d j s =
     (let p = wf_partition_id (dr_fence d); epoch = wf_epoch (dr_fence d); attempt = wf_attempt_id (dr_fence d);
          rid = ir_request_id (dr_request d) in
      if es_draining s then (''draining'', s)
      else if es_queue_capacity s \<le> length (es_queue s) then (''queue_full'', s)
      else if (case map_of (es_partition_epochs s) p of None \<Rightarrow> False | Some e \<Rightarrow> epoch < e)
      then (''stale_ownership_epoch'', s)
      else let s1 = s\<lparr>es_partition_epochs := AList.update p epoch (es_partition_epochs s)\<rparr> in
        if (case map_of (es_request_attempts s1) rid of None \<Rightarrow> False | Some a \<Rightarrow> attempt \<le> a)
        then (''stale_or_duplicate_attempt'', s1)
        else if (case map_of (es_live_jobs s1) rid of None \<Rightarrow> False | Some l \<Rightarrow> \<not> expired s1 l)
        then (''request_already_in_flight'', s1)
        else ([], s1\<lparr>es_queue := es_queue s1 @ [j],
           es_request_attempts := AList.update rid attempt (es_request_attempts s1),
           es_live_jobs := AList.update rid j (es_live_jobs s1)\<rparr>))"

text \<open>
  \<open>Dispatch\<close> up to the acknowledgement: a new job is made and validated; on acceptance the handler
  keeps holding it, on rejection the stream ends after the acknowledgement.
\<close>

definition Dispatch_begin :: "DispatchRequest \<Rightarrow> EngineService \<Rightarrow> DispatchEvent \<times> EngineService" where
  "Dispatch_begin d s =
     (let j = es_next_job s;
          s0 = s\<lparr>es_jobs := (es_jobs s)(j := fresh_job d), es_next_job := Suc j, es_handlers := j # es_handlers s\<rparr>;
          (rejection, s1) = ValidateAndReserve d j s0 in
      if rejection \<noteq> [] then (Ack REJECTED rejection, s1\<lparr>es_handlers := removeAll j (es_handlers s1)\<rparr>)
      else (Ack ACCEPTED [], s1))"

text \<open>The events of \<open>WriteProgress\<close>, and the end of the handler, whether or not they were written.\<close>

definition progress_event :: "Job \<Rightarrow> ProgressKind \<Rightarrow> ProgressEvent" where
  "progress_event job kind = \<lparr>pe_kind = kind, pe_request_id = ir_request_id (dr_request (job_dispatch job)),
     pe_fence = dr_fence (job_dispatch job), pe_tokens_generated = 0, pe_result_ref = [], pe_prefix_cache_hit = False,
     pe_result_cache_hit = False, pe_failure_reason = [], pe_retryable = False,
     pe_trace_id = ir_trace_id (dr_request (job_dispatch job)), pe_span_id = ir_span_id (dr_request (job_dispatch job))\<rparr>"

definition WriteProgress :: "Job \<Rightarrow> DispatchEvent list" where
  "WriteProgress job =
     [Progress (progress_event job PREFILL_DONE),
      Progress (if succeeded (job_result job)
        then (progress_event job PROGRESS_COMPLETED)
          \<lparr>pe_tokens_generated := sp_max_output_tokens (ir_sampling (dr_request (job_dispatch job))),
           pe_result_ref := res_output (job_result job), pe_prefix_cache_hit := prefix_cache_hit (job_result job),
           pe_result_cache_hit := result_cache_hit (job_result job)\<rparr>
        else (progress_event job PROGRESS_FAILED)
          \<lparr>pe_failure_reason := failure_reason (job_result job),
           pe_retryable := (failure_reason (job_result job) = ''superseded'')\<rparr>)]"

definition Dispatch_end :: "nat \<Rightarrow> EngineService \<Rightarrow> DispatchEvent list \<times> EngineService" where
  "Dispatch_end j s = (if job_done (es_jobs s j) then WriteProgress (es_jobs s j) else [],
     s\<lparr>es_handlers := removeAll j (es_handlers s)\<rparr>)"

definition Cancel :: "string \<Rightarrow> WireFence \<Rightarrow> EngineService \<Rightarrow> bool \<times> EngineService" where
  "Cancel rid f s = (case map_of (es_live_jobs s) rid of
     None \<Rightarrow> (False, s)
   | Some j \<Rightarrow>
       if \<not> expired s j \<and> wf_epoch (dr_fence (job_dispatch (es_jobs s j))) = wf_epoch f \<and>
          wf_attempt_id (dr_fence (job_dispatch (es_jobs s j))) = wf_attempt_id f
       then (True, s\<lparr>es_jobs := (es_jobs s)(j := (es_jobs s j)\<lparr>job_superseded := True\<rparr>)\<rparr>)
       else (False, s))"

definition Drain_begin :: "EngineService \<Rightarrow> EngineService" where
  "Drain_begin s = s\<lparr>es_draining := True\<rparr>"

definition Drain_returns :: "EngineService \<Rightarrow> bool" where
  "Drain_returns s \<longleftrightarrow> es_draining s \<and> es_queue s = [] \<and> es_running_jobs s = 0"

definition Capacity :: "EngineService \<Rightarrow> EngineCapacity" where
  "Capacity s = \<lparr>cap_free_kv_blocks = es_free_kv_blocks s mod u32, cap_total_kv_blocks = es_total_kv_blocks s mod u32,
     cap_batch_headroom = (if es_queue_capacity s > length (es_queue s)
       then es_queue_capacity s - length (es_queue s) else 0) mod u32,
     cap_running_seqs = es_running_jobs s mod u32, cap_waiting_seqs = length (es_queue s) mod u32\<rparr>"

section \<open>The worker\<close>

text \<open>
  \<open>static_cast<std::uint64_t>(std::max(0.0, x) * 1'000'000.0)\<close>, with the rounding of the
  multiplication of doubles as the argument \<open>fl\<close>.
\<close>

definition to_micros :: "(rat \<Rightarrow> rat) \<Rightarrow> rat \<Rightarrow> nat" where
  "to_micros fl x = nat \<lfloor>fl (max 0 x * 1000000)\<rfloor>"

definition ToEngineRequest :: "(rat \<Rightarrow> rat) \<Rightarrow> InferenceRequest \<Rightarrow> EngineRequest" where
  "ToEngineRequest fl r = \<lparr>request_id = ir_request_id r, model_revision = ir_model_revision r,
     tokenizer_revision = ir_tokenizer_revision r, prompt_hash = ir_prompt_hash r, prompt_block_hashes = [],
     prompt_tokens = ir_prompt_tokens r, max_output_tokens = sp_max_output_tokens (ir_sampling r),
     priority = ir_priority r, sampling_seed = sp_seed (ir_sampling r),
     temperature_micros = to_micros fl (sp_temperature (ir_sampling r)),
     top_p_micros = to_micros fl (sp_top_p (ir_sampling r)), arrival_time = 0\<rparr>"

text \<open>The queue becomes the batch.\<close>

definition worker_take :: "EngineService \<Rightarrow> EngineService" where
  "worker_take s = s\<lparr>es_queue := [], es_running_jobs := es_running_jobs s + length (es_queue s), es_batch := es_queue s\<rparr>"

definition latest_result :: "EngineResult list \<Rightarrow> string \<Rightarrow> EngineResult option" where
  "latest_result results rid = map_of (rev (map (\<lambda>r. (res_request_id r, r)) results)) rid"

definition finish_job :: "EngineResult list \<Rightarrow> Job \<Rightarrow> Job" where
  "finish_job results job =
     (let rid = ir_request_id (dr_request (job_dispatch job));
          result = (case latest_result results rid of
             None \<Rightarrow> (DefaultResult rid)\<lparr>succeeded := False, failure_reason := ''missing_engine_result''\<rparr>
           | Some r \<Rightarrow> r);
          result' = (if job_superseded job then result\<lparr>succeeded := False, failure_reason := ''superseded''\<rparr> else result) in
      job\<lparr>job_done := True, job_result := result'\<rparr>)"

text \<open>
  The batch runs through the engine; \<open>None\<close> would be a run of the engine that does not end.
\<close>

definition worker_run :: "(rat \<Rightarrow> rat) \<Rightarrow> EngineService \<Rightarrow> EngineService option" where
  "worker_run fl s =
     (let result_offset = length (ce_results (es_engine s));
          engine = fold (\<lambda>j e. Submit e (ToEngineRequest fl (dr_request (job_dispatch (es_jobs s j))))) (es_batch s) (es_engine s) in
      case RunUntilIdle engine of
        None \<Rightarrow> None
      | Some engine' \<Rightarrow>
          let new_results = drop result_offset (ce_results engine') in
          Some (s\<lparr>es_engine := engine', es_free_kv_blocks := free_blocks (ce_kv_cache engine'),
            es_jobs := fold (\<lambda>j jobs. jobs(j := finish_job new_results (jobs j))) (es_batch s) (es_jobs s)\<rparr>))"

definition worker_finish :: "EngineService \<Rightarrow> EngineService" where
  "worker_finish s = s\<lparr>es_live_jobs := fold (\<lambda>j live. if map_of live (job_rid s j) = Some j
        then AList.delete (job_rid s j) live else live) (es_batch s) (es_live_jobs s),
     es_running_jobs := es_running_jobs s - length (es_batch s), es_batch := []\<rparr>"

text \<open>The destructor lets the worker finish what is queued.\<close>

definition Shutdown :: "EngineService \<Rightarrow> EngineService" where
  "Shutdown s = s\<lparr>es_stop := True\<rparr>"

definition worker_exits :: "EngineService \<Rightarrow> bool" where
  "worker_exits s \<longleftrightarrow> es_stop s \<and> es_queue s = []"

section \<open>Results are only appended\<close>

definition results_grow :: "ContinuousEngine \<Rightarrow> ContinuousEngine \<Rightarrow> bool" where
  "results_grow e e' \<longleftrightarrow> prefix (ce_results e) (ce_results e')"

lemma results_grow_trans: "results_grow e e' \<Longrightarrow> results_grow e' e'' \<Longrightarrow> results_grow e e''"
  by (auto simp: results_grow_def)

lemma results_grow_same: "ce_results e' = ce_results e \<Longrightarrow> results_grow e e'"
  by (simp add: results_grow_def)

lemma Submit_results: "ce_results (Submit e r) = ce_results e"
  by (simp add: Submit_def Let_def)

lemma place_candidate_results: "ce_results (as_engine (place_candidate st c)) = ce_results (as_engine st)"
  by (simp add: place_candidate_def start_candidate_def defer_candidate_def Let_def split: prod.splits)

lemma cached_result_results:
  "cached_result st c = (st', hit) \<Longrightarrow> results_grow (as_engine st) (as_engine st')"
  by (auto simp: cached_result_def Let_def results_grow_def split: prod.splits option.splits)

lemma admit_candidate_results:
  assumes "admit_candidate st c = (st', b)"
  shows "results_grow (as_engine st) (as_engine st')"
proof (cases "ImpossibleReason (as_engine st) c")
  case (Some reason)
  with assms show ?thesis by (auto simp: admit_candidate_def Let_def results_grow_def)
next
  case None
  obtain st1 hit where c: "cached_result st c = (st1, hit)" by force
  from None assms c cached_result_results [OF c] place_candidate_results [of st1 c] show ?thesis
    by (auto simp: admit_candidate_def Let_def defer_candidate_def results_grow_def split: if_splits)
qed

lemma admit_loop_results: "results_grow (as_engine st) (as_engine (admit_loop n st))"
proof (induction n arbitrary: st)
  case (Suc n)
  obtain q c where p: "PopReady (ce_pending (as_engine st)) (ce_clock (as_engine st)) = (q, c)" by force
  show ?case
  proof (cases c)
    case None
    with p show ?thesis by (simp add: Let_def results_grow_def)
  next
    case (Some r)
    let ?st = "st\<lparr>as_engine := (as_engine st)\<lparr>ce_pending := q\<rparr>\<rparr>"
    obtain st' b where a: "admit_candidate ?st r = (st', b)" by force
    have "results_grow (as_engine st) (as_engine st')"
      using admit_candidate_results [OF a] by (simp add: results_grow_def)
    with Suc [of st'] p Some a show ?thesis by (auto simp: Let_def results_grow_def)
  qed
qed (simp add: results_grow_def)

lemma AdmitReady_results: "AdmitReady e = (e', b) \<Longrightarrow> results_grow e e'"
  using admit_loop_results [of "\<lparr>as_engine = e, prefill_budget = 0, prefill_sequences = 0, deferred = [], admitted_any = False\<rparr>"]
  by (auto simp: AdmitReady_def Let_def results_grow_def)

lemma complete_one_results: "results_grow e (complete_one e a)"
  by (simp add: results_grow_def complete_one_def Let_def)

lemma complete_from_results: "results_grow e (complete_from kept rest e)"
proof (induction kept rest e rule: complete_from.induct)
  case (2 kept a rest e)
  then show ?case using results_grow_trans [OF complete_one_results [of e a]] by auto
qed (simp add: results_grow_def)

lemma prepare_from_results: "ce_results (prepare_from i e) = ce_results e"
proof (induction i e rule: prepare_from.induct)
  case (1 i e)
  obtain e1 st where g: "grow_sequence e (ce_active e ! i) = (e1, st)" by force
  then have "ce_results e1 = ce_results e" by (auto simp: grow_sequence_def Let_def split: if_splits prod.splits)
  moreover have "ce_results (Preempt e1 v) = ce_results e1" for v by (simp add: Preempt_def Let_def)
  ultimately show ?case using 1 g by (subst prepare_from.simps) auto
qed

lemma RunOneIteration_results:
  assumes "RunOneIteration e = (e', b)"
  shows "results_grow e e'"
proof -
  define e0 where "e0 = (if ce_active e = [] then e\<lparr>ce_preempted := {}\<rparr> else e)"
  obtain e1 p where a: "AdmitReady e0 = (e1, p)" by force
  have e0: "ce_results e0 = ce_results e" by (simp add: e0_def)
  with AdmitReady_results [OF a] have g1: "results_grow e e1" by (simp add: results_grow_def)
  have g2: "results_grow e (CompleteFinished e1)"
    using g1 complete_from_results [of e1] by (auto simp: CompleteFinished_def intro: results_grow_trans)
  let ?e3 = "prepare_from 0 (CompleteFinished e1)"
  have g3: "results_grow e ?e3" using g2 by (simp add: results_grow_def prepare_from_results)
  have "results_grow ?e3 (CompleteFinished (decode_step ?e3))"
    using complete_from_results [of "decode_step ?e3" "[]" "ce_active (decode_step ?e3)"]
    by (simp add: CompleteFinished_def results_grow_def decode_step_def Let_def split: prod.splits)
  with g3 have "results_grow e (CompleteFinished (decode_step ?e3))" by (rule results_grow_trans)
  with g2 g3 assms a show ?thesis
    by (auto simp: RunOneIteration_def e0_def [symmetric] Let_def PrepareDecodeBlocks_def split: if_splits)
qed

lemma RunUntilIdle_results:
  assumes "RunUntilIdle e = Some e'"
  shows "results_grow e e'"
proof (rule RunUntilIdle.raw_induct [OF _ assms, of results_grow], goal_cases)
  case (1 run e e')
  show ?case
  proof (cases "ce_pending e \<noteq> [] \<or> ce_active e \<noteq> []")
    case False
    with 1(2) show ?thesis by (simp add: results_grow_def)
  next
    case True
    obtain e1 p where r: "RunOneIteration e = (e1, p)" by force
    note g = RunOneIteration_results [OF r]
    show ?thesis
    proof (cases "p \<or> NextArrival (ce_pending e1) \<noteq> None")
      case False
      with 1(2) True r g show ?thesis by auto
    next
      case t: True
      have "\<exists>e2. run e2 = Some e' \<and> ce_results e2 = ce_results e1"
      proof (cases p)
        case False
        with t obtain t' where "NextArrival (ce_pending e1) = Some t'" by blast
        with False 1(2) True r show ?thesis
          by (intro exI [of _ "e1\<lparr>ce_clock := Advance (ce_clock e1) (t' - ce_clock e1)\<rparr>"]) auto
      qed (use 1(2) True r in auto)
      then obtain e2 where "run e2 = Some e'" and same: "ce_results e2 = ce_results e1" by blast
      from 1(1) [OF this(1)] g show ?thesis unfolding results_grow_def same by (rule prefix_order.trans [rotated])
    qed
  qed
qed

text \<open>A batch of requests on an idle engine: the new results are theirs, one each.\<close>

lemma batch_results:
  assumes e: "settled e" "ce_pending e = []" "ce_active e = []" and ok: "\<forall>r \<in> set rs. request_ok r"
  obtains e' where "RunUntilIdle (fold (\<lambda>r e. Submit e r) rs e) = Some e'" "settled e'" "ce_pending e' = []" "ce_active e' = []"
    "ce_config e' = ce_config e"
    "image_mset result_outcome (mset (drop (length (ce_results e)) (ce_results e'))) = image_mset (request_outcome (ce_config e)) (mset rs)"
proof -
  note sub = Submit_all [OF e(1) ok]
  then obtain e' where e': "RunUntilIdle (fold (\<lambda>r e. Submit e r) rs e) = Some e'" "settled e'" "ce_pending e' = []" "ce_active e' = []"
    "ledger e' = image_mset (request_outcome (ce_config e)) (mset rs) + ledger e" "ce_config e' = ce_config e"
    using RunUntilIdle_returns [of "fold (\<lambda>r e. Submit e r) rs e"] by auto
  have "ce_results (fold (\<lambda>r e. Submit e r) rs e) = ce_results e" by (induction rs arbitrary: e) (simp_all add: Submit_results)
  with RunUntilIdle_results [OF e'(1)] obtain new where new: "ce_results e' = ce_results e @ new"
    by (auto simp: results_grow_def prefix_def)
  have "image_mset result_outcome (mset new) = image_mset (request_outcome (ce_config e)) (mset rs)"
    using e'(3,4,5) e(2,3) by (simp add: ledger_def new)
  then show ?thesis using e' new by (intro that [of e']) simp_all
qed

end
