(* ===== verification/EngineServiceProofs.thy ===== *)
theory EngineServiceProofs
  imports EngineServices
begin

text \<open>
  The engine service under every interleaving of its RPC handlers and its worker: fences are
  monotone, at most one attempt of a request is live, the queue is bounded, and every accepted
  dispatch is answered with its own outcome.
\<close>

section \<open>Steps\<close>

text \<open>Where the worker thread is: waiting for work, with a batch, or with a batch that has run.\<close>

datatype phase = Waiting | Taken | Ran

definition dispatch_ok :: "DispatchRequest \<Rightarrow> bool" where
  "dispatch_ok d \<longleftrightarrow> ir_prompt_tokens (dr_request d) < u32 \<and> sp_max_output_tokens (ir_sampling (dr_request d)) < u32"

inductive service_step :: "(rat \<Rightarrow> rat) \<Rightarrow> phase \<times> EngineService \<Rightarrow> phase \<times> EngineService \<Rightarrow> bool" for fl where
  dispatch: "dispatch_ok d \<Longrightarrow> service_step fl (ph, s) (ph, snd (Dispatch_begin d s))"
| ended: "service_step fl (ph, s) (ph, snd (Dispatch_end j s))"
| cancel: "service_step fl (ph, s) (ph, snd (Cancel rid f s))"
| drain: "service_step fl (ph, s) (ph, Drain_begin s)"
| shutdown: "service_step fl (ph, s) (ph, Shutdown s)"
| take: "es_queue s \<noteq> [] \<Longrightarrow> service_step fl (Waiting, s) (Taken, worker_take s)"
| run: "worker_run fl s = Some t \<Longrightarrow> service_step fl (Taken, s) (Ran, t)"
| finish: "service_step fl (Ran, s) (Waiting, worker_finish s)"

section \<open>The invariant\<close>

abbreviation in_flight :: "EngineService \<Rightarrow> nat list" where
  "in_flight s \<equiv> es_queue s @ es_batch s"

abbreviation job_attempt :: "EngineService \<Rightarrow> nat \<Rightarrow> nat" where
  "job_attempt s j \<equiv> wf_attempt_id (dr_fence (job_dispatch (es_jobs s j)))"

definition live_ok :: "EngineService \<Rightarrow> bool" where
  "live_ok s \<longleftrightarrow> distinct (map fst (es_live_jobs s)) \<and> set (es_live_jobs s) = (\<lambda>j. (job_rid s j, j)) ` set (in_flight s)"

definition jobs_ok :: "EngineService \<Rightarrow> bool" where
  "jobs_ok s \<longleftrightarrow> distinct (in_flight s) \<and> (\<forall>j \<in> set (in_flight s). j < es_next_job s \<and> dispatch_ok (job_dispatch (es_jobs s j)) \<and>
     map_of (es_request_attempts s) (job_rid s j) = Some (job_attempt s j))"

definition engine_idle :: "EngineService \<Rightarrow> bool" where
  "engine_idle s \<longleftrightarrow> settled (es_engine s) \<and> ce_pending (es_engine s) = [] \<and> ce_active (es_engine s) = []"

definition service_inv :: "phase \<times> EngineService \<Rightarrow> bool" where
  "service_inv ps \<longleftrightarrow> live_ok (snd ps) \<and> jobs_ok (snd ps) \<and> engine_idle (snd ps) \<and>
     es_running_jobs (snd ps) = length (es_batch (snd ps)) \<and> length (es_queue (snd ps)) \<le> es_queue_capacity (snd ps) \<and>
     (fst ps = Waiting \<longrightarrow> es_batch (snd ps) = [])"

lemma live_ok_map_of:
  assumes "live_ok s"
  shows "map_of (es_live_jobs s) rid = Some j \<longleftrightarrow> j \<in> set (in_flight s) \<and> job_rid s j = rid"
  using assms by (auto simp: live_ok_def)

lemma live_ok_distinct_rids:
  assumes "live_ok s" and "jobs_ok s"
  shows "distinct (map (job_rid s) (in_flight s))"
  unfolding distinct_map
proof (intro conjI inj_onI)
  fix i j
  assume "i \<in> set (in_flight s)" "j \<in> set (in_flight s)" "job_rid s i = job_rid s j"
  with live_ok_map_of [OF assms(1)] have "map_of (es_live_jobs s) (job_rid s i) = Some i"
    "map_of (es_live_jobs s) (job_rid s i) = Some j" by simp_all
  then show "i = j" by simp
qed (use assms(2) in \<open>simp add: jobs_ok_def\<close>)

text \<open>Only the fields read by the invariant matter.\<close>

lemma service_inv_frame:
  assumes "service_inv (ph, s)"
    and "es_queue t = es_queue s" "es_batch t = es_batch s" "es_live_jobs t = es_live_jobs s"
    and "es_request_attempts t = es_request_attempts s" "es_next_job s \<le> es_next_job t" "es_engine t = es_engine s"
    and "es_running_jobs t = es_running_jobs s" "es_queue_capacity t = es_queue_capacity s"
    and "\<And>j. j \<in> set (in_flight s) \<Longrightarrow> job_dispatch (es_jobs t j) = job_dispatch (es_jobs s j)"
  shows "service_inv (ph, t)"
proof -
  have "(\<lambda>j. (job_rid t j, j)) ` set (in_flight t) = (\<lambda>j. (job_rid s j, j)) ` set (in_flight s)"
    using assms(2,3,10) by (intro image_cong) auto
  then have "live_ok t" using assms(1,4) unfolding service_inv_def live_ok_def by simp
  moreover have "jobs_ok t" unfolding jobs_ok_def
  proof (intro conjI ballI)
    have ok: "jobs_ok s" using assms(1) by (simp add: service_inv_def)
    show "distinct (in_flight t)" using ok assms(2,3) by (simp add: jobs_ok_def)
    fix j
    assume "j \<in> set (in_flight t)"
    then have j: "j \<in> set (in_flight s)" using assms(2,3) by simp
    with ok have "j < es_next_job s" "dispatch_ok (job_dispatch (es_jobs s j))"
      "map_of (es_request_attempts s) (job_rid s j) = Some (job_attempt s j)" unfolding jobs_ok_def by blast+
    then show "j < es_next_job t" "dispatch_ok (job_dispatch (es_jobs t j))"
      "map_of (es_request_attempts t) (job_rid t j) = Some (job_attempt t j)" using assms(5,6) assms(10) [OF j] by simp_all
  qed
  ultimately show ?thesis using assms by (simp add: service_inv_def engine_idle_def)
qed

lemma ValidateAndReserve_accepted:
  assumes "ValidateAndReserve d j s = ([], t)"
  shows "\<not> es_draining s" and "length (es_queue s) < es_queue_capacity s"
    and "\<forall>e. map_of (es_partition_epochs s) (wf_partition_id (dr_fence d)) = Some e \<longrightarrow> e \<le> wf_epoch (dr_fence d)"
    and "\<forall>a. map_of (es_request_attempts s) (ir_request_id (dr_request d)) = Some a \<longrightarrow> a < wf_attempt_id (dr_fence d)"
    and "\<forall>l. map_of (es_live_jobs s) (ir_request_id (dr_request d)) = Some l \<longrightarrow> expired s l"
    and "t = s\<lparr>es_queue := es_queue s @ [j],
      es_partition_epochs := AList.update (wf_partition_id (dr_fence d)) (wf_epoch (dr_fence d)) (es_partition_epochs s),
      es_request_attempts := AList.update (ir_request_id (dr_request d)) (wf_attempt_id (dr_fence d)) (es_request_attempts s),
      es_live_jobs := AList.update (ir_request_id (dr_request d)) j (es_live_jobs s)\<rparr>"
  using assms by (auto simp: ValidateAndReserve_def Let_def expired_def split: if_splits option.splits)

lemma ValidateAndReserve_rejected:
  assumes "ValidateAndReserve d j s = (why, t)" and "why \<noteq> []"
  shows "t = s \<or> t = s\<lparr>es_partition_epochs := AList.update (wf_partition_id (dr_fence d)) (wf_epoch (dr_fence d)) (es_partition_epochs s)\<rparr>"
  using assms by (auto simp: ValidateAndReserve_def Let_def split: if_splits option.splits)

section \<open>Every step keeps the invariant\<close>

lemma update_fresh_key: "k \<notin> fst ` set al \<Longrightarrow> AList.update k v al = al @ [(k, v)]"
  by (induction al) auto

lemma reserve_inv:
  assumes inv: "service_inv (ph, s)" and v: "ValidateAndReserve d j s = ([], t)"
    and j: "j \<notin> set (in_flight s)" "j < es_next_job s" "job_dispatch (es_jobs s j) = d" and ok: "dispatch_ok d"
  shows "service_inv (ph, t)"
proof -
  let ?rid = "ir_request_id (dr_request d)"
  note a = ValidateAndReserve_accepted [OF v]
  have l: "live_ok s" "jobs_ok s" using inv by (simp_all add: service_inv_def)
  have none: "map_of (es_live_jobs s) ?rid = None"
  proof (rule ccontr)
    assume "map_of (es_live_jobs s) ?rid \<noteq> None"
    then obtain i where i: "map_of (es_live_jobs s) ?rid = Some i" by blast
    then have "i \<in> set (in_flight s)" by (simp only: live_ok_map_of [OF l(1)])
    with a(5) i show False by (auto simp: expired_def)
  qed
  have "set (AList.update ?rid j (es_live_jobs s)) = insert (?rid, j) (set (es_live_jobs s))"
    using none by (simp add: update_fresh_key map_of_eq_None_iff)
  moreover have jobs: "es_jobs t = es_jobs s" and fl: "set (in_flight t) = insert j (set (in_flight s))" by (auto simp: a(6))
  moreover have "es_live_jobs t = AList.update ?rid j (es_live_jobs s)" by (simp add: a(6))
  ultimately have "live_ok t" using l(1) unfolding live_ok_def fl jobs by (simp add: j(3) distinct_update)
  moreover have "jobs_ok t"
    unfolding jobs_ok_def
  proof (intro conjI ballI)
    show "distinct (in_flight t)" using l(2) j(1) by (auto simp: a(6) jobs_ok_def)
    fix i
    assume i: "i \<in> set (in_flight t)"
    show "i < es_next_job t" using i l(2) j(2) by (auto simp: a(6) jobs_ok_def)
    show "dispatch_ok (job_dispatch (es_jobs t i))" using i l(2) ok j(3) by (auto simp: a(6) jobs_ok_def)
    show "map_of (es_request_attempts t) (job_rid t i) = Some (job_attempt t i)"
    proof (cases "i = j")
      case True
      then show ?thesis using j(3) by (simp add: a(6) update_conv')
    next
      case False
      with i have i0: "i \<in> set (in_flight s)" by (auto simp: a(6))
      then have "job_rid s i \<noteq> ?rid" using none live_ok_map_of [OF l(1), of ?rid i] by auto
      then show ?thesis using i0 l(2) by (auto simp: a(6) update_conv' jobs_ok_def)
    qed
  qed
  ultimately show ?thesis using inv a(2) by (auto simp: service_inv_def a(6) engine_idle_def)
qed

lemma Dispatch_begin_inv:
  assumes inv: "service_inv (ph, s)" and ok: "dispatch_ok d"
  shows "service_inv (ph, snd (Dispatch_begin d s))"
proof -
  define j where "j = es_next_job s"
  define s0 where "s0 = s\<lparr>es_jobs := (es_jobs s)(j := fresh_job d), es_next_job := Suc j, es_handlers := j # es_handlers s\<rparr>"
  obtain why s1 where v: "ValidateAndReserve d j s0 = (why, s1)" by force
  have j: "j \<notin> set (in_flight s)" using inv by (auto simp: service_inv_def jobs_ok_def j_def)
  have s0: "service_inv (ph, s0)"
    by (rule service_inv_frame [OF inv]) (use j in \<open>auto simp: s0_def j_def\<close>)
  show ?thesis
  proof (cases "why = []")
    case False
    with v have "snd (Dispatch_begin d s) = s1\<lparr>es_handlers := removeAll j (es_handlers s1)\<rparr>"
      by (simp add: Dispatch_begin_def Let_def s0_def j_def)
    moreover have "service_inv (ph, s1\<lparr>es_handlers := removeAll j (es_handlers s1)\<rparr>)"
      using ValidateAndReserve_rejected [OF v False] by (intro service_inv_frame [OF s0]) auto
    ultimately show ?thesis by simp
  next
    case True
    then have "snd (Dispatch_begin d s) = s1" using v by (simp add: Dispatch_begin_def Let_def s0_def j_def)
    moreover have "service_inv (ph, s1)"
      by (rule reserve_inv [OF s0 v [unfolded True]]) (use j ok in \<open>simp_all add: s0_def fresh_job_def\<close>)
    ultimately show ?thesis by simp
  qed
qed

lemma worker_take_inv: "service_inv (Waiting, s) \<Longrightarrow> service_inv (Taken, worker_take s)"
  by (auto simp: service_inv_def worker_take_def live_ok_def jobs_ok_def engine_idle_def)

lemma fold_finish_jobs:
  "distinct js \<Longrightarrow> fold (\<lambda>j jobs. jobs(j := finish_job rs (jobs j))) js jobs i = (if i \<in> set js then finish_job rs (jobs i) else jobs i)"
  by (induction js arbitrary: jobs) auto

lemma finish_job_dispatch [simp]: "job_dispatch (finish_job rs job) = job_dispatch job"
  by (simp add: finish_job_def Let_def)

lemma fold_erase_live:
  assumes "distinct (map fst al)"
  shows "distinct (map fst (fold (\<lambda>j live. if map_of live (f j) = Some j then AList.delete (f j) live else live) js al)) \<and>
    set (fold (\<lambda>j live. if map_of live (f j) = Some j then AList.delete (f j) live else live) js al) =
      {(k, v) \<in> set al. \<not> (v \<in> set js \<and> k = f v)}"
  using assms
proof (induction js arbitrary: al)
  case (Cons j js)
  let ?al = "if map_of al (f j) = Some j then AList.delete (f j) al else al"
  have d: "distinct (map fst ?al)" using Cons.prems by (simp add: distinct_delete)
  have "set ?al = {(k, v) \<in> set al. \<not> (v = j \<and> k = f v)}"
    using Cons.prems by (auto simp: AList.delete_eq dest: eq_key_imp_eq_value)
  with Cons.IH [OF d] show ?case by auto
qed auto

lemma worker_finish_inv:
  assumes "service_inv (ph, s)"
  shows "service_inv (Waiting, worker_finish s)"
proof -
  have l: "live_ok s" and j: "jobs_ok s" using assms by (simp_all add: service_inv_def)
  have "live_ok (worker_finish s)"
    using fold_erase_live [of "es_live_jobs s" "job_rid s" "es_batch s"] l j
    by (auto simp: worker_finish_def live_ok_def jobs_ok_def)
  moreover have "jobs_ok (worker_finish s)" using j by (auto simp: worker_finish_def jobs_ok_def)
  ultimately show ?thesis using assms by (simp add: service_inv_def worker_finish_def engine_idle_def)
qed

section \<open>The worker answers its batch\<close>

lemma ToEngineRequest_ok: "dispatch_ok d \<Longrightarrow> request_ok (ToEngineRequest fl (dr_request d))"
  by (auto simp: dispatch_ok_def request_ok_def ToEngineRequest_def)

lemma latest_result_unique:
  assumes "distinct (map res_request_id rs)" and "r \<in> set rs"
  shows "latest_result rs (res_request_id r) = Some r"
proof -
  have "distinct (map fst (rev (map (\<lambda>r. (res_request_id r, r)) rs)))"
    using assms(1) by (simp add: rev_map [symmetric] comp_def)
  then show ?thesis unfolding latest_result_def using assms(2) by (auto intro: map_of_is_SomeI)
qed

lemma latest_result_of_batch:
  assumes m: "image_mset result_outcome (mset new) = image_mset (request_outcome cfg) (mset rs)"
    and d: "distinct (map request_id rs)" and r: "r \<in> set rs"
  shows "\<exists>x. latest_result new (request_id r) = Some x \<and> result_outcome x = request_outcome cfg r"
proof -
  have fst: "fst \<circ> result_outcome = res_request_id" "fst \<circ> request_outcome cfg = request_id"
    by (auto simp: fun_eq_iff result_outcome_def request_outcome_def)
  have "mset (map res_request_id new) = mset (map request_id rs)"
    using arg_cong [OF m, of "image_mset fst"] by (simp add: image_mset.compositionality fst)
  then have dn: "distinct (map res_request_id new)" using d by (metis mset_eq_imp_distinct_iff)
  have "request_outcome cfg r \<in># image_mset result_outcome (mset new)" unfolding m using r by simp
  then obtain x where x: "x \<in> set new" "result_outcome x = request_outcome cfg r" by auto
  then have "res_request_id x = request_id r" by (metis comp_apply fst)
  with latest_result_unique [OF dn x(1)] x(2) show ?thesis by auto
qed

lemma worker_run_spec:
  assumes inv: "service_inv (ph, s)"
  shows "\<exists>t. worker_run fl s = Some t \<and> service_inv (ph, t) \<and> ce_config (es_engine t) = ce_config (es_engine s) \<and>
    es_batch t = es_batch s \<and>
    (\<forall>j \<in> set (es_batch s). job_done (es_jobs t j) \<and> job_superseded (es_jobs t j) = job_superseded (es_jobs s j) \<and>
      job_dispatch (es_jobs t j) = job_dispatch (es_jobs s j) \<and>
      (\<exists>x. result_outcome x = request_outcome (ce_config (es_engine s)) (ToEngineRequest fl (dr_request (job_dispatch (es_jobs s j)))) \<and>
        job_result (es_jobs t j) = (if job_superseded (es_jobs s j)
          then x\<lparr>succeeded := False, failure_reason := ''superseded''\<rparr> else x)))"
proof -
  let ?rq = "\<lambda>j. ToEngineRequest fl (dr_request (job_dispatch (es_jobs s j)))"
  let ?rs = "map ?rq (es_batch s)"
  have l: "live_ok s" "jobs_ok s" "engine_idle s" using inv by (simp_all add: service_inv_def)
  have ok: "\<forall>r \<in> set ?rs. request_ok r" using l(2) by (auto simp: jobs_ok_def intro: ToEngineRequest_ok)
  have ids: "map request_id ?rs = map (job_rid s) (es_batch s)" by (simp add: ToEngineRequest_def)
  have dr: "distinct (map request_id ?rs)" unfolding ids using live_ok_distinct_rids [OF l(1,2)] by simp
  have db: "distinct (es_batch s)" using l(2) by (simp add: jobs_ok_def)
  from l(3) have idle: "settled (es_engine s)" "ce_pending (es_engine s) = []" "ce_active (es_engine s) = []"
    by (simp_all add: engine_idle_def)
  obtain e' where e': "RunUntilIdle (fold (\<lambda>r e. Submit e r) ?rs (es_engine s)) = Some e'" "settled e'"
    "ce_pending e' = []" "ce_active e' = []" "ce_config e' = ce_config (es_engine s)"
    and m: "image_mset result_outcome (mset (drop (length (ce_results (es_engine s))) (ce_results e'))) =
      image_mset (request_outcome (ce_config (es_engine s))) (mset ?rs)"
    by (rule batch_results [OF idle ok])
  define new where "new = drop (length (ce_results (es_engine s))) (ce_results e')"
  define t where "t = s\<lparr>es_engine := e', es_free_kv_blocks := free_blocks (ce_kv_cache e'),
    es_jobs := fold (\<lambda>j jobs. jobs(j := finish_job new (jobs j))) (es_batch s) (es_jobs s)\<rparr>"
  have run: "worker_run fl s = Some t"
    using e'(1) by (simp add: worker_run_def Let_def fold_map comp_def t_def new_def)
  have jobs: "es_jobs t i = (if i \<in> set (es_batch s) then finish_job new (es_jobs s i) else es_jobs s i)" for i
    by (simp add: t_def fold_finish_jobs [OF db])
  have "service_inv (ph, s\<lparr>es_jobs := es_jobs t\<rparr>)" by (rule service_inv_frame [OF inv]) (simp_all add: jobs)
  then have ti: "service_inv (ph, t)" using e'(2-4) by (simp add: service_inv_def t_def live_ok_def jobs_ok_def engine_idle_def)
  have "\<exists>x. result_outcome x = request_outcome (ce_config (es_engine s)) (?rq j) \<and> job_result (es_jobs t j) =
      (if job_superseded (es_jobs s j) then x\<lparr>succeeded := False, failure_reason := ''superseded''\<rparr> else x)"
    if j: "j \<in> set (es_batch s)" for j
  proof -
    have "?rq j \<in> set ?rs" using j by simp
    from latest_result_of_batch [OF m [folded new_def] dr this] obtain x where
      "latest_result new (job_rid s j) = Some x" "result_outcome x = request_outcome (ce_config (es_engine s)) (?rq j)"
      by (auto simp: ToEngineRequest_def)
    then show ?thesis using j by (intro exI [of _ x]) (simp add: jobs finish_job_def Let_def)
  qed
  moreover have "job_done (es_jobs t j) \<and> job_superseded (es_jobs t j) = job_superseded (es_jobs s j)" if "j \<in> set (es_batch s)" for j
    using that by (simp add: jobs finish_job_def Let_def)
  ultimately show ?thesis using run ti e'(5) jobs by (intro exI [of _ t]) (simp add: t_def)
qed

lemma service_step_inv:
  assumes "service_inv ps" and "service_step fl ps qs"
  shows "service_inv qs"
  using assms(2,1)
proof induction
  case (dispatch d ph s)
  then show ?case by (simp add: Dispatch_begin_inv)
next
  case (ended ph s j)
  then show ?case by (rule service_inv_frame) (simp_all add: Dispatch_end_def)
next
  case (cancel ph s rid f)
  then show ?case by (rule service_inv_frame) (auto simp: Cancel_def split: option.splits)
next
  case (drain ph s)
  then show ?case by (rule service_inv_frame) (simp_all add: Drain_begin_def)
next
  case (shutdown ph s)
  then show ?case by (rule service_inv_frame) (simp_all add: Shutdown_def)
next
  case (take s)
  then show ?case by (simp add: worker_take_inv)
next
  case (run s t)
  then show ?case using worker_run_spec [of Taken s fl] by (auto simp: service_inv_def)
next
  case (finish s)
  then show ?case by (rule worker_finish_inv)
qed

definition service_initial :: "phase \<times> EngineService \<Rightarrow> bool" where
  "service_initial ps \<longleftrightarrow> fst ps = Waiting \<and>
     (\<exists>draw cfg capacity. small_config cfg \<and> MakeEngineService draw cfg capacity = Inr (snd ps))"

lemma service_initial_inv: "service_initial ps \<Longrightarrow> service_inv ps"
proof -
  assume "service_initial ps"
  then obtain draw cfg capacity where small: "small_config cfg"
    and s: "MakeEngineService draw cfg capacity = Inr (snd ps)" and w: "fst ps = Waiting"
    by (auto simp: service_initial_def)
  then obtain e where e: "MakeContinuousEngine draw cfg = Inr e"
    by (cases "MakeContinuousEngine draw cfg") (auto simp: MakeEngineService_def)
  note m = MakeContinuousEngine_settled [OF e] small
  have "snd ps = \<lparr>es_queue_capacity = capacity, es_queue = [], es_partition_epochs = [], es_request_attempts = [],
       es_live_jobs = [], es_draining = False, es_stop = False, es_running_jobs = 0, es_engine = e,
       es_total_kv_blocks = kv_blocks cfg, es_free_kv_blocks = kv_blocks cfg, es_jobs = (\<lambda>j. fresh_job default_dispatch),
       es_next_job = 0, es_handlers = [], es_batch = []\<rparr>" using s e by (simp add: MakeEngineService_def)
  then show ?thesis using m by (simp add: service_inv_def live_ok_def jobs_ok_def engine_idle_def small_config_def)
qed

interpretation service_run: invariant_system service_initial "service_step fl" service_inv for fl
  by unfold_locales (auto intro: service_initial_inv service_step_inv)

text \<open>What no step changes, and the fence tables, which only grow.\<close>

definition fences_le :: "EngineService \<Rightarrow> EngineService \<Rightarrow> bool" where
  "fences_le s t \<longleftrightarrow>
     (\<forall>rid a. map_of (es_request_attempts s) rid = Some a \<longrightarrow> (\<exists>a'. map_of (es_request_attempts t) rid = Some a' \<and> a \<le> a')) \<and>
     (\<forall>p e. map_of (es_partition_epochs s) p = Some e \<longrightarrow> (\<exists>e'. map_of (es_partition_epochs t) p = Some e' \<and> e \<le> e'))"

lemma fences_le_same:
  "es_request_attempts t = es_request_attempts s \<Longrightarrow> es_partition_epochs t = es_partition_epochs s \<Longrightarrow> fences_le s t"
  by (simp add: fences_le_def)

lemma fences_le_trans: "fences_le s t \<Longrightarrow> fences_le t u \<Longrightarrow> fences_le s u"
  unfolding fences_le_def by (meson order.trans)

lemma ValidateAndReserve_fences:
  assumes "ValidateAndReserve d j s = (why, t)"
  shows "fences_le s t"
  using assms
  by (auto simp: ValidateAndReserve_def Let_def fences_le_def update_conv' split: if_splits option.splits)

lemma Dispatch_begin_fences: "fences_le s (snd (Dispatch_begin d s))"
proof -
  define s0 where "s0 = s\<lparr>es_jobs := (es_jobs s)(es_next_job s := fresh_job d), es_next_job := Suc (es_next_job s),
    es_handlers := es_next_job s # es_handlers s\<rparr>"
  obtain why s1 where v: "ValidateAndReserve d (es_next_job s) s0 = (why, s1)" by force
  have "fences_le s s0" by (simp add: fences_le_def s0_def)
  with ValidateAndReserve_fences [OF v] have "fences_le s s1" by (rule fences_le_trans [rotated])
  then show ?thesis using v by (simp add: Dispatch_begin_def s0_def Let_def fences_le_def)
qed

lemma service_step_fences:
  assumes "service_step fl ps qs"
  shows "fences_le (snd ps) (snd qs)"
  using assms
proof induction
  case (run s t)
  then show ?case by (auto simp: worker_run_def Let_def split: option.splits intro!: fences_le_same)
qed (auto simp: Dispatch_begin_fences Dispatch_end_def Cancel_def Drain_begin_def Shutdown_def worker_take_def worker_finish_def
    split: option.splits intro!: fences_le_same)

lemma service_steps_fences: "(service_step fl)\<^sup>*\<^sup>* ps qs \<Longrightarrow> fences_le (snd ps) (snd qs)"
proof (induction rule: rtranclp_induct)
  case (step qs rs)
  then show ?case using fences_le_trans [OF step.IH service_step_fences [OF step.hyps(2)]] by simp
qed (simp add: fences_le_def)

lemma service_step_config:
  assumes "service_step fl ps qs" and "service_inv ps"
  shows "ce_config (es_engine (snd qs)) = ce_config (es_engine (snd ps))"
  using assms
proof induction
  case (dispatch d ph s)
  then show ?case by (auto simp: Dispatch_begin_def ValidateAndReserve_def Let_def split: prod.splits option.splits)
next
  case (run s t)
  then show ?case using worker_run_spec [of Taken s fl] by auto
qed (auto simp: Dispatch_end_def Cancel_def Drain_begin_def Shutdown_def worker_take_def worker_finish_def split: option.splits)

lemma service_steps_config:
  assumes "(service_step fl)\<^sup>*\<^sup>* ps qs" and "service_inv ps"
  shows "ce_config (es_engine (snd qs)) = ce_config (es_engine (snd ps))"
  using assms
proof (induction rule: rtranclp_induct)
  case (step qs rs)
  then show ?case using service_step_config service_run.inv_steps [OF step.hyps(1)] by metis
qed simp

lemma MakeEngineService_start:
  assumes "MakeEngineService draw cfg capacity = Inr s0" and "small_config cfg"
  shows "service_inv (Waiting, s0)" and "ce_config (es_engine s0) = cfg"
proof -
  show "service_inv (Waiting, s0)" using assms by (intro service_initial_inv) (auto simp: service_initial_def)
  from assms(1) obtain e where e: "MakeContinuousEngine draw cfg = Inr e" "es_engine s0 = e"
    by (cases "MakeContinuousEngine draw cfg") (auto simp: MakeEngineService_def)
  with MakeContinuousEngine_settled(2) [OF e(1)] assms(2) show "ce_config (es_engine s0) = cfg" by (simp add: small_config_def)
qed

section \<open>Properties\<close>

text \<open>
  C6: every accepted dispatch is answered, and with its own outcome. In every reachable state with a
  batch taken, the worker's run of the engine ends and leaves every job of the batch done; its result
  is that of its own request under the engine's configuration (its output, or the reason for
  which it can never run), never another job's and never \<open>missing_engine_result\<close>; a job that was
  cancelled reports \<open>superseded\<close> instead.
\<close>

theorem service_answers_batch:
  assumes make: "MakeEngineService draw cfg capacity = Inr s0" and small: "small_config cfg"
    and reach: "(service_step fl)\<^sup>*\<^sup>* (Waiting, s0) (Taken, s)"
  shows "\<exists>t. worker_run fl s = Some t \<and> (\<forall>j \<in> set (es_batch s). job_done (es_jobs t j) \<and>
    result_outcome (job_result (es_jobs t j)) =
      (if job_superseded (es_jobs s j) then (job_rid s j, Inl ''superseded'')
       else request_outcome cfg (ToEngineRequest fl (dr_request (job_dispatch (es_jobs s j))))))"
proof -
  note m = MakeEngineService_start [OF make small]
  have inv: "service_inv (Taken, s)" using reach m(1) by (rule service_run.inv_steps)
  have cfg: "ce_config (es_engine s) = cfg" using service_steps_config [OF reach m(1)] m(2) by simp
  from worker_run_spec [OF inv, of fl] cfg obtain t where t: "worker_run fl s = Some t"
    and jobs: "\<forall>j \<in> set (es_batch s). job_done (es_jobs t j) \<and>
      (\<exists>x. result_outcome x = request_outcome cfg (ToEngineRequest fl (dr_request (job_dispatch (es_jobs s j)))) \<and>
        job_result (es_jobs t j) = (if job_superseded (es_jobs s j)
          then x\<lparr>succeeded := False, failure_reason := ''superseded''\<rparr> else x))" by blast
  have "result_outcome (x\<lparr>succeeded := False, failure_reason := ''superseded''\<rparr>) = (ir_request_id r, Inl ''superseded'')"
    if "result_outcome x = request_outcome cfg (ToEngineRequest fl r)" for x r
    using that by (simp add: result_outcome_def request_outcome_def ToEngineRequest_def)
  with jobs have "\<forall>j \<in> set (es_batch s). job_done (es_jobs t j) \<and> result_outcome (job_result (es_jobs t j)) =
      (if job_superseded (es_jobs s j) then (job_rid s j, Inl ''superseded'')
       else request_outcome cfg (ToEngineRequest fl (dr_request (job_dispatch (es_jobs s j)))))" by (metis (full_types))
  with t show ?thesis by blast
qed

text \<open>
  C18: the service never runs two attempts of a request at once and never overruns its queue. In every
  reachable state the jobs queued or running have pairwise different request ids, the attempt
  recorded for each of them is its own, the queue is within its capacity, the counter of running jobs
  is the size of the batch, and the map of live jobs holds exactly the jobs in flight.
\<close>

theorem service_one_attempt_in_flight:
  assumes "MakeEngineService draw cfg capacity = Inr s0" and "small_config cfg"
    and "(service_step fl)\<^sup>*\<^sup>* (Waiting, s0) (ph, s)"
  shows "distinct (map (job_rid s) (es_queue s @ es_batch s)) \<and>
    (\<forall>j \<in> set (es_queue s @ es_batch s). map_of (es_request_attempts s) (job_rid s j) = Some (job_attempt s j)) \<and>
    length (es_queue s) \<le> es_queue_capacity s \<and> es_running_jobs s = length (es_batch s) \<and>
    (\<forall>rid j. map_of (es_live_jobs s) rid = Some j \<longleftrightarrow> j \<in> set (es_queue s @ es_batch s) \<and> job_rid s j = rid)"
proof -
  have inv: "service_inv (ph, s)"
    using assms(3) MakeEngineService_start(1) [OF assms(1,2)] by (rule service_run.inv_steps)
  then have l: "live_ok s" "jobs_ok s" by (simp_all add: service_inv_def)
  have "\<forall>j \<in> set (in_flight s). map_of (es_request_attempts s) (job_rid s j) = Some (job_attempt s j)"
    using l(2) unfolding jobs_ok_def by blast
  with live_ok_distinct_rids [OF l] live_ok_map_of [OF l(1)] inv show ?thesis by (simp add: service_inv_def)
qed

text \<open>
  C19: the service is fenced. If a dispatch has been accepted and later another one is, then for the
  same request its attempt is strictly larger, and for the same partition its ownership epoch is not
  smaller: a late command of a superseded router or attempt is never executed.
\<close>

theorem service_fences_monotone:
  assumes acc: "ValidateAndReserve d j s = ([], t)" and later: "(service_step fl)\<^sup>*\<^sup>* (ph, t) (ph', u)"
    and acc': "ValidateAndReserve d' j' u = ([], w)"
  shows "(ir_request_id (dr_request d') = ir_request_id (dr_request d) \<longrightarrow> wf_attempt_id (dr_fence d) < wf_attempt_id (dr_fence d')) \<and>
    (wf_partition_id (dr_fence d') = wf_partition_id (dr_fence d) \<longrightarrow> wf_epoch (dr_fence d) \<le> wf_epoch (dr_fence d'))"
proof -
  note a = ValidateAndReserve_accepted [OF acc] and a' = ValidateAndReserve_accepted [OF acc']
  have "map_of (es_request_attempts t) (ir_request_id (dr_request d)) = Some (wf_attempt_id (dr_fence d))"
    "map_of (es_partition_epochs t) (wf_partition_id (dr_fence d)) = Some (wf_epoch (dr_fence d))"
    by (simp_all add: a(6) update_conv')
  with service_steps_fences [OF later] a'(3,4) show ?thesis unfolding fences_le_def by fastforce
qed

lemma service_step_draining:
  assumes "service_step fl ps qs" and "es_draining (snd ps)"
  shows "es_draining (snd qs) \<and> (in_flight (snd ps) = [] \<longrightarrow> in_flight (snd qs) = [])"
  using assms
proof induction
  case (dispatch d ph s)
  then show ?case by (simp add: Dispatch_begin_def ValidateAndReserve_def Let_def)
next
  case (run s t)
  then show ?case by (auto simp: worker_run_def Let_def split: option.splits)
qed (auto simp: Dispatch_end_def Cancel_def Drain_begin_def Shutdown_def worker_take_def worker_finish_def split: option.splits)

lemma service_steps_draining:
  assumes "(service_step fl)\<^sup>*\<^sup>* ps qs" and "es_draining (snd ps)"
  shows "es_draining (snd qs) \<and> (in_flight (snd ps) = [] \<longrightarrow> in_flight (snd qs) = [])"
  using assms
proof (induction rule: rtranclp_induct)
  case (step qs rs)
  then show ?case using service_step_draining by blast
qed simp

text \<open>
  A drain is final. From the moment \<open>Drain\<close> has set its flag every dispatch is rejected with
  \<open>draining\<close>, whatever happens in between; and once \<open>Drain\<close> has returned, nothing is in flight,
  then and ever after.
\<close>

theorem drain_is_final:
  assumes "MakeEngineService draw cfg capacity = Inr s0" and "small_config cfg"
    and reach: "(service_step fl)\<^sup>*\<^sup>* (Waiting, s0) (ph, s)" and d: "es_draining s"
    and later: "(service_step fl)\<^sup>*\<^sup>* (ph, s) (ph', t)"
  shows "ValidateAndReserve dispatch j t = (''draining'', t) \<and>
    (Drain_returns s \<longrightarrow> es_queue t @ es_batch t = [] \<and> Drain_returns t)"
proof -
  note m = MakeEngineService_start(1) [OF assms(1,2)]
  have s: "service_inv (ph, s)" using reach m by (rule service_run.inv_steps)
  have t: "service_inv (ph', t)" using later s by (rule service_run.inv_steps)
  have dt: "es_draining t" "in_flight s = [] \<longrightarrow> in_flight t = []" using service_steps_draining [OF later] d by simp_all
  have "in_flight s = []" if "Drain_returns s" using that s by (simp add: Drain_returns_def service_inv_def)
  with dt t show ?thesis by (auto simp: ValidateAndReserve_def Let_def Drain_returns_def service_inv_def)
qed

section \<open>A run of the service\<close>

definition dispatch_example :: "string \<Rightarrow> nat \<Rightarrow> nat \<Rightarrow> DispatchRequest" where
  "dispatch_example rid epoch attempt = \<lparr>dr_request = (dr_request default_dispatch)\<lparr>ir_request_id := rid,
       ir_model_revision := ''m'', ir_prompt_tokens := 3, ir_prompt_hash := ''p'',
       ir_sampling := \<lparr>sp_max_output_tokens = 2, sp_temperature = 0, sp_top_p = 1, sp_seed = 0\<rparr>\<rparr>,
     dr_fence = \<lparr>wf_partition_id = 0, wf_epoch = epoch, wf_attempt_id = attempt\<rparr>\<rparr>"

definition service_example :: EngineService where
  "service_example = projr (MakeEngineService no_jitter cfg_example 4)"

definition service_queued :: EngineService where
  "service_queued = snd (Dispatch_begin (dispatch_example ''a'' 1 1) service_example)"

lemma service_example_make: "MakeEngineService no_jitter cfg_example 4 = Inr service_example"
  by (simp add: service_example_def MakeEngineService_def ce_example_make)

lemma service_queued_steps:
  "(service_step fl)\<^sup>*\<^sup>* (Waiting, service_example) (Waiting, service_queued)"
  "(service_step fl)\<^sup>*\<^sup>* (Waiting, service_example) (Taken, worker_take service_queued)"
proof -
  have "service_step fl (Waiting, service_example) (Waiting, service_queued)" unfolding service_queued_def
    by (rule service_step.dispatch) (simp add: dispatch_ok_def dispatch_example_def default_dispatch_def)
  then show 1: "(service_step fl)\<^sup>*\<^sup>* (Waiting, service_example) (Waiting, service_queued)" by blast
  have "es_queue service_queued = [0]"
    by (simp add: service_queued_def service_example_def MakeEngineService_def ce_example_make Dispatch_begin_def
        ValidateAndReserve_def Let_def dispatch_example_def)
  then have "service_step fl (Waiting, service_queued) (Taken, worker_take service_queued)" by (intro service_step.take) simp
  with 1 show "(service_step fl)\<^sup>*\<^sup>* (Waiting, service_example) (Taken, worker_take service_queued)" by simp
qed

theorem service_answers_batch_witness:
  "\<exists>t. worker_run id (worker_take service_queued) = Some t \<and> (\<forall>j \<in> set (es_batch (worker_take service_queued)).
    job_done (es_jobs t j))"
  using service_answers_batch [OF service_example_make cfg_example_small service_queued_steps(2)] by blast

theorem service_one_attempt_in_flight_witness:
  "distinct (map (job_rid service_queued) (es_queue service_queued @ es_batch service_queued))"
  using service_one_attempt_in_flight [OF service_example_make cfg_example_small service_queued_steps(1) [of id]]
  by (rule conjunct1)

lemma service_example_fields:
  "es_draining service_example = False" "es_queue service_example = []" "es_queue_capacity service_example = 4"
  "es_partition_epochs service_example = []" "es_request_attempts service_example = []" "es_live_jobs service_example = []"
  by (simp_all add: service_example_def MakeEngineService_def ce_example_make)

definition service_reserved :: EngineService where
  "service_reserved = snd (ValidateAndReserve (dispatch_example ''a'' 1 1) 0 service_example)"

lemma service_reserved_accept: "ValidateAndReserve (dispatch_example ''a'' 1 1) 0 service_example = ([], service_reserved)"
  by (simp add: service_reserved_def ValidateAndReserve_def Let_def service_example_fields)

lemma service_reserved_fields:
  "es_draining service_reserved = False" "es_queue service_reserved = [0]" "es_queue_capacity service_reserved = 4"
  "es_partition_epochs service_reserved = [(0, 1)]" "es_request_attempts service_reserved = [(''a'', 1)]"
  "es_live_jobs service_reserved = [(''a'', 0)]"
  by (simp_all add: ValidateAndReserve_accepted(6) [OF service_reserved_accept] service_example_fields dispatch_example_def default_dispatch_def)

theorem service_fences_monotone_witness:
  "wf_epoch (dr_fence (dispatch_example ''a'' 1 1)) \<le> wf_epoch (dr_fence (dispatch_example ''b'' 2 1))"
proof -
  have "ValidateAndReserve (dispatch_example ''b'' 2 1) 1 service_reserved =
      ([], snd (ValidateAndReserve (dispatch_example ''b'' 2 1) 1 service_reserved))"
    by (simp add: ValidateAndReserve_def Let_def service_reserved_fields dispatch_example_def default_dispatch_def)
  from service_fences_monotone [OF service_reserved_accept rtranclp.rtrancl_refl [of "service_step id"] this]
  show ?thesis by (simp add: dispatch_example_def)
qed

theorem drain_is_final_witness: "ValidateAndReserve default_dispatch 0 (Drain_begin service_example) = (''draining'', Drain_begin service_example)"
proof -
  have "(service_step id)\<^sup>*\<^sup>* (Waiting, service_example) (Waiting, Drain_begin service_example)"
    using service_step.drain by blast
  from drain_is_final [OF service_example_make cfg_example_small this _ rtranclp.rtrancl_refl] show ?thesis
    by (simp add: Drain_begin_def)
qed

text \<open>
  A rejected retry still moves the partition's epoch: while attempt 1 of a request runs under epoch 1,
  attempt 2 under epoch 5 is rejected as \<open>request_already_in_flight\<close>, and from then on the owner
  with epoch 1 is stale.
\<close>

lemma rejected_retry_advances_epoch:
  "let (why, t) = ValidateAndReserve (dispatch_example ''a'' 5 2) 1 service_reserved in
     why = ''request_already_in_flight'' \<and>
     fst (ValidateAndReserve (dispatch_example ''b'' 1 1) 2 t) = ''stale_ownership_epoch''"
  by (simp add: ValidateAndReserve_def Let_def service_reserved_fields expired_def dispatch_example_def default_dispatch_def)

end
