(* ===== verification/DurableFencing.thy ===== *)
theory DurableFencing
  imports DurableStores
begin

text \<open>
  What the durable store promises its routers, over every sequence of transactions of any number
  of them: rows only move forward, an accepted completion is final and unique, a superseded fence
  never completes a request, an old ownership epoch never assigns an attempt. The interface
  \<open>completion_authority\<close> is what a router relies on; the tables are an instance of it.
\<close>

section \<open>How a row evolves\<close>

definition row_le :: "RequestRow \<Rightarrow> RequestRow \<Rightarrow> bool" where
  "row_le r r' \<longleftrightarrow> rr_request_id r' = rr_request_id r \<and> rr_partition r' = rr_partition r \<and> rr_offset r' = rr_offset r \<and>
     rr_payload r' = rr_payload r \<and> rr_attempt_id r \<le> rr_attempt_id r' \<and> rr_state_version r \<le> rr_state_version r' \<and>
     (r' \<noteq> r \<longrightarrow> rr_state r \<notin> set terminal_states \<and> rr_state_version r < rr_state_version r')"

lemma row_le_refl [simp]: "row_le r r"
  by (simp add: row_le_def)

lemma row_le_trans:
  assumes "row_le r r'" and "row_le r' r''"
  shows "row_le r r''"
proof (cases "r' = r")
  case False
  with assms show ?thesis unfolding row_le_def by (metis order.strict_trans1 order.strict_trans2 order.trans)
qed (use assms in simp)

lemma sql_update_row_le:
  assumes "r \<in> set rows" and "\<And>q. q \<in> set rows \<Longrightarrow> sel q \<Longrightarrow> row_le q (upd q)"
  shows "\<exists>r' \<in> set (sql_update sel upd rows). row_le r r'"
proof
  let ?r = "if sel r then upd r else r"
  show "?r \<in> set (sql_update sel upd rows)" using assms(1) by (auto simp: set_sql_update)
  show "row_le r ?r" using assms by simp
qed

lemma insert_outbox_requests:
  "insert_outbox topic key payload p off s = Inr t \<Longrightarrow> inference_requests t = inference_requests s"
  by (auto simp: insert_outbox_def bind_result_eq_Inr split: if_splits)

lemma insert_outbox_ownership:
  "insert_outbox topic key payload p off s = Inr t \<Longrightarrow> partition_ownership t = partition_ownership s"
  by (auto simp: insert_outbox_def bind_result_eq_Inr split: if_splits)

lemma store_step_row:
  assumes inv: "store_inv s" and "store_step s t" and r: "r \<in> set (inference_requests s)"
  shows "\<exists>r' \<in> set (inference_requests t). row_le r r'"
  using assms(2)
proof cases
  case (acquire p router n)
  then show ?thesis using r by (auto elim!: AcquirePartition_cases intro!: bexI [of _ r])
next
  case (ingest rid p off payload b)
  then show ?thesis using r by (auto simp: Ingest_def split: if_splits intro!: bexI [of _ r])
next
  case (assign rid p epoch engine a)
  then show ?thesis
  proof (cases rule: AssignAttempt_cases)
    case (some r)
    then show ?thesis
      by (simp, intro sql_update_row_le assms(3)) (auto simp: row_le_def assign_sel_def)
  qed (use r in \<open>auto intro!: bexI [of _ r]\<close>)
next
  case (transit rid v frm nxt b)
  then show ?thesis
  proof (cases rule: Transition_cases)
    case (some r)
    then show ?thesis
      by (simp, intro sql_update_row_le assms(3)) (auto simp: row_le_def transition_sel_def)
  qed (use r in \<open>auto intro!: bexI [of _ r]\<close>)
next
  case (finalize rid f payload b)
  then show ?thesis
  proof (cases rule: Finalize_cases)
    case (some r)
    from insert_outbox_requests [OF some(5)] show ?thesis
      by (simp, intro sql_update_row_le assms(3)) (auto simp: row_le_def finalize_sel_def terminal_states_def)
  qed (use r in \<open>auto intro!: bexI [of _ r]\<close>)
next
  case (poison p off payload err b)
  then have "inference_requests t = inference_requests s"
    by (auto simp: RecordPoison_def bind_result_eq_Inr dest!: insert_outbox_requests split: if_splits)
  then show ?thesis using r row_le_refl by metis
next
  case (mark now oid)
  then show ?thesis using r by (auto simp: MarkPublished_def intro!: bexI [of _ r])
qed

lemma store_steps_row:
  assumes "store_step\<^sup>*\<^sup>* s t" and "store_inv s" and "r \<in> set (inference_requests s)"
  shows "\<exists>r' \<in> set (inference_requests t). row_le r r'"
  using assms(1)
proof induction
  case base
  then show ?case using assms(3) row_le_refl by blast
next
  case (step u t)
  then show ?case using store_step_row store_run.inv_steps [OF step.hyps(1) assms(2)] row_le_trans by meson
qed

text \<open>The epoch of a partition only grows.\<close>

lemma store_step_epoch:
  assumes "store_step s t" and "q \<in> set (partition_ownership s)"
  shows "\<exists>q' \<in> set (partition_ownership t). ow_partition_id q' = ow_partition_id q \<and> ow_epoch q \<le> ow_epoch q'"
  using assms(1)
proof cases
  case (acquire p router n)
  then show ?thesis
  proof (cases rule: AcquirePartition_cases)
    case new
    then show ?thesis using assms(2) by auto
  next
    case (bump y)
    let ?q = "if ow_partition_id q = p then q\<lparr>ow_epoch := ow_epoch q + 1, ow_router_id := router\<rparr> else q"
    have "?q \<in> set (partition_ownership t)" using assms(2) by (auto simp: bump(6) set_sql_update)
    then show ?thesis by (rule bexI [rotated]) simp
  qed
next
  case (assign rid p epoch engine a)
  then show ?thesis using assms(2) by (auto elim!: AssignAttempt_cases)
next
  case (transit rid v frm nxt b)
  then show ?thesis using assms(2) by (auto elim!: Transition_cases)
next
  case (finalize rid f payload b)
  then show ?thesis using assms(2)
    by (auto elim!: Finalize_cases dest!: insert_outbox_ownership intro!: bexI [of _ q])
next
  case (poison p off payload err b)
  then show ?thesis using assms(2)
    by (auto simp: RecordPoison_def bind_result_eq_Inr dest!: insert_outbox_ownership
        split: if_splits intro!: bexI [of _ q])
qed (use assms(2) in \<open>auto simp: Ingest_def MarkPublished_def split: if_splits\<close>)

lemma store_steps_epoch:
  assumes "store_step\<^sup>*\<^sup>* s t" and "q \<in> set (partition_ownership s)"
  shows "\<exists>q' \<in> set (partition_ownership t). ow_partition_id q' = ow_partition_id q \<and> ow_epoch q \<le> ow_epoch q'"
  using assms(1)
proof induction
  case base
  then show ?case using assms(2) by auto
next
  case (step u t)
  then show ?case using store_step_epoch by (metis order.trans)
qed

section \<open>The completion authority\<close>

text \<open>
  What a router relies on when several of them race for a request: results are kept, attempts only
  grow, and a completion is accepted only for a request without a result and only under the
  attempt that is current.
\<close>

locale completion_authority =
  fixes step :: "'s \<Rightarrow> 's \<Rightarrow> bool" and inv :: "'s \<Rightarrow> bool"
    and result :: "'s \<Rightarrow> 'r \<Rightarrow> 'v option" and attempt :: "'s \<Rightarrow> 'r \<Rightarrow> int"
    and accepts :: "'r \<Rightarrow> int \<Rightarrow> 'v \<Rightarrow> 's \<Rightarrow> 's \<Rightarrow> bool"
  assumes inv_step: "inv s \<Longrightarrow> step s t \<Longrightarrow> inv t"
    and result_kept: "inv s \<Longrightarrow> step s t \<Longrightarrow> result s r = Some v \<Longrightarrow> result t r = Some v"
    and attempt_mono: "inv s \<Longrightarrow> step s t \<Longrightarrow> attempt s r \<le> attempt t r"
    and accept_step: "accepts r a v s t \<Longrightarrow> step s t"
    and accept_open: "inv s \<Longrightarrow> accepts r a v s t \<Longrightarrow> result s r = None \<and> attempt s r = a \<and> result t r = Some v"
begin

lemma steps_keep:
  assumes "step\<^sup>*\<^sup>* s t" and "inv s"
  shows "inv t \<and> (result s r = Some v \<longrightarrow> result t r = Some v) \<and> attempt s r \<le> attempt t r"
  using assms
proof induction
  case (step u t)
  then show ?case using inv_step result_kept attempt_mono by (metis order.trans)
qed simp

lemma accepted_once:
  assumes "inv s" and "accepts r a v s t" and "step\<^sup>*\<^sup>* t u"
  shows "result u r = Some v \<and> \<not> accepts r a' v' u u'"
proof -
  have "inv t" using assms(1,2) inv_step accept_step by blast
  then have u: "inv u" "result u r = Some v"
    using steps_keep [OF assms(3)] accept_open [OF assms(1,2)] by auto
  then show ?thesis using accept_open [OF u(1), of r a' v' u'] by auto
qed

lemma superseded:
  assumes "inv s" and "a < attempt s r" and "step\<^sup>*\<^sup>* s u"
  shows "\<not> accepts r a v u u'"
  using accept_open [of u r a v u'] steps_keep [OF assms(3,1), of r] assms(2) by auto

end

definition request_row :: "DurableStore \<Rightarrow> string \<Rightarrow> RequestRow option" where
  "request_row s rid = List.find (\<lambda>r. rr_request_id r = rid) (inference_requests s)"

definition stored_result :: "DurableStore \<Rightarrow> string \<Rightarrow> string option" where
  "stored_result s rid = (case request_row s rid of None \<Rightarrow> None | Some r \<Rightarrow> rr_result r)"

definition stored_attempt :: "DurableStore \<Rightarrow> string \<Rightarrow> int" where
  "stored_attempt s rid = (case request_row s rid of None \<Rightarrow> 0 | Some r \<Rightarrow> rr_attempt_id r)"

definition accepts_completion :: "string \<Rightarrow> int \<Rightarrow> string \<Rightarrow> DurableStore \<Rightarrow> DurableStore \<Rightarrow> bool" where
  "accepts_completion rid a v s t \<longleftrightarrow> (\<exists>f. int (fe_attempt_id f) = a \<and> Finalize rid f v s = Inr (True, t))"

lemma request_row_Some:
  assumes "store_inv s"
  shows "request_row s rid = Some r \<longleftrightarrow> r \<in> set (inference_requests s) \<and> rr_request_id r = rid"
proof
  assume "request_row s rid = Some r"
  then show "r \<in> set (inference_requests s) \<and> rr_request_id r = rid"
    by (auto simp: request_row_def find_Some_iff)
next
  assume r: "r \<in> set (inference_requests s) \<and> rr_request_id r = rid"
  then obtain q where q: "request_row s rid = Some q"
    unfolding request_row_def by (metis (mono_tags) find_None_iff option.exhaust)
  then have "q \<in> set (inference_requests s)" "rr_request_id q = rid" by (auto simp: request_row_def find_Some_iff)
  with r q show "request_row s rid = Some r" using request_row_unique [OF assms] by metis
qed

lemma request_row_step:
  assumes "store_inv s" and "store_step s t" and "request_row s rid = Some r"
  obtains r' where "request_row t rid = Some r'" "row_le r r'"
proof -
  from assms(3) have r: "r \<in> set (inference_requests s)" "rr_request_id r = rid"
    by (simp_all add: request_row_Some [OF assms(1)])
  from store_step_row [OF assms(1,2) r(1)] obtain r' where "r' \<in> set (inference_requests t)" "row_le r r'" by blast
  with r(2) show thesis
    by (intro that [of r']) (simp_all add: request_row_Some [OF store_step_inv [OF assms(1,2)]] row_le_def)
qed

lemma result_terminal:
  "store_inv s \<Longrightarrow> request_row s rid = Some r \<Longrightarrow> rr_result r = Some v \<Longrightarrow> rr_state r \<in> set terminal_states"
  by (auto simp: request_row_Some store_inv_def row_ok_def terminal_states_def)

interpretation authority: completion_authority store_step store_inv stored_result stored_attempt accepts_completion
proof unfold_locales
  fix s t rid v
  assume inv: "store_inv s" and step: "store_step s t"
  then show "store_inv t" by (rule store_step_inv)
  show "stored_attempt s rid \<le> stored_attempt t rid"
  proof (cases "request_row s rid")
    case None
    have "0 \<le> stored_attempt t rid"
      using store_step_inv [OF inv step] request_row_Some [OF store_step_inv [OF inv step], of rid]
      by (auto simp: stored_attempt_def store_inv_def row_ok_def split: option.splits)
    with None show ?thesis by (simp add: stored_attempt_def)
  next
    case (Some r)
    then show ?thesis by (rule request_row_step [OF inv step]) (auto simp: stored_attempt_def Some row_le_def)
  qed
  assume "stored_result s rid = Some v"
  then obtain r where r: "request_row s rid = Some r" "rr_result r = Some v"
    by (auto simp: stored_result_def split: option.splits)
  from r(1) obtain r' where "request_row t rid = Some r'" "row_le r r'" by (rule request_row_step [OF inv step])
  with r result_terminal [OF inv r] show "stored_result t rid = Some v" by (auto simp: stored_result_def row_le_def)
next
  fix rid a v s t
  assume "accepts_completion rid a v s t"
  then show "store_step s t" by (auto simp: accepts_completion_def intro: store_step.finalize)
next
  fix rid a v s t
  assume inv: "store_inv s" and "accepts_completion rid a v s t"
  then obtain f where f: "int (fe_attempt_id f) = a" "Finalize rid f v s = Inr (True, t)"
    by (auto simp: accepts_completion_def)
  obtain r where r: "r \<in> set (inference_requests s)" "fence_sel rid f r" and t: "t = accept rid v r s"
    by (rule Finalize_accepted [OF inv f(2)])
  have "request_row s rid = Some r" using r by (simp add: request_row_Some [OF inv] finalize_sel_def)
  moreover have "completed_row v r \<in> set (inference_requests t)" using r(1) by (auto simp: t accept_select set_sql_update)
  with r(2) have "request_row t rid = Some (completed_row v r)"
    by (simp add: request_row_Some [OF Finalize_inv [OF inv f(2)]] finalize_sel_def)
  moreover have "rr_result r = None"
    using inv r by (auto simp: store_inv_def row_ok_def finalize_sel_def)
  ultimately show "stored_result s rid = None \<and> stored_attempt s rid = a \<and> stored_result t rid = Some v"
    using r(2) f(1) by (simp add: stored_result_def stored_attempt_def finalize_sel_def)
qed

section \<open>A run of two attempts\<close>

text \<open>
  A router takes partition 0, ingests a request, assigns it twice (the second time to another
  engine), completes it under the second fence and publishes the result.
\<close>

definition run_owned :: DurableStore where
  "run_owned = (Migrate None)\<lparr>partition_ownership := [\<lparr>ow_partition_id = 0, ow_epoch = 1, ow_router_id = ''a''\<rparr>]\<rparr>"

definition run_received :: "string \<Rightarrow> int \<Rightarrow> int option \<Rightarrow> string option \<Rightarrow> int \<Rightarrow> DurableStore" where
  "run_received st v e eng a = run_owned\<lparr>inference_requests :=
     [\<lparr>rr_request_id = ''r'', rr_state = st, rr_state_version = v, rr_partition = 0, rr_offset = 5,
       rr_payload = ''q'', rr_epoch = e, rr_engine_id = eng, rr_attempt_id = a, rr_result = None\<rparr>]\<rparr>"

abbreviation run_ingested :: DurableStore where
  "run_ingested \<equiv> run_received ''RECEIVED'' 0 None None 0"

abbreviation run_first :: DurableStore where
  "run_first \<equiv> run_received ''DISPATCHED'' 1 (Some 1) (Some ''e'') 1"

abbreviation run_second :: DurableStore where
  "run_second \<equiv> run_received ''DISPATCHED'' 2 (Some 1) (Some ''f'') 2"

definition run_completed :: "int option \<Rightarrow> DurableStore" where
  "run_completed pub = run_owned\<lparr>inference_requests :=
     [\<lparr>rr_request_id = ''r'', rr_state = ''COMPLETED'', rr_state_version = 3, rr_partition = 0, rr_offset = 5,
       rr_payload = ''q'', rr_epoch = Some 1, rr_engine_id = Some ''f'', rr_attempt_id = 2, rr_result = Some ''out''\<rparr>],
     outbox := [\<lparr>ob_id = 1, ob_topic = ''inference.results'', ob_key = ''r'', ob_payload = ''out'',
       ob_partition = 0, ob_offset = 5, ob_published_at = pub\<rparr>], outbox_id_seq := 2\<rparr>"

abbreviation run_fence :: "nat \<Rightarrow> string \<Rightarrow> Fence" where
  "run_fence a eng \<equiv> \<lparr>fe_partition_id = 0, fe_epoch = 1, fe_attempt_id = a, fe_engine_id = eng\<rparr>"

lemma run_acquire: "AcquirePartition 0 ''a'' (Migrate None) = Inr (1, run_owned)"
  by (simp add: AcquirePartition_def run_owned_def Migrate_def)

lemma run_ingest: "Ingest ''r'' 0 5 ''q'' run_owned = (True, run_ingested)"
  by (simp add: Ingest_def run_owned_def run_received_def Migrate_def)

lemma run_assign:
  "AssignAttempt ''r'' 0 1 ''e'' run_ingested = Inr (Some \<lparr>as_fence = run_fence 1 ''e'', as_state_version = 1\<rparr>, run_first)"
  "AssignAttempt ''r'' 0 1 ''f'' run_first = Inr (Some \<lparr>as_fence = run_fence 2 ''f'', as_state_version = 2\<rparr>, run_second)"
  by (simp_all add: AssignAttempt_def assign_sel_def run_owned_def run_received_def Migrate_def CheckedInt64_def
      CheckedUint64_def bigint_succ_def terminal_states_def sql_update_def)

lemma run_finalize: "Finalize ''r'' (run_fence 2 ''f'') ''out'' run_second = Inr (True, run_completed None)"
  by (simp add: Finalize_def finalize_sel_def run_owned_def run_received_def run_completed_def Migrate_def CheckedInt64_def
      bigint_succ_def sql_update_def insert_outbox_def Let_def)

lemma run_publish: "MarkPublished 9 1 (run_completed None) = run_completed (Some 9)"
  by (simp add: MarkPublished_def run_completed_def sql_update_def)

lemma run_steps:
  "store_step\<^sup>*\<^sup>* (Migrate None) run_owned" "store_step\<^sup>*\<^sup>* (Migrate None) run_ingested"
  "store_step\<^sup>*\<^sup>* (Migrate None) run_first" "store_step\<^sup>*\<^sup>* (Migrate None) run_second"
  "store_step\<^sup>*\<^sup>* (run_completed None) (run_completed (Some 9))"
proof -
  show 1: "store_step\<^sup>*\<^sup>* (Migrate None) run_owned" using store_step.acquire [OF run_acquire] by blast
  show 2: "store_step\<^sup>*\<^sup>* (Migrate None) run_ingested" using store_step.ingest [OF run_ingest] 1 by simp
  show 3: "store_step\<^sup>*\<^sup>* (Migrate None) run_first" using store_step.assign [OF run_assign(1)] 2 by simp
  show "store_step\<^sup>*\<^sup>* (Migrate None) run_second" using store_step.assign [OF run_assign(2)] 3 by simp
  show "store_step\<^sup>*\<^sup>* (run_completed None) (run_completed (Some 9))"
    using store_step.mark [of "run_completed None" 9 1] by (simp add: run_publish r_into_rtranclp)
qed

section \<open>Properties\<close>

definition result_rows :: "DurableStore \<Rightarrow> string \<Rightarrow> OutboxRow list" where
  "result_rows s rid = filter (\<lambda>b. ob_topic b = ''inference.results'' \<and> ob_key b = rid) (outbox s)"

lemma filter_unique:
  "distinct (map f xs) \<Longrightarrow> x \<in> set xs \<Longrightarrow> filter (\<lambda>y. f y = f x) xs = [x]"
  by (induction xs) (auto simp: filter_empty_conv image_iff)

lemma result_rows_unique:
  assumes inv: "store_inv s" and "stored_result s rid = Some v"
  shows "map ob_payload (result_rows s rid) = [v]"
proof -
  from assms obtain r where r: "r \<in> set (inference_requests s)" "rr_request_id r = rid" "rr_result r = Some v"
    by (auto simp: stored_result_def request_row_Some split: option.splits)
  with inv obtain b where b: "b \<in> set (outbox s)" "result_row r v b" unfolding store_inv_def outbox_ok_def by blast
  have "distinct (map (\<lambda>b. (ob_topic b, ob_key b)) (outbox s))" using inv by (simp add: store_inv_def keys_ok_def)
  from filter_unique [OF this b(1)] b(2) r(2) have "result_rows s rid = [b]"
    by (simp add: result_rows_def result_row_def)
  with b(2) show ?thesis by (simp add: result_row_def)
qed

text \<open>
  C4: at most one completion of a request is ever accepted. Once \<open>Finalize\<close> has returned true for
  a request, then after any number of further transactions of any routers its stored result is
  the accepted one, the outbox holds exactly one result row for it, with that payload, and no
  completion is accepted again, whatever the fence and the payload.
\<close>

theorem Finalize_at_most_once:
  assumes "store_step\<^sup>*\<^sup>* (Migrate None) s" and fin: "Finalize rid f v s = Inr (True, t)"
    and later: "store_step\<^sup>*\<^sup>* t u"
  shows "stored_result u rid = Some v \<and> map ob_payload (result_rows u rid) = [v] \<and>
    (\<nexists>f' v' u'. Finalize rid f' v' u = Inr (True, u'))"
proof -
  have inv: "store_inv s" using assms(1) Migrate_inv by (rule store_run.inv_steps)
  have acc: "accepts_completion rid (int (fe_attempt_id f)) v s t" using fin by (auto simp: accepts_completion_def)
  have "store_inv u" using later Finalize_inv [OF inv fin] by (rule store_run.inv_steps)
  moreover have "stored_result u rid = Some v" "\<not> accepts_completion rid a' v' u u'" for a' v' u'
    using authority.accepted_once [OF inv acc later] by blast+
  ultimately show ?thesis using result_rows_unique unfolding accepts_completion_def by blast
qed

theorem Finalize_at_most_once_witness:
  "stored_result (run_completed (Some 9)) ''r'' = Some ''out'' \<and>
    map ob_payload (result_rows (run_completed (Some 9)) ''r'') = [''out''] \<and>
    (\<nexists>f' v' u'. Finalize ''r'' f' v' (run_completed (Some 9)) = Inr (True, u'))"
  by (rule Finalize_at_most_once [OF run_steps(4) run_finalize run_steps(5)])

lemma AssignAttempt_assigned:
  assumes inv: "store_inv s" and "AssignAttempt rid p e eng s = Inr (Some a, t)"
  obtains r where "request_row s rid = Some r" "rr_state_version r \<noteq> i64_max" "rr_attempt_id r \<noteq> i64_max"
    "request_row t rid = Some (r\<lparr>rr_state := ''DISPATCHED'', rr_state_version := rr_state_version r + 1,
       rr_epoch := Some (int e), rr_engine_id := Some eng, rr_attempt_id := rr_attempt_id r + 1\<rparr>)"
    "rr_partition r = p" "int e \<le> i64_max" "0 \<le> rr_attempt_id r" "0 \<le> rr_state_version r"
    "as_fence a = \<lparr>fe_partition_id = p, fe_epoch = e, fe_attempt_id = nat (rr_attempt_id r + 1), fe_engine_id = eng\<rparr>"
    "as_state_version a = nat (rr_state_version r + 1)"
  using assms(2)
proof (cases rule: AssignAttempt_cases)
  case (some r)
  let ?r = "r\<lparr>rr_state := ''DISPATCHED'', rr_state_version := rr_state_version r + 1,
           rr_epoch := Some (int e), rr_engine_id := Some eng, rr_attempt_id := rr_attempt_id r + 1\<rparr>"
  have "?r \<in> set (inference_requests t)" using some(1,2) by (auto simp: some(9) set_sql_update)
  then have "request_row t rid = Some ?r"
    using some(2) by (simp add: request_row_Some [OF AssignAttempt_inv [OF assms]] assign_sel_def)
  moreover have "request_row s rid = Some r" "row_ok r"
    using some(1,2) inv by (simp_all add: request_row_Some [OF inv] assign_sel_def store_inv_def)
  ultimately show ?thesis using some by (intro that [of r]) (simp_all add: assign_sel_def row_ok_def)
qed simp

lemma AssignAttempt_attempt:
  assumes inv: "store_inv s" and "AssignAttempt rid p e eng s = Inr (Some a, t)"
  shows "stored_attempt t rid = int (fe_attempt_id (as_fence a))" and "stored_attempt s rid < stored_attempt t rid"
  by (rule AssignAttempt_assigned [OF assms]; simp add: stored_attempt_def)+

text \<open>
  C12: attempts are fenced. When a request is assigned again, the new attempt number is larger, and
  from then on, for ever, no completion under the earlier fence (or any fence with an attempt up to
  the earlier one) is accepted.
\<close>

theorem superseded_fence_rejected:
  assumes "store_step\<^sup>*\<^sup>* (Migrate None) s" and a1: "AssignAttempt rid p e eng s = Inr (Some a, t)"
    and mid: "store_step\<^sup>*\<^sup>* t t'" and a2: "AssignAttempt rid p' e' eng' t' = Inr (Some a', u)"
    and later: "store_step\<^sup>*\<^sup>* u w" and f: "fe_attempt_id f \<le> fe_attempt_id (as_fence a)"
  shows "fe_attempt_id (as_fence a) < fe_attempt_id (as_fence a') \<and> (\<nexists>w'. Finalize rid f v w = Inr (True, w'))"
proof -
  have s: "store_inv s" using assms(1) Migrate_inv by (rule store_run.inv_steps)
  note t = AssignAttempt_inv [OF s a1]
  have t': "store_inv t'" using mid t by (rule store_run.inv_steps)
  note u = AssignAttempt_inv [OF t' a2]
  have "stored_attempt t rid \<le> stored_attempt t' rid" using authority.steps_keep [OF mid t] by blast
  then have lt: "int (fe_attempt_id (as_fence a)) < stored_attempt u rid"
    using AssignAttempt_attempt [OF s a1] AssignAttempt_attempt [OF t' a2] by linarith
  then have "int (fe_attempt_id f) < stored_attempt u rid" using f by simp
  from authority.superseded [OF u this later] lt AssignAttempt_attempt(1) [OF t' a2] show ?thesis
    by (auto simp: accepts_completion_def)
qed

theorem superseded_fence_rejected_witness:
  "(1::nat) < 2 \<and> (\<nexists>w'. Finalize ''r'' (run_fence 1 ''e'') ''late'' run_second = Inr (True, w'))"
  using superseded_fence_rejected [OF run_steps(2) run_assign(1) rtranclp.rtrancl_refl run_assign(2)
      rtranclp.rtrancl_refl, of "run_fence 1 ''e''" "''late''"] by simp

lemma filter_request_row:
  assumes "store_inv s" and "request_row s rid = Some r"
  shows "filter (\<lambda>q. rr_request_id q = rid) (inference_requests s) = [r]"
  using filter_unique [of rr_request_id "inference_requests s" r] assms
  by (simp add: request_row_Some store_inv_def keys_ok_def)

lemma filter_fence:
  assumes inv: "store_inv s" and r: "request_row s rid = Some r" and sel: "fence_sel rid f r"
  shows "filter (fence_sel rid f) (inference_requests s) = [r]"
proof -
  have "fence_sel rid f q \<longleftrightarrow> rr_request_id q = rid" if "q \<in> set (inference_requests s)" for q
    using request_row_unique [OF inv that, of r] r sel by (auto simp: request_row_Some [OF inv] finalize_sel_def)
  then have "filter (fence_sel rid f) (inference_requests s) = filter (\<lambda>q. rr_request_id q = rid) (inference_requests s)"
    by (rule filter_cong [OF refl])
  with filter_request_row [OF inv r] show ?thesis by simp
qed

lemma Finalize_accepts:
  assumes "store_inv s" and "request_row s rid = Some r" and "fence_sel rid f r"
    and "int (fe_epoch f) \<le> i64_max" and "int (fe_attempt_id f) \<le> i64_max"
    and "rr_state_version r \<noteq> i64_max" and "outbox_id_seq s \<noteq> i64_max"
  shows "\<exists>u. Finalize rid f v s = Inr (True, u)"
  using filter_fence [OF assms(1-3)] assms(4-7)
  by (simp add: Finalize_def Let_def CheckedInt64_def bigint_succ_def insert_outbox_def)

lemma stored_result_IsTerminal:
  assumes "store_inv s" and "stored_result s rid = Some v"
  shows "IsTerminal rid s"
proof -
  from assms(2) obtain q where q: "request_row s rid = Some q" "rr_result q = Some v"
    by (auto simp: stored_result_def split: option.splits)
  with filter_request_row [OF assms(1) q(1)] result_terminal [OF assms(1) q] show ?thesis by (simp add: IsTerminal_def)
qed

lemma assigned_fence_completes:
  assumes s: "store_inv s" and as: "AssignAttempt rid p e eng s = Inr (Some a, t)"
    and room: "outbox_id_seq t < i64_max" "int (as_state_version a) < i64_max"
  shows "\<exists>u. Finalize rid (as_fence a) v t = Inr (True, u) \<and> stored_result u rid = Some v \<and> IsTerminal rid u"
proof -
  note t = AssignAttempt_inv [OF s as]
  obtain u where u: "Finalize rid (as_fence a) v t = Inr (True, u)"
  proof (rule AssignAttempt_assigned [OF s as])
    fix r
    assume r: "request_row s rid = Some r" "rr_attempt_id r \<noteq> i64_max"
      "request_row t rid = Some (r\<lparr>rr_state := ''DISPATCHED'', rr_state_version := rr_state_version r + 1,
       rr_epoch := Some (int e), rr_engine_id := Some eng, rr_attempt_id := rr_attempt_id r + 1\<rparr>)"
      "rr_partition r = p" "int e \<le> i64_max" "0 \<le> rr_attempt_id r" "0 \<le> rr_state_version r"
      "as_fence a = \<lparr>fe_partition_id = p, fe_epoch = e, fe_attempt_id = nat (rr_attempt_id r + 1), fe_engine_id = eng\<rparr>"
      "as_state_version a = nat (rr_state_version r + 1)"
    have "row_ok r" "rr_request_id r = rid" using s r(1) by (simp_all add: request_row_Some [OF s] store_inv_def)
    then have "\<exists>u. Finalize rid (as_fence a) v t = Inr (True, u)"
      using room r by (intro Finalize_accepts [OF t r(3)]) (simp_all add: finalize_sel_def row_ok_def)
    with that show thesis by blast
  qed
  then have "accepts_completion rid (int (fe_attempt_id (as_fence a))) v t u" by (auto simp: accepts_completion_def)
  then have "stored_result u rid = Some v" using authority.accept_open [OF t] by blast
  with u stored_result_IsTerminal [OF Finalize_inv [OF t u]] show ?thesis by blast
qed

text \<open>
  The fence just handed out completes the request: right after \<open>AssignAttempt\<close> has returned an
  assignment, \<open>Finalize\<close> under its fence is accepted (as long as the outbox sequence and the
  state version have not reached the end of \<open>BIGINT\<close>), and the request is then terminal with
  that result.
\<close>

theorem current_fence_completes:
  assumes "store_step\<^sup>*\<^sup>* (Migrate None) s" and as: "AssignAttempt rid p e eng s = Inr (Some a, t)"
    and room: "outbox_id_seq t < i64_max" "int (as_state_version a) < i64_max"
  shows "\<exists>u. Finalize rid (as_fence a) v t = Inr (True, u) \<and> stored_result u rid = Some v \<and> IsTerminal rid u"
  using assigned_fence_completes [OF store_run.inv_steps [OF assms(1) Migrate_inv] as room] .

theorem current_fence_completes_witness:
  "\<exists>u. Finalize ''r'' (run_fence 2 ''f'') ''out'' run_second = Inr (True, u) \<and>
    stored_result u ''r'' = Some ''out'' \<and> IsTerminal ''r'' u"
  using current_fence_completes [OF run_steps(3) run_assign(2), of "''out''"]
  by (simp add: run_received_def run_owned_def Migrate_def)

lemma AcquirePartition_epoch:
  assumes "AcquirePartition p router s = Inr (n, t)"
  shows "\<exists>q \<in> set (partition_ownership t). ow_partition_id q = p \<and> ow_epoch q = int n"
  using assms
proof (cases rule: AcquirePartition_cases)
  case (bump q)
  let ?q = "q\<lparr>ow_epoch := ow_epoch q + 1, ow_router_id := router\<rparr>"
  have "?q \<in> set (partition_ownership t)" using bump(1,2) by (auto simp: bump(6) set_sql_update)
  then show ?thesis using bump(2,4,5) by (intro bexI [of _ ?q]) auto
qed auto

text \<open>
  C14: a lost partition stays lost. After \<open>AcquirePartition\<close> has returned an epoch, no attempt is
  ever assigned again on that partition under a smaller epoch.
\<close>

theorem stale_epoch_never_assigns:
  assumes "store_step\<^sup>*\<^sup>* (Migrate None) s" and acq: "AcquirePartition p router s = Inr (n, t)"
    and later: "store_step\<^sup>*\<^sup>* t u" and "e < n"
  shows "\<nexists>a w. AssignAttempt rid p e eng u = Inr (Some a, w)"
proof clarify
  fix a w
  assume as: "AssignAttempt rid p e eng u = Inr (Some a, w)"
  have s: "store_inv s" using assms(1) Migrate_inv by (rule store_run.inv_steps)
  have u: "store_inv u" using later AcquirePartition_inv [OF s acq] by (rule store_run.inv_steps)
  from AcquirePartition_epoch [OF acq] obtain q where "q \<in> set (partition_ownership t)" "ow_partition_id q = p"
    "ow_epoch q = int n" by blast
  with store_steps_epoch [OF later] obtain q' where q': "q' \<in> set (partition_ownership u)" "ow_partition_id q' = p"
    "int n \<le> ow_epoch q'" by metis
  from as obtain x where x: "x \<in> set (partition_ownership u)" "ow_partition_id x = p" "ow_epoch x = int e"
    by (cases rule: AssignAttempt_cases) (auto simp: assign_sel_def)
  have "distinct (map ow_partition_id (partition_ownership u))" using u by (simp add: store_inv_def keys_ok_def)
  then have "x = q'" by (rule unique_key) (use x q' in simp_all)
  with q'(3) x(3) \<open>e < n\<close> show False by simp
qed

theorem stale_epoch_never_assigns_witness:
  "\<nexists>a w. AssignAttempt ''r'' 0 0 ''e'' run_ingested = Inr (Some a, w)"
  by (rule stale_epoch_never_assigns [OF rtranclp.rtrancl_refl run_acquire])
    (use store_step.ingest [OF run_ingest] in auto)

text \<open>
  Terminal rows are immutable: a request row in a terminal state is found unchanged, column by
  column, after any further transactions of any routers.
\<close>

theorem terminal_rows_immutable:
  assumes "store_step\<^sup>*\<^sup>* (Migrate None) s" and "r \<in> set (inference_requests s)"
    and "rr_state r \<in> set terminal_states" and "store_step\<^sup>*\<^sup>* s t"
  shows "r \<in> set (inference_requests t)"
proof -
  have "store_inv s" using assms(1) Migrate_inv by (rule store_run.inv_steps)
  with store_steps_row [OF assms(4) _ assms(2)] assms(3) show ?thesis unfolding row_le_def by metis
qed

theorem terminal_rows_immutable_witness:
  "hd (inference_requests (run_completed None)) \<in> set (inference_requests (run_completed (Some 9)))"
proof (rule terminal_rows_immutable [OF _ _ _ run_steps(5)])
  show "store_step\<^sup>*\<^sup>* (Migrate None) (run_completed None)"
    using run_steps(4) store_step.finalize [OF run_finalize] by simp
qed (simp_all add: run_completed_def terminal_states_def)

lemma Transition_version:
  assumes "Transition rid v frm nxt s = Inr (True, t)"
  obtains r where "r \<in> set (inference_requests s)" "rr_request_id r = rid" "rr_state_version r = int v"
    "r\<lparr>rr_state := nxt, rr_state_version := int v + 1\<rparr> \<in> set (inference_requests t)"
  using assms
proof (cases rule: Transition_cases)
  case (some r)
  have "r\<lparr>rr_state := nxt, rr_state_version := rr_state_version r + 1\<rparr> \<in> set (inference_requests t)"
    using some(2,3) by (auto simp: some(5) set_sql_update)
  then show ?thesis using some(2,3) by (intro that [of r]) (auto simp: transition_sel_def)
qed simp

text \<open>
  Versions serialise the writers: a \<open>Transition\<close> that succeeded for an expected version never
  succeeds again for that version, after any further transactions and whatever the states named.
\<close>

theorem Transition_version_used_once:
  assumes "store_step\<^sup>*\<^sup>* (Migrate None) s" and tr: "Transition rid v frm nxt s = Inr (True, t)"
    and later: "store_step\<^sup>*\<^sup>* t u"
  shows "\<nexists>frm' nxt' u'. Transition rid v frm' nxt' u = Inr (True, u')"
proof clarify
  fix frm' nxt' u'
  assume "Transition rid v frm' nxt' u = Inr (True, u')"
  then obtain q where q: "q \<in> set (inference_requests u)" "rr_request_id q = rid" "rr_state_version q = int v"
    by (rule Transition_version)
  have t: "store_inv t" using assms(1) Migrate_inv Transition_inv [OF _ tr] store_run.inv_steps by blast
  have u: "store_inv u" using later t by (rule store_run.inv_steps)
  from tr obtain r where r: "rr_request_id r = rid"
    "r\<lparr>rr_state := nxt, rr_state_version := int v + 1\<rparr> \<in> set (inference_requests t)" by (rule Transition_version)
  from store_steps_row [OF later t r(2)] obtain r' where "r' \<in> set (inference_requests u)"
    "rr_request_id r' = rid" "int v + 1 \<le> rr_state_version r'" using r(1) by (auto simp: row_le_def)
  with q request_row_unique [OF u q(1)] show False by auto
qed

theorem Transition_version_used_once_witness:
  "\<nexists>frm nxt u. Transition ''r'' 0 frm nxt (run_received ''QUEUED'' 1 None None 0) = Inr (True, u)"
proof -
  have "Transition ''r'' 0 ''RECEIVED'' ''QUEUED'' run_ingested = Inr (True, run_received ''QUEUED'' 1 None None 0)"
    by (simp add: Transition_def transition_sel_def run_received_def run_owned_def CheckedInt64_def bigint_succ_def
        terminal_states_def sql_update_def)
  from Transition_version_used_once [OF run_steps(2) this rtranclp.rtrancl_refl] show ?thesis .
qed



section \<open>Recovery and ingestion\<close>

abbreviation recovered_row :: "RequestRow \<Rightarrow> RecoveredRequest" where
  "recovered_row r \<equiv> \<lparr>rec_request_id = rr_request_id r, rec_state = rr_state r, rec_partition = rr_partition r,
     rec_offset = rr_offset r, rec_state_version = nat (rr_state_version r), rec_payload = rr_payload r\<rparr>"

lemma collect_results_Inr: "(\<And>r. r \<in> set rs \<Longrightarrow> f r = Inr (g r)) \<Longrightarrow> collect_results (map f rs) = Inr (map g rs)"
  by (induction rs) simp_all

lemma strict_sort_key:
  "distinct (map f xs) \<Longrightarrow> sorted_wrt (\<lambda>a b. f a < f b) (sort_key (f :: 'a \<Rightarrow> 'b :: linorder) xs)"
proof -
  assume d: "distinct (map f xs)"
  have "mset (map f (sort_key f xs)) = mset (map f xs)" by simp
  with d have "distinct (map f (sort_key f xs))" by (metis mset_eq_imp_distinct_iff)
  then have "sorted_wrt (<) (map f (sort_key f xs))" by (simp add: strict_sorted_iff)
  then show ?thesis by (simp add: sorted_wrt_map)
qed

lemma RecoverUnresolved_spec:
  assumes s: "store_inv s"
  shows "\<exists>xs. RecoverUnresolved s = Inr xs \<and>
    set xs = {recovered_row r |r. r \<in> set (inference_requests s) \<and> rr_state r \<notin> set terminal_states} \<and>
    sorted_wrt (\<lambda>a b. (rec_partition a, rec_offset a) < (rec_partition b, rec_offset b)) xs"
proof -
  define rs where "rs = sort_key (\<lambda>r. (rr_partition r, rr_offset r))
    (filter (\<lambda>r. rr_state r \<notin> set terminal_states) (inference_requests s))"
  have "recovered r = Inr (recovered_row r)" if "r \<in> set rs" for r
    using s that by (auto simp: rs_def recovered_def CheckedUint64_def store_inv_def row_ok_def)
  then have "RecoverUnresolved s = Inr (map recovered_row rs)"
    unfolding RecoverUnresolved_def rs_def [symmetric] by (rule collect_results_Inr)
  moreover have "set (map recovered_row rs) = {recovered_row r |r. r \<in> set (inference_requests s) \<and> rr_state r \<notin> set terminal_states}"
    by (auto simp: rs_def)
  moreover have "distinct (map (\<lambda>r. (rr_partition r, rr_offset r)) (filter (\<lambda>r. rr_state r \<notin> set terminal_states) (inference_requests s)))"
    using s by (simp add: store_inv_def keys_ok_def distinct_map_filter)
  from strict_sort_key [OF this] have
    "sorted_wrt (\<lambda>a b. (rec_partition a, rec_offset a) < (rec_partition b, rec_offset b)) (map recovered_row rs)"
    by (simp add: sorted_wrt_map rs_def)
  ultimately show ?thesis by blast
qed

text \<open>
  Recovery after a restart or a rebalance is exact. In every reachable state
  \<open>RecoverUnresolved\<close> succeeds and returns precisely the requests that are not terminal, each
  with the payload that was ingested, in strictly increasing order of source position.
\<close>

theorem RecoverUnresolved_exact:
  assumes "store_step\<^sup>*\<^sup>* (Migrate None) s"
  shows "\<exists>xs. RecoverUnresolved s = Inr xs \<and>
    set xs = {recovered_row r |r. r \<in> set (inference_requests s) \<and> rr_state r \<notin> set terminal_states} \<and>
    sorted_wrt (\<lambda>a b. (rec_partition a, rec_offset a) < (rec_partition b, rec_offset b)) xs"
  using RecoverUnresolved_spec [OF store_run.inv_steps [OF assms Migrate_inv]] .

theorem RecoverUnresolved_exact_witness:
  "\<exists>xs. RecoverUnresolved run_second = Inr xs \<and>
    set xs = {recovered_row r |r. r \<in> set (inference_requests run_second) \<and> rr_state r \<notin> set terminal_states} \<and>
    sorted_wrt (\<lambda>a b. (rec_partition a, rec_offset a) < (rec_partition b, rec_offset b)) xs"
  by (rule RecoverUnresolved_exact [OF run_steps(4)])

text \<open>
  Ingestion is idempotent. In any state of the tables \<open>Ingest\<close> returns true exactly if neither
  the request id nor the source position is known, and delivering the same message a second time
  returns false and changes nothing.
\<close>

theorem Ingest_idempotent:
  "(fst (Ingest rid p off payload s) \<longleftrightarrow>
     \<not> (\<exists>r \<in> set (inference_requests s). rr_request_id r = rid \<or> rr_partition r = p \<and> rr_offset r = off)) \<and>
   Ingest rid p off payload' (snd (Ingest rid p off payload s)) = (False, snd (Ingest rid p off payload s))"
proof (cases "\<exists>r \<in> set (inference_requests s). rr_request_id r = rid \<or> rr_partition r = p \<and> rr_offset r = off")
  case True
  then have "Ingest rid p off x s = (False, s)" for x unfolding Ingest_def by (rule if_P)
  with True show ?thesis by (simp only: fst_conv snd_conv simp_thms)
next
  case False
  let ?t = "s\<lparr>inference_requests := inference_requests s @ [\<lparr>rr_request_id = rid, rr_state = ''RECEIVED'',
      rr_state_version = 0, rr_partition = p, rr_offset = off, rr_payload = payload, rr_epoch = None,
      rr_engine_id = None, rr_attempt_id = 0, rr_result = None\<rparr>]\<rparr>"
  from False have "Ingest rid p off payload s = (True, ?t)" unfolding Ingest_def by (rule if_not_P)
  moreover have "Ingest rid p off payload' ?t = (False, ?t)" unfolding Ingest_def by (rule if_P) simp
  ultimately show ?thesis using False by (simp only: fst_conv snd_conv simp_thms)
qed

section \<open>A completion by a router that has lost its partition\<close>

text \<open>
  \<open>Finalize\<close> compares the fence with the request row, not with the ownership table: after the
  partition has been acquired under epoch 2, the completion fenced with epoch 1 is still accepted,
  until the new owner has assigned the request again.
\<close>

lemma stale_owner_completes:
  "\<exists>s t u. store_step\<^sup>*\<^sup>* (Migrate None) s \<and> AcquirePartition 0 ''b'' s = Inr (2, t) \<and>
     Finalize ''r'' (run_fence 1 ''e'') ''late'' t = Inr (True, u)"
proof -
  have "AcquirePartition 0 ''b'' run_first = Inr (2, run_first\<lparr>partition_ownership :=
      [\<lparr>ow_partition_id = 0, ow_epoch = 2, ow_router_id = ''b''\<rparr>]\<rparr>)"
    by (simp add: AcquirePartition_def run_received_def run_owned_def bigint_succ_def CheckedUint64_def sql_update_def)
  moreover have "\<exists>u. Finalize ''r'' (run_fence 1 ''e'') ''late'' (run_first\<lparr>partition_ownership :=
      [\<lparr>ow_partition_id = 0, ow_epoch = 2, ow_router_id = ''b''\<rparr>]\<rparr>) = Inr (True, u)"
    by (simp add: Finalize_def finalize_sel_def run_owned_def run_received_def Migrate_def CheckedInt64_def
      bigint_succ_def sql_update_def insert_outbox_def Let_def)
  ultimately show ?thesis using run_steps(3) by blast
qed

end
