(* ===== verification/DurablePipeline.thy ===== *)
theory DurablePipeline
  imports DurableFencing WireTypes
begin

text \<open>
  Ingestion and publication around the durable store: \<open>cpp/src/request_ingestor.cpp\<close> and
  \<open>cpp/src/outbox_relay.cpp\<close>. Parsing is the parameter \<open>parse\<close> (the generated protobuf code), the
  publisher a state with an operation, as the abstract class \<open>OutboxPublisher\<close> has it; the
  Kafka publisher is modelled up to the answers of librdkafka.
\<close>

section \<open>Ingestion\<close>

datatype IngestOutcome = kInserted | kDuplicate | kRetryParse | kPoisonRecorded

record RequestIngestor =
  max_parse_retries :: nat
  parse_attempts :: "((int \<times> int) \<times> nat) list"

definition MakeRequestIngestor :: "nat \<Rightarrow> RequestIngestor" where
  "MakeRequestIngestor n = \<lparr>max_parse_retries = n, parse_attempts = []\<rparr>"

definition parsed_request :: "(string \<Rightarrow> InferenceRequest option) \<Rightarrow> string \<Rightarrow> InferenceRequest option" where
  "parsed_request parse payload = (case parse payload of
     None \<Rightarrow> None
   | Some r \<Rightarrow> if ir_request_id r = [] then None else Some r)"

definition Handle :: "(string \<Rightarrow> InferenceRequest option) \<Rightarrow> int \<Rightarrow> int \<Rightarrow> string \<Rightarrow> RequestIngestor \<times> DurableStore \<Rightarrow>
    error + (IngestOutcome \<times> RequestIngestor \<times> DurableStore)" where
  "Handle parse p off payload = (\<lambda>(g, s). case parsed_request parse payload of
     None \<Rightarrow>
       let attempts = Suc (case map_of (parse_attempts g) (p, off) of None \<Rightarrow> 0 | Some n \<Rightarrow> n) in
       if attempts < max_parse_retries g
       then Inr (kRetryParse, g\<lparr>parse_attempts := AList.update (p, off) attempts (parse_attempts g)\<rparr>, s)
       else bind_result (RecordPoison p off payload ''invalid_inference_request'' s) (\<lambda>(_, s').
         Inr (kPoisonRecorded, g\<lparr>parse_attempts := AList.delete (p, off) (parse_attempts g)\<rparr>, s'))
   | Some r \<Rightarrow>
       let g' = g\<lparr>parse_attempts := AList.delete (p, off) (parse_attempts g)\<rparr>;
           (inserted, s') = Ingest (ir_request_id r) p off payload s in
       Inr (if inserted then kInserted else kDuplicate, g', s'))"

text \<open>The outcomes of delivering the same message \<open>n\<close> times in a row.\<close>

fun deliveries :: "(string \<Rightarrow> InferenceRequest option) \<Rightarrow> int \<Rightarrow> int \<Rightarrow> string \<Rightarrow> nat \<Rightarrow> RequestIngestor \<times> DurableStore \<Rightarrow>
    error + (IngestOutcome list \<times> RequestIngestor \<times> DurableStore)" where
  "deliveries parse p off payload 0 gs = Inr ([], gs)"
| "deliveries parse p off payload (Suc n) gs = bind_result (Handle parse p off payload gs) (\<lambda>(o1, gs').
     bind_result (deliveries parse p off payload n gs') (\<lambda>(os, gs''). Inr (o1 # os, gs'')))"

lemma Handle_store_step:
  assumes "Handle parse p off payload (g, s) = Inr (out, g', t)"
  shows "store_step\<^sup>*\<^sup>* s t"
proof (cases "parsed_request parse payload")
  case None
  with assms show ?thesis
    by (auto simp: Handle_def Let_def bind_result_eq_Inr split: if_splits intro: store_step.poison)
next
  case (Some r)
  then have "snd (Ingest (ir_request_id r) p off payload s) = t"
    using assms by (auto simp: Handle_def Let_def split: prod.splits)
  then show ?thesis using store_step.ingest [of "ir_request_id r" p off payload s] by (metis prod.collapse r_into_rtranclp)
qed

lemma Handle_invalid:
  assumes "parsed_request parse payload = None"
  shows "Handle parse p off payload (g, s) =
    (let attempts = Suc (case map_of (parse_attempts g) (p, off) of None \<Rightarrow> 0 | Some n \<Rightarrow> n) in
       if attempts < max_parse_retries g
       then Inr (kRetryParse, g\<lparr>parse_attempts := AList.update (p, off) attempts (parse_attempts g)\<rparr>, s)
       else bind_result (RecordPoison p off payload ''invalid_inference_request'' s) (\<lambda>(_, s').
         Inr (kPoisonRecorded, g\<lparr>parse_attempts := AList.delete (p, off) (parse_attempts g)\<rparr>, s')))"
  using assms by (simp add: Handle_def)

lemma deliveries_retry:
  assumes bad: "parsed_request parse payload = None"
    and "(case map_of (parse_attempts g) (p, off) of None \<Rightarrow> 0 | Some n \<Rightarrow> n) + n < max_parse_retries g"
  shows "\<exists>g'. deliveries parse p off payload n (g, s) = Inr (replicate n kRetryParse, g', s) \<and>
    max_parse_retries g' = max_parse_retries g \<and>
    (case map_of (parse_attempts g') (p, off) of None \<Rightarrow> 0 | Some n \<Rightarrow> n) =
      (case map_of (parse_attempts g) (p, off) of None \<Rightarrow> 0 | Some n \<Rightarrow> n) + n"
  using assms(2)
proof (induction n arbitrary: g)
  case (Suc n)
  let ?a = "Suc (case map_of (parse_attempts g) (p, off) of None \<Rightarrow> 0 | Some n \<Rightarrow> n)"
  let ?g = "g\<lparr>parse_attempts := AList.update (p, off) ?a (parse_attempts g)\<rparr>"
  have h: "Handle parse p off payload (g, s) = Inr (kRetryParse, ?g, s)"
    using Suc.prems unfolding Handle_invalid [OF bad] by (simp add: Let_def)
  have a: "map_of (parse_attempts ?g) (p, off) = Some ?a" by (simp add: update_conv')
  from Suc.IH [of ?g] Suc.prems a show ?case by (auto simp: h)
qed simp

lemma deliveries_add:
  "deliveries parse p off payload (m + k) gs =
     bind_result (deliveries parse p off payload m gs) (\<lambda>(os, gs').
       bind_result (deliveries parse p off payload k gs') (\<lambda>(os', gs''). Inr (os @ os', gs'')))"
proof (induction m arbitrary: gs)
  case 0
  then show ?case by (cases "deliveries parse p off payload k gs") auto
next
  case (Suc m)
  show ?case by (auto simp: Suc bind_result_def split: sum.splits prod.splits)
qed

lemma RecordPoison_returns:
  assumes "outbox_id_seq s < i64_max"
  shows "\<exists>b t. RecordPoison p off payload err s = Inr (b, t)"
proof (cases "\<exists>r \<in> set (poison_messages s). pr_partition r = p \<and> pr_offset r = off")
  case True
  then show ?thesis by (auto simp: RecordPoison_def)
next
  case False
  with assms show ?thesis unfolding RecordPoison_def by (simp only: if_False) (auto simp: insert_outbox_def bigint_succ_def)
qed


text \<open>A parser that rejects one payload and reads the others as request ids.\<close>

definition parse_example :: "string \<Rightarrow> InferenceRequest option" where
  "parse_example payload = (if payload = ''bad'' then None else
     Some \<lparr>ir_request_id = payload, ir_model_id = ''m'', ir_model_revision = ''m'', ir_tokenizer_revision = ''t'',
       ir_prompt_tokens = 3, ir_prompt_hash = ''h'', ir_priority = 0, ir_deadline_unix_ms = 0,
       ir_sampling = \<lparr>sp_max_output_tokens = 2, sp_temperature = 0, sp_top_p = 1, sp_seed = 0\<rparr>,
       ir_trace_id = ''tr'', ir_span_id = ''sp''\<rparr>)"


section \<open>The relay\<close>

text \<open>
  The loop of \<open>OutboxRelay::PublishBatch\<close>. The publisher is an operation on a state of its own.
\<close>

fun publish_loop :: "(OutboxRecord \<Rightarrow> 'p \<Rightarrow> bool \<times> 'p) \<Rightarrow> int \<Rightarrow> OutboxRecord list \<Rightarrow> 'p \<times> DurableStore \<times> nat \<Rightarrow>
    'p \<times> DurableStore \<times> nat" where
  "publish_loop publish now [] st = st"
| "publish_loop publish now (r # rs) (ps, s, published) =
     (let (ok, ps') = publish r ps in
      if ok then publish_loop publish now rs (ps', MarkPublished now (or_id r) s, Suc published)
      else (ps', s, published))"

definition PublishBatch :: "(OutboxRecord \<Rightarrow> 'p \<Rightarrow> bool \<times> 'p) \<Rightarrow> int \<Rightarrow> nat \<Rightarrow> 'p \<times> DurableStore \<Rightarrow> nat \<times> 'p \<times> DurableStore" where
  "PublishBatch publish now limit = (\<lambda>(ps, s).
     let (ps', s', n) = publish_loop publish now (FetchUnpublished limit s) (ps, s, 0) in (n, ps', s'))"

text \<open>The answers of a publisher to a sequence of records.\<close>

fun answers :: "(OutboxRecord \<Rightarrow> 'p \<Rightarrow> bool \<times> 'p) \<Rightarrow> 'p \<Rightarrow> OutboxRecord list \<Rightarrow> bool list" where
  "answers publish ps [] = []"
| "answers publish ps (r # rs) = fst (publish r ps) # answers publish (snd (publish r ps)) rs"

lemma publish_loop_spec:
  "\<exists>ps'. publish_loop publish now rs (ps, s, n) =
     (let k = length (takeWhile id (answers publish ps rs)) in
       (ps', fold (\<lambda>r. MarkPublished now (or_id r)) (take k rs) s, n + k))"
proof (induction rs arbitrary: ps s n)
  case (Cons r rs)
  show ?case
  proof (cases "fst (publish r ps)")
    case True
    then obtain ps1 where p: "publish r ps = (True, ps1)" by (cases "publish r ps") auto
    from Cons.IH [of ps1 "MarkPublished now (or_id r) s" "Suc n"] show ?thesis by (auto simp: p Let_def)
  next
    case False
    then obtain ps1 where "publish r ps = (False, ps1)" by (cases "publish r ps") auto
    then show ?thesis by (auto simp: Let_def)
  qed
qed simp

definition unpublished :: "DurableStore \<Rightarrow> OutboxRow list" where
  "unpublished s = sort_key ob_id (filter (\<lambda>r. ob_published_at r = None) (outbox s))"

lemma FetchUnpublished_take: "FetchUnpublished limit s = map outbox_record (take limit (unpublished s))"
  by (simp add: FetchUnpublished_def unpublished_def)

lemma MarkPublished_unpublished:
  assumes "distinct (map ob_id (outbox s))"
  shows "unpublished (MarkPublished now oid s) = filter (\<lambda>r. ob_id r \<noteq> oid) (unpublished s)"
proof -
  have "filter (\<lambda>r. ob_published_at r = None) (outbox (MarkPublished now oid s)) =
      filter (\<lambda>r. ob_published_at r = None \<and> ob_id r \<noteq> oid) (outbox s)"
  proof -
    have "filter (\<lambda>r. ob_published_at r = None) (sql_update (\<lambda>r. ob_id r = oid)
        (\<lambda>r. r\<lparr>ob_published_at := case ob_published_at r of None \<Rightarrow> Some now | Some t \<Rightarrow> Some t\<rparr>) os) =
      filter (\<lambda>r. ob_published_at r = None \<and> ob_id r \<noteq> oid) os" for os :: "OutboxRow list"
      by (induction os) (auto simp: sql_update_def split: option.splits)
    then show ?thesis by (simp add: MarkPublished_def)
  qed
  then show ?thesis unfolding unpublished_def
    by (simp add: filter_sort conj_commute)
qed

lemma filter_out_prefix:
  "distinct (map f xs) \<Longrightarrow> fold (\<lambda>x. filter (\<lambda>r. f r \<noteq> f x)) (take k xs) xs = drop k xs"
proof (induction xs arbitrary: k)
  case (Cons x xs)
  then have "\<forall>r \<in> set xs. f r \<noteq> f x" by (metis distinct.simps(2) image_eqI list.simps(9) list.set_map)
  then have "filter (\<lambda>r. f r \<noteq> f x) xs = xs" by (simp add: filter_id_conv)
  with Cons show ?case by (cases k) auto
qed simp

lemma MarkPublished_fold:
  fixes rs :: "OutboxRecord list"
  assumes "store_inv s"
  shows "store_inv (fold (\<lambda>r. MarkPublished now (or_id r)) rs s)"
    and "store_step\<^sup>*\<^sup>* s (fold (\<lambda>r. MarkPublished now (or_id r)) rs s)"
    and "unpublished (fold (\<lambda>r. MarkPublished now (or_id r)) rs s) =
      fold (\<lambda>x. filter (\<lambda>r. ob_id r \<noteq> or_id x)) rs (unpublished s)"
    and "inference_requests (fold (\<lambda>r. MarkPublished now (or_id r)) rs s) = inference_requests s"
  using assms
proof (induction rs arbitrary: s)
  case (Cons r rs)
  {
    case 1
    then show ?case using Cons(1) MarkPublished_inv by simp
  next
    case 2
    then have "store_step\<^sup>*\<^sup>* (MarkPublished now (or_id r) s) (fold (\<lambda>r. MarkPublished now (or_id r)) (r # rs) s)"
      using Cons(2) MarkPublished_inv by simp
    then show ?case using store_step.mark by (metis converse_rtranclp_into_rtranclp)
  next
    case 3
    then show ?case using Cons(3) [OF MarkPublished_inv] MarkPublished_unpublished
      by (simp add: store_inv_def keys_ok_def)
  next
    case 4
    then show ?case using Cons(4) [OF MarkPublished_inv] by (simp add: MarkPublished_def)
  }
qed simp_all

lemma unpublished_distinct: "store_inv s \<Longrightarrow> distinct (map ob_id (unpublished s))"
  by (metis (no_types, lifting) distinct_map_filter keys_ok_def mset_eq_imp_distinct_iff mset_map mset_sort
      store_inv_def unpublished_def)

lemma PublishBatch_spec:
  assumes inv: "store_inv s" and run: "PublishBatch publish now limit (ps, s) = (n, ps', t)"
  shows "n = length (takeWhile id (answers publish ps (FetchUnpublished limit s))) \<and>
    unpublished t = drop n (unpublished s) \<and> inference_requests t = inference_requests s \<and> store_step\<^sup>*\<^sup>* s t"
proof -
  define k where "k = length (takeWhile id (answers publish ps (FetchUnpublished limit s)))"
  have len: "length (answers publish ps rs) = length rs" for rs by (induction rs arbitrary: ps) auto
  have k: "k \<le> limit"
    using length_takeWhile_le [of id "answers publish ps (FetchUnpublished limit s)"]
    by (simp add: k_def len FetchUnpublished_take)
  from publish_loop_spec [of publish now "FetchUnpublished limit s" ps s 0] run
  have n: "n = k" and t: "t = fold (\<lambda>r. MarkPublished now (or_id r)) (take k (FetchUnpublished limit s)) s"
    by (auto simp: PublishBatch_def k_def Let_def)
  have "take k (FetchUnpublished limit s) = map outbox_record (take k (unpublished s))"
    using k by (simp add: FetchUnpublished_take take_map min_absorb1)
  then have "unpublished t = fold (\<lambda>x. filter (\<lambda>r. ob_id r \<noteq> ob_id x)) (take k (unpublished s)) (unpublished s)"
    unfolding t MarkPublished_fold(3) [OF inv] by (simp add: fold_map comp_def outbox_record_def)
  then have "unpublished t = drop k (unpublished s)"
    using filter_out_prefix [OF unpublished_distinct [OF inv]] by simp
  moreover have "inference_requests t = inference_requests s" "store_step\<^sup>*\<^sup>* s t"
    unfolding t by (rule MarkPublished_fold [OF inv])+
  ultimately show ?thesis by (simp add: n k_def)
qed

text \<open>
  C29: the relay publishes the outbox in order and marks exactly what was acknowledged. In a
  reachable state, \<open>PublishBatch\<close> offers the unpublished rows in the order of their ids to the
  publisher; the number it returns is the number of acknowledgements before the first refusal, and
  exactly that many rows, the oldest ones, leave the unpublished rows. A row that was not
  acknowledged stays, and the requests are untouched.
\<close>

theorem PublishBatch_exact:
  assumes "store_step\<^sup>*\<^sup>* (Migrate None) s" and "PublishBatch publish now limit (ps, s) = (n, ps', t)"
  shows "n = length (takeWhile id (answers publish ps (FetchUnpublished limit s))) \<and>
    unpublished t = drop n (unpublished s) \<and> inference_requests t = inference_requests s \<and> store_step\<^sup>*\<^sup>* s t"
  using PublishBatch_spec [OF store_run.inv_steps [OF assms(1) Migrate_inv] assms(2)] .

theorem PublishBatch_exact_witness:
  "unpublished (snd (snd (PublishBatch (\<lambda>r ps. (True, ps)) 9 1000 ((), run_completed None)))) = []"
proof -
  have p: "PublishBatch (\<lambda>r ps. (True, ps)) 9 1000 ((), run_completed None) = (1, (), run_completed (Some 9))"
    by (simp add: PublishBatch_def FetchUnpublished_def run_completed_def outbox_record_def MarkPublished_def sql_update_def)
  have "store_step\<^sup>*\<^sup>* (Migrate None) (run_completed None)" using run_steps(4) store_step.finalize [OF run_finalize] by simp
  from PublishBatch_exact [OF this p] have "unpublished (run_completed (Some 9)) = drop 1 (unpublished (run_completed None))"
    by blast
  then show ?thesis unfolding p by (simp add: unpublished_def run_completed_def)
qed

section \<open>The Kafka publisher\<close>

text \<open>
  \<open>KafkaOutboxPublisher::Publish\<close> hands the record to the producer and polls until a delivery
  report has set the flags or the deadline has passed. What librdkafka does is an argument: whether
  \<open>produce\<close> took the message, and for every \<open>poll\<close> made before the deadline the delivery
  reports it served, each with the id of the record it is about and whether delivery succeeded.
  The callback looks at the success only.
\<close>

record KafkaOutboxPublisher =
  kp_complete :: bool
  kp_delivered :: bool

text \<open>
  The constructor sets up a librdkafka producer: two settings, the delivery callback, and the producer itself. An
  answer of the library is \<open>None\<close> for success or the message of the failure, which is thrown.
\<close>

record ProducerLibrary =
  conf_set :: "string \<Rightarrow> string \<Rightarrow> string option"
  conf_set_dr_cb :: "string option"
  Producer_create :: "string option"

definition throw_if :: "string option \<Rightarrow> error + unit" where
  "throw_if answer = (case answer of None \<Rightarrow> Inr () | Some message \<Rightarrow> Inl (RuntimeError message))"

definition MakeKafkaOutboxPublisher :: "ProducerLibrary \<Rightarrow> string \<Rightarrow> error + KafkaOutboxPublisher" where
  "MakeKafkaOutboxPublisher lib brokers =
     bind_result (throw_if (conf_set lib ''bootstrap.servers'' brokers)) (\<lambda>_.
     bind_result (throw_if (conf_set lib ''enable.idempotence'' ''true'')) (\<lambda>_.
     bind_result (throw_if (conf_set_dr_cb lib)) (\<lambda>_.
     bind_result (throw_if (Producer_create lib)) (\<lambda>_.
     Inr \<lparr>kp_complete = False, kp_delivered = False\<rparr>))))"

definition dr_cb :: "int \<times> bool \<Rightarrow> KafkaOutboxPublisher \<Rightarrow> KafkaOutboxPublisher" where
  "dr_cb report st = st\<lparr>kp_complete := True, kp_delivered := snd report\<rparr>"

fun poll_until :: "(int \<times> bool) list list \<Rightarrow> KafkaOutboxPublisher \<Rightarrow> KafkaOutboxPublisher" where
  "poll_until [] st = st"
| "poll_until (reports # polls) st =
     (if kp_complete st then st else poll_until polls (fold dr_cb reports st))"

definition Publish :: "bool \<Rightarrow> (int \<times> bool) list list \<Rightarrow> OutboxRecord \<Rightarrow> KafkaOutboxPublisher \<Rightarrow> bool \<times> KafkaOutboxPublisher" where
  "Publish produced polls r st =
     (let st1 = st\<lparr>kp_complete := False, kp_delivered := False\<rparr> in
      if \<not> produced then (False, st1)
      else let st2 = poll_until polls st1 in (kp_delivered st2, st2))"

lemma fold_dr_cb:
  "reports \<noteq> [] \<Longrightarrow> fold dr_cb reports st = st\<lparr>kp_complete := True, kp_delivered := snd (last reports)\<rparr>"
  by (induction reports arbitrary: st) (auto simp: dr_cb_def)

lemma poll_until_delivered:
  assumes "kp_delivered (poll_until polls st)" and "\<not> kp_delivered st"
  shows "\<exists>reports \<in> set polls. \<exists>report \<in> set reports. snd report"
  using assms
proof (induction polls arbitrary: st)
  case (Cons reports polls)
  show ?case
  proof (cases "reports = [] \<or> kp_complete st")
    case True
    with Cons show ?thesis by (auto split: if_splits)
  next
    case False
    show ?thesis
    proof (cases "snd (last reports)")
      case True
      then show ?thesis using False last_in_set by force
    next
      case n: False
      with False Cons.prems Cons.IH [of "fold dr_cb reports st"] show ?thesis by (auto simp: fold_dr_cb)
    qed
  qed
qed simp

text \<open>
  A record counts as published only after a positive delivery report. If every report served
  while \<open>Publish\<close> waits is about the record it was given, then \<open>Publish\<close> returns true only if the
  producer took the record and a report said that it was delivered; with no report before the
  deadline, or a producer that refuses, it returns false.
\<close>

theorem Publish_acknowledged:
  assumes "\<forall>reports \<in> set polls. \<forall>report \<in> set reports. fst report = or_id r"
    and "fst (Publish produced polls r st)"
  shows "produced \<and> (\<exists>reports \<in> set polls. (or_id r, True) \<in> set reports)"
proof -
  have p: "produced" and "kp_delivered (poll_until polls (st\<lparr>kp_complete := False, kp_delivered := False\<rparr>))"
    using assms(2) by (auto simp: Publish_def Let_def split: if_splits)
  from poll_until_delivered [OF this(2)] obtain reports report where "reports \<in> set polls" "report \<in> set reports" "snd report"
    by auto
  with assms(1) p show ?thesis by (metis prod.collapse)
qed

definition record_example :: "int \<Rightarrow> OutboxRecord" where
  "record_example i = \<lparr>or_id = i, or_topic = ''inference.results'', or_key = ''r'', or_payload = ''out'', or_partition = 0, or_offset = i\<rparr>"

theorem Publish_acknowledged_witness: "True \<and> (\<exists>reports \<in> set [[], [(1, True)]]. (or_id (record_example 1), True) \<in> set reports)"
  by (rule Publish_acknowledged [where st = "\<lparr>kp_complete = True, kp_delivered = False\<rparr>"])
    (simp_all add: Publish_def record_example_def dr_cb_def)

text \<open>
  The hypothesis is needed: a report about an earlier record, served late, is taken for the record
  being published, and \<open>Publish\<close> returns true although nothing is known about that record.
\<close>

lemma late_report_confuses_Publish:
  "fst (Publish True [[(1, True)]] (record_example 2) \<lparr>kp_complete = False, kp_delivered = False\<rparr>)"
  by (simp add: Publish_def dr_cb_def)

end
