(* ===== verification/OffsetTrackers.thy ===== *)
theory OffsetTrackers
  imports Main
begin

text \<open>
  \<open>cpp/src/offset_tracker.cpp\<close>: the offset up to which a Kafka partition may be committed. The
  \<open>std::set\<close> of completed offsets is a list without repetition. Offsets are mathematical
  integers: the source computes \<open>committed_offset_ + 1\<close> on \<open>std::int64_t\<close>, so the model is exact
  for offsets below \<open>2^63 - 1\<close>.
\<close>

record ContiguousOffsetTracker =
  committed_offset :: int
  tr_completed :: "int list"

definition MakeTracker :: "int \<Rightarrow> ContiguousOffsetTracker" where
  "MakeTracker c = \<lparr>committed_offset = c, tr_completed = []\<rparr>"

text \<open>The \<open>while\<close> loop: every round erases one element of the set, so it ends.\<close>

function advance :: "int \<Rightarrow> int list \<Rightarrow> int \<times> int list" where
  "advance c xs = (if c + 1 \<in> set xs then advance (c + 1) (removeAll (c + 1) xs) else (c, xs))"
  by pat_completeness auto
termination
  by (relation "measure (\<lambda>(c, xs). length xs)") (auto intro: length_removeAll_less)

declare advance.simps [simp del]

definition TrackerMark :: "int \<Rightarrow> ContiguousOffsetTracker \<Rightarrow> int \<times> ContiguousOffsetTracker" where
  "TrackerMark offset t =
     (if offset \<le> committed_offset t then (committed_offset t, t)
      else let (c, xs) = advance (committed_offset t) (List.insert offset (tr_completed t)) in
        (c, \<lparr>committed_offset = c, tr_completed = xs\<rparr>))"

section \<open>The contiguous prefix\<close>

text \<open>The tracker \<open>t\<close>, started at offset \<open>b\<close>, has been told of the offsets in \<open>M\<close>.\<close>

definition tracks :: "int \<Rightarrow> int set \<Rightarrow> ContiguousOffsetTracker \<Rightarrow> bool" where
  "tracks b M t \<longleftrightarrow> b \<le> committed_offset t \<and> {b<..committed_offset t} \<subseteq> M \<and> committed_offset t + 1 \<notin> M \<and>
     set (tr_completed t) = {x \<in> M. committed_offset t < x} \<and> distinct (tr_completed t)"

lemma advance_spec:
  assumes "advance c xs = (c', xs')" and "\<forall>x \<in> set xs. c < x" and "distinct xs"
  shows "c \<le> c' \<and> {c<..c'} \<subseteq> set xs \<and> c' + 1 \<notin> set xs \<and> set xs' = {x \<in> set xs. c' < x} \<and> distinct xs'"
  using assms
proof (induction c xs arbitrary: c' xs' rule: advance.induct)
  case (1 c xs)
  show ?case
  proof (cases "c + 1 \<in> set xs")
    case True
    have ih: "c + 1 \<le> c' \<and> {c + 1<..c'} \<subseteq> set (removeAll (c + 1) xs) \<and> c' + 1 \<notin> set (removeAll (c + 1) xs) \<and>
        set xs' = {x \<in> set (removeAll (c + 1) xs). c' < x} \<and> distinct xs'"
    proof (rule "1.IH" [OF True])
      show "advance (c + 1) (removeAll (c + 1) xs) = (c', xs')" using True "1.prems"(1) by (simp add: advance.simps [of c])
      show "\<forall>x \<in> set (removeAll (c + 1) xs). c + 1 < x" using "1.prems"(2) by force
      show "distinct (removeAll (c + 1) xs)" using "1.prems"(3) by (rule distinct_removeAll)
    qed
    moreover have "{c<..c'} \<subseteq> insert (c + 1) {c + 1<..c'}" by auto
    moreover have "c' + 1 \<notin> set xs" using ih by auto
    ultimately show ?thesis using True by auto
  next
    case False
    with "1.prems" show ?thesis by (auto simp: advance.simps [of c])
  qed
qed

lemma tracks_Make: "tracks b {} (MakeTracker b)"
  by (simp add: tracks_def MakeTracker_def)

lemma tracks_Mark:
  assumes t: "tracks b M t" and "TrackerMark offset t = (r, t')" and "b < offset"
  shows "tracks b (insert offset M) t'" and "r = committed_offset t'" and "committed_offset t \<le> r"
proof -
  have "tracks b (insert offset M) t' \<and> r = committed_offset t' \<and> committed_offset t \<le> r"
  proof (cases "offset \<le> committed_offset t")
    case True
    with assms show ?thesis by (auto simp: TrackerMark_def tracks_def)
  next
    case False
    obtain c xs where adv: "advance (committed_offset t) (List.insert offset (tr_completed t)) = (c, xs)" by force
    then have t': "t' = \<lparr>committed_offset = c, tr_completed = xs\<rparr>" "r = c"
      using assms(2) False by (auto simp: TrackerMark_def)
    have "committed_offset t \<le> c \<and> {committed_offset t<..c} \<subseteq> insert offset (set (tr_completed t)) \<and>
        c + 1 \<notin> insert offset (set (tr_completed t)) \<and> set xs = {x \<in> insert offset (set (tr_completed t)). c < x} \<and> distinct xs"
      using advance_spec [OF adv] t False unfolding tracks_def set_insert by auto
    moreover have "{b<..c} \<subseteq> {b<..committed_offset t} \<union> {committed_offset t<..c}" by auto
    ultimately show ?thesis using t by (auto simp: t' tracks_def)
  qed
  then show "tracks b (insert offset M) t'" "r = committed_offset t'" "committed_offset t \<le> r" by simp_all
qed

lemma tracks_old_mark:
  assumes "tracks b M t" and "offset \<le> b"
  shows "TrackerMark offset t = (committed_offset t, t)"
  using assms by (simp add: TrackerMark_def tracks_def)

lemma tracks_fold:
  assumes "tracks b M t"
  shows "tracks b (M \<union> {x \<in> set os. b < x}) (fold (\<lambda>x t. snd (TrackerMark x t)) os t)"
  using assms
proof (induction os arbitrary: M t)
  case (Cons x os)
  obtain r t' where m: "TrackerMark x t = (r, t')" by force
  show ?case
  proof (cases "b < x")
    case True
    have eq: "insert x M \<union> {y \<in> set os. b < y} = M \<union> {y \<in> set (x # os). b < y}" using True by auto
    from Cons.IH [OF tracks_Mark(1) [OF Cons.prems m True]] have
      "tracks b (M \<union> {y \<in> set (x # os). b < y}) (fold (\<lambda>x t. snd (TrackerMark x t)) os t')" unfolding eq .
    then show ?thesis using m by simp
  next
    case False
    with Cons.prems m have "t' = t" using tracks_old_mark [of b M t x] by simp
    moreover have "{y. (y = x \<or> y \<in> set os) \<and> b < y} = {y \<in> set os. b < y}" using False by auto
    ultimately show ?thesis using Cons.IH [OF Cons.prems] m by simp
  qed
qed simp

lemma tracks_unique:
  assumes "tracks b M t" and "tracks b M t'"
  shows "committed_offset t = committed_offset t'"
proof -
  have "\<not> committed_offset u < committed_offset u'" if "tracks b M u" "tracks b M u'" for u u'
  proof
    assume "committed_offset u < committed_offset u'"
    with that have "committed_offset u + 1 \<in> {b<..committed_offset u'}" by (simp add: tracks_def)
    with that show False unfolding tracks_def by blast
  qed
  from this [OF assms] this [OF assms(2,1)] show ?thesis by simp
qed

text \<open>
  C28: the committed offset is the contiguous prefix of the completed offsets. However the offsets
  are reported (in any order, with repetitions), the committed offset \<open>c\<close> is the greatest such
  that everything after the start and up to \<open>c\<close> has been reported; in particular an offset whose
  work is not done is never committed, and the order of the reports does not matter.
\<close>

theorem tracker_contiguous_prefix:
  fixes b :: int and os :: "int list"
  defines "c \<equiv> committed_offset (fold (\<lambda>x t. snd (TrackerMark x t)) os (MakeTracker b))"
  shows "b \<le> c \<and> {b<..c} \<subseteq> set os \<and> c + 1 \<notin> set os \<and>
     (\<forall>os'. set os' = set os \<longrightarrow> committed_offset (fold (\<lambda>x t. snd (TrackerMark x t)) os' (MakeTracker b)) = c)"
proof -
  have t: "tracks b {x \<in> set os. b < x} (fold (\<lambda>x t. snd (TrackerMark x t)) os (MakeTracker b))" for os
    using tracks_fold [OF tracks_Make, of b os] by simp
  have "committed_offset (fold (\<lambda>x t. snd (TrackerMark x t)) os' (MakeTracker b)) = c" if "set os' = set os" for os'
    unfolding c_def using tracks_unique [OF t [of os', unfolded that] t [of os]] .
  moreover have "b \<le> c" "{b<..c} \<subseteq> set os" "c + 1 \<notin> set os"
    using t [of os] by (auto simp: tracks_def c_def)
  ultimately show ?thesis by blast
qed

theorem tracker_contiguous_prefix_witness:
  "committed_offset (fold (\<lambda>x t. snd (TrackerMark x t)) [10, 11, 12] (MakeTracker 9)) =
   committed_offset (fold (\<lambda>x t. snd (TrackerMark x t)) [11, 12, 10] (MakeTracker 9))"
proof -
  have "set [10, 11, 12 :: int] = set [11, 12, 10]" by auto
  with tracker_contiguous_prefix [of 9 "[11, 12, 10]"] show ?thesis by blast
qed

end
