(* ===== verification/KafkaPollers.thy ===== *)
theory KafkaPollers
  imports Prelude OffsetTrackers
begin

text \<open>
  \<open>cpp/src/kafka_poller.cpp\<close>: the state that the poll thread and the router thread share under one
  mutex, and the critical sections as its operations. The configuration and the calls of
  librdkafka are not modelled; what the consumer delivers is the argument of the operation that
  handles it. The timed waits return at the latest at the timeout, so \<open>Pop\<close> is its body after
  the wait.
\<close>

section \<open>State\<close>

record KafkaMessage =
  km_payload :: string
  km_key :: string
  km_partition :: int
  km_offset :: int

datatype OwnershipEventKind = kAssigned | kRevoked

record OwnershipEvent =
  oe_kind :: OwnershipEventKind
  oe_partitions :: "int list"

record KafkaPoller =
  kp_brokers :: string
  kp_group_id :: string
  kp_topic :: string
  kp_offset_reset :: string
  kp_messages :: "KafkaMessage list"
  kp_ownership_events :: "OwnershipEvent list"
  kp_commits :: "(int \<times> int) list"
  kp_trackers :: "(int \<times> ContiguousOffsetTracker) list"
  kp_assigned :: "int list"
  kp_stop :: bool
  kp_thread :: bool

definition MakeKafkaPoller :: "string \<Rightarrow> string \<Rightarrow> string \<Rightarrow> string \<Rightarrow> error + KafkaPoller" where
  "MakeKafkaPoller brokers group_id topic reset =
     (if reset \<noteq> ''earliest'' \<and> reset \<noteq> ''latest''
      then Inl (InvalidArgument ''offset reset must be earliest or latest'')
      else Inr \<lparr>kp_brokers = brokers, kp_group_id = group_id, kp_topic = topic, kp_offset_reset = reset,
        kp_messages = [], kp_ownership_events = [], kp_commits = [], kp_trackers = [], kp_assigned = [],
        kp_stop = False, kp_thread = False\<rparr>)"

section \<open>Operations\<close>

definition Start :: "KafkaPoller \<Rightarrow> KafkaPoller" where
  "Start k = (if kp_thread k then k else k\<lparr>kp_stop := False, kp_thread := True\<rparr>)"

text \<open>\<open>Stop\<close> returns after the poll thread has seen the flag and ended.\<close>

definition Stop :: "KafkaPoller \<Rightarrow> KafkaPoller" where
  "Stop k = k\<lparr>kp_stop := True, kp_thread := False\<rparr>"

definition Pop :: "KafkaPoller \<Rightarrow> KafkaMessage option \<times> KafkaPoller" where
  "Pop k = (case kp_messages k of [] \<Rightarrow> (None, k) | m # ms \<Rightarrow> (Some m, k\<lparr>kp_messages := ms\<rparr>))"

definition PopOwnershipEvent :: "KafkaPoller \<Rightarrow> OwnershipEvent option \<times> KafkaPoller" where
  "PopOwnershipEvent k = (case kp_ownership_events k of
     [] \<Rightarrow> (None, k) | e # es \<Rightarrow> (Some e, k\<lparr>kp_ownership_events := es\<rparr>))"

definition Owns :: "int \<Rightarrow> KafkaPoller \<Rightarrow> bool" where
  "Owns p k \<longleftrightarrow> p \<in> set (kp_assigned k)"

definition revoke_one :: "int \<Rightarrow> KafkaPoller \<Rightarrow> KafkaPoller" where
  "revoke_one p k = k\<lparr>kp_messages := filter (\<lambda>m. km_partition m \<noteq> p) (kp_messages k),
     kp_trackers := AList.delete p (kp_trackers k), kp_assigned := removeAll p (kp_assigned k)\<rparr>"

definition rebalance_cb :: "bool \<Rightarrow> int list \<Rightarrow> KafkaPoller \<Rightarrow> KafkaPoller" where
  "rebalance_cb assign ids k =
     (if assign
      then k\<lparr>kp_ownership_events := kp_ownership_events k @ [\<lparr>oe_kind = kAssigned, oe_partitions = ids\<rparr>],
             kp_assigned := fold List.insert ids (kp_assigned k)\<rparr>
      else (fold revoke_one ids k)\<lparr>kp_ownership_events := kp_ownership_events (fold revoke_one ids k) @
             [\<lparr>oe_kind = kRevoked, oe_partitions = ids\<rparr>]\<rparr>)"

definition MarkPublishComplete :: "int \<Rightarrow> int \<Rightarrow> KafkaPoller \<Rightarrow> KafkaPoller" where
  "MarkPublishComplete p off k = (case map_of (kp_trackers k) p of
     None \<Rightarrow> k
   | Some t \<Rightarrow>
       let before = committed_offset t; (safe, t') = TrackerMark off t;
           k' = k\<lparr>kp_trackers := AList.update p t' (kp_trackers k)\<rparr> in
       if safe > before then k'\<lparr>kp_commits := kp_commits k @ [(p, safe)]\<rparr> else k')"

text \<open>
  The body of \<open>PollLoop\<close>: the commits queued so far are taken (and committed at \<open>offset + 1\<close>), and
  a consumed message gets a tracker for its partition, if it has none, and is queued.
\<close>

definition take_commits :: "KafkaPoller \<Rightarrow> (int \<times> int) list \<times> bool \<times> KafkaPoller" where
  "take_commits k = (kp_commits k, kp_stop k, k\<lparr>kp_commits := []\<rparr>)"

definition commit_positions :: "(int \<times> int) list \<Rightarrow> (int \<times> int) list" where
  "commit_positions cs = map (\<lambda>(p, off). (p, off + 1)) cs"

definition consume_message :: "KafkaMessage \<Rightarrow> KafkaPoller \<Rightarrow> KafkaPoller" where
  "consume_message m k = k\<lparr>kp_messages := kp_messages k @ [m],
     kp_trackers := (case map_of (kp_trackers k) (km_partition m) of
        None \<Rightarrow> AList.update (km_partition m) (MakeTracker (km_offset m - 1)) (kp_trackers k)
      | Some _ \<Rightarrow> kp_trackers k)\<rparr>"

section \<open>What a poller may commit\<close>

text \<open>
  The contract of the poller: given the positions whose results are published (\<open>done\<close>), everything
  up to a queued commit and up to a tracker's committed offset is done, provided that a partition
  is consumed from a position below which everything is done.
\<close>

definition done_up_to :: "(int \<Rightarrow> int \<Rightarrow> bool) \<Rightarrow> int \<Rightarrow> int \<Rightarrow> bool" where
  "done_up_to done' p off \<longleftrightarrow> (\<forall>x. 0 \<le> x \<and> x \<le> off \<longrightarrow> done' p x)"

definition tracker_safe :: "(int \<Rightarrow> int \<Rightarrow> bool) \<Rightarrow> int \<Rightarrow> ContiguousOffsetTracker \<Rightarrow> bool" where
  "tracker_safe done' p t \<longleftrightarrow> done_up_to done' p (committed_offset t) \<and> (\<exists>b M. tracks b M t \<and> (\<forall>x \<in> M. done' p x))"

definition poller_safe :: "(int \<Rightarrow> int \<Rightarrow> bool) \<Rightarrow> KafkaPoller \<Rightarrow> bool" where
  "poller_safe done' k \<longleftrightarrow> (\<forall>(p, t) \<in> set (kp_trackers k). tracker_safe done' p t) \<and>
     (\<forall>(p, off) \<in> set (kp_commits k). done_up_to done' p off)"

lemma done_up_to_mono:
  "(\<And>p x. done1 p x \<Longrightarrow> done2 p x) \<Longrightarrow> done_up_to done1 p off \<Longrightarrow> done_up_to done2 p off"
  by (auto simp: done_up_to_def)

lemma tracker_safe_mono:
  "(\<And>p x. done1 p x \<Longrightarrow> done2 p x) \<Longrightarrow> tracker_safe done1 p t \<Longrightarrow> tracker_safe done2 p t"
  unfolding tracker_safe_def using done_up_to_mono [of done1 done2] by blast

lemma poller_safe_mono:
  assumes "\<And>p x. done1 p x \<Longrightarrow> done2 p x" and "poller_safe done1 k"
  shows "poller_safe done2 k"
  using assms(2) tracker_safe_mono [of done1 done2, OF assms(1)] done_up_to_mono [of done1 done2, OF assms(1)]
  unfolding poller_safe_def by blast

lemma poller_safe_fields:
  assumes "kp_trackers k' = kp_trackers k" and "kp_commits k' = kp_commits k" and "poller_safe done' k"
  shows "poller_safe done' k'"
  using assms by (simp add: poller_safe_def)

lemma MakeKafkaPoller_safe: "MakeKafkaPoller b g t r = Inr k \<Longrightarrow> poller_safe done' k"
  by (auto simp: MakeKafkaPoller_def poller_safe_def split: if_splits)

lemma Pop_safe: "poller_safe done' k \<Longrightarrow> poller_safe done' (snd (Pop k))"
  by (auto simp: Pop_def poller_safe_def split: list.splits)

lemma PopOwnershipEvent_safe: "poller_safe done' k \<Longrightarrow> poller_safe done' (snd (PopOwnershipEvent k))"
  by (auto simp: PopOwnershipEvent_def poller_safe_def split: list.splits)

lemma take_commits_safe:
  assumes "poller_safe done' k" and "take_commits k = (cs, stop, k')"
  shows "poller_safe done' k'" and "\<forall>(p, off) \<in> set cs. done_up_to done' p off"
  using assms by (auto simp: take_commits_def poller_safe_def)

lemma set_update_alist: "set (AList.update k v al) \<subseteq> insert (k, v) (set al)"
  by (induction al) auto

lemma revoke_one_safe: "poller_safe done' k \<Longrightarrow> poller_safe done' (revoke_one p k)"
  unfolding poller_safe_def revoke_one_def by (auto simp: AList.delete_eq)

lemma fold_revoke_one_safe: "poller_safe done' k \<Longrightarrow> poller_safe done' (fold revoke_one ids k)"
  by (induction ids arbitrary: k) (auto intro: revoke_one_safe)

lemma rebalance_cb_safe: "poller_safe done' k \<Longrightarrow> poller_safe done' (rebalance_cb assign ids k)"
  using fold_revoke_one_safe [of done' k ids] by (auto simp: rebalance_cb_def poller_safe_def)

lemma consume_message_safe:
  assumes "poller_safe done' k"
    and first: "map_of (kp_trackers k) (km_partition m) = None \<Longrightarrow> done_up_to done' (km_partition m) (km_offset m - 1)"
  shows "poller_safe done' (consume_message m k)"
proof (cases "map_of (kp_trackers k) (km_partition m)")
  case None
  have "tracker_safe done' (km_partition m) (MakeTracker (km_offset m - 1))"
    using first [OF None] tracks_Make [of "km_offset m - 1"] unfolding tracker_safe_def
    by (auto simp: MakeTracker_def)
  with assms(1) None show ?thesis
    using set_update_alist [of "km_partition m" "MakeTracker (km_offset m - 1)" "kp_trackers k"]
    by (auto simp: consume_message_def poller_safe_def)
next
  case (Some t)
  with assms(1) show ?thesis by (simp add: consume_message_def poller_safe_def)
qed

lemma tracker_safe_Mark:
  assumes "tracker_safe done' p t" and "done' p off" and "TrackerMark off t = (safe, t')"
  shows "tracker_safe done' p t'" and "done_up_to done' p safe"
proof -
  from assms(1) obtain b M where bM: "tracks b M t" "\<forall>x \<in> M. done' p x" and d: "done_up_to done' p (committed_offset t)"
    by (auto simp: tracker_safe_def)
  have "tracker_safe done' p t' \<and> done_up_to done' p safe"
  proof (cases "b < off")
    case True
    note m = tracks_Mark [OF bM(1) assms(3) True]
    have M: "\<forall>x \<in> insert off M. done' p x" using bM(2) assms(2) by simp
    have "done_up_to done' p (committed_offset t')"
      unfolding done_up_to_def
    proof (intro allI impI)
      fix x
      assume x: "0 \<le> x \<and> x \<le> committed_offset t'"
      show "done' p x"
      proof (cases "x \<le> committed_offset t")
        case True
        with d x show ?thesis by (simp add: done_up_to_def)
      next
        case False
        with bM(1) x have "x \<in> {b<..committed_offset t'}" by (simp add: tracks_def)
        with m(1) M show ?thesis unfolding tracks_def by blast
      qed
    qed
    with m(1,2) M show ?thesis unfolding tracker_safe_def by blast
  next
    case False
    then show ?thesis using assms(1,3) d tracks_old_mark [OF bM(1), of off] by auto
  qed
  then show "tracker_safe done' p t'" "done_up_to done' p safe" by simp_all
qed

lemma MarkPublishComplete_safe:
  assumes "poller_safe done' k" and "done' p off"
  shows "poller_safe done' (MarkPublishComplete p off k)"
proof (cases "map_of (kp_trackers k) p")
  case None
  then show ?thesis using assms(1) by (simp add: MarkPublishComplete_def)
next
  case (Some t)
  obtain safe t' where m: "TrackerMark off t = (safe, t')" by force
  have "tracker_safe done' p t" using assms(1) map_of_SomeD [OF Some] by (auto simp: poller_safe_def)
  from tracker_safe_Mark [OF this assms(2) m] assms(1) show ?thesis
    using set_update_alist [of p t' "kp_trackers k"]
    by (auto simp: MarkPublishComplete_def Some m Let_def poller_safe_def)
qed

end
