(* ===== verification/DurableRouters.thy ===== *)
theory DurableRouters
  imports DurablePipeline KafkaPollers
begin

text \<open>
  \<open>cpp/src/durable_router_main.cpp\<close>: the main loop of the durable router, over the store, the
  ingestor, the relay and the poller. The engine behind the gRPC stub is the parameter \<open>stub\<close>
  (the events it streams and whether the call finished well), the parser and the publisher are
  parameters as before.
\<close>

section \<open>Dispatch and the result envelope\<close>

fun read_events :: "DispatchEvent list \<Rightarrow> string \<Rightarrow> string option" where
  "read_events [] result = Some result"
| "read_events (Ack REJECTED reason # es) result = None"
| "read_events (Ack ACCEPTED reason # es) result = read_events es result"
| "read_events (Progress e # es) result =
     read_events es (if pe_kind e = PROGRESS_COMPLETED then pe_result_ref e else result)"

definition RouterDispatch :: "(DispatchRequest \<Rightarrow> DispatchEvent list \<times> bool) \<Rightarrow> InferenceRequest \<Rightarrow> Fence \<Rightarrow> string" where
  "RouterDispatch stub request f =
     (let dispatch = \<lparr>dr_request = request, dr_fence = \<lparr>wf_partition_id = fe_partition_id f,
            wf_epoch = fe_epoch f, wf_attempt_id = fe_attempt_id f\<rparr>\<rparr>;
          (events, ok) = stub dispatch in
      case read_events events [] of None \<Rightarrow> [] | Some result \<Rightarrow> if ok then result else [])"

definition quote :: string where
  "quote = [CHR 0x22]"

definition ResultEnvelope :: "InferenceRequest \<Rightarrow> Fence \<Rightarrow> string \<Rightarrow> string" where
  "ResultEnvelope request f out =
     ''{'' @ quote @ ''request_id'' @ quote @ '':'' @ quote @ ir_request_id request @
     quote @ '','' @ quote @ ''trace_id'' @ quote @ '':'' @ quote @ ir_trace_id request @
     quote @ '','' @ quote @ ''span_id'' @ quote @ '':'' @ quote @ ir_span_id request @
     quote @ '','' @ quote @ ''ownership_epoch'' @ quote @ '':'' @ to_string (fe_epoch f) @ '','' @
     quote @ ''attempt_id'' @ quote @ '':'' @ to_string (fe_attempt_id f) @ '','' @
     quote @ ''output'' @ quote @ '':'' @ quote @ out @ quote @ ''}''"

section \<open>State of a router\<close>

record 'p RouterState =
  rt_router_id :: string
  rt_engine_id :: string
  rt_poller :: KafkaPoller
  rt_ingestor :: RequestIngestor
  rt_publisher :: 'p
  rt_epochs :: "(int \<times> nat) list"
  rt_completed :: nat
  rt_ready_file :: string
  rt_marker :: "string option"
  rt_failed :: bool

text \<open>
  \<open>rt_marker\<close> is what this process has written to the readiness file; \<open>rt_failed\<close> is set when the loop has ended because
  that file could not be opened.

  The code around the router: parser, engine stub, publisher and the clock of the database; for the start of the
  program the connection to the database (which has tables or not), the constructor of the publisher, and whether
  a file can be opened for writing.
\<close>

record 'p Environment =
  env_parse :: "string \<Rightarrow> InferenceRequest option"
  env_stub :: "DispatchRequest \<Rightarrow> DispatchEvent list \<times> bool"
  env_publish :: "OutboxRecord \<Rightarrow> 'p \<Rightarrow> bool \<times> 'p"
  env_now :: int
  env_connect :: "string \<Rightarrow> error + DurableStore option"
  env_make_publisher :: "string \<Rightarrow> error + 'p"
  env_opens :: "string \<Rightarrow> bool"

definition relay_all :: "'p Environment \<Rightarrow> 'p RouterState \<times> DurableStore \<Rightarrow> 'p RouterState \<times> DurableStore" where
  "relay_all env = (\<lambda>(rt, s).
     let (_, ps, s') = PublishBatch (env_publish env) (env_now env) 1000 (rt_publisher rt, s) in
     (rt\<lparr>rt_publisher := ps\<rparr>, s'))"

section \<open>The loop body\<close>

text \<open>The lambda \<open>execute\<close>.\<close>

definition execute :: "'p Environment \<Rightarrow> InferenceRequest \<Rightarrow> int \<Rightarrow> 'p RouterState \<Rightarrow> DurableStore \<Rightarrow> error + (bool \<times> DurableStore)" where
  "execute env request p rt s = (case map_of (rt_epochs rt) p of
     None \<Rightarrow> Inr (False, s)
   | Some epoch \<Rightarrow>
       if \<not> Owns p (rt_poller rt) then Inr (False, s)
       else bind_result (AssignAttempt (ir_request_id request) p epoch (rt_engine_id rt) s) (\<lambda>(assignment, s1).
         case assignment of
           None \<Rightarrow> Inr (False, s1)
         | Some a \<Rightarrow>
             let result = RouterDispatch (env_stub env) request (as_fence a) in
             if result = [] then Inr (False, s1)
             else Finalize (ir_request_id request) (as_fence a) (ResultEnvelope request (as_fence a) result) s1))"

fun acquire_all :: "int list \<Rightarrow> 'p RouterState \<times> DurableStore \<Rightarrow> error + ('p RouterState \<times> DurableStore)" where
  "acquire_all [] st = Inr st"
| "acquire_all (p # ps) (rt, s) = bind_result (AcquirePartition p (rt_router_id rt) s) (\<lambda>(epoch, s').
     acquire_all ps (rt\<lparr>rt_epochs := AList.update p epoch (rt_epochs rt)\<rparr>, s'))"

fun recover_all :: "'p Environment \<Rightarrow> RecoveredRequest list \<Rightarrow> 'p RouterState \<times> DurableStore \<Rightarrow>
    error + ('p RouterState \<times> DurableStore)" where
  "recover_all env [] st = Inr st"
| "recover_all env (q # qs) (rt, s) =
     (if rec_partition q \<notin> fst ` set (rt_epochs rt) then recover_all env qs (rt, s)
      else case env_parse env (rec_payload q) of
        None \<Rightarrow> recover_all env qs (rt, s)
      | Some request \<Rightarrow> bind_result (execute env request (rec_partition q) rt s) (\<lambda>(ok, s1).
          if ok then
            let (rt2, s2) = relay_all env (rt, s1) in
            recover_all env qs (rt2\<lparr>rt_completed := Suc (rt_completed rt2)\<rparr>, s2)
          else recover_all env qs (rt, s1)))"

definition write_marker :: "'p Environment \<Rightarrow> 'p RouterState \<Rightarrow> 'p RouterState" where
  "write_marker env rt =
     (if rt_ready_file rt = [] then rt
      else if env_opens env (rt_ready_file rt) then rt\<lparr>rt_marker := Some (''assigned'' @ [CHR 0x0A])\<rparr>
      else rt\<lparr>rt_failed := True\<rparr>)"

definition handle_ownership :: "'p Environment \<Rightarrow> OwnershipEvent \<Rightarrow> 'p RouterState \<times> DurableStore \<Rightarrow>
    error + ('p RouterState \<times> DurableStore)" where
  "handle_ownership env ev = (\<lambda>(rt, s). case oe_kind ev of
     kRevoked \<Rightarrow> Inr (rt\<lparr>rt_epochs := fold AList.delete (oe_partitions ev) (rt_epochs rt)\<rparr>, s)
   | kAssigned \<Rightarrow> bind_result (acquire_all (oe_partitions ev) (rt, s)) (\<lambda>(rt1, s1).
       let rt2 = write_marker env rt1 in
       if rt_failed rt2 then Inr (rt2, s1)
       else bind_result (RecoverUnresolved s1) (\<lambda>qs. recover_all env qs (rt2, s1))))"

text \<open>
  What is left to do for a message when its handling ends: report its offset to the poller, and
  whether the message counts as completed.
\<close>

datatype MarkAction = NoMark | Mark int int bool

definition mark_if_published :: "KafkaMessage \<Rightarrow> bool \<Rightarrow> DurableStore \<Rightarrow> MarkAction" where
  "mark_if_published m counts s =
     (if IsSourcePublished (km_partition m) (km_offset m) s then Mark (km_partition m) (km_offset m) counts else NoMark)"

definition handle_message :: "'p Environment \<Rightarrow> KafkaMessage \<Rightarrow> 'p RouterState \<times> DurableStore \<Rightarrow>
    error + (MarkAction \<times> 'p RouterState \<times> DurableStore)" where
  "handle_message env m = (\<lambda>(rt, s).
     if \<not> Owns (km_partition m) (rt_poller rt) then Inr (NoMark, rt, s)
     else bind_result (Handle (env_parse env) (km_partition m) (km_offset m) (km_payload m) (rt_ingestor rt, s))
       (\<lambda>(outcome, g, s1). let rt1 = rt\<lparr>rt_ingestor := g\<rparr> in
        if outcome = kRetryParse then Inr (NoMark, rt1, s1)
        else if outcome = kPoisonRecorded then
          let (rt2, s2) = relay_all env (rt1, s1) in Inr (mark_if_published m False s2, rt2, s2)
        else case env_parse env (km_payload m) of
          None \<Rightarrow> Inr (NoMark, rt1, s1)
        | Some request \<Rightarrow>
            if IsTerminal (ir_request_id request) s1 then
              let (rt2, s2) = relay_all env (rt1, s1) in Inr (mark_if_published m False s2, rt2, s2)
            else bind_result (execute env request (km_partition m) rt1 s1) (\<lambda>(ok, s2).
              if \<not> ok then Inr (NoMark, rt1, s2)
              else let (rt3, s3) = relay_all env (rt1, s2) in Inr (mark_if_published m True s3, rt3, s3))))"

definition finish_mark :: "MarkAction \<Rightarrow> 'p RouterState \<Rightarrow> 'p RouterState" where
  "finish_mark a rt = (case a of
     NoMark \<Rightarrow> rt
   | Mark p off counts \<Rightarrow> rt\<lparr>rt_poller := MarkPublishComplete p off (rt_poller rt),
       rt_completed := rt_completed rt + (if counts then 1 else 0)\<rparr>)"

text \<open>One round of the \<open>while\<close> loop, up to the report to the poller.\<close>

definition router_round :: "'p Environment \<Rightarrow> 'p RouterState \<times> DurableStore \<Rightarrow> error + (MarkAction \<times> 'p RouterState \<times> DurableStore)" where
  "router_round env = (\<lambda>(rt, s).
     case PopOwnershipEvent (rt_poller rt) of
       (Some ev, k) \<Rightarrow> bind_result (handle_ownership env ev (rt\<lparr>rt_poller := k\<rparr>, s)) (\<lambda>(rt', s'). Inr (NoMark, rt', s'))
     | (None, _) \<Rightarrow>
         (case Pop (rt_poller rt) of
            (None, _) \<Rightarrow> Inr (NoMark, rt, s)
          | (Some m, k) \<Rightarrow> handle_message env m (rt\<lparr>rt_poller := k\<rparr>, s)))"

definition router_iteration :: "'p Environment \<Rightarrow> 'p RouterState \<times> DurableStore \<Rightarrow> error + ('p RouterState \<times> DurableStore)" where
  "router_iteration env st = bind_result (router_round env st) (\<lambda>(a, rt, s). Inr (finish_mark a rt, s))"

end
