(* ===== verification/DurableSystem.thy ===== *)
theory DurableSystem
  imports DurableRouters
begin

text \<open>
  Any number of durable routers on one database and one Kafka consumer group, with their poll
  threads, rebalances, crashes and restarts interleaved, and the end-to-end guarantee: no offset is
  committed before the outcome of every message below it has been published.
\<close>

section \<open>What a round does to the store\<close>

lemma relay_all_spec:
  assumes "store_inv s" and "relay_all env (rt, s) = (rt', s')"
  shows "store_step\<^sup>*\<^sup>* s s'" and "rt' = rt\<lparr>rt_publisher := rt_publisher rt'\<rparr>"
proof -
  from publish_loop_spec [of "env_publish env" "env_now env" "FetchUnpublished 1000 s" "rt_publisher rt" s 0] assms(2)
  show "rt' = rt\<lparr>rt_publisher := rt_publisher rt'\<rparr>" "store_step\<^sup>*\<^sup>* s s'"
    using MarkPublished_fold(2) [OF assms(1)] by (auto simp: relay_all_def PublishBatch_def Let_def)
qed

lemma execute_cases:
  assumes "execute env request p rt s = Inr (ok, t)"
  obtains (idle) "\<not> ok" "t = s"
  | (assigned) e a where "\<not> ok" "AssignAttempt (ir_request_id request) p e (rt_engine_id rt) s = Inr (a, t)"
  | (finalized) e a s1 v where "AssignAttempt (ir_request_id request) p e (rt_engine_id rt) s = Inr (Some a, s1)"
      "Finalize (ir_request_id request) (as_fence a) v s1 = Inr (ok, t)"
proof (cases "map_of (rt_epochs rt) p")
  case None
  then show ?thesis using assms idle by (simp add: execute_def)
next
  case (Some e)
  show ?thesis
  proof (cases "Owns p (rt_poller rt)")
    case False
    then show ?thesis using assms idle Some by (simp add: execute_def)
  next
    case True
    then obtain a s1 where as: "AssignAttempt (ir_request_id request) p e (rt_engine_id rt) s = Inr (a, s1)"
      using assms Some by (auto simp: execute_def bind_result_eq_Inr)
    show ?thesis
    proof (cases a)
      case None
      then show ?thesis using assms Some True as assigned by (auto simp: execute_def)
    next
      case (Some a')
      then show ?thesis
        using assms \<open>map_of (rt_epochs rt) p = Some e\<close> True as assigned finalized
        by (cases "RouterDispatch (env_stub env) request (as_fence a') = []") (auto simp: execute_def Let_def)
    qed
  qed
qed

lemma execute_steps:
  assumes "execute env request p rt s = Inr (ok, t)"
  shows "store_step\<^sup>*\<^sup>* s t"
  using assms
proof (cases rule: execute_cases)
  case (finalized e a s1 v)
  then show ?thesis using store_step.assign store_step.finalize by (meson converse_rtranclp_into_rtranclp r_into_rtranclp)
qed (auto intro: store_step.assign)

lemma acquire_all_steps:
  "acquire_all ps (rt, s) = Inr (rt', t) \<Longrightarrow> store_step\<^sup>*\<^sup>* s t \<and> rt_poller rt' = rt_poller rt"
proof (induction ps arbitrary: rt s)
  case (Cons p ps)
  then obtain e s1 where a: "AcquirePartition p (rt_router_id rt) s = Inr (e, s1)"
    and r: "acquire_all ps (rt\<lparr>rt_epochs := AList.update p e (rt_epochs rt)\<rparr>, s1) = Inr (rt', t)"
    by (auto simp: bind_result_eq_Inr)
  from Cons.IH [OF r] store_step.acquire [OF a] show ?case by (auto intro: converse_rtranclp_into_rtranclp)
qed simp

lemma write_marker_fields [simp]:
  "rt_poller (write_marker env rt) = rt_poller rt" "rt_epochs (write_marker env rt) = rt_epochs rt"
  "rt_router_id (write_marker env rt) = rt_router_id rt" "rt_completed (write_marker env rt) = rt_completed rt"
  by (simp_all add: write_marker_def)

lemma recover_all_steps:
  "store_inv s \<Longrightarrow> recover_all env qs (rt, s) = Inr (rt', t) \<Longrightarrow> store_step\<^sup>*\<^sup>* s t \<and> rt_poller rt' = rt_poller rt"
proof (induction qs arbitrary: rt s)
  case (Cons q qs)
  show ?case
  proof (cases "rec_partition q \<in> fst ` set (rt_epochs rt) \<and> env_parse env (rec_payload q) \<noteq> None")
    case False
    then show ?thesis using Cons by (auto split: if_splits option.splits)
  next
    case True
    then obtain request where r: "env_parse env (rec_payload q) = Some request" by blast
    then obtain ok s1 where e: "execute env request (rec_partition q) rt s = Inr (ok, s1)"
      using Cons.prems(2) True by (auto simp: bind_result_eq_Inr)
    have s1: "store_step\<^sup>*\<^sup>* s s1" using execute_steps [OF e] .
    with Cons.prems(1) have i1: "store_inv s1" by (rule store_run.inv_steps [rotated])
    show ?thesis
    proof (cases ok)
      case True
      obtain rt2 s2 where l: "relay_all env (rt, s1) = (rt2, s2)" by force
      note sp = relay_all_spec [OF i1 l]
      have "recover_all env qs (rt2\<lparr>rt_completed := Suc (rt_completed rt2)\<rparr>, s2) = Inr (rt', t)"
        using Cons.prems(2) \<open>rec_partition q \<in> _ \<and> _\<close> r e True l by (simp add: Let_def)
      from Cons.IH [OF store_run.inv_steps [OF sp(1) i1] this] sp s1 show ?thesis
        by (metis RouterState.select_convs(3) RouterState.surjective RouterState.update_convs(5,7) rtranclp_trans)
    next
      case f: False
      then have "recover_all env qs (rt, s1) = Inr (rt', t)" using Cons.prems(2) True r e by simp
      from Cons.IH [OF i1 this] s1 show ?thesis by auto
    qed
  qed
qed simp

definition marks_published :: "DurableStore \<Rightarrow> MarkAction \<Rightarrow> bool" where
  "marks_published s a \<longleftrightarrow> (case a of NoMark \<Rightarrow> True | Mark p off counts \<Rightarrow> IsSourcePublished p off s)"

lemma mark_if_published_marks [simp]: "marks_published s (mark_if_published m counts s)"
  by (simp add: marks_published_def mark_if_published_def)

lemma marks_published_NoMark [simp]: "marks_published s NoMark"
  by (simp add: marks_published_def)

lemma relay_all_steps:
  assumes "store_inv s0" and "store_step\<^sup>*\<^sup>* s0 s" and "relay_all env (rt, s) = (rt', s')"
  shows "store_step\<^sup>*\<^sup>* s0 s' \<and> rt_poller rt' = rt_poller rt"
proof -
  have "store_inv s" using assms(2,1) by (rule store_run.inv_steps)
  from relay_all_spec [OF this assms(3)] assms(2) show ?thesis
    by (metis RouterState.ext_inject RouterState.surjective RouterState.update_convs(5) rtranclp_trans)
qed

lemma handle_message_spec:
  assumes inv: "store_inv s" and h: "handle_message env m (rt, s) = Inr (a, rt', t)"
  shows "store_step\<^sup>*\<^sup>* s t \<and> rt_poller rt' = rt_poller rt \<and> marks_published t a"
proof (cases "Owns (km_partition m) (rt_poller rt)")
  case False
  then show ?thesis using h by (simp add: handle_message_def)
next
  case True
  then obtain out g s1 where hd: "Handle (env_parse env) (km_partition m) (km_offset m) (km_payload m) (rt_ingestor rt, s) = Inr (out, g, s1)"
    using h by (auto simp: handle_message_def bind_result_eq_Inr)
  let ?rt = "rt\<lparr>rt_ingestor := g\<rparr>"
  note s1 = Handle_store_step [OF hd]
  obtain rt2 s2 where l: "relay_all env (?rt, s1) = (rt2, s2)" by force
  note l2 = relay_all_steps [OF inv s1 l]
  consider "out = kRetryParse" | "out = kPoisonRecorded" | "out = kInserted \<or> out = kDuplicate" by (cases out) auto
  then show ?thesis
  proof cases
    case 1
    then show ?thesis using h True hd s1 by (auto simp: handle_message_def Let_def)
  next
    case 2
    then show ?thesis using h True hd l l2 by (auto simp: handle_message_def Let_def)
  next
    case 3
    then have o: "out \<noteq> kRetryParse" "out \<noteq> kPoisonRecorded" by auto
    show ?thesis
    proof (cases "env_parse env (km_payload m)")
      case None
      then show ?thesis using h True hd s1 o by (auto simp: handle_message_def Let_def)
    next
      case (Some request)
      show ?thesis
      proof (cases "IsTerminal (ir_request_id request) s1")
        case t: True
        then show ?thesis using h True hd l l2 o Some by (auto simp: handle_message_def Let_def)
      next
        case f: False
        then obtain ok s3 where e: "execute env request (km_partition m) ?rt s1 = Inr (ok, s3)"
          using h True hd o Some by (auto simp: handle_message_def Let_def bind_result_eq_Inr)
        have s3: "store_step\<^sup>*\<^sup>* s s3" using s1 execute_steps [OF e] by simp
        obtain rt4 s4 where l4: "relay_all env (?rt, s3) = (rt4, s4)" by force
        from relay_all_steps [OF inv s3 l4] s3 show ?thesis
          using h True hd o Some f e l4 by (cases ok) (auto simp: handle_message_def Let_def)
      qed
    qed
  qed
qed

lemma router_round_spec:
  assumes inv: "store_inv s" and h: "router_round env (rt, s) = Inr (a, rt', t)"
  shows "store_step\<^sup>*\<^sup>* s t \<and> marks_published t a \<and> (poller_safe d (rt_poller rt) \<longrightarrow> poller_safe d (rt_poller rt'))"
proof (cases "PopOwnershipEvent (rt_poller rt)")
  case (Pair ev k)
  show ?thesis
  proof (cases ev)
    case None
    show ?thesis
    proof (cases "Pop (rt_poller rt)")
      case p: (Pair m k')
      then have "poller_safe d k'" if "poller_safe d (rt_poller rt)" using that Pop_safe [of d "rt_poller rt"] by simp
      then show ?thesis
        using h Pair None p handle_message_spec [OF inv, of env _ "rt\<lparr>rt_poller := k'\<rparr>" a rt' t]
        by (cases m) (auto simp: router_round_def)
    qed
  next
    case (Some e)
    have k: "poller_safe d k" if "poller_safe d (rt_poller rt)"
      using that Pair PopOwnershipEvent_safe [of d "rt_poller rt"] by simp
    let ?rt = "rt\<lparr>rt_poller := k\<rparr>"
    have ho: "handle_ownership env e (?rt, s) = Inr (rt', t)" and a: "a = NoMark"
      using h Pair Some by (auto simp: router_round_def bind_result_eq_Inr)
    have "store_step\<^sup>*\<^sup>* s t \<and> rt_poller rt' = k"
    proof (cases "oe_kind e")
      case kAssigned
      then obtain rt1 s1 where s1: "acquire_all (oe_partitions e) (?rt, s) = Inr (rt1, s1)"
        using ho by (auto simp: handle_ownership_def bind_result_eq_Inr)
      note a1 = acquire_all_steps [OF s1]
      show ?thesis
      proof (cases "rt_failed (write_marker env rt1)")
        case True
        then have "rt' = write_marker env rt1" "t = s1" using ho kAssigned s1 by (auto simp: handle_ownership_def Let_def)
        with a1 show ?thesis by simp
      next
        case False
        then obtain qs where "recover_all env qs (write_marker env rt1, s1) = Inr (rt', t)"
          using ho kAssigned s1 by (auto simp: handle_ownership_def bind_result_eq_Inr Let_def)
        with a1 recover_all_steps [OF store_run.inv_steps [OF _ inv], of s1 env qs "write_marker env rt1" rt' t]
        show ?thesis by auto
      qed
    qed (use ho in \<open>auto simp: handle_ownership_def\<close>)
    with k a show ?thesis by simp
  qed
qed

section \<open>Publication is permanent\<close>

definition published :: "DurableStore \<Rightarrow> int \<Rightarrow> int \<Rightarrow> bool" where
  "published s p off \<longleftrightarrow> (\<exists>b \<in> set (outbox s). ob_partition b = p \<and> ob_offset b = off \<and> ob_published_at b \<noteq> None)"

lemma IsSourcePublished_published: "IsSourcePublished p off s \<Longrightarrow> published s p off"
proof -
  assume i: "IsSourcePublished p off s"
  then obtain b bs where f: "filter (\<lambda>r. ob_partition r = p \<and> ob_offset r = off) (outbox s) = b # bs"
    by (auto simp: IsSourcePublished_def split: list.splits)
  with i have "ob_published_at b \<noteq> None" by (simp add: IsSourcePublished_def)
  with filter_Cons_in [OF f] show ?thesis by (auto simp: published_def)
qed

lemma insert_outbox_published:
  "insert_outbox topic key payload p' off' s = Inr t \<Longrightarrow> published s p off \<Longrightarrow> published t p off"
  by (auto simp: insert_outbox_def bind_result_eq_Inr published_def split: if_splits)

lemma store_step_published:
  assumes "store_step s t" and "published s p off"
  shows "published t p off"
  using assms(1)
proof cases
  case (acquire q router n)
  then show ?thesis using assms(2) by (auto elim!: AcquirePartition_cases simp: published_def)
next
  case (ingest rid q o' payload b)
  then have "outbox t = outbox s" by (auto simp: Ingest_def split: if_splits)
  then show ?thesis using assms(2) by (simp add: published_def)
next
  case (assign rid q epoch engine a)
  then show ?thesis using assms(2) by (auto elim!: AssignAttempt_cases simp: published_def)
next
  case (transit rid v frm nxt b)
  then show ?thesis using assms(2) by (auto elim!: Transition_cases simp: published_def)
next
  case (finalize rid f payload b)
  then show ?thesis
  proof (cases rule: Finalize_cases)
    case (some r)
    from insert_outbox_published [OF some(5)] assms(2) show ?thesis by (simp add: published_def)
  qed (use assms(2) in simp)
next
  case (poison q o' payload err b)
  then show ?thesis using assms(2) insert_outbox_published [where p = p and off = off]
    by (fastforce simp: RecordPoison_def bind_result_eq_Inr published_def split: if_splits)
next
  case (mark now oid)
  from assms(2) obtain b where b: "b \<in> set (outbox s)" "ob_partition b = p" "ob_offset b = off" "ob_published_at b \<noteq> None"
    by (auto simp: published_def)
  let ?b = "if ob_id b = oid then b\<lparr>ob_published_at := case ob_published_at b of None \<Rightarrow> Some now | Some t \<Rightarrow> Some t\<rparr> else b"
  have "?b \<in> set (outbox t)" using b(1) by (auto simp: mark MarkPublished_def set_sql_update)
  moreover have "ob_partition ?b = p \<and> ob_offset ?b = off \<and> ob_published_at ?b \<noteq> None" using b by auto
  ultimately show ?thesis unfolding published_def by blast
qed

lemma store_steps_published: "store_step\<^sup>*\<^sup>* s t \<Longrightarrow> published s p off \<Longrightarrow> published t p off"
  by (induction rule: rtranclp_induct) (auto intro: store_step_published)

section \<open>Several routers on one store\<close>

text \<open>
  \<open>sys_broker p\<close> is the offset committed for partition \<open>p\<close> in the consumer group: the next one a
  consumer without a position starts from. \<open>sys_pending i\<close> is the report that router \<open>i\<close> still
  has to make for the message it has handled.
\<close>

record 'p System =
  sys_store :: DurableStore
  sys_routers :: "nat \<Rightarrow> 'p RouterState"
  sys_pending :: "nat \<Rightarrow> MarkAction"
  sys_broker :: "int \<Rightarrow> int"

text \<open>A router that has just been started: nothing in memory.\<close>

definition fresh_router :: "'p RouterState \<Rightarrow> bool" where
  "fresh_router rt \<longleftrightarrow> kp_trackers (rt_poller rt) = [] \<and> kp_commits (rt_poller rt) = [] \<and>
     kp_messages (rt_poller rt) = [] \<and> kp_assigned (rt_poller rt) = [] \<and> rt_epochs rt = [] \<and> \<not> rt_failed rt"

definition sys_initial :: "'p System \<Rightarrow> bool" where
  "sys_initial y \<longleftrightarrow> sys_store y = Migrate None \<and> (\<forall>i. fresh_router (sys_routers y i) \<and> sys_pending y i = NoMark) \<and>
     sys_broker y = (\<lambda>p. 0)"

abbreviation set_poller :: "nat \<Rightarrow> KafkaPoller \<Rightarrow> 'p System \<Rightarrow> 'p System" where
  "set_poller i k y \<equiv> y\<lparr>sys_routers := (sys_routers y)(i := (sys_routers y i)\<lparr>rt_poller := k\<rparr>)\<rparr>"

text \<open>
  The steps: a round of a router's loop; its report to the poller; a rebalance; a consumed message
  (hypotheses on Kafka: offsets are not negative, and a consumer that has no tracker for the
  partition starts at or below the committed offset); a commit of queued offsets, of which the broker
  may accept any; any other transaction on the database; a crash and restart.
\<close>

inductive sys_step :: "'p System \<Rightarrow> 'p System \<Rightarrow> bool" where
  round: "sys_pending y i = NoMark \<Longrightarrow> \<not> rt_failed (sys_routers y i) \<Longrightarrow> router_round env (sys_routers y i, sys_store y) = Inr (a, rt, s) \<Longrightarrow>
    sys_step y (y\<lparr>sys_store := s, sys_routers := (sys_routers y)(i := rt), sys_pending := (sys_pending y)(i := a)\<rparr>)"
| report: "sys_step y (y\<lparr>sys_routers := (sys_routers y)(i := finish_mark (sys_pending y i) (sys_routers y i)),
    sys_pending := (sys_pending y)(i := NoMark)\<rparr>)"
| rebalance: "sys_step y (set_poller i (rebalance_cb assign ids (rt_poller (sys_routers y i))) y)"
| consume: "0 \<le> km_offset m \<Longrightarrow> Owns (km_partition m) (rt_poller (sys_routers y i)) \<Longrightarrow>
    (map_of (kp_trackers (rt_poller (sys_routers y i))) (km_partition m) = None \<longrightarrow>
      km_offset m \<le> sys_broker y (km_partition m)) \<Longrightarrow>
    sys_step y (set_poller i (consume_message m (rt_poller (sys_routers y i))) y)"
| commit: "take_commits (rt_poller (sys_routers y i)) = (cs, stop, k) \<Longrightarrow>
    set acc \<subseteq> set (commit_positions cs) \<Longrightarrow>
    sys_step y ((set_poller i k y)\<lparr>sys_broker := fold (\<lambda>(p, off) br. br(p := off)) acc (sys_broker y)\<rparr>)"
| other: "store_step (sys_store y) s \<Longrightarrow> sys_step y (y\<lparr>sys_store := s\<rparr>)"
| restart: "fresh_router rt \<Longrightarrow>
    sys_step y (y\<lparr>sys_routers := (sys_routers y)(i := rt), sys_pending := (sys_pending y)(i := NoMark)\<rparr>)"

definition sys_inv :: "'p System \<Rightarrow> bool" where
  "sys_inv y \<longleftrightarrow> store_inv (sys_store y) \<and>
     (\<forall>i. poller_safe (published (sys_store y)) (rt_poller (sys_routers y i))) \<and>
     (\<forall>i p off c. sys_pending y i = Mark p off c \<longrightarrow> published (sys_store y) p off) \<and>
     (\<forall>p. done_up_to (published (sys_store y)) p (sys_broker y p - 1))"

lemma fresh_router_safe: "fresh_router rt \<Longrightarrow> poller_safe d (rt_poller rt)"
  by (simp add: fresh_router_def poller_safe_def)

lemma sys_initial_inv: "sys_initial y \<Longrightarrow> sys_inv y"
  by (auto simp: sys_initial_def sys_inv_def Migrate_inv done_up_to_def intro: fresh_router_safe)

lemma sys_inv_store:
  assumes "sys_inv y" and "store_step\<^sup>*\<^sup>* (sys_store y) s"
  shows "sys_inv (y\<lparr>sys_store := s\<rparr>)"
proof -
  have mono: "published (sys_store y) p x \<Longrightarrow> published s p x" for p x using store_steps_published [OF assms(2)] .
  have "store_inv s" using assms(2,1) store_run.inv_steps by (auto simp: sys_inv_def)
  then show ?thesis
    using assms(1) poller_safe_mono [OF mono] done_up_to_mono [OF mono] mono
    by (auto simp: sys_inv_def)
qed

lemma sys_inv_poller:
  assumes "sys_inv y" and "poller_safe (published (sys_store y)) k"
  shows "sys_inv (set_poller i k y)"
  using assms by (simp add: sys_inv_def)

lemma fold_commit_done:
  assumes "\<forall>(p, off) \<in> set acc. done_up_to d p (off - 1)" and "\<forall>p. done_up_to d p (br p - 1)"
  shows "done_up_to d p (fold (\<lambda>(p, off) br. br(p := off)) acc br p - 1)"
  using assms
proof (induction acc arbitrary: br)
  case (Cons c acc)
  obtain q off where "c = (q, off)" by force
  with Cons show ?case by simp
qed simp

lemma sys_step_inv:
  assumes inv: "sys_inv y" and "sys_step y z"
  shows "sys_inv z"
  using assms(2)
proof cases
  case (round i env a rt s)
  have "store_inv (sys_store y)" using inv by (simp add: sys_inv_def)
  note sp = router_round_spec [OF this round(4)]
  have "poller_safe (published s) (rt_poller rt)"
  proof -
    have "poller_safe (published (sys_store y)) (rt_poller rt)" using inv sp by (auto simp: sys_inv_def)
    then show ?thesis using store_steps_published [of "sys_store y" s] sp by (blast intro: poller_safe_mono)
  qed
  moreover have "a = Mark p off c \<Longrightarrow> published s p off" for p off c
    using sp IsSourcePublished_published by (auto simp: marks_published_def)
  moreover have "sys_inv (y\<lparr>sys_store := s\<rparr>)" using sys_inv_store [OF inv] sp by blast
  ultimately show ?thesis unfolding round(1) by (auto simp: sys_inv_def)
next
  case (report i)
  show ?thesis
  proof (cases "sys_pending y i")
    case NoMark
    then show ?thesis using inv unfolding report by (auto simp: sys_inv_def finish_mark_def)
  next
    case (Mark p off c)
    then have "published (sys_store y) p off" using inv unfolding sys_inv_def by blast
    from MarkPublishComplete_safe [where done' = "published (sys_store y)", OF _ this] inv Mark show ?thesis
      unfolding report by (auto simp: sys_inv_def finish_mark_def)
  qed
next
  case (rebalance i assign ids)
  then show ?thesis using inv by (auto intro!: sys_inv_poller rebalance_cb_safe simp: sys_inv_def)
next
  case (consume m i)
  have "done_up_to (published (sys_store y)) (km_partition m) (km_offset m - 1)"
    if "map_of (kp_trackers (rt_poller (sys_routers y i))) (km_partition m) = None"
    using inv consume(4) that unfolding sys_inv_def done_up_to_def by fastforce
  then show ?thesis unfolding consume(1)
    using inv by (intro sys_inv_poller consume_message_safe) (auto simp: sys_inv_def)
next
  case (commit i cs stop k acc)
  have s: "poller_safe (published (sys_store y)) (rt_poller (sys_routers y i))" using inv by (simp add: sys_inv_def)
  note tc = take_commits_safe [OF s commit(2)]
  have "\<forall>(p, off) \<in> set acc. done_up_to (published (sys_store y)) p (off - 1)"
    using tc(2) commit(3) by (fastforce simp: commit_positions_def)
  from fold_commit_done [OF this] inv sys_inv_poller [OF inv tc(1), of i] show ?thesis
    unfolding commit(1) by (simp add: sys_inv_def)
next
  case (other s)
  then show ?thesis using sys_inv_store [OF inv] by blast
next
  case (restart rt i)
  then show ?thesis using inv fresh_router_safe [of rt] by (auto simp: sys_inv_def)
qed

interpretation sys_run: invariant_system sys_initial sys_step sys_inv
  by unfold_locales (auto intro: sys_initial_inv sys_step_inv)


section \<open>A run\<close>

text \<open>One router takes partition 0, reads one request, has it executed, publishes it and commits.\<close>

definition demo_env :: "unit Environment" where
  "demo_env = \<lparr>env_parse = parse_example,
     env_stub = (\<lambda>d. ([Ack ACCEPTED [], Progress \<lparr>pe_kind = PROGRESS_COMPLETED, pe_request_id = ir_request_id (dr_request d),
        pe_fence = dr_fence d, pe_tokens_generated = 2, pe_result_ref = ''out'', pe_prefix_cache_hit = False,
        pe_result_cache_hit = False, pe_failure_reason = [], pe_retryable = False, pe_trace_id = [], pe_span_id = []\<rparr>], True)),
     env_publish = (\<lambda>r ps. (True, ps)), env_now = 9, env_connect = (\<lambda>_. Inr None), env_make_publisher = (\<lambda>_. Inr ()),
     env_opens = (\<lambda>_. True)\<rparr>"

definition demo_router :: "bool \<Rightarrow> unit RouterState" where
  "demo_router assigned = \<lparr>rt_router_id = ''a'', rt_engine_id = ''e'',
     rt_poller = (if assigned then rebalance_cb True [0] else id) (projr (MakeKafkaPoller ''b'' ''g'' ''t'' ''earliest'')),
     rt_ingestor = MakeRequestIngestor 3, rt_publisher = (), rt_epochs = [], rt_completed = 0,
     rt_ready_file = ''/tmp/ready'', rt_marker = None, rt_failed = False\<rparr>"

definition demo_message :: "int \<Rightarrow> string \<Rightarrow> KafkaMessage" where
  "demo_message off payload = \<lparr>km_payload = payload, km_key = [], km_partition = 0, km_offset = off\<rparr>"

definition demo_owned :: "MarkAction \<times> unit RouterState \<times> DurableStore" where
  "demo_owned = projr (router_round demo_env (demo_router True, Migrate None))"

definition demo_reading :: "int \<Rightarrow> string \<Rightarrow> unit RouterState \<times> DurableStore \<Rightarrow> unit RouterState \<times> DurableStore" where
  "demo_reading off payload = (\<lambda>(rt, s). (rt\<lparr>rt_poller := consume_message (demo_message off payload) (rt_poller rt)\<rparr>, s))"

definition demo_served :: "MarkAction \<times> unit RouterState \<times> DurableStore" where
  "demo_served = projr (router_round demo_env (demo_reading 0 ''q'' (snd demo_owned)))"

lemma Inr_projr: "\<not> isl x \<Longrightarrow> x = Inr (projr x)"
  by (cases x) auto

lemma demo_owned_round: "router_round demo_env (demo_router True, Migrate None) = Inr demo_owned"
proof -
  have "\<not> isl (router_round demo_env (demo_router True, Migrate None))" by code_simp
  then show ?thesis unfolding demo_owned_def by (rule Inr_projr)
qed

lemma demo_served_round: "router_round demo_env (demo_reading 0 ''q'' (snd demo_owned)) = Inr demo_served"
proof -
  have "\<not> isl (router_round demo_env (demo_reading 0 ''q'' (snd demo_owned)))" by code_simp
  then show ?thesis unfolding demo_served_def by (rule Inr_projr)
qed

lemma demo_owned_facts:
  "fst demo_owned = NoMark" "Owns 0 (rt_poller (fst (snd demo_owned)))" "kp_trackers (rt_poller (fst (snd demo_owned))) = []"
  "\<not> rt_failed (fst (snd demo_owned))"
  by code_simp+

lemma demo_served_facts:
  "fst demo_served = Mark 0 0 True" "kp_commits (rt_poller (finish_mark (fst demo_served) (fst (snd demo_served)))) = [(0, 0)]"
  by code_simp+

text \<open>The run as steps of the system: the offset of the message ends up committed.\<close>

definition demo_system :: "unit System" where
  "demo_system = \<lparr>sys_store = Migrate None, sys_routers = (\<lambda>i. demo_router False), sys_pending = (\<lambda>i. NoMark),
     sys_broker = (\<lambda>p. 0)\<rparr>"

lemma demo_initial: "sys_initial demo_system"
  by (simp add: sys_initial_def demo_system_def fresh_router_def demo_router_def MakeKafkaPoller_def)

lemma demo_router_running: "\<not> rt_failed (demo_router assigned)"
  by (simp add: demo_router_def)

lemma demo_run: "\<exists>y. sys_step\<^sup>*\<^sup>* demo_system y \<and> sys_broker y 0 = 1"
proof -
  obtain rt2 s2 where o: "demo_owned = (NoMark, rt2, s2)" using demo_owned_facts(1) by (metis prod.collapse)
  obtain rt4 s4 where v: "demo_served = (Mark 0 0 True, rt4, s4)" using demo_served_facts(1) by (metis prod.collapse)
  define rt1 where "rt1 = (\<lambda>i :: nat. if i = 0 then demo_router True else demo_router False)"
  define y1 where "y1 = demo_system\<lparr>sys_routers := rt1\<rparr>"
  have "demo_router True = (demo_router False)\<lparr>rt_poller := rebalance_cb True [0] (rt_poller (demo_router False))\<rparr>"
    by (simp add: demo_router_def)
  then have "y1 = set_poller 0 (rebalance_cb True [0] (rt_poller (sys_routers demo_system 0))) demo_system"
    by (auto simp: y1_def rt1_def demo_system_def fun_eq_iff)
  then have 1: "sys_step demo_system y1" by (simp only: sys_step.rebalance)
  define y2 where "y2 = y1\<lparr>sys_store := s2, sys_routers := (sys_routers y1)(0 := rt2), sys_pending := (sys_pending y1)(0 := NoMark)\<rparr>"
  have 2: "sys_step y1 y2" unfolding y2_def
    by (rule sys_step.round [where env = demo_env])
      (use demo_owned_round [unfolded o] in \<open>simp_all add: y1_def rt1_def demo_system_def demo_router_running\<close>)
  define rt3 where "rt3 = rt2\<lparr>rt_poller := consume_message (demo_message 0 ''q'') (rt_poller rt2)\<rparr>"
  define y3 where "y3 = y2\<lparr>sys_routers := (sys_routers y2)(0 := rt3)\<rparr>"
  have "y3 = set_poller 0 (consume_message (demo_message 0 ''q'') (rt_poller (sys_routers y2 0))) y2"
    by (simp add: y3_def rt3_def y2_def)
  moreover have "sys_step y2 (set_poller 0 (consume_message (demo_message 0 ''q'') (rt_poller (sys_routers y2 0))) y2)"
    using demo_owned_facts(2) [unfolded o] by (intro sys_step.consume) (simp_all add: y2_def y1_def demo_system_def demo_message_def)
  ultimately have 3: "sys_step y2 y3" by simp
  define y4 where "y4 = y3\<lparr>sys_store := s4, sys_routers := (sys_routers y3)(0 := rt4), sys_pending := (sys_pending y3)(0 := Mark 0 0 True)\<rparr>"
  have 4: "sys_step y3 y4" unfolding y4_def
    by (rule sys_step.round [where env = demo_env])
      (use demo_served_round [unfolded o v] demo_owned_facts(4) [unfolded o] in \<open>simp_all add: y3_def y2_def rt3_def demo_reading_def\<close>)
  define y5 where "y5 = y4\<lparr>sys_routers := (sys_routers y4)(0 := finish_mark (sys_pending y4 0) (sys_routers y4 0)),
    sys_pending := (sys_pending y4)(0 := NoMark)\<rparr>"
  have 5: "sys_step y4 y5" unfolding y5_def by (rule sys_step.report)
  have c: "kp_commits (rt_poller (sys_routers y5 0)) = [(0, 0)]" using demo_served_facts(2) [unfolded v] by (simp add: y5_def y4_def)
  define k where "k = (rt_poller (sys_routers y5 0))\<lparr>kp_commits := []\<rparr>"
  have "sys_step y5 ((set_poller 0 k y5)\<lparr>sys_broker := fold (\<lambda>(p, off) br. br(p := off)) [(0, 1)] (sys_broker y5)\<rparr>)"
    by (rule sys_step.commit [where cs = "[(0, 0)]"]) (simp_all add: take_commits_def c k_def commit_positions_def)
  with 1 2 3 4 5 have "sys_step\<^sup>*\<^sup>* demo_system ((set_poller 0 k y5)\<lparr>sys_broker := fold (\<lambda>(p, off) br. br(p := off)) [(0, 1)] (sys_broker y5)\<rparr>)"
    by (meson converse_rtranclp_into_rtranclp r_into_rtranclp)
  then show ?thesis by (intro exI conjI) auto
qed


section \<open>Messages that are never committed\<close>

text \<open>
  The first delivery of a message that cannot be parsed: the loop drops it. It is neither queued
  again nor recorded, so the retries that would lead to the dead-letter topic do not happen until the
  partition is consumed anew.
\<close>

lemma unparsable_message_dropped:
  "case router_iteration demo_env (demo_reading 0 ''bad'' (snd demo_owned)) of
     Inl _ \<Rightarrow> False
   | Inr (rt, s) \<Rightarrow> kp_messages (rt_poller rt) = [] \<and> kp_commits (rt_poller rt) = [] \<and> poison_messages s = [] \<and>
       inference_requests s = [] \<and> outbox s = []"
  by code_simp

definition no_outcome :: "DurableStore \<Rightarrow> int \<Rightarrow> int \<Rightarrow> bool" where
  "no_outcome s p off \<longleftrightarrow> (\<forall>b \<in> set (outbox s). \<not> (ob_partition b = p \<and> ob_offset b = off))"

definition read_elsewhere :: "DurableStore \<Rightarrow> string \<Rightarrow> int \<Rightarrow> int \<Rightarrow> bool" where
  "read_elsewhere s rid p off \<longleftrightarrow> (\<exists>r \<in> set (inference_requests s). rr_request_id r = rid \<and> (rr_partition r, rr_offset r) \<noteq> (p, off))"

lemma no_outcome_map: "no_outcome s p off \<longleftrightarrow> (p, off) \<notin> set (map (\<lambda>b. (ob_partition b, ob_offset b)) (outbox s))"
  by (auto simp: no_outcome_def)

lemma no_outcome_unpublished: "no_outcome s p off \<Longrightarrow> \<not> IsSourcePublished p off s"
  using IsSourcePublished_published by (fastforce simp: published_def no_outcome_def)

lemma read_elsewhere_steps:
  assumes "store_inv s" and "store_step\<^sup>*\<^sup>* s t" and "read_elsewhere s rid p off"
  shows "read_elsewhere t rid p off"
  using assms(3) store_steps_row [OF assms(2,1)] unfolding read_elsewhere_def row_le_def by metis

lemma MarkPublished_fold_no_outcome:
  fixes rs :: "OutboxRecord list"
  shows "no_outcome (fold (\<lambda>r. MarkPublished now (or_id r)) rs s) p off = no_outcome s p off"
proof (induction rs arbitrary: s)
  case (Cons r rs)
  have "map (\<lambda>b. (ob_partition b, ob_offset b)) (outbox (MarkPublished now (or_id r) s)) =
      map (\<lambda>b. (ob_partition b, ob_offset b)) (outbox s)"
    unfolding MarkPublished_def by (simp, rule sql_update_keeps) simp
  then have "no_outcome (MarkPublished now (or_id r) s) p off = no_outcome s p off" by (simp only: no_outcome_map)
  with Cons show ?case by simp
qed simp

lemma relay_all_no_outcome: "relay_all env (rt, s) = (rt', s') \<Longrightarrow> no_outcome s p off \<Longrightarrow> no_outcome s' p off"
  using publish_loop_spec [of "env_publish env" "env_now env" "FetchUnpublished 1000 s" "rt_publisher rt" s 0]
  by (auto simp: relay_all_def PublishBatch_def Let_def MarkPublished_fold_no_outcome)

lemma execute_no_outcome:
  assumes inv: "store_inv s" and "execute env request q rt s = Inr (ok, t)"
    and e: "read_elsewhere s (ir_request_id request) p off" and "no_outcome s p off"
  shows "no_outcome t p off"
  using assms(2)
proof (cases rule: execute_cases)
  case (assigned ep a)
  then have "outbox t = outbox s" by (auto elim!: AssignAttempt_cases)
  with assms(4) show ?thesis by (simp add: no_outcome_def)
next
  case (finalized ep a s1 v)
  have s1: "store_inv s1" "outbox s1 = outbox s"
    using AssignAttempt_inv [OF inv finalized(1)] finalized(1) by (auto elim!: AssignAttempt_cases)
  have e1: "read_elsewhere s1 (ir_request_id request) p off"
    using read_elsewhere_steps [OF inv _ e] store_step.assign [OF finalized(1)] by blast
  show ?thesis
  proof (cases ok)
    case False
    with finalized(2) show ?thesis using s1(2) assms(4) by (auto elim!: Finalize_cases simp: no_outcome_def)
  next
    case True
    with finalized(2) have "Finalize (ir_request_id request) (as_fence a) v s1 = Inr (True, t)" by simp
    then obtain r where r: "r \<in> set (inference_requests s1)" "fence_sel (ir_request_id request) (as_fence a) r"
      and t: "t = accept (ir_request_id request) v r s1" by (rule Finalize_accepted [OF s1(1)])
    from e1 obtain r' where "r' \<in> set (inference_requests s1)" "rr_request_id r' = ir_request_id request"
      "(rr_partition r', rr_offset r') \<noteq> (p, off)" by (auto simp: read_elsewhere_def)
    with r have "(rr_partition r, rr_offset r) \<noteq> (p, off)"
      using request_row_unique [OF s1(1), of r r'] by (auto simp: finalize_sel_def)
    then show ?thesis using assms(4) s1(2) by (auto simp: t accept_select no_outcome_def)
  qed
qed (use assms(4) in simp)

text \<open>
  A request id that was already read from another position blocks its partition. When a message
  carries the id of a request known from another source position, handling it never reports the
  message's own offset to the poller, whatever the engine and the publisher do, and nothing about
  that position reaches the outbox; so the same holds for every later delivery, and the committed
  offset stays below the message.
\<close>

theorem duplicate_id_never_reported:
  assumes inv: "store_step\<^sup>*\<^sup>* (Migrate None) s" and h: "handle_message env m (rt, s) = Inr (a, rt', t)"
    and parse: "env_parse env (km_payload m) = Some request" "ir_request_id request \<noteq> []"
    and known: "read_elsewhere s (ir_request_id request) (km_partition m) (km_offset m)"
    and none: "no_outcome s (km_partition m) (km_offset m)"
  shows "a = NoMark \<and> read_elsewhere t (ir_request_id request) (km_partition m) (km_offset m) \<and>
    no_outcome t (km_partition m) (km_offset m)"
proof -
  let ?rid = "ir_request_id request"
  have s: "store_inv s" using inv Migrate_inv by (rule store_run.inv_steps)
  from known have "\<exists>r \<in> set (inference_requests s). rr_request_id r = ?rid \<or> rr_partition r = km_partition m \<and> rr_offset r = km_offset m"
    by (auto simp: read_elsewhere_def)
  then have "Ingest ?rid (km_partition m) (km_offset m) (km_payload m) s = (False, s)" unfolding Ingest_def by (rule if_P)
  then obtain g where hd: "Handle (env_parse env) (km_partition m) (km_offset m) (km_payload m) (rt_ingestor rt, s) = Inr (kDuplicate, g, s)"
    using parse by (simp add: Handle_def parsed_request_def)
  let ?rt = "rt\<lparr>rt_ingestor := g\<rparr>"
  have "a = NoMark \<and> no_outcome t (km_partition m) (km_offset m)"
  proof (cases "Owns (km_partition m) (rt_poller rt) \<and> \<not> IsTerminal ?rid s")
    case False
    obtain rt2 s2 where l: "relay_all env (?rt, s) = (rt2, s2)" by force
    note n = relay_all_no_outcome [OF l none]
    with h hd parse(1) l none False no_outcome_unpublished [OF n] show ?thesis
      by (auto simp: handle_message_def Let_def mark_if_published_def split: if_splits)
  next
    case True
    then obtain ok s3 where e: "execute env request (km_partition m) ?rt s = Inr (ok, s3)"
      using h hd parse(1) by (auto simp: handle_message_def Let_def bind_result_eq_Inr)
    obtain rt4 s4 where l: "relay_all env (?rt, s3) = (rt4, s4)" by force
    note n3 = execute_no_outcome [OF s e known none]
    note n4 = relay_all_no_outcome [OF l n3]
    show ?thesis using h hd parse(1) True e l n3 n4 no_outcome_unpublished [OF n4]
      by (auto simp: handle_message_def Let_def mark_if_published_def split: if_splits)
  qed
  with handle_message_spec [OF s h] read_elsewhere_steps [OF s _ known] show ?thesis by blast
qed

definition demo_store :: DurableStore where
  "demo_store = run_completed (Some 9)"

theorem duplicate_id_never_reported_witness:
  "\<exists>a rt t. handle_message demo_env (demo_message 6 ''r'') (demo_router True, demo_store) = Inr (a, rt, t) \<and>
    a = NoMark \<and> no_outcome t 0 6"
proof -
  have "store_step\<^sup>*\<^sup>* (Migrate None) (run_completed None)" using run_steps(4) store_step.finalize [OF run_finalize] by simp
  then have reach: "store_step\<^sup>*\<^sup>* (Migrate None) demo_store" using run_steps(5) unfolding demo_store_def by simp
  have "\<not> isl (handle_message demo_env (demo_message 6 ''r'') (demo_router True, demo_store))" by code_simp
  then obtain a rt t where h: "handle_message demo_env (demo_message 6 ''r'') (demo_router True, demo_store) = Inr (a, rt, t)"
    by (metis Inr_projr prod.collapse)
  let ?rq = "the (parse_example ''r'')"
  have "a = NoMark \<and> read_elsewhere t (ir_request_id ?rq) 0 6 \<and> no_outcome t 0 6"
    using duplicate_id_never_reported [OF reach h, of ?rq]
    by (simp add: demo_env_def demo_message_def parse_example_def read_elsewhere_def no_outcome_def demo_store_def run_completed_def)
  with h show ?thesis by blast
qed

end
