(* ===== verification/RouterServices.thy ===== *)
theory RouterServices
  imports WireTypes "HOL-Library.AList"
begin

text \<open>
  \<open>cpp/src/router_service.cpp\<close>: the engine registry of a router with its heartbeat leases, and the
  client side of the protocol in \<open>cpp/src/engine_main.cpp\<close> (registration loop and heartbeat
  thread). Time points are integers in nanoseconds and are arguments of the operations that read
  \<open>steady_clock\<close>; \<open>lease_ttl_\<close> is in milliseconds. The \<open>unordered_map\<close> of engines is an association
  list; its iteration order, which the standard leaves open, is the parameter \<open>iter\<close> of the two
  operations that iterate, about which only \<open>iteration_order\<close> is assumed.
\<close>

record RegisterRequest =
  reg_engine_id :: string
  reg_incarnation_id :: string
  reg_models :: "string list"
  reg_capacity :: EngineCapacity
  reg_endpoint :: string

record RegisterReply =
  reg_accepted :: bool
  reg_lease_ttl_ms :: nat

record HeartbeatRequest =
  hb_engine_id :: string
  hb_incarnation_id :: string
  hb_capacity :: EngineCapacity

record EngineRecord =
  er_engine_id :: string
  er_incarnation_id :: string
  er_endpoint :: string
  er_capacity :: EngineCapacity
  er_last_heartbeat :: int

record RouterService =
  lease_ttl :: nat
  engines :: "(string \<times> EngineRecord) list"

definition MakeRouterService :: "nat \<Rightarrow> RouterService" where
  "MakeRouterService ttl = \<lparr>lease_ttl = ttl, engines = []\<rparr>"

section \<open>Operations\<close>

text \<open>\<open>Register\<close> overwrites the record of the engine id; it does not look at the old one.\<close>

definition Register :: "int \<Rightarrow> RegisterRequest \<Rightarrow> RouterService \<Rightarrow> RegisterReply \<times> RouterService" where
  "Register now r s =
     (if reg_engine_id r = [] \<or> reg_incarnation_id r = [] \<or> reg_endpoint r = []
      then (\<lparr>reg_accepted = False, reg_lease_ttl_ms = 0\<rparr>, s)
      else (\<lparr>reg_accepted = True, reg_lease_ttl_ms = lease_ttl s mod u64\<rparr>,
        s\<lparr>engines := AList.update (reg_engine_id r)
            \<lparr>er_engine_id = reg_engine_id r, er_incarnation_id = reg_incarnation_id r,
             er_endpoint = reg_endpoint r, er_capacity = reg_capacity r, er_last_heartbeat = now\<rparr>
            (engines s)\<rparr>))"

definition lease_expired :: "int \<Rightarrow> nat \<Rightarrow> EngineRecord \<Rightarrow> bool" where
  "lease_expired now ttl e \<longleftrightarrow> now - er_last_heartbeat e \<ge> int ttl * 1000000"

definition PruneExpiredLocked :: "int \<Rightarrow> RouterService \<Rightarrow> RouterService" where
  "PruneExpiredLocked now s = s\<lparr>engines := filter (\<lambda>(k, e). \<not> lease_expired now (lease_ttl s) e) (engines s)\<rparr>"

text \<open>
  \<open>Heartbeat\<close> reads the clock twice, once to prune and once for the new time stamp.
\<close>

definition Heartbeat :: "int \<Rightarrow> int \<Rightarrow> HeartbeatRequest \<Rightarrow> RouterService \<Rightarrow> bool \<times> RouterService" where
  "Heartbeat now now' h s =
     (let s1 = PruneExpiredLocked now s in
      case map_of (engines s1) (hb_engine_id h) of
        None \<Rightarrow> (False, s1)
      | Some e \<Rightarrow>
          if er_incarnation_id e \<noteq> hb_incarnation_id h then (False, s1)
          else (True, s1\<lparr>engines := AList.update (hb_engine_id h)
             (e\<lparr>er_capacity := hb_capacity h, er_last_heartbeat := now'\<rparr>) (engines s1)\<rparr>))"

text \<open>The calls other threads make while a waiter has released the lock.\<close>

datatype RouterCall =
    CallRegister int RegisterRequest
  | CallHeartbeat int int HeartbeatRequest

fun router_call :: "RouterCall \<Rightarrow> RouterService \<Rightarrow> RouterService" where
  "router_call (CallRegister now r) s = snd (Register now r s)"
| "router_call (CallHeartbeat now now' h) s = snd (Heartbeat now now' h s)"

text \<open>
  \<open>condition_variable::wait_for\<close> with a predicate: evaluate; if false sleep until notified (or woken
  spuriously), let the other threads run meanwhile, evaluate again; after the timeout evaluate once
  more and return that. \<open>wakes\<close> are the wake-ups before the timeout and \<open>tmo\<close> the one of the timeout,
  each with its time and with what other threads did. The result has the time and state of the last
  evaluation.
\<close>

fun wait_for :: "(int \<Rightarrow> RouterService \<Rightarrow> bool \<times> RouterService) \<Rightarrow> int \<Rightarrow> (int \<times> RouterCall list) list \<Rightarrow>
    int \<times> RouterCall list \<Rightarrow> RouterService \<Rightarrow> bool \<times> int \<times> RouterService" where
  "wait_for pred now [] tmo s =
     (let (ok, s1) = pred now s in
      if ok then (True, now, s1)
      else let (ok', s2) = pred (fst tmo) (fold router_call (snd tmo) s1) in (ok', fst tmo, s2))"
| "wait_for pred now (w # wakes) tmo s =
     (let (ok, s1) = pred now s in
      if ok then (True, now, s1)
      else wait_for pred (fst w) wakes tmo (fold router_call (snd w) s1))"

definition has_live_engine :: "int \<Rightarrow> RouterService \<Rightarrow> bool \<times> RouterService" where
  "has_live_engine now s = (let s1 = PruneExpiredLocked now s in (engines s1 \<noteq> [], s1))"

definition WaitForEngine :: "((string \<times> EngineRecord) list \<Rightarrow> (string \<times> EngineRecord) list) \<Rightarrow> int \<Rightarrow>
    (int \<times> RouterCall list) list \<Rightarrow> int \<times> RouterCall list \<Rightarrow> RouterService \<Rightarrow> EngineRecord option \<times> int \<times> RouterService" where
  "WaitForEngine iter now wakes tmo s =
     (case wait_for has_live_engine now wakes tmo s of
        (False, t, s1) \<Rightarrow> (None, t, s1)
      | (True, t, s1) \<Rightarrow> (Some (snd (hd (iter (engines s1)))), t, s1))"

fun find_incarnation :: "string \<Rightarrow> (string \<times> EngineRecord) list \<Rightarrow> EngineRecord option" where
  "find_incarnation previous [] = None"
| "find_incarnation previous ((k, e) # es) =
     (if er_incarnation_id e \<noteq> previous then Some e else find_incarnation previous es)"

definition has_new :: "((string \<times> EngineRecord) list \<Rightarrow> (string \<times> EngineRecord) list) \<Rightarrow> string \<Rightarrow> int \<Rightarrow>
    RouterService \<Rightarrow> bool \<times> RouterService" where
  "has_new iter previous now s =
     (let s1 = PruneExpiredLocked now s in (find_incarnation previous (iter (engines s1)) \<noteq> None, s1))"

definition WaitForNewIncarnation :: "((string \<times> EngineRecord) list \<Rightarrow> (string \<times> EngineRecord) list) \<Rightarrow> string \<Rightarrow> int \<Rightarrow>
    (int \<times> RouterCall list) list \<Rightarrow> int \<times> RouterCall list \<Rightarrow> RouterService \<Rightarrow> EngineRecord option \<times> int \<times> RouterService" where
  "WaitForNewIncarnation iter previous now wakes tmo s =
     (case wait_for (has_new iter previous) now wakes tmo s of
        (False, t, s1) \<Rightarrow> (None, t, s1)
      | (True, t, s1) \<Rightarrow> (find_incarnation previous (iter (engines s1)), t, s1))"

section \<open>The engine process\<close>

text \<open>
  \<open>main\<close> of \<open>engine_main.cpp\<close> tries to register at most 100 times. The channel is the parameter
  \<open>stub\<close>: the status of the call and the reply, which may depend on everything that happened before.
\<close>

fun register_loop :: "(RegisterRequest \<Rightarrow> 'w \<Rightarrow> (bool \<times> RegisterReply) \<times> 'w) \<Rightarrow> RegisterRequest \<Rightarrow> nat \<Rightarrow> 'w \<Rightarrow> bool \<times> 'w" where
  "register_loop stub r 0 w = (False, w)"
| "register_loop stub r (Suc n) w =
     (let ((ok, reply), w1) = stub r w in
      if ok \<and> reg_accepted reply then (True, w1) else register_loop stub r n w1)"

text \<open>
  The heartbeat thread: after a successful registration it sends heartbeats only, whatever the
  replies say. \<open>rounds\<close> are the times of the calls that reach the router and the capacities sent.
\<close>

definition heartbeat_call :: "string \<Rightarrow> string \<Rightarrow> int \<times> int \<times> EngineCapacity \<Rightarrow> RouterCall" where
  "heartbeat_call engine_id incarnation = (\<lambda>(now, now', capacity). CallHeartbeat now now'
     \<lparr>hb_engine_id = engine_id, hb_incarnation_id = incarnation, hb_capacity = capacity\<rparr>)"

text \<open>The process goes on to serve only after a registration that was answered and accepted.\<close>

lemma register_loop_accepted:
  "register_loop stub r n w = (True, w') \<Longrightarrow> \<exists>w1 reply. stub r w1 = ((True, reply), w') \<and> reg_accepted reply"
  by (induction n arbitrary: w) (auto simp: Let_def split: prod.splits if_splits)

section \<open>The registry under interleaved calls\<close>

definition iteration_order :: "('a list \<Rightarrow> 'a list) \<Rightarrow> bool" where
  "iteration_order iter \<longleftrightarrow> (\<forall>xs. set (iter xs) = set xs)"

text \<open>Records are stored under their own id, once.\<close>

definition registry_ok :: "RouterService \<Rightarrow> bool" where
  "registry_ok s \<longleftrightarrow> distinct (map fst (engines s)) \<and> (\<forall>(k, e) \<in> set (engines s). er_engine_id e = k)"

inductive router_step :: "RouterService \<Rightarrow> RouterService \<Rightarrow> bool" where
  router_call_step: "router_step s (router_call c s)"
| prune_step: "router_step s (PruneExpiredLocked now s)"

lemma map_of_filter_value:
  assumes "distinct (map fst xs)"
  shows "map_of (filter (\<lambda>(k, e). P e) xs) k = (case map_of xs k of None \<Rightarrow> None | Some e \<Rightarrow> if P e then Some e else None)"
  using assms by (induction xs) (auto split: option.splits simp: weak_map_of_SomeI rev_image_eqI dest: map_of_SomeD)

lemma PruneExpired_ok [simp]: "registry_ok s \<Longrightarrow> registry_ok (PruneExpiredLocked now s)"
  by (auto simp: registry_ok_def PruneExpiredLocked_def distinct_map_filter)

lemma lease_ttl_Prune [simp]: "lease_ttl (PruneExpiredLocked now s) = lease_ttl s"
  by (simp add: PruneExpiredLocked_def)

lemma map_of_Prune:
  assumes "registry_ok s"
  shows "map_of (engines (PruneExpiredLocked now s)) k =
    (case map_of (engines s) k of None \<Rightarrow> None
     | Some e \<Rightarrow> if lease_expired now (lease_ttl s) e then None else Some e)"
  using map_of_filter_value [of "engines s" "\<lambda>e. \<not> lease_expired now (lease_ttl s) e" k] assms
  by (auto simp: PruneExpiredLocked_def registry_ok_def split: option.splits)

lemma registry_ok_update:
  assumes "registry_ok s" and "er_engine_id e = k"
  shows "registry_ok (s\<lparr>engines := AList.update k e (engines s)\<rparr>)"
proof -
  have "distinct (map fst (AList.update k e (engines s)))" using assms by (simp add: registry_ok_def distinct_update)
  moreover have "er_engine_id v = i" if "(i, v) \<in> set (AList.update k e (engines s))" for i v
    using in_update [OF that] assms by (auto simp: registry_ok_def)
  ultimately show ?thesis by (auto simp: registry_ok_def)
qed

lemma Register_ok:
  assumes "registry_ok s"
  shows "registry_ok (snd (Register now r s))"
  using assms by (simp add: Register_def registry_ok_update)

lemma Heartbeat_ok:
  assumes "registry_ok s"
  shows "registry_ok (snd (Heartbeat now now' h s))"
proof -
  let ?s = "PruneExpiredLocked now s"
  have ok: "registry_ok ?s" using assms by simp
  have "er_engine_id e = hb_engine_id h" if "map_of (engines ?s) (hb_engine_id h) = Some e" for e
    using ok map_of_SomeD [OF that] by (auto simp: registry_ok_def)
  then show ?thesis using ok by (auto simp: Heartbeat_def Let_def registry_ok_update split: option.splits)
qed

lemma router_call_ok: "registry_ok s \<Longrightarrow> registry_ok (router_call c s)"
  by (cases c) (simp_all add: Register_ok Heartbeat_ok)

lemma lease_ttl_call [simp]: "lease_ttl (router_call c s) = lease_ttl s"
  by (cases c) (simp_all add: Register_def Heartbeat_def Let_def split: option.splits)

lemma lease_ttl_calls [simp]: "lease_ttl (fold router_call cs s) = lease_ttl s"
  by (induction cs arbitrary: s) simp_all

lemma lease_ttl_steps: "router_step\<^sup>*\<^sup>* s t \<Longrightarrow> lease_ttl t = lease_ttl s"
  by (induction rule: rtranclp_induct) (auto elim: router_step.cases)

lemma router_calls_ok: "registry_ok s \<Longrightarrow> registry_ok (fold router_call cs s)"
  by (induction cs arbitrary: s) (simp_all add: router_call_ok)

interpretation registry_run: invariant_system "\<lambda>s. \<exists>ttl. s = MakeRouterService ttl" router_step registry_ok
proof
  show "registry_ok s" if "\<exists>ttl. s = MakeRouterService ttl" for s
    using that by (auto simp: MakeRouterService_def registry_ok_def)
  show "registry_ok t" if "registry_ok s" and "router_step s t" for s t
    using that(2,1) by cases (simp_all add: router_call_ok)
qed

section \<open>Leases\<close>

text \<open>What one call does to the record of one engine id.\<close>

fun call_time :: "RouterCall \<Rightarrow> int" where
  "call_time (CallRegister now r) = now"
| "call_time (CallHeartbeat now now' h) = now"

fun call_engine :: "RouterCall \<Rightarrow> string" where
  "call_engine (CallRegister now r) = reg_engine_id r"
| "call_engine (CallHeartbeat now now' h) = hb_engine_id h"

fun registers :: "RouterCall \<Rightarrow> (string \<times> string) option" where
  "registers (CallRegister now r) = Some (reg_engine_id r, reg_incarnation_id r)"
| "registers (CallHeartbeat now now' h) = None"

lemma map_of_other_call:
  assumes "registry_ok s" and "call_engine c \<noteq> i"
  shows "map_of (engines (router_call c s)) i = map_of (engines s) i \<or>
    map_of (engines (router_call c s)) i = None \<and>
      (\<exists>e. map_of (engines s) i = Some e \<and> lease_expired (call_time c) (lease_ttl s) e)"
  using assms by (cases c) (auto simp: Register_def Heartbeat_def Let_def update_conv' map_of_Prune split: option.splits)

lemma lease_expired_mono: "lease_expired n ttl e \<Longrightarrow> n \<le> n' \<Longrightarrow> lease_expired n' ttl e"
  by (simp add: lease_expired_def)

lemma map_of_other_calls:
  assumes "registry_ok s" and "map_of (engines s) i = Some e"
    and "\<forall>c \<in> set cs. call_engine c \<noteq> i \<and> call_time c \<le> n"
  shows "map_of (engines (fold router_call cs s)) i = Some e \<or>
    map_of (engines (fold router_call cs s)) i = None \<and> lease_expired n (lease_ttl s) e"
  using assms
proof (induction cs rule: rev_induct)
  case (snoc c cs)
  let ?s = "fold router_call cs s"
  have ok: "registry_ok ?s" using snoc.prems(1) by (rule router_calls_ok)
  from map_of_other_call [OF ok, of c i] snoc show ?case by (auto intro: lease_expired_mono)
qed simp

lemma Heartbeat_answer:
  assumes "registry_ok s"
  shows "fst (Heartbeat now now' h s) \<longleftrightarrow> (\<exists>e. map_of (engines s) (hb_engine_id h) = Some e \<and>
    \<not> lease_expired now (lease_ttl s) e \<and> er_incarnation_id e = hb_incarnation_id h)"
  using assms by (auto simp: Heartbeat_def Let_def map_of_Prune split: option.splits)

text \<open>
  Leases are exact. After an accepted registration at time \<open>t0\<close>, and whatever other engines do
  meanwhile, a heartbeat of that incarnation at a later time \<open>t\<close> is answered with \<open>lease_ok\<close> exactly if
  less than the lease time has passed, and it then starts a new lease at its own time stamp.
\<close>

theorem lease_exact:
  assumes reach: "router_step\<^sup>*\<^sup>* (MakeRouterService ttl) s"
    and reg: "Register t0 r s = (reply, s1)" "reg_accepted reply"
    and others: "\<forall>c \<in> set cs. call_engine c \<noteq> reg_engine_id r \<and> call_time c \<le> t"
    and h: "hb_engine_id h = reg_engine_id r" "hb_incarnation_id h = reg_incarnation_id r"
    and beat: "Heartbeat t t' h (fold router_call cs s1) = (ok, s2)"
  shows "(ok \<longleftrightarrow> t - t0 < int ttl * 1000000) \<and>
    map_option er_last_heartbeat (map_of (engines s2) (reg_engine_id r)) = (if ok then Some t' else None)"
proof -
  let ?i = "reg_engine_id r" and ?u = "fold router_call cs s1"
  have s: "registry_ok s" using reach by (rule registry_run.inv_reachable [rotated]) auto
  have ttl: "lease_ttl s = ttl" using lease_ttl_steps [OF reach] by (simp add: MakeRouterService_def)
  obtain e where e: "map_of (engines s1) ?i = Some e" "er_last_heartbeat e = t0" "er_incarnation_id e = reg_incarnation_id r"
    and s1: "registry_ok s1" "lease_ttl s1 = ttl"
    using reg Register_ok [OF s, of t0 r] ttl by (auto simp: Register_def update_conv' split: if_splits)
  have u: "registry_ok ?u" "lease_ttl ?u = ttl" using s1 by (simp_all add: router_calls_ok)
  note m = map_of_other_calls [OF s1(1) e(1) others]
  have ok: "ok \<longleftrightarrow> \<not> lease_expired t ttl e"
    using Heartbeat_answer [OF u(1), of t t' h] beat h m e u(2) s1(2) by auto
  have "map_option er_last_heartbeat (map_of (engines s2) ?i) = (if ok then Some t' else None)"
    using beat h m e u s1(2) map_of_Prune [OF u(1), of t ?i]
    by (auto simp: Heartbeat_def Let_def update_conv' split: if_splits option.splits)
  with ok e(2) show ?thesis by (auto simp: lease_expired_def)
qed

definition cap_example :: EngineCapacity where
  "cap_example = \<lparr>cap_free_kv_blocks = 4, cap_total_kv_blocks = 4, cap_batch_headroom = 1,
     cap_running_seqs = 0, cap_waiting_seqs = 0\<rparr>"

definition reg_example :: RegisterRequest where
  "reg_example = \<lparr>reg_engine_id = ''e1'', reg_incarnation_id = ''i1'', reg_models = [],
     reg_capacity = cap_example, reg_endpoint = ''h:1''\<rparr>"

definition beat_example :: "string \<Rightarrow> HeartbeatRequest" where
  "beat_example inc = \<lparr>hb_engine_id = ''e1'', hb_incarnation_id = inc, hb_capacity = cap_example\<rparr>"

theorem lease_exact_witness:
  "fst (Heartbeat 19999999 20000000 (beat_example ''i1'') (snd (Register 0 reg_example (MakeRouterService 20))))
   \<and> \<not> fst (Heartbeat 20000000 20000001 (beat_example ''i1'') (snd (Register 0 reg_example (MakeRouterService 20))))"
proof -
  let ?s1 = "snd (Register 0 reg_example (MakeRouterService 20))"
  have reg: "Register 0 reg_example (MakeRouterService 20) = (fst (Register 0 reg_example (MakeRouterService 20)), ?s1)"
    "reg_accepted (fst (Register 0 reg_example (MakeRouterService 20)))"
    by (simp_all add: Register_def reg_example_def)
  have "fst (Heartbeat t t' (beat_example ''i1'') ?s1) \<longleftrightarrow> t - 0 < int 20 * 1000000" for t t'
    using lease_exact [OF rtranclp.rtrancl_refl reg, of "[]" t "beat_example ''i1''" t'
        "fst (Heartbeat t t' (beat_example ''i1'') ?s1)" "snd (Heartbeat t t' (beat_example ''i1'') ?s1)"]
    by (simp add: beat_example_def reg_example_def)
  then show ?thesis by simp
qed

text \<open>
  A predicate on the record of one engine that registrations establish, heartbeats keep and pruning
  cannot break is an invariant of that record.
\<close>

lemma call_record:
  assumes "registry_ok s" and "map_of (engines (router_call c s)) i = Some e"
  shows "registers c = Some (i, er_incarnation_id e) \<or>
    (\<exists>e'. map_of (engines s) i = Some e' \<and> er_incarnation_id e' = er_incarnation_id e)"
proof (cases c)
  case (CallRegister now r)
  then show ?thesis using assms(2) by (auto simp: Register_def update_conv' split: if_splits)
next
  case (CallHeartbeat now now' h)
  have "map_of (engines (PruneExpiredLocked now s)) i = Some e' \<Longrightarrow> map_of (engines s) i = Some e'" for e'
    using map_of_Prune [OF assms(1), of now i] by (auto split: option.splits if_splits)
  with CallHeartbeat assms(2) show ?thesis
    by (auto simp: Heartbeat_def Let_def update_conv' split: option.splits if_splits)
qed

lemma record_kept:
  assumes "registry_ok s" and "\<forall>e. map_of (engines s) i = Some e \<longrightarrow> P (er_incarnation_id e)"
    and "\<forall>c \<in> set cs. \<forall>inc. registers c = Some (i, inc) \<longrightarrow> P inc"
  shows "\<forall>e. map_of (engines (fold router_call cs s)) i = Some e \<longrightarrow> P (er_incarnation_id e)"
  using assms
proof (induction cs arbitrary: s)
  case (Cons c cs)
  have "P (er_incarnation_id e)" if "map_of (engines (router_call c s)) i = Some e" for e
    using call_record [OF Cons.prems(1) that]
  proof
    assume "registers c = Some (i, er_incarnation_id e)"
    then show ?thesis using Cons.prems(3) by simp
  next
    assume "\<exists>e'. map_of (engines s) i = Some e' \<and> er_incarnation_id e' = er_incarnation_id e"
    then show ?thesis using Cons.prems(2) by metis
  qed
  then have "\<forall>e. map_of (engines (router_call c s)) i = Some e \<longrightarrow> P (er_incarnation_id e)" by blast
  moreover have "\<forall>c \<in> set cs. \<forall>inc. registers c = Some (i, inc) \<longrightarrow> P inc"
    using Cons.prems(3) by (meson list.set_intros(2))
  ultimately show ?case using Cons.IH [OF router_call_ok [OF Cons.prems(1)]]
    unfolding fold.simps comp_apply by blast
qed simp

text \<open>
  A replaced engine process cannot renew the lease of its successor. After an accepted
  registration of a new incarnation, and whatever calls of any engines follow, as long as the old
  incarnation does not register again its heartbeats are answered with \<open>lease_ok = false\<close> and leave
  the registry as pruning leaves it.
\<close>

theorem old_incarnation_fenced:
  assumes reach: "router_step\<^sup>*\<^sup>* (MakeRouterService ttl) s"
    and reg: "Register t0 r s = (reply, s1)" "reg_accepted reply"
    and old: "hb_engine_id h = reg_engine_id r" "hb_incarnation_id h \<noteq> reg_incarnation_id r"
    and calls: "\<forall>c \<in> set cs. registers c \<noteq> Some (hb_engine_id h, hb_incarnation_id h)"
  shows "Heartbeat t t' h (fold router_call cs s1) = (False, PruneExpiredLocked t (fold router_call cs s1))"
proof -
  let ?u = "fold router_call cs s1" and ?i = "hb_engine_id h"
  have s: "registry_ok s" using reach by (rule registry_run.inv_reachable [rotated]) auto
  have s1: "registry_ok s1" using Register_ok [OF s, of t0 r] reg by simp
  have "\<forall>e. map_of (engines s1) ?i = Some e \<longrightarrow> er_incarnation_id e \<noteq> hb_incarnation_id h"
    using reg old by (auto simp: Register_def update_conv' split: if_splits)
  from record_kept [where P = "\<lambda>x. x \<noteq> hb_incarnation_id h", OF s1 this] calls
  have "\<forall>e. map_of (engines ?u) ?i = Some e \<longrightarrow> er_incarnation_id e \<noteq> hb_incarnation_id h" by blast
  then show ?thesis using map_of_Prune [OF router_calls_ok [OF s1, of cs], of t ?i]
    by (auto simp: Heartbeat_def Let_def split: option.splits if_splits)
qed

theorem old_incarnation_fenced_witness:
  "\<not> fst (Heartbeat 5 6 (beat_example ''i0'') (snd (Register 0 reg_example (MakeRouterService 20))))"
proof -
  let ?s1 = "snd (Register 0 reg_example (MakeRouterService 20))"
  have reg: "Register 0 reg_example (MakeRouterService 20) = (fst (Register 0 reg_example (MakeRouterService 20)), ?s1)"
    "reg_accepted (fst (Register 0 reg_example (MakeRouterService 20)))"
    by (simp_all add: Register_def reg_example_def)
  show ?thesis
    using old_incarnation_fenced [of 20 "MakeRouterService 20" 0 reg_example _ ?s1 "beat_example ''i0''" "[]", OF rtranclp.rtrancl_refl reg]
    by (simp add: beat_example_def reg_example_def)
qed

section \<open>Waiting for an engine\<close>

lemma wait_for_last:
  assumes "wait_for pred now wakes tmo s = (ok, t, s')" and "I s"
    and keep: "\<And>n u. I u \<Longrightarrow> I (snd (pred n u))" "\<And>cs u. I u \<Longrightarrow> I (fold router_call cs u)"
  shows "\<exists>u. I u \<and> pred t u = (ok, s') \<and> (ok \<or> t = fst tmo)"
  using assms(1,2)
proof (induction wakes arbitrary: now s)
  case Nil
  have "I (fold router_call (snd tmo) (snd (pred now s)))" using Nil keep by blast
  then show ?case using Nil by (cases "pred now s") (auto simp: Let_def split: prod.splits if_splits)
next
  case (Cons w wakes)
  have "I (fold router_call (snd w) (snd (pred now s)))" using Cons.prems keep by blast
  then show ?case using Cons by (cases "pred now s") (auto simp: Let_def split: if_splits)
qed

lemma find_incarnation_iff:
  "find_incarnation previous es = Some e \<Longrightarrow> e \<in> snd ` set es \<and> er_incarnation_id e \<noteq> previous"
  "find_incarnation previous es = None \<longleftrightarrow> (\<forall>(k, e) \<in> set es. er_incarnation_id e = previous)"
  by (induction previous es rule: find_incarnation.induct) (auto split: if_splits)

text \<open>The two waits, as far as they agree: the predicate prunes and looks at what is left.\<close>

lemma wait_for_pruned:
  assumes "wait_for pred now wakes tmo s = (ok, t, s')" and "registry_ok s"
    and pred: "\<And>n u. pred n u = (test (engines (PruneExpiredLocked n u)), PruneExpiredLocked n u)"
  shows "registry_ok s' \<and> ok = test (engines s') \<and> (ok \<or> t = fst tmo) \<and>
    (\<forall>(k, e) \<in> set (engines s'). er_engine_id e = k \<and> \<not> lease_expired t (lease_ttl s) e)"
proof -
  have "\<exists>u. (registry_ok u \<and> lease_ttl u = lease_ttl s) \<and> pred t u = (ok, s') \<and> (ok \<or> t = fst tmo)"
    by (rule wait_for_last [OF assms(1)]) (use assms(2) router_calls_ok in \<open>auto simp: pred\<close>)
  then obtain u where u: "registry_ok u" "lease_ttl u = lease_ttl s" "s' = PruneExpiredLocked t u"
    "ok = test (engines s')" "ok \<or> t = fst tmo" by (auto simp: pred)
  then have "registry_ok s'" by simp
  moreover have "\<forall>(k, e) \<in> set (engines s'). er_engine_id e = k \<and> \<not> lease_expired t (lease_ttl s) e"
    using u(1-3) by (auto simp: PruneExpiredLocked_def registry_ok_def)
  ultimately show ?thesis using u(4,5) by blast
qed

text \<open>
  C27: a wait hands out live engines only, and gives up only if there is none. Whatever calls run while
  the waiter sleeps and in whatever order the map is iterated, an engine that \<open>WaitForEngine\<close> or
  \<open>WaitForNewIncarnation\<close> returns is registered and its lease has not expired at the moment the call
  returns, and the latter returns a new incarnation; no engine is returned only at the timeout, and
  then none is live (respectively every live engine still is the previous incarnation).
\<close>

theorem waits_return_live_engines:
  assumes reach: "router_step\<^sup>*\<^sup>* (MakeRouterService ttl) s" and iter: "iteration_order iter"
    and w: "WaitForEngine iter now wakes tmo s = (res, t, s')"
    and w': "WaitForNewIncarnation iter previous now' wakes' tmo' s = (res', u, s'')"
  shows "(case res of
      Some e \<Rightarrow> map_of (engines s') (er_engine_id e) = Some e \<and> t - er_last_heartbeat e < int ttl * 1000000
    | None \<Rightarrow> t = fst tmo \<and> engines s' = []) \<and>
    (case res' of
      Some e \<Rightarrow> map_of (engines s'') (er_engine_id e) = Some e \<and> u - er_last_heartbeat e < int ttl * 1000000
        \<and> er_incarnation_id e \<noteq> previous
    | None \<Rightarrow> u = fst tmo' \<and> (\<forall>(k, e) \<in> set (engines s''). er_incarnation_id e = previous))"
proof -
  have s: "registry_ok s" using reach by (rule registry_run.inv_reachable [rotated]) auto
  have ttl: "lease_ttl s = ttl" using lease_ttl_steps [OF reach] by (simp add: MakeRouterService_def)
  have it: "set (iter xs) = set xs" for xs using iter by (simp add: iteration_order_def)
  obtain ok where a: "wait_for has_live_engine now wakes tmo s = (ok, t, s')"
    "res = (if ok then Some (snd (hd (iter (engines s')))) else None)"
    using w by (auto simp: WaitForEngine_def split: prod.splits bool.splits)
  obtain ok' where b: "wait_for (has_new iter previous) now' wakes' tmo' s = (ok', u, s'')"
    "res' = (if ok' then find_incarnation previous (iter (engines s'')) else None)"
    using w' by (auto simp: WaitForNewIncarnation_def split: prod.splits bool.splits)
  note A = wait_for_pruned [OF a(1) s, where test = "\<lambda>es. es \<noteq> []", unfolded has_live_engine_def Let_def, OF refl]
  note B = wait_for_pruned [OF b(1) s, where test = "\<lambda>es. find_incarnation previous (iter es) \<noteq> None",
      unfolded has_new_def Let_def, OF refl]
  have live: "map_of (engines v) (er_engine_id e) = Some e \<and> n - er_last_heartbeat e < int ttl * 1000000"
    if "registry_ok v" "\<forall>(k, e) \<in> set (engines v). er_engine_id e = k \<and> \<not> lease_expired n (lease_ttl s) e"
      "e \<in> snd ` set (iter (engines v))" for v n e
    using that ttl by (auto simp: it registry_ok_def lease_expired_def)
  have 1: "snd (hd (iter (engines s'))) \<in> snd ` set (iter (engines s'))" if "engines s' \<noteq> []"
    using that it [of "engines s'"] by (metis hd_in_set imageI set_empty)
  have "case res of
      Some e \<Rightarrow> map_of (engines s') (er_engine_id e) = Some e \<and> t - er_last_heartbeat e < int ttl * 1000000
    | None \<Rightarrow> t = fst tmo \<and> engines s' = []"
  proof (cases ok)
    case True
    with A have "engines s' \<noteq> []" by simp
    with A live [OF _ _ 1, of t] have "map_of (engines s') (er_engine_id (snd (hd (iter (engines s'))))) =
        Some (snd (hd (iter (engines s')))) \<and> t - er_last_heartbeat (snd (hd (iter (engines s')))) < int ttl * 1000000"
      by blast
    then show ?thesis using True a(2) by simp
  next
    case False
    then show ?thesis using A a(2) by auto
  qed
  moreover have "case res' of
      Some e \<Rightarrow> map_of (engines s'') (er_engine_id e) = Some e \<and> u - er_last_heartbeat e < int ttl * 1000000
        \<and> er_incarnation_id e \<noteq> previous
    | None \<Rightarrow> u = fst tmo' \<and> (\<forall>(k, e) \<in> set (engines s''). er_incarnation_id e = previous)"
  proof (cases ok')
    case True
    with B obtain e where "find_incarnation previous (iter (engines s'')) = Some e" by auto
    then show ?thesis using True B b(2) live [of s'' u e] find_incarnation_iff(1) by auto
  next
    case False
    then have "\<forall>(k, e) \<in> set (engines s''). er_incarnation_id e = previous"
      using B find_incarnation_iff(2) [of previous "iter (engines s'')"] it by simp
    moreover have "u = fst tmo'" using False B by blast
    ultimately show ?thesis using False b(2) by simp
  qed
  ultimately show ?thesis ..
qed

theorem waits_return_live_engines_witness:
  "\<exists>e. fst (WaitForEngine (\<lambda>xs. xs) 0 [(5, [CallRegister 4 reg_example])] (9, []) (MakeRouterService 20)) = Some e \<and>
     er_last_heartbeat e = 4"
proof -
  let ?w = "WaitForEngine (\<lambda>xs. xs) 0 [(5, [CallRegister 4 reg_example])] (9, []) (MakeRouterService 20)"
  let ?n = "WaitForNewIncarnation (\<lambda>xs. xs) ''i1'' 0 [] (9, []) (MakeRouterService 20)"
  have "fst ?w \<noteq> None \<and> map_option er_last_heartbeat (fst ?w) = Some 4" by code_simp
  with waits_return_live_engines [of 20 "MakeRouterService 20" "\<lambda>xs. xs" 0 "[(5, [CallRegister 4 reg_example])]" "(9, [])"
      "fst ?w" "fst (snd ?w)" "snd (snd ?w)" "''i1''" 0 "[]" "(9, [])" "fst ?n" "fst (snd ?n)" "snd (snd ?n)"]
  show ?thesis by (auto simp: iteration_order_def)
qed

section \<open>The heartbeat thread after a lost lease\<close>

text \<open>
  The interface says that an engine whose heartbeat is answered with \<open>lease_ok = false\<close> must register
  again. The heartbeat thread of \<open>engine_main.cpp\<close> discards the reply and only sends heartbeats, so an
  engine whose lease was once pruned, for instance after a network partition, is never listed again,
  although it keeps sending heartbeats; every one of them is refused.
\<close>

lemma lost_lease_never_renewed:
  assumes ok: "registry_ok s" and lost: "map_of (engines s) i = None"
    and others: "\<forall>c \<in> set cs. call_engine c \<noteq> i \<or> c \<in> range (heartbeat_call i inc)"
  shows "map_of (engines (fold router_call cs s)) i = None"
proof -
  have "registers c \<noteq> Some (i, x)" if "c \<in> set cs" for c x
    using others that by (cases c) (force simp: heartbeat_call_def)+
  then have "\<forall>c \<in> set cs. \<forall>x. registers c = Some (i, x) \<longrightarrow> False" by blast
  from record_kept [where P = "\<lambda>_. False", OF ok _ this] lost show ?thesis
    by (metis option.exhaust option.simps(3))
qed

end
