(* ===== verification/CommandLines.thy ===== *)
theory CommandLines
  imports Complex_Main Prelude
begin

text \<open>
  What the \<open>main\<close> functions under \<open>cpp/src\<close> and \<open>cpp/bench\<close> share: the lookup of an argument, the numbers they
  read with \<open>std::from_chars\<close> and \<open>std::stoull\<close>, the line they print and the exit status.
\<close>

section \<open>Exit status\<close>

datatype ExitStatus = EXIT_SUCCESS | EXIT_FAILURE

definition exit_unless :: "bool \<Rightarrow> ExitStatus" where
  "exit_unless failed = (if failed then EXIT_FAILURE else EXIT_SUCCESS)"

section \<open>Printed lines\<close>

text \<open>The line a program prints: names and values of a JSON object, in order.\<close>

datatype json = JString string | JNat nat | JInt int | JReal rat | JBool bool

type_synonym line = "(string \<times> json) list"

section \<open>Arguments\<close>

text \<open>\<open>Argument\<close>: the value after the first occurrence of the name that is not the last word.\<close>

fun Argument :: "string list \<Rightarrow> string \<Rightarrow> string \<Rightarrow> string" where
  "Argument (a # b # rest) name fallback = (if a = name then b else Argument (b # rest) name fallback)"
| "Argument _ name fallback = fallback"

section \<open>Numbers\<close>

definition digits_value :: "string \<Rightarrow> nat" where
  "digits_value ds = fold (\<lambda>c n. n * 10 + (of_char c - 48)) ds 0"

lemma digits_value_append: "digits_value (ds @ [c]) = digits_value ds * 10 + (of_char c - 48)"
  by (simp add: digits_value_def)

lemma digits_value_to_string: "digits_value (to_string n) = n"
proof (induction n rule: to_string.induct)
  case (1 n)
  show ?case
  proof (cases "n < 10")
    case True
    then show ?thesis by (simp add: to_string.simps [of n] digits_value_def of_digit_char)
  next
    case False
    then show ?thesis using 1 by (simp add: to_string.simps [of n] digits_value_append of_digit_char)
  qed
qed

lemma digits_to_string:
  "takeWhile is_digit (to_string n) = to_string n" "dropWhile is_digit (to_string n) = []"
  using to_string_digits [of _ n] by (simp_all add: takeWhile_eq_all_conv dropWhile_eq_Nil_conv)

text \<open>
  \<open>std::stoull\<close> and \<open>std::stoll\<close> in base ten: white space and a sign are skipped, the longest run of digits is
  read and what follows it is ignored; a minus sign negates, for the unsigned one modulo \<open>2 ^ 64\<close>. No digits
  or a value out of range throw.
\<close>

definition is_space :: "char \<Rightarrow> bool" where
  "is_space c \<longleftrightarrow> (of_char c :: nat) = 32 \<or> 9 \<le> (of_char c :: nat) \<and> (of_char c :: nat) \<le> 13"

definition number_prefix :: "string \<Rightarrow> bool \<times> string" where
  "number_prefix text =
     (let body = dropWhile is_space text;
          signed = (body \<noteq> [] \<and> (hd body = CHR ''-'' \<or> hd body = CHR ''+''))
      in (signed \<and> hd body = CHR ''-'', takeWhile is_digit (if signed then tl body else body)))"

definition stoull :: "string \<Rightarrow> error + nat" where
  "stoull text = (case number_prefix text of (negative, ds) \<Rightarrow>
     if ds = [] then Inl (InvalidArgument ''stoull'')
     else if digits_value ds \<ge> u64 then Inl (OutOfRange ''stoull'')
     else Inr (if negative then sub64 0 (digits_value ds) else digits_value ds))"

definition stoll :: "string \<Rightarrow> error + int" where
  "stoll text = (case number_prefix text of (negative, ds) \<Rightarrow>
     let v = (if negative then - int (digits_value ds) else int (digits_value ds)) in
     if ds = [] then Inl (InvalidArgument ''stoll'')
     else if v < - 9223372036854775808 \<or> v > 9223372036854775807 then Inl (OutOfRange ''stoll'')
     else Inr v)"

lemma is_digit_not_space: "is_digit c \<Longrightarrow> \<not> is_space c \<and> c \<noteq> CHR ''-'' \<and> c \<noteq> CHR ''+''"
  by (auto simp: is_digit_def is_space_def)

lemma stoull_to_string: "n < u64 \<Longrightarrow> stoull (to_string n) = Inr n"
proof -
  assume n: "n < u64"
  obtain c cs where s: "to_string n = c # cs" by (cases "to_string n") simp_all
  then have "is_digit c" using to_string_digits [of c n] by simp
  then have c: "\<not> is_space c" "c \<noteq> CHR ''-''" "c \<noteq> CHR ''+''" using is_digit_not_space by blast+
  then have "dropWhile is_space (to_string n) = to_string n" "hd (to_string n) = c" using s by simp_all
  with n c show ?thesis by (simp add: stoull_def number_prefix_def Let_def digits_to_string digits_value_to_string)
qed

end
