(* ===== verification/RouterClients.thy ===== *)
theory RouterClients
  imports EngineServiceProofs DurableSystem RouterServices CommandLines
begin

text \<open>
  The clients of the services: \<open>DispatchOne\<close> of \<open>cpp/src/router_main.cpp\<close>, the request builder and the
  result loops of \<open>cpp/src/p5_client_main.cpp\<close>, and how the
  two routers read the event stream that \<open>EngineService\<close> writes. A gRPC call is a function of the
  request that gives the events read and whether the final status was OK.
\<close>

section \<open>\<open>router_main.cpp\<close>\<close>

definition demo_request :: "nat \<Rightarrow> InferenceRequest" where
  "demo_request index = \<lparr>ir_request_id = ''grpc-request-'' @ to_string index, ir_model_id = ''benchmark-model'',
     ir_model_revision = ''benchmark-model-v1'', ir_tokenizer_revision = ''tokenizer-v1'',
     ir_prompt_tokens = (16 + index mod 16) mod u32, ir_prompt_hash = ''prompt-'' @ to_string index, ir_priority = 0,
     ir_deadline_unix_ms = 0,
     ir_sampling = \<lparr>sp_max_output_tokens = 4, sp_temperature = 0, sp_top_p = 0, sp_seed = index\<rparr>,
     ir_trace_id = [], ir_span_id = []\<rparr>"

fun scan_event :: "DispatchEvent \<Rightarrow> bool \<times> bool \<Rightarrow> bool \<times> bool" where
  "scan_event (Ack status reason) (rejected, completed) = (status = REJECTED, completed)"
| "scan_event (Progress e) (rejected, completed) = (rejected, completed \<or> pe_kind e = PROGRESS_COMPLETED)"

definition demo_dispatch :: "nat \<Rightarrow> nat \<Rightarrow> nat \<Rightarrow> DispatchRequest" where
  "demo_dispatch index attempt ownership_epoch = \<lparr>dr_request = demo_request index,
     dr_fence = \<lparr>wf_partition_id = 0, wf_epoch = ownership_epoch, wf_attempt_id = attempt\<rparr>\<rparr>"

definition DispatchOne :: "(DispatchRequest \<Rightarrow> DispatchEvent list \<times> bool) \<Rightarrow> nat \<Rightarrow> nat \<Rightarrow> nat \<Rightarrow> bool \<Rightarrow> bool" where
  "DispatchOne stub index attempt ownership_epoch expect_rejection =
     (let (events, ok) = stub (demo_dispatch index attempt ownership_epoch);
          (rejected, completed) = fold scan_event events (False, False)
      in ok \<and> (if expect_rejection then rejected else completed \<and> \<not> rejected))"

section \<open>\<open>p5_client_main.cpp\<close>\<close>

definition BuildRequest :: "string \<Rightarrow> InferenceRequest" where
  "BuildRequest rid = \<lparr>ir_request_id = rid, ir_model_id = ''benchmark-model'',
     ir_model_revision = ''benchmark-model-v1'', ir_tokenizer_revision = ''tokenizer-v1'',
     ir_prompt_tokens = 16, ir_prompt_hash = ''p5-prompt'', ir_priority = 0, ir_deadline_unix_ms = 0,
     ir_sampling = \<lparr>sp_max_output_tokens = 4, sp_temperature = 0, sp_top_p = 0, sp_seed = 0\<rparr>,
     ir_trace_id = [], ir_span_id = []\<rparr>"

text \<open>
  The loop of \<open>AwaitResult\<close>: one element of \<open>polls\<close> per round before the deadline, what the poll thread
  did to the poller before that round's \<open>Pop\<close>.
\<close>

fun AwaitResult :: "string \<Rightarrow> (KafkaPoller \<Rightarrow> KafkaPoller) list \<Rightarrow> KafkaPoller \<Rightarrow> bool \<times> KafkaPoller" where
  "AwaitResult rid [] k = (False, Stop k)"
| "AwaitResult rid (poll # polls) k =
     (case Pop (poll k) of
        (None, k') \<Rightarrow> AwaitResult rid polls k'
      | (Some m, k') \<Rightarrow>
          if km_key m = rid then (True, Stop (MarkPublishComplete (km_partition m) (km_offset m) k'))
          else AwaitResult rid polls k')"

text \<open>The loop of the batch mode; the ids still awaited are a list without repetition.\<close>

fun await_batch :: "string list \<Rightarrow> (KafkaPoller \<Rightarrow> KafkaPoller) list \<Rightarrow> KafkaPoller \<Rightarrow> string list \<times> KafkaPoller" where
  "await_batch ids [] k = (ids, Stop k)"
| "await_batch ids (poll # polls) k =
     (if ids = [] then (ids, Stop k)
      else case Pop (poll k) of
        (None, k') \<Rightarrow> await_batch ids polls k'
      | (Some m, k') \<Rightarrow>
          if km_key m \<in> set ids
          then await_batch (removeAll (km_key m) ids) polls (MarkPublishComplete (km_partition m) (km_offset m) k')
          else await_batch ids polls k')"

section \<open>The stream of an accepted dispatch\<close>

lemma read_WriteProgress:
  "read_events (Ack ACCEPTED reason # WriteProgress job) [] = Some (if succeeded (job_result job) then res_output (job_result job) else [])"
  by (simp add: WriteProgress_def progress_event_def)

lemma scan_WriteProgress:
  "fold scan_event (Ack ACCEPTED reason # WriteProgress job) (False, False) = (False, succeeded (job_result job))"
  by (simp add: WriteProgress_def progress_event_def)

text \<open>
  C9: a dispatched request comes back with its own output, across the wire. In every reachable state of
  the engine service with a batch taken, let the worker run; then for every job of the batch that was
  not cancelled, the events the service writes make the durable router's \<open>Dispatch\<close> return the output of
  that very request, or nothing if the engine can never run it, and make the demo router's
  \<open>DispatchOne\<close> succeed exactly if the engine can run it.
\<close>

theorem dispatch_end_to_end:
  assumes make: "MakeEngineService draw cfg capacity = Inr s0" and small: "small_config cfg"
    and reach: "(service_step fl)\<^sup>*\<^sup>* (Waiting, s0) (Taken, s)"
    and j: "j \<in> set (es_batch s)" "\<not> job_superseded (es_jobs s j)"
    and r: "r = ToEngineRequest fl (dr_request (job_dispatch (es_jobs s j)))"
  shows "\<exists>t. worker_run fl s = Some t \<and>
    RouterDispatch (\<lambda>d. (Ack ACCEPTED [] # fst (Dispatch_end j t), True)) request f =
      (if impossible_reason cfg r = None then SimulatedOutput r else []) \<and>
    DispatchOne (\<lambda>d. (Ack ACCEPTED [] # fst (Dispatch_end j t), True)) index attempt epoch False =
      (impossible_reason cfg r = None)"
proof -
  note m = MakeEngineService_start [OF make small]
  have inv: "service_inv (Taken, s)" using reach m(1) by (rule service_run.inv_steps)
  have cfg: "ce_config (es_engine s) = cfg" using service_steps_config [OF reach m(1)] m(2) by simp
  from worker_run_spec [OF inv, of fl] obtain t where t: "worker_run fl s = Some t"
    and jobs: "\<forall>j \<in> set (es_batch s). job_done (es_jobs t j) \<and> (\<exists>x. result_outcome x =
        request_outcome (ce_config (es_engine s)) (ToEngineRequest fl (dr_request (job_dispatch (es_jobs s j)))) \<and>
        job_result (es_jobs t j) = (if job_superseded (es_jobs s j)
          then x\<lparr>succeeded := False, failure_reason := ''superseded''\<rparr> else x))" by metis
  from jobs [rule_format, OF j(1)] j(2) r cfg have d: "job_done (es_jobs t j)"
    and res: "result_outcome (job_result (es_jobs t j)) = request_outcome cfg r" by auto
  let ?x = "job_result (es_jobs t j)"
  have x: "succeeded ?x \<longleftrightarrow> impossible_reason cfg r = None" "succeeded ?x \<Longrightarrow> res_output ?x = SimulatedOutput r"
    using res by (auto simp: result_outcome_def request_outcome_def split: option.splits if_splits)
  have "fst (Dispatch_end j t) = WriteProgress (es_jobs t j)" using d by (simp add: Dispatch_end_def)
  then show ?thesis using t x read_WriteProgress [of "[]" "es_jobs t j"] scan_WriteProgress [of "[]" "es_jobs t j"]
    by (simp add: RouterDispatch_def DispatchOne_def)
qed

theorem dispatch_end_to_end_witness:
  "\<exists>t. worker_run id (worker_take service_queued) = Some t \<and>
    DispatchOne (\<lambda>d. (Ack ACCEPTED [] # fst (Dispatch_end 0 t), True)) 0 1 1 False"
proof -
  have j: "0 \<in> set (es_batch (worker_take service_queued))" "\<not> job_superseded (es_jobs (worker_take service_queued) 0)"
    "impossible_reason cfg_example (ToEngineRequest id (dr_request (job_dispatch (es_jobs (worker_take service_queued) 0)))) = None"
    by code_simp+
  from dispatch_end_to_end [OF service_example_make cfg_example_small service_queued_steps(2) j(1,2) refl] j(3)
  show ?thesis by fastforce
qed

section \<open>What a client reports\<close>

text \<open>A poll thread that delivers messages of the topic \<open>M\<close> only.\<close>

definition delivers :: "KafkaMessage set \<Rightarrow> (KafkaPoller \<Rightarrow> KafkaPoller) \<Rightarrow> bool" where
  "delivers M poll \<longleftrightarrow> (\<forall>k. set (kp_messages k) \<subseteq> M \<longrightarrow> set (kp_messages (poll k)) \<subseteq> M)"

lemma messages_Mark [simp]: "kp_messages (MarkPublishComplete p off k) = kp_messages k"
  by (auto simp: MarkPublishComplete_def Let_def split: option.splits prod.splits)

lemma Pop_delivered:
  assumes "delivers M poll" and "set (kp_messages k) \<subseteq> M" and "Pop (poll k) = (out, k')"
  shows "set (kp_messages k') \<subseteq> M \<and> (\<forall>m. out = Some m \<longrightarrow> m \<in> M)"
  using assms by (fastforce simp: delivers_def Pop_def split: list.splits)

lemma AwaitResult_sound:
  assumes "\<forall>poll \<in> set polls. delivers M poll" and "set (kp_messages k) \<subseteq> M" and "fst (AwaitResult rid polls k)"
  shows "rid \<in> km_key ` M"
  using assms
proof (induction polls arbitrary: k)
  case (Cons poll polls)
  obtain out k' where p: "Pop (poll k) = (out, k')" by fastforce
  have d: "set (kp_messages k') \<subseteq> M" "\<And>m. out = Some m \<Longrightarrow> m \<in> M"
    using Pop_delivered [of M poll k out k'] p Cons.prems by auto
  have polls: "\<forall>poll \<in> set polls. delivers M poll" using Cons.prems(1) by simp
  show ?case
  proof (cases "\<exists>m. out = Some m \<and> km_key m = rid")
    case False
    then have "fst (AwaitResult rid polls k')" using Cons.prems(3) p by (auto split: option.splits if_splits)
    then show ?thesis by (rule Cons.IH [OF polls d(1)])
  qed (use d(2) in auto)
qed simp

lemma await_batch_sound:
  assumes "\<forall>poll \<in> set polls. delivers M poll" and "set (kp_messages k) \<subseteq> M"
  shows "set ids - km_key ` M \<subseteq> set (fst (await_batch ids polls k))"
  using assms
proof (induction polls arbitrary: ids k)
  case (Cons poll polls)
  obtain out k' where p: "Pop (poll k) = (out, k')" by fastforce
  have d: "set (kp_messages k') \<subseteq> M" "\<And>m. out = Some m \<Longrightarrow> m \<in> M"
    using Pop_delivered [of M poll k out k'] p Cons.prems by auto
  have IH: "set ids' - km_key ` M \<subseteq> set (fst (await_batch ids' polls k''))" if "kp_messages k'' = kp_messages k'" for ids' k''
    using Cons.IH [of k'' ids'] Cons.prems(1) d(1) that by simp
  show ?case
  proof (cases out)
    case (Some m)
    then have "set ids - km_key ` M \<subseteq> set (removeAll (km_key m) ids) - km_key ` M" using d(2) by auto
    also have "\<dots> \<subseteq> set (fst (await_batch (removeAll (km_key m) ids) polls (MarkPublishComplete (km_partition m) (km_offset m) k')))"
      by (rule IH) simp
    finally show ?thesis using Some p IH [of k' ids] by simp
  qed (use p IH [of k' ids] in simp)
qed simp

text \<open>
  The client reports only what was published. If the poll thread delivers messages of the results
  topic only, \<open>AwaitResult\<close> returns true only if the topic has a result with that request id, and the
  batch mode stops waiting only for ids that have one.
\<close>

theorem client_reports_only_results:
  assumes "\<forall>poll \<in> set polls. delivers M poll" and "set (kp_messages k) \<subseteq> M"
  shows "(fst (AwaitResult rid polls k) \<longrightarrow> rid \<in> km_key ` M) \<and> set ids - km_key ` M \<subseteq> set (fst (await_batch ids polls k))"
  using AwaitResult_sound [OF assms] await_batch_sound [OF assms] by blast

theorem client_reports_only_results_witness:
  "set [''a'', ''b''] - {''a''} \<subseteq> set (fst (await_batch [''a'', ''b'']
     [\<lambda>k. k\<lparr>kp_messages := [\<lparr>km_payload = [], km_key = ''a'', km_partition = 0, km_offset = 0\<rparr>]\<rparr>]
     (projr (MakeKafkaPoller ''b'' ''g'' ''t'' ''earliest''))))"
proof -
  let ?m = "\<lparr>km_payload = [], km_key = ''a'', km_partition = 0, km_offset = 0\<rparr>"
  have "delivers {?m} (\<lambda>k. k\<lparr>kp_messages := [?m]\<rparr>)" by (simp add: delivers_def)
  moreover have "set (kp_messages (projr (MakeKafkaPoller ''b'' ''g'' ''t'' ''earliest''))) \<subseteq> {?m}"
    by (simp add: MakeKafkaPoller_def)
  ultimately have "set [''a'', ''b''] - km_key ` {?m} \<subseteq> set (fst (await_batch [''a'', ''b''] [\<lambda>k. k\<lparr>kp_messages := [?m]\<rparr>]
      (projr (MakeKafkaPoller ''b'' ''g'' ''t'' ''earliest''))))"
    by (intro client_reports_only_results [THEN conjunct2]) simp_all
  then show ?thesis by (simp only: image_insert image_empty KafkaMessage.simps)
qed

section \<open>Requests the engine fails\<close>

text \<open>
  The interface leaves it to the router to decide between retry and terminal failure when an attempt
  ends with \<open>FAILED\<close>. The durable router does neither: it treats a \<open>FAILED\<close> event like a lost connection.
\<close>

definition unresolved :: "string \<Rightarrow> DurableStore \<Rightarrow> bool" where
  "unresolved rid s \<longleftrightarrow> (\<forall>r \<in> set (inference_requests s). rr_request_id r = rid \<longrightarrow> rr_state r \<notin> set terminal_states)"

lemma unresolved_not_terminal:
  assumes "unresolved rid s"
  shows "\<not> IsTerminal rid s"
proof (cases "filter (\<lambda>r. rr_request_id r = rid) (inference_requests s)")
  case (Cons r rs)
  then have "r \<in> set (filter (\<lambda>r. rr_request_id r = rid) (inference_requests s))" by simp
  then have "rr_state r \<notin> set terminal_states" using assms by (simp add: unresolved_def)
  with Cons show ?thesis by (simp add: IsTerminal_def)
qed (simp add: IsTerminal_def)

lemma unresolved_Ingest: "unresolved rid s \<Longrightarrow> unresolved rid (snd (Ingest rid' p off payload s))"
  by (simp add: unresolved_def Ingest_def terminal_states_def)

lemma unresolved_AssignAttempt:
  assumes "AssignAttempt rid' p e eng s = Inr (res, t)" and "unresolved rid s"
  shows "unresolved rid t"
  using assms(1)
proof (cases rule: AssignAttempt_cases)
  case (some r)
  then show ?thesis using assms(2) by (auto simp: unresolved_def sql_update_def terminal_states_def)
qed (use assms(2) in simp)

lemma execute_failed:
  assumes "\<forall>f. RouterDispatch (env_stub env) request f = []" and "execute env request p rt s = Inr (ok, t)" and "unresolved rid s"
  shows "\<not> ok \<and> unresolved rid t"
  using assms(2,3) unresolved_AssignAttempt [of "ir_request_id request" p _ "rt_engine_id rt" s]
  by (auto simp: execute_def bind_result_eq_Inr assms(1)[rule_format] split: option.splits if_splits)


text \<open>An engine that fails every request, and the message of the demonstration run.\<close>

definition failing_env :: "unit Environment" where
  "failing_env = demo_env\<lparr>env_stub := (\<lambda>d. (Ack ACCEPTED [] # WriteProgress ((fresh_job d)\<lparr>job_done := True,
     job_result := (DefaultResult [])\<lparr>succeeded := False, failure_reason := ''exceeds_kv_capacity''\<rparr>\<rparr>), True))\<rparr>"


text \<open>
  The interface also promises that a rejected dispatch burns no attempt. The durable router assigns the
  attempt in the store before it calls the engine, so a rejection (here because the engine drains) leaves
  the attempt number raised and the request dispatched.
\<close>

definition rejecting_env :: "unit Environment" where
  "rejecting_env = demo_env\<lparr>env_stub := (\<lambda>d. ([Ack REJECTED ''draining''], True))\<rparr>"

lemma rejected_dispatch_burns_attempt:
  "map (\<lambda>r. (rr_state r, rr_attempt_id r))
     (inference_requests (snd (snd (projr (handle_message rejecting_env (demo_message 0 ''q'') (snd demo_owned)))))) =
   [(''DISPATCHED'', 1)]"
  by code_simp

end
