(* ===== verification/StaticBatch.thy ===== *)
theory StaticBatch
  imports EngineTypes "HOL-Library.Sublist"
begin

text \<open>
  The first-come-first-served batch policy of \<open>cpp/src/static_batch_policy.cpp\<close>: a stable sort
  of the pending indices and one pass that fills the batch within its limits.
\<close>

section \<open>The policy\<close>

record PendingRequest =
  pr_request_id :: string
  pr_prompt_tokens :: nat
  pr_max_output_tokens :: nat
  pr_priority :: nat
  pr_arrival_time :: int

record StaticBatchPolicy =
  sp_max_batch_sequences :: nat
  sp_max_batch_tokens :: nat

definition MakeStaticBatchPolicy :: "nat \<Rightarrow> nat \<Rightarrow> error + StaticBatchPolicy" where
  "MakeStaticBatchPolicy sequences tokens =
     (if sequences = 0 \<or> tokens = 0 then Inl (InvalidArgument ''static batch limits must be positive'')
      else Inr \<lparr>sp_max_batch_sequences = sequences, sp_max_batch_tokens = tokens\<rparr>)"

text \<open>The comparator of \<open>std::stable_sort\<close> as a key.\<close>

definition arrival_key :: "PendingRequest list \<Rightarrow> int \<Rightarrow> nat \<Rightarrow> int \<times> string" where
  "arrival_key pending now i = (min (pr_arrival_time (pending ! i)) now, pr_request_id (pending ! i))"

definition ordered_indices :: "PendingRequest list \<Rightarrow> int \<Rightarrow> nat list" where
  "ordered_indices pending now = sort_key (arrival_key pending now) [0..<length pending]"

fun select_loop ::
    "StaticBatchPolicy \<Rightarrow> PendingRequest list \<Rightarrow> int \<Rightarrow> nat list \<Rightarrow> nat list \<Rightarrow> nat \<Rightarrow> nat list" where
  "select_loop p pending now [] selected token_count = selected"
| "select_loop p pending now (i # rest) selected token_count =
     (let r = pending ! i
      in if pr_arrival_time r > now then select_loop p pending now rest selected token_count
         else if pr_max_output_tokens r > sp_max_batch_tokens p
              \<or> pr_prompt_tokens r > sub64 (sp_max_batch_tokens p) (pr_max_output_tokens r)
         then select_loop p pending now rest selected token_count
         else
           let request_tokens = add64 (pr_prompt_tokens r) (pr_max_output_tokens r)
           in if length selected = sp_max_batch_sequences p then selected
              else if request_tokens > sub64 (sp_max_batch_tokens p) token_count
              then select_loop p pending now rest selected token_count
              else select_loop p pending now rest (selected @ [i]) (add64 token_count request_tokens))"

definition Select :: "StaticBatchPolicy \<Rightarrow> PendingRequest list \<Rightarrow> int \<Rightarrow> nat list" where
  "Select p pending now = select_loop p pending now (ordered_indices pending now) [] 0"

section \<open>What a selection satisfies\<close>

definition pr_tokens :: "PendingRequest \<Rightarrow> nat" where
  "pr_tokens r = pr_prompt_tokens r + pr_max_output_tokens r"

text \<open>A request that could be served in a batch of its own.\<close>

definition fits_alone :: "StaticBatchPolicy \<Rightarrow> int \<Rightarrow> PendingRequest \<Rightarrow> bool" where
  "fits_alone p now r \<longleftrightarrow> pr_arrival_time r \<le> now \<and> pr_tokens r \<le> sp_max_batch_tokens p"

definition batch_tokens :: "PendingRequest list \<Rightarrow> nat list \<Rightarrow> nat" where
  "batch_tokens pending is = sum_list (map (\<lambda>i. pr_tokens (pending ! i)) is)"

definition policy_ok :: "StaticBatchPolicy \<Rightarrow> bool" where
  "policy_ok p \<longleftrightarrow> 0 < sp_max_batch_sequences p \<and> 0 < sp_max_batch_tokens p \<and> sp_max_batch_tokens p < u64"

lemma batch_tokens_snoc: "batch_tokens pending (is @ [i]) = batch_tokens pending is + pr_tokens (pending ! i)"
  by (simp add: batch_tokens_def)

text \<open>One step of the pass, with the 64-bit arithmetic resolved.\<close>

lemma select_loop_step:
  assumes ok: "sp_max_batch_tokens p < u64" and tc: "token_count \<le> sp_max_batch_tokens p"
  shows "select_loop p pending now (i # rest) selected token_count =
    (if \<not> fits_alone p now (pending ! i) then select_loop p pending now rest selected token_count
     else if length selected = sp_max_batch_sequences p then selected
     else if token_count + pr_tokens (pending ! i) > sp_max_batch_tokens p
     then select_loop p pending now rest selected token_count
     else select_loop p pending now rest (selected @ [i]) (token_count + pr_tokens (pending ! i)))"
proof -
  let ?r = "pending ! i" and ?max = "sp_max_batch_tokens p"
  have fa: "(pr_arrival_time ?r > now \<or> pr_max_output_tokens ?r > ?max
      \<or> pr_prompt_tokens ?r > sub64 ?max (pr_max_output_tokens ?r)) = (\<not> fits_alone p now ?r)"
    using ok by (cases "pr_max_output_tokens ?r \<le> ?max") (auto simp: fits_alone_def pr_tokens_def sub64_exact)
  have sub: "sub64 ?max token_count = ?max - token_count" using ok tc by (simp add: sub64_exact)
  have sum: "add64 (pr_prompt_tokens ?r) (pr_max_output_tokens ?r) = pr_tokens ?r" if "fits_alone p now ?r"
    using that ok by (simp add: fits_alone_def pr_tokens_def add64_exact)
  have acc: "add64 token_count (pr_tokens ?r) = token_count + pr_tokens ?r" if "token_count + pr_tokens ?r \<le> ?max"
    using that ok by (simp add: add64_exact)
  have lim: "(pr_tokens ?r > ?max - token_count) = (token_count + pr_tokens ?r > ?max)" using tc by auto
  show ?thesis
  proof (cases "fits_alone p now ?r")
    case True
    then have "\<not> pr_arrival_time ?r > now" "\<not> (pr_max_output_tokens ?r > ?max
        \<or> pr_prompt_tokens ?r > sub64 ?max (pr_max_output_tokens ?r))" using fa by blast+
    with True show ?thesis by (simp add: Let_def sub sum lim acc)
  next
    case False
    then show ?thesis using fa by (simp add: Let_def) blast
  qed
qed

lemma select_loop_spec:
  assumes "policy_ok p" and "token_count = batch_tokens pending selected" and "token_count \<le> sp_max_batch_tokens p"
    and "length selected \<le> sp_max_batch_sequences p" and "distinct (selected @ is)"
    and "\<forall>i \<in> set selected. fits_alone p now (pending ! i)"
  shows "\<exists>new. select_loop p pending now is selected token_count = selected @ new \<and> subseq new is \<and>
    (\<forall>i \<in> set new. fits_alone p now (pending ! i)) \<and>
    batch_tokens pending (selected @ new) \<le> sp_max_batch_tokens p \<and>
    length (selected @ new) \<le> sp_max_batch_sequences p \<and>
    (selected = [] \<and> (\<exists>i \<in> set is. fits_alone p now (pending ! i)) \<longrightarrow> new \<noteq> [])"
  using assms
proof (induction "is" arbitrary: selected token_count)
  case (Cons i "is")
  have u: "sp_max_batch_tokens p < u64" "0 < sp_max_batch_sequences p" using Cons.prems(1) by (simp_all add: policy_ok_def)
  note step = select_loop_step [OF u(1) Cons.prems(3), of pending now i "is" selected]
  have d: "distinct (selected @ is)" using Cons.prems(5) by simp
  consider (skip) "\<not> fits_alone p now (pending ! i)"
    | (full) "fits_alone p now (pending ! i)" "length selected = sp_max_batch_sequences p"
    | (big) "fits_alone p now (pending ! i)" "length selected \<noteq> sp_max_batch_sequences p"
        "token_count + pr_tokens (pending ! i) > sp_max_batch_tokens p"
    | (take) "fits_alone p now (pending ! i)" "length selected \<noteq> sp_max_batch_sequences p"
        "token_count + pr_tokens (pending ! i) \<le> sp_max_batch_tokens p" by linarith
  then show ?case
  proof cases
    case skip
    with Cons.IH [OF Cons.prems(1-4) d Cons.prems(6)] show ?thesis unfolding step by auto
  next
    case full
    with Cons.prems u show ?thesis unfolding step by (intro exI [of _ "[]"]) auto
  next
    case big
    then have "selected \<noteq> []" using Cons.prems(2) by (auto simp: batch_tokens_def fits_alone_def)
    with big Cons.IH [OF Cons.prems(1-4) d Cons.prems(6)] show ?thesis unfolding step by auto
  next
    case take
    have "\<exists>new. select_loop p pending now is (selected @ [i]) (token_count + pr_tokens (pending ! i)) = (selected @ [i]) @ new
        \<and> subseq new is \<and> (\<forall>i \<in> set new. fits_alone p now (pending ! i)) \<and>
        batch_tokens pending ((selected @ [i]) @ new) \<le> sp_max_batch_tokens p \<and>
        length ((selected @ [i]) @ new) \<le> sp_max_batch_sequences p"
      using Cons.IH [of "token_count + pr_tokens (pending ! i)" "selected @ [i]"] Cons.prems take
      by (simp add: batch_tokens_snoc)
    then obtain new where "select_loop p pending now is (selected @ [i]) (token_count + pr_tokens (pending ! i)) = (selected @ [i]) @ new"
      "subseq new is" "\<forall>i \<in> set new. fits_alone p now (pending ! i)"
      "batch_tokens pending ((selected @ [i]) @ new) \<le> sp_max_batch_tokens p"
      "length ((selected @ [i]) @ new) \<le> sp_max_batch_sequences p" by blast
    with take show ?thesis unfolding step by (intro exI [of _ "i # new"]) auto
  qed
qed auto

lemma subseq_elems: "subseq xs ys \<Longrightarrow> set xs \<subseteq> set ys"
  by (induction rule: list_emb.induct) auto

lemma subseq_dist: "subseq xs ys \<Longrightarrow> distinct ys \<Longrightarrow> distinct xs"
  by (induction rule: list_emb.induct) (auto dest: subseq_elems)

lemma subseq_sorted: "subseq xs ys \<Longrightarrow> sorted (map f ys) \<Longrightarrow> sorted (map f xs)"
  by (induction rule: list_emb.induct) (auto dest: subseq_elems)

lemma Select_spec:
  assumes "policy_ok p"
  shows "subseq (Select p pending now) (ordered_indices pending now)"
    and "\<forall>i \<in> set (Select p pending now). i < length pending \<and> fits_alone p now (pending ! i)"
    and "batch_tokens pending (Select p pending now) \<le> sp_max_batch_tokens p"
    and "length (Select p pending now) \<le> sp_max_batch_sequences p" and "distinct (Select p pending now)"
    and "Select p pending now = [] \<longleftrightarrow> (\<forall>r \<in> set pending. \<not> fits_alone p now r)"
proof -
  let ?o = "ordered_indices pending now"
  have o: "distinct ?o" "set ?o = {..<length pending}" by (auto simp: ordered_indices_def)
  from select_loop_spec [OF assms, of 0 pending "[]" ?o now] o obtain new where
    new: "Select p pending now = new" "subseq new ?o" "\<forall>i \<in> set new. fits_alone p now (pending ! i)"
    "batch_tokens pending new \<le> sp_max_batch_tokens p" "length new \<le> sp_max_batch_sequences p"
    "(\<exists>i \<in> set ?o. fits_alone p now (pending ! i)) \<longrightarrow> new \<noteq> []"
    by (auto simp: Select_def batch_tokens_def)
  have sub: "set new \<subseteq> set ?o" using new(2) by (rule subseq_elems)
  show "subseq (Select p pending now) ?o" "batch_tokens pending (Select p pending now) \<le> sp_max_batch_tokens p"
    "length (Select p pending now) \<le> sp_max_batch_sequences p" using new by simp_all
  show "\<forall>i \<in> set (Select p pending now). i < length pending \<and> fits_alone p now (pending ! i)"
    using new sub o by auto
  show "distinct (Select p pending now)" using new o subseq_dist by blast
  show "Select p pending now = [] \<longleftrightarrow> (\<forall>r \<in> set pending. \<not> fits_alone p now r)"
  proof
    assume "Select p pending now = []"
    then have "\<forall>i < length pending. \<not> fits_alone p now (pending ! i)" using new(1,6) o(2) by auto
    then show "\<forall>r \<in> set pending. \<not> fits_alone p now r" by (auto simp: in_set_conv_nth)
  next
    assume none: "\<forall>r \<in> set pending. \<not> fits_alone p now r"
    show "Select p pending now = []"
    proof (rule ccontr)
      assume "Select p pending now \<noteq> []"
      then obtain i where "i \<in> set new" using new(1) by (cases new) auto
      then have "i < length pending" "fits_alone p now (pending ! i)" using new(3) sub o(2) by auto
      with none show False by (meson nth_mem)
    qed
  qed
qed

section \<open>Properties\<close>

text \<open>
  A batch respects its limits and serves first come first. \<open>Select\<close> returns distinct
  indices of requests that have arrived and fit a batch, in the order of arrival and then request
  id; there are at most \<open>max_batch_sequences\<close> of them and their prompt and output tokens
  together stay within \<open>max_batch_tokens\<close>. It returns nothing only if no arrived request fits.
\<close>

theorem Select_within_limits:
  assumes "MakeStaticBatchPolicy seqs toks = Inr p" and "toks < u64"
  shows "distinct (Select p pending now) \<and>
    (\<forall>i \<in> set (Select p pending now). i < length pending \<and> pr_arrival_time (pending ! i) \<le> now) \<and>
    sorted (map (arrival_key pending now) (Select p pending now)) \<and>
    length (Select p pending now) \<le> seqs \<and> batch_tokens pending (Select p pending now) \<le> toks \<and>
    (Select p pending now = [] \<longleftrightarrow> (\<forall>r \<in> set pending. pr_arrival_time r \<le> now \<longrightarrow> toks < pr_tokens r))"
proof -
  have p: "policy_ok p" "sp_max_batch_sequences p = seqs" "sp_max_batch_tokens p = toks"
    using assms by (auto simp: MakeStaticBatchPolicy_def policy_ok_def split: if_splits)
  note s = Select_spec [OF p(1), of pending now]
  have "sorted (map (arrival_key pending now) (ordered_indices pending now))"
    by (simp add: ordered_indices_def)
  then have "sorted (map (arrival_key pending now) (Select p pending now))" by (rule subseq_sorted [OF s(1)])
  then show ?thesis using s(2-6) p by (auto simp: fits_alone_def not_le)
qed

definition pr_example :: "string \<Rightarrow> int \<Rightarrow> nat \<Rightarrow> PendingRequest" where
  "pr_example rid t n = \<lparr>pr_request_id = rid, pr_prompt_tokens = n, pr_max_output_tokens = 2, pr_priority = 0, pr_arrival_time = t\<rparr>"

theorem Select_within_limits_witness:
  "Select \<lparr>sp_max_batch_sequences = 2, sp_max_batch_tokens = 16\<rparr>
     [pr_example ''b'' 3 4, pr_example ''a'' 3 4, pr_example ''c'' 9 4, pr_example ''d'' 1 40] 5 = [1, 0] \<and>
   batch_tokens [pr_example ''b'' 3 4, pr_example ''a'' 3 4, pr_example ''c'' 9 4, pr_example ''d'' 1 40] [1, 0] \<le> 16"
proof -
  have sel: "Select \<lparr>sp_max_batch_sequences = 2, sp_max_batch_tokens = 16\<rparr>
     [pr_example ''b'' 3 4, pr_example ''a'' 3 4, pr_example ''c'' 9 4, pr_example ''d'' 1 40] 5 = [1, 0]" by code_simp
  have "MakeStaticBatchPolicy 2 16 = Inr \<lparr>sp_max_batch_sequences = 2, sp_max_batch_tokens = 16\<rparr>"
    by (simp add: MakeStaticBatchPolicy_def)
  from Select_within_limits [OF this] sel show ?thesis by (metis numeral_less_iff semiring_norm(68,75,76,78))
qed

end
