(* ===== verification/PrefixCaches.thy ===== *)
theory PrefixCaches
  imports KvCache ResultCaches
begin

text \<open>
  The flat prefix cache of \<open>cpp/src/prefix_cache.cpp\<close>, which the static-batch engine uses: a
  least-recently-used table from keys to block lists, each entry pinned in the KV cache under its
  own key. The KV cache is passed in and returned.
\<close>

section \<open>State and operations\<close>

record PrefixCache =
  pc_capacity :: nat
  pc_recency :: "string list"
  pc_entries :: "(string \<times> nat list) list"
  pc_hits :: nat
  pc_misses :: nat

record PrefixMatch =
  pm_blocks :: "nat list"
  pm_matched_block_count :: nat

definition MakePrefixCache :: "nat \<Rightarrow> error + PrefixCache" where
  "MakePrefixCache capacity =
     (if capacity = 0 then Inl (InvalidArgument ''prefix cache capacity must be positive'')
      else Inr \<lparr>pc_capacity = capacity, pc_recency = [], pc_entries = [], pc_hits = 0, pc_misses = 0\<rparr>)"

text \<open>Dropping the least recently used entry, as \<open>Put\<close> and \<open>EvictOldest\<close> do it.\<close>

definition drop_oldest :: "PrefixCache \<Rightarrow> PagedKvCache \<Rightarrow> PrefixCache \<times> PagedKvCache" where
  "drop_oldest c kv =
     (let evicted = last (pc_recency c)
      in (c\<lparr>pc_recency := butlast (pc_recency c), pc_entries := AList.delete evicted (pc_entries c)\<rparr>,
          fst (UnpinPrefix kv evicted)))"

definition PrefixCache_Put ::
    "PrefixCache \<Rightarrow> PagedKvCache \<Rightarrow> string \<Rightarrow> nat list \<Rightarrow> PrefixCache \<times> PagedKvCache \<times> bool" where
  "PrefixCache_Put c kv key blocks =
     (case map_of (pc_entries c) key of
        Some held \<Rightarrow> (c\<lparr>pc_recency := move_to_front key (pc_recency c)\<rparr>, kv, held = blocks)
      | None \<Rightarrow>
          (case PinPrefix kv key blocks of
             (kv1, pinned) \<Rightarrow>
               if \<not> pinned then (c, kv1, False)
               else (case (if length (pc_entries c) = pc_capacity c then drop_oldest c kv1 else (c, kv1)) of
                       (c', kv') \<Rightarrow>
                         (c'\<lparr>pc_recency := key # pc_recency c', pc_entries := (key, blocks) # pc_entries c'\<rparr>,
                          kv', True))))"

definition PrefixCache_Get :: "PrefixCache \<Rightarrow> string \<Rightarrow> PrefixCache \<times> nat list option" where
  "PrefixCache_Get c key =
     (case map_of (pc_entries c) key of
        None \<Rightarrow> (c\<lparr>pc_misses := add64 (pc_misses c) 1\<rparr>, None)
      | Some blocks \<Rightarrow>
          (c\<lparr>pc_recency := move_to_front key (pc_recency c), pc_hits := add64 (pc_hits c) 1\<rparr>, Some blocks))"

definition BlockPrefixKey :: "string \<Rightarrow> string list \<Rightarrow> string" where
  "BlockPrefixKey cache_namespace hashes =
     foldl (\<lambda>key hash. key @ ''|'' @ to_string (length hash) @ '':'' @ hash)
       (''blocks|'' @ to_string (length cache_namespace) @ '':'' @ cache_namespace) hashes"

fun longest_from :: "PrefixCache \<Rightarrow> string \<Rightarrow> string list \<Rightarrow> nat \<Rightarrow> PrefixCache \<times> PrefixMatch option" where
  "longest_from c ns hashes 0 = (c\<lparr>pc_misses := add64 (pc_misses c) 1\<rparr>, None)"
| "longest_from c ns hashes (Suc n) =
     (let key = BlockPrefixKey ns (take (Suc n) hashes)
      in case map_of (pc_entries c) key of
           None \<Rightarrow> longest_from c ns hashes n
         | Some blocks \<Rightarrow>
             (c\<lparr>pc_recency := move_to_front key (pc_recency c), pc_hits := add64 (pc_hits c) 1\<rparr>,
              Some \<lparr>pm_blocks = blocks, pm_matched_block_count = Suc n\<rparr>))"

definition PrefixCache_GetLongest :: "PrefixCache \<Rightarrow> string \<Rightarrow> string list \<Rightarrow> PrefixCache \<times> PrefixMatch option" where
  "PrefixCache_GetLongest c cache_namespace hashes = longest_from c cache_namespace hashes (length hashes)"

definition put_prefix ::
    "string \<Rightarrow> string list \<Rightarrow> nat list \<Rightarrow> nat \<Rightarrow> PrefixCache \<times> PagedKvCache \<times> nat \<Rightarrow> PrefixCache \<times> PagedKvCache \<times> nat" where
  "put_prefix ns hashes blocks len = (\<lambda>(c, kv, inserted).
     case PrefixCache_Put c kv (BlockPrefixKey ns (take len hashes)) (take len blocks) of
       (c', kv', ok) \<Rightarrow> (c', kv', if ok then add64 inserted 1 else inserted))"

definition PrefixCache_PutBlockPrefixes ::
    "PrefixCache \<Rightarrow> PagedKvCache \<Rightarrow> string \<Rightarrow> string list \<Rightarrow> nat list \<Rightarrow> PrefixCache \<times> PagedKvCache \<times> nat" where
  "PrefixCache_PutBlockPrefixes c kv cache_namespace hashes blocks =
     fold (put_prefix cache_namespace hashes blocks) [1..<Suc (min (length hashes) (length blocks))] (c, kv, 0)"

definition PrefixCache_EvictOldest :: "PrefixCache \<Rightarrow> PagedKvCache \<Rightarrow> PrefixCache \<times> PagedKvCache \<times> bool" where
  "PrefixCache_EvictOldest c kv =
     (if pc_recency c = [] then (c, kv, False)
      else case drop_oldest c kv of (c', kv') \<Rightarrow> (c', kv', True))"

definition PrefixCache_Clear :: "PrefixCache \<Rightarrow> PagedKvCache \<Rightarrow> PrefixCache \<times> PagedKvCache" where
  "PrefixCache_Clear c kv =
     (c\<lparr>pc_recency := [], pc_entries := []\<rparr>, fold (\<lambda>key kv. fst (UnpinPrefix kv key)) (pc_recency c) kv)"

section \<open>Invariant\<close>

definition pc_shape :: "PrefixCache \<Rightarrow> bool" where
  "pc_shape c \<longleftrightarrow> 0 < pc_capacity c \<and> distinct (map fst (pc_entries c)) \<and> distinct (pc_recency c) \<and>
     set (pc_recency c) = fst ` set (pc_entries c) \<and> length (pc_entries c) \<le> pc_capacity c"

definition pc_inv :: "PrefixCache \<Rightarrow> PagedKvCache \<Rightarrow> bool" where
  "pc_inv c kv \<longleftrightarrow> pc_shape c \<and> mset (prefix_blocks kv) = mset (pc_entries c)"

lemma pc_shape_length: "pc_shape c \<Longrightarrow> length (pc_recency c) = length (pc_entries c)"
  by (metis distinct_card length_map list.set_map pc_shape_def)

lemma pc_shape_touch: "pc_shape c \<Longrightarrow> map_of (pc_entries c) k = Some v \<Longrightarrow>
  pc_shape (c\<lparr>pc_recency := move_to_front k (pc_recency c)\<rparr>)"
proof -
  assume sh: "pc_shape c" and "map_of (pc_entries c) k = Some v"
  then have "k \<in> set (pc_recency c)" by (metis map_of_eq_None_iff option.distinct(1) pc_shape_def)
  then show ?thesis using sh by (simp add: pc_shape_def)
qed

lemma drop_oldest_spec:
  assumes sh: "pc_shape c" and kv: "kv_inv kv" and ne: "pc_recency c \<noteq> []" and room: "entry_count kv < u32"
    and pins: "mset (prefix_blocks kv) = mset (pc_entries c) + X" and d: "drop_oldest c kv = (c', kv')"
  shows "pc_shape c'" and "mset (prefix_blocks kv') = mset (pc_entries c') + X" and "kv_inv kv'"
    and "Suc (length (pc_entries c')) = length (pc_entries c)" and "kv_same_seqs kv kv'"
    and "pc_capacity c' = pc_capacity c" and "fst ` set (pc_entries c') \<subseteq> fst ` set (pc_entries c)"
proof -
  obtain ys y where ys: "pc_recency c = ys @ [y]" using ne by (metis append_butlast_last_id)
  obtain r where un: "UnpinPrefix kv y = (kv', r)" and c': "c' = c\<lparr>pc_recency := ys, pc_entries := AList.delete y (pc_entries c)\<rparr>"
    using d ys by (cases "UnpinPrefix kv y") (auto simp: drop_oldest_def)
  have "y \<in> fst ` set (pc_entries c)" using sh ys by (auto simp: pc_shape_def)
  then obtain b where b: "map_of (pc_entries c) y = Some b" by (metis map_of_eq_None_iff option.exhaust)
  have de: "distinct (map fst (pc_entries c))" and dk: "distinct (map fst (prefix_blocks kv))"
    using sh kv by (simp_all add: pc_shape_def kv_inv_def kv_shape_def)
  have "(y, b) \<in># mset (prefix_blocks kv)" using b pins by (simp add: map_of_SomeD)
  then have "map_of (prefix_blocks kv) y = Some b" using dk by simp
  from mset_delete_key [OF dk this] mset_delete_key [OF de b] pins UnpinPrefix_frame(2) [OF un]
  show "mset (prefix_blocks kv') = mset (pc_entries c') + X" by (simp add: c')
  show len: "Suc (length (pc_entries c')) = length (pc_entries c)" using length_delete_key [OF de b] by (simp add: c')
  show "pc_shape c'" using sh ys len by (auto simp: c' pc_shape_def AList.distinct_delete fst_set_delete)
  show "kv_inv kv'" by (rule UnpinPrefix_inv [OF kv room un])
  show "kv_same_seqs kv kv'" using UnpinPrefix_frame [OF un] by (simp add: kv_same_seqs_def)
  show "pc_capacity c' = pc_capacity c" "fst ` set (pc_entries c') \<subseteq> fst ` set (pc_entries c)"
    by (auto simp: c' fst_set_delete)
qed

lemma PrefixCache_Put_spec:
  assumes inv: "pc_inv c kv" and kv: "kv_inv kv" and room: "kv_room kv"
    and put: "PrefixCache_Put c kv k bs = (c', kv', ok)"
  shows "pc_inv c' kv'" and "kv_inv kv'" and "kv_same_seqs kv kv'" and "pc_capacity c' = pc_capacity c"
    and "ok \<Longrightarrow> map_of (pc_entries c') k = Some bs"
    and "entry_count kv' \<le> entry_count kv + 1"
proof -
  have sh: "pc_shape c" and pins: "mset (prefix_blocks kv) = mset (pc_entries c)"
    using inv by (simp_all add: pc_inv_def)
  have "pc_inv c' kv' \<and> kv_inv kv' \<and> kv_same_seqs kv kv' \<and> pc_capacity c' = pc_capacity c
    \<and> (ok \<longrightarrow> map_of (pc_entries c') k = Some bs) \<and> entry_count kv' \<le> entry_count kv + 1"
  proof (cases "map_of (pc_entries c) k")
    case (Some held)
    with put have r: "c' = c\<lparr>pc_recency := move_to_front k (pc_recency c)\<rparr>" "kv' = kv" "ok = (held = bs)"
      by (simp_all add: PrefixCache_Put_def)
    with pc_shape_touch [OF sh Some] pins kv Some show ?thesis by (simp add: pc_inv_def)
  next
    case None
    obtain kv1 pinned where pin: "PinPrefix kv k bs = (kv1, pinned)" by fastforce
    note fr = PinPrefix_frame [OF pin]
    have kv1: "kv_inv kv1" by (rule PinPrefix_inv [OF kv room pin])
    show ?thesis
    proof (cases pinned)
      case False
      then have "kv1 = kv" using kv_pins.pin_refused pin by simp
      with put None pin False inv kv show ?thesis by (simp add: PrefixCache_Put_def)
    next
      case True
      obtain c1 kv2 where d: "(if length (pc_entries c) = pc_capacity c then drop_oldest c kv1 else (c, kv1)) = (c1, kv2)"
        by fastforce
      have r: "c' = c1\<lparr>pc_recency := k # pc_recency c1, pc_entries := (k, bs) # pc_entries c1\<rparr>" "kv' = kv2" "ok"
        using put None pin True d by (simp_all add: PrefixCache_Put_def)
      have pins1: "mset (prefix_blocks kv1) = mset (pc_entries c) + {#(k, bs)#}" using fr(3) True pins by simp
      have ec: "entry_count kv1 = entry_count kv + 1" using fr True by (simp add: entry_count_def)
      then have ec1: "entry_count kv1 < u32" using room by (simp add: kv_room_def)
      have same1: "kv_same_seqs kv kv1" using fr by (simp add: kv_same_seqs_def)
      have "pc_shape c1 \<and> mset (prefix_blocks kv2) = mset (pc_entries c1) + {#(k, bs)#} \<and> kv_inv kv2 \<and>
          length (pc_entries c1) < pc_capacity c1 \<and> kv_same_seqs kv1 kv2 \<and> pc_capacity c1 = pc_capacity c \<and>
          fst ` set (pc_entries c1) \<subseteq> fst ` set (pc_entries c)"
      proof (cases "length (pc_entries c) = pc_capacity c")
        case full: True
        then have "pc_recency c \<noteq> []" using sh pc_shape_length [OF sh] by (auto simp: pc_shape_def)
        with drop_oldest_spec [OF sh kv1 this ec1 pins1, of c1 kv2] d full show ?thesis by simp
      next
        case False
        with d sh pins1 kv1 show ?thesis by (auto simp: pc_shape_def)
      qed
      moreover from this have "k \<notin> fst ` set (pc_entries c1)" using None by (auto simp: map_of_eq_None_iff)
      moreover have "length (prefix_blocks kv2) \<le> length (prefix_blocks kv1)"
        using calculation(1) pins1 d drop_oldest_spec(4) [OF sh kv1 _ ec1 pins1, of c1 kv2]
        by (metis UnpinPrefix_frame(2) AList.length_delete_le drop_oldest_def eq_fst_iff order_refl prod.inject)
      ultimately show ?thesis
        using r same1 kv_same_seqs_trans ec
        by (auto simp: pc_inv_def pc_shape_def entry_count_def kv_same_seqs_def)
    qed
  qed
  then show "pc_inv c' kv'" "kv_inv kv'" "kv_same_seqs kv kv'" "pc_capacity c' = pc_capacity c"
    "ok \<Longrightarrow> map_of (pc_entries c') k = Some bs" "entry_count kv' \<le> entry_count kv + 1" by blast+
qed

lemma PrefixCache_Get_spec:
  assumes "pc_inv c kv" and "PrefixCache_Get c k = (c', v)"
  shows "pc_inv c' kv" and "v = map_of (pc_entries c) k" and "pc_entries c' = pc_entries c"
    and "pc_capacity c' = pc_capacity c"
proof -
  have "pc_inv c' kv \<and> v = map_of (pc_entries c) k \<and> pc_entries c' = pc_entries c \<and> pc_capacity c' = pc_capacity c"
  proof (cases "map_of (pc_entries c) k")
    case None
    then have "c' = c\<lparr>pc_misses := add64 (pc_misses c) 1\<rparr>" "v = None" using assms(2) by (simp_all add: PrefixCache_Get_def)
    with None assms(1) show ?thesis by (simp add: pc_inv_def pc_shape_def)
  next
    case (Some bs)
    then have "c' = c\<lparr>pc_recency := move_to_front k (pc_recency c), pc_hits := add64 (pc_hits c) 1\<rparr>" "v = Some bs"
      using assms(2) by (simp_all add: PrefixCache_Get_def)
    moreover have "pc_shape (c\<lparr>pc_recency := move_to_front k (pc_recency c)\<rparr>)"
      using assms(1) Some by (intro pc_shape_touch) (simp_all add: pc_inv_def)
    ultimately show ?thesis using Some assms(1) by (simp add: pc_inv_def pc_shape_def)
  qed
  then show "pc_inv c' kv" "v = map_of (pc_entries c) k" "pc_entries c' = pc_entries c"
    "pc_capacity c' = pc_capacity c" by simp_all
qed

lemma longest_from_spec:
  assumes "pc_inv c kv" and "longest_from c ns hs n = (c', m)"
  shows "pc_inv c' kv \<and> pc_entries c' = pc_entries c \<and> pc_capacity c' = pc_capacity c \<and>
    (case m of None \<Rightarrow> \<forall>j. 0 < j \<and> j \<le> n \<longrightarrow> map_of (pc_entries c) (BlockPrefixKey ns (take j hs)) = None
     | Some x \<Rightarrow> 0 < pm_matched_block_count x \<and> pm_matched_block_count x \<le> n \<and>
         map_of (pc_entries c) (BlockPrefixKey ns (take (pm_matched_block_count x) hs)) = Some (pm_blocks x) \<and>
         (\<forall>j. pm_matched_block_count x < j \<and> j \<le> n \<longrightarrow> map_of (pc_entries c) (BlockPrefixKey ns (take j hs)) = None))"
  using assms
proof (induction n)
  case 0
  then have "c' = c\<lparr>pc_misses := add64 (pc_misses c) 1\<rparr>" "m = None" by simp_all
  with "0.prems"(1) show ?case by (simp add: pc_inv_def pc_shape_def)
next
  case (Suc n)
  show ?case
  proof (cases "map_of (pc_entries c) (BlockPrefixKey ns (take (Suc n) hs))")
    case None
    then have "longest_from c ns hs n = (c', m)" using Suc.prems(2) by (simp add: Let_def)
    from Suc.IH [OF Suc.prems(1) this] None show ?thesis by (auto simp: le_Suc_eq split: option.splits)
  next
    case (Some bs)
    have "pc_shape (c\<lparr>pc_recency := move_to_front (BlockPrefixKey ns (take (Suc n) hs)) (pc_recency c)\<rparr>)"
      using Suc.prems(1) Some by (intro pc_shape_touch) (auto simp: pc_inv_def)
    moreover have "c' = c\<lparr>pc_recency := move_to_front (BlockPrefixKey ns (take (Suc n) hs)) (pc_recency c),
        pc_hits := add64 (pc_hits c) 1\<rparr>" "m = Some \<lparr>pm_blocks = bs, pm_matched_block_count = Suc n\<rparr>"
      using Some Suc.prems(2) by (auto simp: Let_def)
    ultimately show ?thesis using Some Suc.prems(1) by (simp add: pc_inv_def pc_shape_def) linarith
  qed
qed

lemma PrefixCache_EvictOldest_spec:
  assumes "pc_inv c kv" and "kv_inv kv" and "kv_room kv" and ev: "PrefixCache_EvictOldest c kv = (c', kv', ok)"
  shows "pc_inv c' kv'" and "kv_inv kv'" and "kv_same_seqs kv kv'" and "pc_capacity c' = pc_capacity c"
    and "ok \<longleftrightarrow> pc_entries c \<noteq> []"
proof -
  have sh: "pc_shape c" and pins: "mset (prefix_blocks kv) = mset (pc_entries c) + {#}"
    using assms(1) by (simp_all add: pc_inv_def)
  have "pc_inv c' kv' \<and> kv_inv kv' \<and> kv_same_seqs kv kv' \<and> pc_capacity c' = pc_capacity c \<and> (ok \<longleftrightarrow> pc_entries c \<noteq> [])"
  proof (cases "pc_recency c = []")
    case True
    with assms sh show ?thesis by (auto simp: PrefixCache_EvictOldest_def pc_shape_def)
  next
    case False
    then have d: "drop_oldest c kv = (c', kv')" "ok"
      using ev by (auto simp: PrefixCache_EvictOldest_def split: prod.splits)
    have "pc_entries c \<noteq> []" using False sh by (auto simp: pc_shape_def)
    with d drop_oldest_spec [OF sh assms(2) False kv_room_entries [OF assms(3)] pins d(1)]
    show ?thesis by (simp add: pc_inv_def)
  qed
  then show "pc_inv c' kv'" "kv_inv kv'" "kv_same_seqs kv kv'" "pc_capacity c' = pc_capacity c"
    "ok \<longleftrightarrow> pc_entries c \<noteq> []" by blast+
qed

lemma PrefixCache_Clear_spec:
  assumes inv: "pc_inv c kv" and kv: "kv_inv kv" and room: "kv_room kv" and cl: "PrefixCache_Clear c kv = (c', kv')"
  shows "prefix_blocks kv' = []" and "pc_inv c' kv'" and "kv_inv kv'" and "kv_same_seqs kv kv'"
proof -
  have r: "c' = c\<lparr>pc_recency := [], pc_entries := []\<rparr>" "kv' = fold (\<lambda>k kv. fst (UnpinPrefix kv k)) (pc_recency c) kv"
    using cl by (simp_all add: PrefixCache_Clear_def)
  have "fst ` set (prefix_blocks kv) = set (pc_recency c)"
    using inv unfolding pc_inv_def pc_shape_def by (metis mset_eq_setD)
  then show p: "prefix_blocks kv' = []" unfolding r by (intro kv_pins.unpin_all_empty) simp
  show "kv_inv kv'" unfolding r using kv_pins.unpin_all_inv [OF kv] room by (simp add: pin_room_left_pos)
  show "pc_inv c' kv'" using inv p by (simp add: r pc_inv_def pc_shape_def)
  show "kv_same_seqs kv kv'" unfolding r by (rule unpin_all_frame)
qed

section \<open>Keys\<close>

definition segment :: "string \<Rightarrow> string" where
  "segment v = to_string (length v) @ CHR '':'' # v"

lemma segment_inject: "segment v @ xs = segment w @ ys \<longleftrightarrow> v = w \<and> xs = ys"
  by (auto simp: segment_def to_string_sep_inject)

lemma BlockPrefixKey_expand:
  "BlockPrefixKey ns hs = ''blocks|'' @ segment ns @ concat (map (\<lambda>h. CHR ''|'' # segment h) hs)"
proof -
  have "foldl (\<lambda>key h. key @ ''|'' @ to_string (length h) @ '':'' @ h) k hs
      = k @ concat (map (\<lambda>h. CHR ''|'' # segment h) hs)" for k
    by (induction hs arbitrary: k) (simp_all add: segment_def)
  then show ?thesis by (simp add: BlockPrefixKey_def segment_def)
qed

lemma segments_inject:
  "concat (map (\<lambda>h. CHR ''|'' # segment h) hs) = concat (map (\<lambda>h. CHR ''|'' # segment h) gs) \<longleftrightarrow> hs = gs"
proof (induction hs arbitrary: gs)
  case Nil
  then show ?case by (cases gs) auto
next
  case (Cons h hs)
  then show ?case by (cases gs) (auto simp: segment_inject)
qed

section \<open>Runs\<close>

inductive pc_step :: "PrefixCache \<times> PagedKvCache \<Rightarrow> PrefixCache \<times> PagedKvCache \<Rightarrow> bool" where
  put: "kv_room kv \<Longrightarrow> PrefixCache_Put c kv k bs = (c', kv', r) \<Longrightarrow> pc_step (c, kv) (c', kv')"
| get: "PrefixCache_Get c k = (c', v) \<Longrightarrow> pc_step (c, kv) (c', kv)"
| longest: "PrefixCache_GetLongest c ns hs = (c', m) \<Longrightarrow> pc_step (c, kv) (c', kv)"
| put_prefixes: "entry_count kv + length hs + 2 < u32 \<Longrightarrow> PrefixCache_PutBlockPrefixes c kv ns hs bs = (c', kv', n)
    \<Longrightarrow> pc_step (c, kv) (c', kv')"
| evict: "kv_room kv \<Longrightarrow> PrefixCache_EvictOldest c kv = (c', kv', r) \<Longrightarrow> pc_step (c, kv) (c', kv')"
| clear: "kv_room kv \<Longrightarrow> PrefixCache_Clear c kv = (c', kv') \<Longrightarrow> pc_step (c, kv) (c', kv')"
| allocate: "kv_room kv \<Longrightarrow> n < u64 \<Longrightarrow> Allocate kv s n shared = (kv', st) \<Longrightarrow> pc_step (c, kv) (c, kv')"
| free: "kv_room kv \<Longrightarrow> Free kv s = (kv', r) \<Longrightarrow> pc_step (c, kv) (c, kv')"
| append: "kv_room kv \<Longrightarrow> AppendBlocks kv s n = (kv', st) \<Longrightarrow> pc_step (c, kv) (c, kv')"

definition pc_initial :: "PrefixCache \<times> PagedKvCache \<Rightarrow> bool" where
  "pc_initial s \<longleftrightarrow> kv_initial (snd s) \<and> (\<exists>cap. MakePrefixCache cap = Inr (fst s))"

definition pc_state_inv :: "PrefixCache \<times> PagedKvCache \<Rightarrow> bool" where
  "pc_state_inv s \<longleftrightarrow> pc_inv (fst s) (snd s) \<and> kv_inv (snd s)"

lemma pc_inv_same_pins: "pc_inv c kv \<Longrightarrow> prefix_blocks kv' = prefix_blocks kv \<Longrightarrow> pc_inv c kv'"
  by (simp add: pc_inv_def)

lemma put_prefixes_fold:
  assumes "pc_inv c kv" and "kv_inv kv" and "entry_count kv + length lens + 2 < u32"
    and "fold (put_prefix ns hs bs) lens (c, kv, n) = (c', kv', n')"
  shows "pc_inv c' kv' \<and> kv_inv kv' \<and> kv_same_seqs kv kv'"
  using assms
proof (induction lens arbitrary: c kv n)
  case (Cons l lens)
  obtain c1 kv1 ok where put: "PrefixCache_Put c kv (BlockPrefixKey ns (take l hs)) (take l bs) = (c1, kv1, ok)"
    using prod_cases3 by blast
  have room: "kv_room kv" using Cons.prems(3) by (simp add: kv_room_def)
  note p = PrefixCache_Put_spec [OF Cons.prems(1,2) room put]
  have "put_prefix ns hs bs l (c, kv, n) = (c1, kv1, if ok then add64 n 1 else n)"
    by (simp add: put_prefix_def put)
  then have "fold (put_prefix ns hs bs) lens (c1, kv1, if ok then add64 n 1 else n) = (c', kv', n')"
    using Cons.prems(4) by simp
  from Cons.IH [OF p(1,2) _ this] p(3,6) Cons.prems(3) show ?case using kv_same_seqs_trans by auto
qed simp

lemma pc_step_inv: "pc_step s t \<Longrightarrow> pc_state_inv s \<Longrightarrow> pc_state_inv t"
proof (induction rule: pc_step.induct)
  case (put kv c k bs c' kv' r)
  with PrefixCache_Put_spec [of c kv k bs c' kv' r] show ?case by (simp add: pc_state_inv_def)
next
  case (get c k c' v kv)
  with PrefixCache_Get_spec [of c kv k c' v] show ?case by (simp add: pc_state_inv_def)
next
  case (longest c ns hs c' m kv)
  with longest_from_spec [of c kv ns hs "length hs" c' m] show ?case
    by (simp add: pc_state_inv_def PrefixCache_GetLongest_def)
next
  case (put_prefixes kv hs c ns bs c' kv' n)
  with put_prefixes_fold [of c kv "[1..<Suc (min (length hs) (length bs))]" ns hs bs 0 c' kv' n] show ?case
    by (simp add: pc_state_inv_def PrefixCache_PutBlockPrefixes_def min_def del: upt_Suc split: if_splits)
next
  case (evict kv c c' kv' r)
  with PrefixCache_EvictOldest_spec [of c kv c' kv' r] show ?case by (simp add: pc_state_inv_def)
next
  case (clear kv c c' kv')
  with PrefixCache_Clear_spec [of c kv c' kv'] show ?case by (simp add: pc_state_inv_def)
next
  case (allocate kv n s shared kv' st c)
  then show ?case unfolding pc_state_inv_def
    by (auto intro: Allocate_inv pc_inv_same_pins [OF _ Allocate_frame(1)])
next
  case (free kv s kv' r c)
  then show ?case unfolding pc_state_inv_def
    by (auto intro: Free_inv kv_room_entries pc_inv_same_pins [OF _ Free_frame(2)])
next
  case (append kv s n kv' st c)
  then show ?case unfolding pc_state_inv_def
    by (auto intro: AppendBlocks_inv pc_inv_same_pins [OF _ AppendBlocks_frame(1)])
qed

lemma MakePrefixCache_inv: "MakePrefixCache cap = Inr c \<Longrightarrow> prefix_blocks kv = [] \<Longrightarrow> pc_inv c kv"
  by (auto simp: MakePrefixCache_def pc_inv_def pc_shape_def split: if_splits)

interpretation pc_run: invariant_system pc_initial pc_step pc_state_inv
proof
  fix s t
  show "pc_initial s \<Longrightarrow> pc_state_inv s"
    using MakePrefixCache_inv MakePagedKvCache_no_pins MakePagedKvCache_inv
    by (fastforce simp: pc_initial_def kv_initial_def pc_state_inv_def)
  show "pc_state_inv s \<Longrightarrow> pc_step s t \<Longrightarrow> pc_state_inv t" using pc_step_inv by blast
qed

section \<open>Properties\<close>

definition pc_fresh2 :: PrefixCache where
  "pc_fresh2 = \<lparr>pc_capacity = 2, pc_recency = [], pc_entries = [], pc_hits = 0, pc_misses = 0\<rparr>"

definition pc_kv :: PagedKvCache where
  "pc_kv = fst (Allocate kv_fresh3 ''s'' 2 [])"

definition pc_example :: "PrefixCache \<times> PagedKvCache" where
  "pc_example = (case PrefixCache_PutBlockPrefixes pc_fresh2 pc_kv ''m'' [''a'', ''b''] [0, 1] of (c, kv, n) \<Rightarrow> (c, kv))"

lemma pc_fresh2_make: "MakePrefixCache 2 = Inr pc_fresh2"
  by (simp add: MakePrefixCache_def pc_fresh2_def)

lemma pc_kv_alloc: "Allocate kv_fresh3 ''s'' 2 [] = (pc_kv, kAllocated)"
  by code_simp

lemma pc_example_run: "pc_step\<^sup>*\<^sup>* (pc_fresh2, kv_fresh3) (fst pc_example, snd pc_example)"
proof -
  have "pc_step (pc_fresh2, kv_fresh3) (pc_fresh2, pc_kv)"
    by (rule pc_step.allocate [OF _ _ pc_kv_alloc]) (simp_all add: kv_room_def entry_count_def kv_fresh3_def)
  moreover have put: "PrefixCache_PutBlockPrefixes pc_fresh2 pc_kv ''m'' [''a'', ''b''] [0, 1] =
      (fst pc_example, snd pc_example, 2)" by code_simp
  have "entry_count pc_kv = 1" by code_simp
  then have "pc_step (pc_fresh2, pc_kv) (fst pc_example, snd pc_example)"
    by (intro pc_step.put_prefixes [OF _ put]) simp
  ultimately show ?thesis by (simp add: converse_rtranclp_into_rtranclp)
qed

lemma pc_example_inv: "pc_inv (fst pc_example) (snd pc_example)" "kv_inv (snd pc_example)" "kv_room (snd pc_example)"
proof -
  have "pc_initial (pc_fresh2, kv_fresh3)"
    using pc_fresh2_make kv_fresh3_make by (auto simp: pc_initial_def kv_initial_def)
  from pc_run.inv_reachable [OF this pc_example_run]
  show "pc_inv (fst pc_example) (snd pc_example)" "kv_inv (snd pc_example)" by (simp_all add: pc_state_inv_def)
  have "entry_count (snd pc_example) = 3" by code_simp
  then show "kv_room (snd pc_example)" by (simp add: kv_room_def)
qed

text \<open>
  In every state that calls of the flat prefix cache and of the KV cache reach, the KV cache
  holds exactly the cached entries as pins (same keys, same blocks), there are at most
  \<open>capacity\<close> of them, and the KV cache's own check succeeds.
\<close>

theorem prefix_entries_are_pins:
  assumes "MakePrefixCache cap = Inr c0" and "MakePagedKvCache n b = Inr kv0"
    and "pc_step\<^sup>*\<^sup>* (c0, kv0) (c, kv)" and "kv_room kv"
  shows "mset (prefix_blocks kv) = mset (pc_entries c) \<and> length (pc_entries c) \<le> pc_capacity c \<and>
    set (pc_recency c) = fst ` set (pc_entries c) \<and> CheckInvariants kv"
proof -
  have "pc_state_inv (c, kv)"
    using assms by (intro pc_run.inv_reachable [OF _ assms(3)]) (auto simp: pc_initial_def kv_initial_def)
  then show ?thesis using CheckInvariants_iff_refs_ok [OF kv_room_entries [OF assms(4)]]
    by (simp add: pc_state_inv_def pc_inv_def pc_shape_def kv_inv_def kv_shape_def)
qed

theorem prefix_entries_are_pins_witness:
  "length (pc_entries (fst pc_example)) = 2 \<and>
   mset (prefix_blocks (snd pc_example)) = mset (pc_entries (fst pc_example)) \<and> CheckInvariants (snd pc_example)"
proof -
  have "length (pc_entries (fst pc_example)) = 2" by code_simp
  with prefix_entries_are_pins [OF pc_fresh2_make kv_fresh3_make pc_example_run pc_example_inv(3)]
  show ?thesis by blast
qed

text \<open>
  \<open>GetLongest\<close> returns the longest cached prefix. A match of \<open>n\<close> blocks is the entry
  for the first \<open>n\<close> hashes, and no longer prefix of the prompt is cached; no match means that
  no prefix of the prompt is cached at all. The table is not changed.
\<close>

theorem PrefixCache_GetLongest_longest:
  assumes "pc_inv c kv" and "PrefixCache_GetLongest c ns hs = (c', m)"
  shows "pc_entries c' = pc_entries c \<and>
    (case m of
       None \<Rightarrow> \<forall>j. 0 < j \<and> j \<le> length hs \<longrightarrow> map_of (pc_entries c) (BlockPrefixKey ns (take j hs)) = None
     | Some x \<Rightarrow> 0 < pm_matched_block_count x \<and> pm_matched_block_count x \<le> length hs \<and>
         map_of (pc_entries c) (BlockPrefixKey ns (take (pm_matched_block_count x) hs)) = Some (pm_blocks x) \<and>
         (\<forall>j. pm_matched_block_count x < j \<and> j \<le> length hs
            \<longrightarrow> map_of (pc_entries c) (BlockPrefixKey ns (take j hs)) = None))"
  using longest_from_spec [OF assms(1), of ns hs "length hs" c' m] assms(2)
  by (simp add: PrefixCache_GetLongest_def)

theorem PrefixCache_GetLongest_longest_witness:
  "\<exists>c'. PrefixCache_GetLongest (fst pc_example) ''m'' [''a'', ''b'', ''c''] =
     (c', Some \<lparr>pm_blocks = [0, 1], pm_matched_block_count = 2\<rparr>) \<and> pc_entries c' = pc_entries (fst pc_example)"
proof -
  have m: "snd (PrefixCache_GetLongest (fst pc_example) ''m'' [''a'', ''b'', ''c'']) =
      Some \<lparr>pm_blocks = [0, 1], pm_matched_block_count = 2\<rparr>" by code_simp
  let ?r = "PrefixCache_GetLongest (fst pc_example) ''m'' [''a'', ''b'', ''c'']"
  have r: "?r = (fst ?r, Some \<lparr>pm_blocks = [0, 1], pm_matched_block_count = 2\<rparr>)" unfolding m [symmetric] by simp
  from PrefixCache_GetLongest_longest [OF pc_example_inv(1) r]
  have "pc_entries (fst ?r) = pc_entries (fst pc_example)" by blast
  with r show ?thesis by blast
qed

text \<open>
  The key of a block prefix is injective: two prompts share a key only if namespace and every
  block hash agree, whatever characters they contain.
\<close>

theorem BlockPrefixKey_injective: "BlockPrefixKey ns hs = BlockPrefixKey ns' hs' \<longleftrightarrow> ns = ns' \<and> hs = hs'"
  unfolding BlockPrefixKey_expand by (simp add: segment_inject segments_inject)

text \<open>
  A \<open>Put\<close> that returns true stored exactly the given blocks (whatever it had to evict), and
  the next \<open>Get\<close> for the key returns them; a \<open>Put\<close> never changes the blocks of a sequence.
\<close>

theorem PrefixCache_Put_Get:
  assumes "pc_inv c kv" and "kv_inv kv" and "kv_room kv" and "PrefixCache_Put c kv k bs = (c', kv', True)"
  shows "snd (PrefixCache_Get c' k) = Some bs \<and> pc_inv c' kv' \<and> kv_inv kv' \<and> sequence_blocks kv' = sequence_blocks kv"
  using PrefixCache_Put_spec [OF assms] by (simp add: PrefixCache_Get_def kv_same_seqs_def)

theorem PrefixCache_Put_Get_witness:
  "\<exists>c' kv'. PrefixCache_Put (fst pc_example) (snd pc_example) ''x'' [1] = (c', kv', True) \<and>
     snd (PrefixCache_Get c' ''x'') = Some [1]"
proof -
  obtain c' kv' ok where put: "PrefixCache_Put (fst pc_example) (snd pc_example) ''x'' [1] = (c', kv', ok)"
    using prod_cases3 by blast
  have "snd (snd (PrefixCache_Put (fst pc_example) (snd pc_example) ''x'' [1]))" by code_simp
  with put have "ok" by simp
  with put PrefixCache_Put_Get [OF pc_example_inv, of "''x''" "[1]" c' kv'] show ?thesis by auto
qed

end
