(* ===== verification/DeterministicEngines.thy ===== *)
theory DeterministicEngines
  imports StaticBatch PrefixCaches
begin

text \<open>
  The static-batch reference engine of \<open>cpp/src/deterministic_engine.cpp\<close>: requests that can
  never be served are refused, a batch is selected, admitted, prefilled, decoded to its end and
  completed; the loop repeats until nothing is pending or nothing can be admitted.
\<close>

section \<open>State\<close>

record DeterministicEngine =
  de_config :: EngineConfig
  de_clock :: int
  de_cost_model :: DeterministicCostModel
  de_kv_cache :: PagedKvCache
  de_prefix_cache :: PrefixCache
  de_result_cache :: ResultCache
  de_policy :: StaticBatchPolicy
  de_pending :: "EngineRequest list"
  de_results :: "EngineResult list"

definition MakeDeterministicEngine :: "draw \<Rightarrow> EngineConfig \<Rightarrow> error + DeterministicEngine" where
  "MakeDeterministicEngine draw config =
     (case MakeCostModel draw (seed config) (cost_model config) of Inl err \<Rightarrow> Inl err | Inr cm \<Rightarrow>
      case MakePagedKvCache (kv_blocks config) (kv_block_size_tokens config) of Inl err \<Rightarrow> Inl err | Inr kv \<Rightarrow>
      case MakePrefixCache (prefix_cache_entries config) of Inl err \<Rightarrow> Inl err | Inr pc \<Rightarrow>
      case MakeResultCache (result_cache_entries config) of Inl err \<Rightarrow> Inl err | Inr rc \<Rightarrow>
      case MakeStaticBatchPolicy (max_batch_sequences config) (max_batch_tokens config) of Inl err \<Rightarrow> Inl err | Inr p \<Rightarrow>
      Inr \<lparr>de_config = config, de_clock = 0, de_cost_model = cm, de_kv_cache = kv, de_prefix_cache = pc,
           de_result_cache = rc, de_policy = p, de_pending = [], de_results = []\<rparr>)"

definition DeterministicEngine_Submit :: "DeterministicEngine \<Rightarrow> EngineRequest \<Rightarrow> DeterministicEngine" where
  "DeterministicEngine_Submit e request = e\<lparr>de_pending := de_pending e @ [request]\<rparr>"

definition PrefixKey :: "EngineRequest \<Rightarrow> string" where
  "PrefixKey r = AppendPart (AppendPart (AppendPart [] (model_revision r)) (tokenizer_revision r)) (prompt_hash r)
     @ to_string (prompt_tokens r)"

definition DeterministicEngine_ImpossibleReason :: "DeterministicEngine \<Rightarrow> EngineRequest \<Rightarrow> string option" where
  "DeterministicEngine_ImpossibleReason e r =
     (if prompt_tokens r > (u64 - 1) - max_output_tokens r then Some ''token_count_overflow''
      else
        let total_tokens = add64 (prompt_tokens r) (max_output_tokens r)
        in if total_tokens > max_batch_tokens (de_config e) then Some ''exceeds_max_batch_tokens''
           else if BlocksForTokens total_tokens (kv_block_size_tokens (de_config e)) > total_blocks (de_kv_cache e)
           then Some ''exceeds_kv_capacity''
           else None)"

section \<open>Refusing requests\<close>

text \<open>The erasing loop: kept requests are collected in order, a result is pushed for the others.\<close>

fun reject_from :: "EngineRequest list \<Rightarrow> EngineRequest list \<Rightarrow> DeterministicEngine \<Rightarrow> DeterministicEngine \<times> bool" where
  "reject_from kept [] e = (e\<lparr>de_pending := kept\<rparr>, False)"
| "reject_from kept (r # rest) e =
     (case DeterministicEngine_ImpossibleReason e r of
        None \<Rightarrow> reject_from (kept @ [r]) rest e
      | Some reason \<Rightarrow>
          if arrival_time r > de_clock e then reject_from (kept @ [r]) rest e
          else (fst (reject_from kept rest (e\<lparr>de_results := de_results e @
                  [(DefaultResult (request_id r))\<lparr>completed_at := de_clock e, succeeded := False,
                     failure_reason := reason\<rparr>]\<rparr>)), True))"

definition RejectImpossibleReadyRequests :: "DeterministicEngine \<Rightarrow> DeterministicEngine \<times> bool" where
  "RejectImpossibleReadyRequests e = reject_from [] (de_pending e) e"

section \<open>One batch\<close>

record BatchActive =
  ba_pending_index :: nat
  ba_state :: ExecutionState
  ba_remaining_tokens :: nat
  ba_prefix_cache_hit :: bool

record BatchState =
  bs_engine :: DeterministicEngine
  bs_active :: "BatchActive list"
  bs_completed_indices :: "nat list"
  bs_uncached_prompt_tokens :: nat

definition policy_input :: "EngineRequest list \<Rightarrow> PendingRequest list" where
  "policy_input = map (\<lambda>r. \<lparr>pr_request_id = request_id r, pr_prompt_tokens = prompt_tokens r,
     pr_max_output_tokens = max_output_tokens r, pr_priority = priority r, pr_arrival_time = arrival_time r\<rparr>)"

text \<open>A selected request without a cached result: its prefix, its blocks, its place in the batch.\<close>

definition batch_place :: "nat \<Rightarrow> BatchState \<Rightarrow> BatchState" where
  "batch_place index st =
     (let e = bs_engine st;
          r = de_pending e ! index;
          prompt_blocks = BlocksForTokens (prompt_tokens r) (kv_block_size_tokens (de_config e));
          required_blocks = BlocksForTokens (add64 (prompt_tokens r) (max_output_tokens r))
                              (kv_block_size_tokens (de_config e));
          (pc, found) = PrefixCache_Get (de_prefix_cache e) (PrefixKey r);
          shared = (case found of None \<Rightarrow> [] | Some bs \<Rightarrow> if length bs > prompt_blocks then [] else bs)
      in case Allocate (de_kv_cache e) (request_id r) required_blocks shared of
           (kv, status) \<Rightarrow>
             (let e' = e\<lparr>de_kv_cache := kv, de_prefix_cache := pc\<rparr>
              in if status \<noteq> kAllocated then st\<lparr>bs_engine := e'\<rparr>
                 else
                   let cached_tokens = (if length shared \<ge> prompt_blocks then prompt_tokens r
                                        else mul64 (length shared) (kv_block_size_tokens (de_config e)))
                   in st\<lparr>bs_engine := e',
                         bs_active := bs_active st @ [\<lparr>ba_pending_index = index,
                           ba_state = fst (TransitionTo kWaitingAdmission kPrefill),
                           ba_remaining_tokens = max_output_tokens r, ba_prefix_cache_hit = (shared \<noteq> [])\<rparr>],
                         bs_uncached_prompt_tokens := add64 (bs_uncached_prompt_tokens st)
                           (sub64 (prompt_tokens r) cached_tokens)\<rparr>))"

definition batch_admit :: "nat \<Rightarrow> BatchState \<Rightarrow> BatchState" where
  "batch_admit index st =
     (let e = bs_engine st;
          r = de_pending e ! index
      in case ResultCache_Get (de_result_cache e) (ResultKey r) of
           (rc, Some cached) \<Rightarrow>
             st\<lparr>bs_engine := e\<lparr>de_result_cache := rc, de_results := de_results e @
                  [(DefaultResult (request_id r))\<lparr>res_output := cached, completed_at := de_clock e,
                     result_cache_hit := True\<rparr>]\<rparr>,
                bs_completed_indices := bs_completed_indices st @ [index]\<rparr>
         | (rc, None) \<Rightarrow>
             (let st' = st\<lparr>bs_engine := e\<lparr>de_result_cache := rc\<rparr>\<rparr>
              in if prompt_tokens r > (u64 - 1) - max_output_tokens r then st' else batch_place index st'))"

text \<open>After the prefill: the blocks of a prompt that was not shared are offered to the prefix cache.\<close>

definition batch_cache_prompt :: "BatchActive \<Rightarrow> DeterministicEngine \<Rightarrow> DeterministicEngine" where
  "batch_cache_prompt a e =
     (let r = de_pending e ! ba_pending_index a
      in if \<not> ba_prefix_cache_hit a \<and> prompt_tokens r > 0
         then (let prompt_blocks = BlocksForTokens (prompt_tokens r) (kv_block_size_tokens (de_config e));
                   all_blocks = BlocksFor (de_kv_cache e) (request_id r)
               in case PrefixCache_Put (de_prefix_cache e) (de_kv_cache e) (PrefixKey r)
                         (take (min prompt_blocks (length all_blocks)) all_blocks) of
                    (pc, kv, stored) \<Rightarrow> e\<lparr>de_kv_cache := kv, de_prefix_cache := pc\<rparr>)
         else e)"

definition batch_prefill :: "BatchState \<Rightarrow> DeterministicEngine" where
  "batch_prefill st =
     (let e = bs_engine st
      in if bs_active st \<noteq> []
         then (case Prefill (de_cost_model e) (bs_uncached_prompt_tokens st) of
                 (cm, cost) \<Rightarrow> e\<lparr>de_clock := Advance (de_clock e) cost, de_cost_model := cm\<rparr>)
         else e)"

definition enter_decode :: "BatchActive \<Rightarrow> BatchActive" where
  "enter_decode a = a\<lparr>ba_state := fst (TransitionTo (ba_state a) kDecode)\<rparr>"

definition dec_remaining :: "BatchActive \<Rightarrow> BatchActive" where
  "dec_remaining a =
     (if ba_remaining_tokens a > 0 then a\<lparr>ba_remaining_tokens := ba_remaining_tokens a - 1\<rparr> else a)"

lemma dec_remaining_less:
  assumes "\<exists>a \<in> set act. ba_remaining_tokens a > 0"
  shows "sum_list (map (ba_remaining_tokens \<circ> dec_remaining) act) < sum_list (map ba_remaining_tokens act)"
  using assms
proof (induction act)
  case (Cons a act)
  have le: "sum_list (map (ba_remaining_tokens \<circ> dec_remaining) xs) \<le> sum_list (map ba_remaining_tokens xs)" for xs
    by (rule sum_list_mono) (simp add: dec_remaining_def)
  show ?case
  proof (cases "ba_remaining_tokens a > 0")
    case True
    then have "ba_remaining_tokens (dec_remaining a) < ba_remaining_tokens a" by (simp add: dec_remaining_def)
    with le [of act] show ?thesis by (simp add: o_def)
  next
    case False
    then have "dec_remaining a = a" by (simp add: dec_remaining_def)
    with False Cons show ?thesis by simp
  qed
qed simp

function batch_decode :: "BatchActive list \<Rightarrow> DeterministicEngine \<Rightarrow> BatchActive list \<times> DeterministicEngine" where
  "batch_decode active e =
     (if (\<exists>a \<in> set active. ba_remaining_tokens a > 0)
      then (case DecodeStep (de_cost_model e) (length (filter (\<lambda>a. ba_remaining_tokens a > 0) active)) of
              (cm, cost) \<Rightarrow>
                batch_decode (map dec_remaining active)
                  (e\<lparr>de_clock := Advance (de_clock e) cost, de_cost_model := cm\<rparr>))
      else (active, e))"
  by pat_completeness auto
termination
  by (relation "measure (\<lambda>(active, _). sum_list (map ba_remaining_tokens active))")
    (auto intro: dec_remaining_less)

declare batch_decode.simps [simp del]

definition batch_complete :: "BatchActive \<Rightarrow> DeterministicEngine \<Rightarrow> DeterministicEngine" where
  "batch_complete a e =
     (let r = de_pending e ! ba_pending_index a
      in e\<lparr>de_kv_cache := fst (Free (de_kv_cache e) (request_id r)),
           de_result_cache := ResultCache_Put (de_result_cache e) (ResultKey r) (SimulatedOutput r),
           de_results := de_results e @ [(DefaultResult (request_id r))
             \<lparr>res_output := SimulatedOutput r, completed_at := de_clock e,
              prefix_cache_hit := ba_prefix_cache_hit a\<rparr>]\<rparr>)"

definition erase_index :: "nat \<Rightarrow> 'a list \<Rightarrow> 'a list" where
  "erase_index i xs = take i xs @ drop (Suc i) xs"

definition RunOneBatch :: "DeterministicEngine \<Rightarrow> DeterministicEngine \<times> bool" where
  "RunOneBatch e =
     (case RejectImpossibleReadyRequests e of
        (e0, rejected) \<Rightarrow>
          (let selected = Select (de_policy e0) (policy_input (de_pending e0)) (de_clock e0)
           in if selected = [] then (e0, rejected)
              else
                let st = fold batch_admit selected
                           \<lparr>bs_engine = e0, bs_active = [], bs_completed_indices = [], bs_uncached_prompt_tokens = 0\<rparr>;
                    e1 = batch_prefill st;
                    e2 = fold batch_cache_prompt (bs_active st) e1;
                    (active, e3) = batch_decode (map enter_decode (bs_active st)) e2;
                    e4 = fold batch_complete active e3;
                    completed = bs_completed_indices st @ map ba_pending_index active
                in (e4\<lparr>de_pending := fold erase_index (rev (sort completed)) (de_pending e4)\<rparr>,
                    rejected \<or> completed \<noteq> [])))"

section \<open>The outer loop\<close>

definition earlier_arrival :: "int \<Rightarrow> EngineRequest \<Rightarrow> int option \<Rightarrow> int option" where
  "earlier_arrival now r found =
     (if arrival_time r > now \<and> (case found of None \<Rightarrow> True | Some t \<Rightarrow> arrival_time r < t)
      then Some (arrival_time r) else found)"

partial_function (option) DeterministicEngine_RunUntilIdle :: "DeterministicEngine \<Rightarrow> DeterministicEngine option" where
  "DeterministicEngine_RunUntilIdle e =
     (if de_pending e \<noteq> []
      then (case RunOneBatch e of
              (e', progressed) \<Rightarrow>
                if progressed then DeterministicEngine_RunUntilIdle e'
                else (case fold (earlier_arrival (de_clock e')) (de_pending e') None of
                        Some t \<Rightarrow> DeterministicEngine_RunUntilIdle
                          (e'\<lparr>de_clock := Advance (de_clock e') (t - de_clock e')\<rparr>)
                      | None \<Rightarrow> Some e'))
      else Some e)"

declare DeterministicEngine_RunUntilIdle.simps [code]

definition DeterministicEngine_ClearCaches :: "DeterministicEngine \<Rightarrow> DeterministicEngine" where
  "DeterministicEngine_ClearCaches e =
     (case PrefixCache_Clear (de_prefix_cache e) (de_kv_cache e) of
        (pc, kv) \<Rightarrow> e\<lparr>de_kv_cache := kv, de_prefix_cache := pc\<rparr>)"

end
