(* ===== verification/DeterministicProofs.thy ===== *)
theory DeterministicProofs
  imports DeterministicEngines
begin

text \<open>
  Correctness of the static-batch engine: every batch keeps the caches consistent and the ledger of
  requests and results balanced, a batch that reports progress shortens the queue, and
  \<open>RunUntilIdle\<close> returns.
\<close>

section \<open>Requests and the ledger\<close>

definition det_reason :: "EngineConfig \<Rightarrow> EngineRequest \<Rightarrow> string option" where
  "det_reason cfg r =
     (if prompt_tokens r + max_output_tokens r \<ge> u64 then Some ''token_count_overflow''
      else if prompt_tokens r + max_output_tokens r > max_batch_tokens cfg then Some ''exceeds_max_batch_tokens''
      else if BlocksForTokens (prompt_tokens r + max_output_tokens r) (kv_block_size_tokens cfg) > kv_blocks cfg
      then Some ''exceeds_kv_capacity''
      else None)"

definition det_outcome :: "EngineConfig \<Rightarrow> EngineRequest \<Rightarrow> outcome" where
  "det_outcome cfg r = (request_id r,
     case det_reason cfg r of Some reason \<Rightarrow> Inl reason | None \<Rightarrow> Inr (SimulatedOutput r))"

definition det_ledger :: "DeterministicEngine \<Rightarrow> outcome multiset" where
  "det_ledger e = image_mset (det_outcome (de_config e)) (mset (de_pending e)) +
     image_mset result_outcome (mset (de_results e))"

lemma det_reason_code:
  assumes "request_ok r" and "total_blocks (de_kv_cache e) = kv_blocks (de_config e)"
  shows "DeterministicEngine_ImpossibleReason e r = det_reason (de_config e) r"
proof -
  have "(prompt_tokens r > (u64 - 1) - max_output_tokens r) = (prompt_tokens r + max_output_tokens r \<ge> u64)"
    using assms(1) by (auto simp: request_ok_def)
  moreover have "add64 (prompt_tokens r) (max_output_tokens r) = prompt_tokens r + max_output_tokens r"
    if "\<not> prompt_tokens r + max_output_tokens r \<ge> u64" using that by (simp add: add64_exact)
  ultimately show ?thesis using assms(2)
    unfolding DeterministicEngine_ImpossibleReason_def det_reason_def Let_def by simp
qed

section \<open>Invariant\<close>

definition det_small :: "EngineConfig \<Rightarrow> bool" where
  "det_small cfg \<longleftrightarrow> max_batch_sequences cfg + prefix_cache_entries cfg + 3 < u32 \<and> max_batch_tokens cfg < u64
     \<and> kv_blocks cfg < u64 \<and> 0 < kv_block_size_tokens cfg \<and> 0 < max_batch_sequences cfg \<and> 0 < max_batch_tokens cfg"

definition det_caches :: "string multiset \<Rightarrow> DeterministicEngine \<Rightarrow> bool" where
  "det_caches ids e \<longleftrightarrow> det_small (de_config e) \<and> pc_inv (de_prefix_cache e) (de_kv_cache e) \<and> kv_inv (de_kv_cache e) \<and>
     total_blocks (de_kv_cache e) = kv_blocks (de_config e) \<and>
     pc_capacity (de_prefix_cache e) = prefix_cache_entries (de_config e) \<and>
     mset (map fst (sequence_blocks (de_kv_cache e))) = ids \<and> size ids \<le> max_batch_sequences (de_config e)"

definition det_inv :: "DeterministicEngine \<Rightarrow> bool" where
  "det_inv e \<longleftrightarrow> det_caches {#} e \<and> result_cache_sound (de_result_cache e) \<and>
     de_policy e = \<lparr>sp_max_batch_sequences = max_batch_sequences (de_config e),
                    sp_max_batch_tokens = max_batch_tokens (de_config e)\<rparr> \<and>
     (\<forall>r \<in> set (de_pending e). request_ok r)"

lemma det_caches_irrelevant [simp]:
  "det_caches ids (e\<lparr>de_result_cache := rc\<rparr>) = det_caches ids e"
  "det_caches ids (e\<lparr>de_results := rs\<rparr>) = det_caches ids e"
  "det_caches ids (e\<lparr>de_clock := t\<rparr>) = det_caches ids e"
  "det_caches ids (e\<lparr>de_cost_model := cm\<rparr>) = det_caches ids e"
  "det_caches ids (e\<lparr>de_pending := ps\<rparr>) = det_caches ids e"
  by (simp_all add: det_caches_def)

lemma det_caches_room:
  assumes "det_caches ids e"
  shows "kv_room (de_kv_cache e)"
proof -
  have "length (sequence_blocks (de_kv_cache e)) = size ids"
    using assms unfolding det_caches_def by (metis length_map size_mset)
  moreover have "length (prefix_blocks (de_kv_cache e)) = length (pc_entries (de_prefix_cache e))"
    using assms unfolding det_caches_def pc_inv_def by (metis size_mset)
  ultimately show ?thesis
    using assms by (auto simp: det_caches_def pc_inv_def pc_shape_def det_small_def kv_room_def entry_count_def)
qed

section \<open>Refusals\<close>

lemma reject_from_spec:
  assumes "\<forall>r \<in> set (kept @ rest). request_ok r" and "total_blocks (de_kv_cache e) = kv_blocks (de_config e)"
    and "reject_from kept rest e = (e', rejected)"
  shows "\<exists>ps rs. e' = e\<lparr>de_pending := kept @ ps, de_results := rs\<rparr> \<and>
    ps = filter (\<lambda>r. de_clock e < arrival_time r \<or> det_reason (de_config e) r = None) rest \<and>
    image_mset (det_outcome (de_config e)) (mset ps) + image_mset result_outcome (mset rs) =
      image_mset (det_outcome (de_config e)) (mset rest) + image_mset result_outcome (mset (de_results e)) \<and>
    (rejected \<longleftrightarrow> length ps < length rest)"
  using assms
proof (induction kept rest e arbitrary: e' rejected rule: reject_from.induct)
  case (1 kept e)
  then show ?case by (intro exI [of _ "[]"] exI [of _ "de_results e"]) auto
next
  case (2 kept r rest e)
  have ok: "request_ok r" "\<forall>r \<in> set ((kept @ [r]) @ rest). request_ok r" "\<forall>r \<in> set (kept @ rest). request_ok r"
    using "2.prems"(1) by simp_all
  note reason = det_reason_code [OF ok(1) "2.prems"(2)]
  show ?case
  proof (cases "de_clock e < arrival_time r \<or> det_reason (de_config e) r = None")
    case True
    then have rec: "reject_from (kept @ [r]) rest e = (e', rejected)"
      using "2.prems"(3) reason by (auto split: option.splits)
    have "\<exists>ps rs. e' = e\<lparr>de_pending := (kept @ [r]) @ ps, de_results := rs\<rparr> \<and>
        ps = filter (\<lambda>r. de_clock e < arrival_time r \<or> det_reason (de_config e) r = None) rest \<and>
        image_mset (det_outcome (de_config e)) (mset ps) + image_mset result_outcome (mset rs) =
          image_mset (det_outcome (de_config e)) (mset rest) + image_mset result_outcome (mset (de_results e)) \<and>
        (rejected \<longleftrightarrow> length ps < length rest)"
    proof (cases "det_reason (de_config e) r")
      case None
      with "2.IH"(1) reason ok(2) "2.prems"(2) rec show ?thesis by simp
    next
      case (Some x)
      with True have "arrival_time r > de_clock e" by simp
      with "2.IH"(2) [of x] Some reason ok(2) "2.prems"(2) rec show ?thesis by simp
    qed
    with True show ?thesis by auto
  next
    case False
    then obtain x where x: "det_reason (de_config e) r = Some x" "\<not> arrival_time r > de_clock e" by auto
    let ?res = "(DefaultResult (request_id r))\<lparr>completed_at := de_clock e, succeeded := False, failure_reason := x\<rparr>"
    let ?e = "e\<lparr>de_results := de_results e @ [?res]\<rparr>"
    obtain e1 b where rec: "reject_from kept rest ?e = (e1, b)" by fastforce
    have res: "e' = e1" "rejected" using "2.prems"(3) reason x rec by simp_all
    have imp: "DeterministicEngine_ImpossibleReason e r = Some x" using reason x(1) by simp
    from "2.IH"(3) [OF imp x(2) ok(3) _ rec] "2.prems"(2) obtain ps rs where
      "e1 = ?e\<lparr>de_pending := kept @ ps, de_results := rs\<rparr>"
      "ps = filter (\<lambda>r. de_clock e < arrival_time r \<or> det_reason (de_config e) r = None) rest"
      "image_mset (det_outcome (de_config e)) (mset ps) + image_mset result_outcome (mset rs) =
        image_mset (det_outcome (de_config e)) (mset rest) + image_mset result_outcome (mset (de_results ?e))"
      by auto
    moreover have "result_outcome ?res = det_outcome (de_config e) r"
      using x by (simp add: result_outcome_def det_outcome_def DefaultResult_def)
    ultimately show ?thesis using res False length_filter_le [of _ rest]
      by (intro exI [of _ ps] exI [of _ rs]) (simp add: less_Suc_eq_le)
  qed
qed

lemma RejectImpossibleReadyRequests_spec:
  assumes inv: "det_inv e" and r: "RejectImpossibleReadyRequests e = (e', rejected)"
  shows "det_inv e'" and "det_ledger e' = det_ledger e" and "de_config e' = de_config e" and "de_clock e' = de_clock e"
    and "\<forall>r \<in> set (de_pending e'). de_clock e < arrival_time r \<or> det_reason (de_config e) r = None"
    and "rejected \<longleftrightarrow> length (de_pending e') < length (de_pending e)"
    and "\<not> rejected \<Longrightarrow> de_pending e' = de_pending e" and "length (de_pending e') \<le> length (de_pending e)"
proof -
  let ?P = "\<lambda>r. de_clock e < arrival_time r \<or> det_reason (de_config e) r = None"
  have "\<forall>r \<in> set ([] @ de_pending e). request_ok r" "total_blocks (de_kv_cache e) = kv_blocks (de_config e)"
    using inv by (simp_all add: det_inv_def det_caches_def)
  from reject_from_spec [OF this r [unfolded RejectImpossibleReadyRequests_def]] obtain rs where
    e': "e' = e\<lparr>de_pending := filter ?P (de_pending e), de_results := rs\<rparr>"
    and l: "image_mset (det_outcome (de_config e)) (mset (filter ?P (de_pending e))) + image_mset result_outcome (mset rs) =
      image_mset (det_outcome (de_config e)) (mset (de_pending e)) + image_mset result_outcome (mset (de_results e))"
    and f: "rejected \<longleftrightarrow> length (filter ?P (de_pending e)) < length (de_pending e)" by auto
  show "det_inv e'" using inv by (auto simp: e' det_inv_def det_caches_def)
  show "det_ledger e' = det_ledger e" using l by (simp add: e' det_ledger_def)
  show "de_config e' = de_config e" "de_clock e' = de_clock e" "\<forall>r \<in> set (de_pending e'). ?P r"
    "length (de_pending e') \<le> length (de_pending e)" by (simp_all add: e')
  show "rejected \<longleftrightarrow> length (de_pending e') < length (de_pending e)" using f by (simp add: e')
  show "de_pending e' = de_pending e" if "\<not> rejected"
  proof -
    have "length (filter ?P (de_pending e)) = length (de_pending e)"
      using that f length_filter_le [of ?P "de_pending e"] by linarith
    then have "\<forall>r \<in> set (de_pending e). ?P r" using length_filter_less [of _ "de_pending e" ?P] by (metis less_irrefl)
    then show ?thesis by (simp add: e')
  qed
qed

section \<open>Admission into a batch\<close>

text \<open>The state of the admission loop over the selected indices, with what is left to scan.\<close>

definition batch_inv :: "DeterministicEngine \<Rightarrow> nat list \<Rightarrow> BatchState \<Rightarrow> bool" where
  "batch_inv e0 todo st \<longleftrightarrow> (let e = bs_engine st; pend = de_pending e0; cfg = de_config e0 in
     de_pending e = pend \<and> de_config e = cfg \<and> de_policy e = de_policy e0 \<and> de_clock e = de_clock e0 \<and>
     det_caches (mset (map (\<lambda>a. request_id (pend ! ba_pending_index a)) (bs_active st))) e \<and>
     result_cache_sound (de_result_cache e) \<and>
     image_mset result_outcome (mset (de_results e)) = image_mset result_outcome (mset (de_results e0)) +
       image_mset (det_outcome cfg \<circ> (!) pend) (mset (bs_completed_indices st)) \<and>
     distinct (bs_completed_indices st @ map ba_pending_index (bs_active st) @ todo) \<and>
     (\<forall>i \<in> set (bs_completed_indices st @ map ba_pending_index (bs_active st) @ todo).
        i < length pend \<and> det_reason cfg (pend ! i) = None) \<and>
     length (bs_active st) + length todo \<le> max_batch_sequences cfg)"

lemma batch_inv_skip:
  assumes "batch_inv e0 (i # todo) st"
  shows "batch_inv e0 todo st"
  using assms by (simp add: batch_inv_def Let_def)

lemma batch_place_inv:
  assumes inv: "batch_inv e0 (i # todo) st" and ok: "request_ok (de_pending e0 ! i)"
  shows "batch_inv e0 todo (batch_place i st)"
proof -
  let ?e = "bs_engine st" and ?r = "de_pending e0 ! i" and ?cfg = "de_config e0"
  let ?ids = "mset (map (\<lambda>a. request_id (de_pending e0 ! ba_pending_index a)) (bs_active st))"
  define n where "n = BlocksForTokens (add64 (prompt_tokens ?r) (max_output_tokens ?r)) (kv_block_size_tokens ?cfg)"
  define pb where "pb = BlocksForTokens (prompt_tokens ?r) (kv_block_size_tokens ?cfg)"
  obtain pc found where get: "PrefixCache_Get (de_prefix_cache ?e) (PrefixKey ?r) = (pc, found)" by fastforce
  define shared where "shared = (case found of None \<Rightarrow> [] | Some bs \<Rightarrow> if length bs > pb then [] else bs)"
  obtain kv status where al: "Allocate (de_kv_cache ?e) (request_id ?r) n shared = (kv, status)" by fastforce
  let ?e' = "?e\<lparr>de_kv_cache := kv, de_prefix_cache := pc\<rparr>"
  have b: "de_pending ?e = de_pending e0" "de_config ?e = ?cfg" and caches: "det_caches ?ids ?e"
    using inv by (simp_all add: batch_inv_def Let_def)
  have kvi: "kv_inv (de_kv_cache ?e)" and pci: "pc_inv (de_prefix_cache ?e) (de_kv_cache ?e)"
    using caches by (simp_all add: det_caches_def)
  have "det_reason ?cfg ?r = None" using inv by (simp add: batch_inv_def Let_def)
  then have "n \<le> kv_blocks ?cfg" by (auto simp: det_reason_def n_def add64_exact split: if_splits)
  then have n: "n < u64" using caches b by (simp add: det_caches_def det_small_def)
  note gs = PrefixCache_Get_spec [OF pci get] and fr = Allocate_frame [OF al]
  have kvi': "kv_inv kv" by (rule Allocate_inv [OF kvi det_caches_room [OF caches] n al])
  have pci': "pc_inv pc kv" by (rule pc_inv_same_pins [OF gs(1) fr(1)])
  have size: "Suc (length (bs_active st)) \<le> max_batch_sequences ?cfg" using inv by (simp add: batch_inv_def Let_def)
  have base: "det_caches M ?e'" if "mset (map fst (sequence_blocks kv)) = M" "size M \<le> max_batch_sequences ?cfg" for M
    using that caches kvi' pci' gs(4) fr(2) b by (simp add: det_caches_def)
  have unf: "batch_place i st = (if status \<noteq> kAllocated then st\<lparr>bs_engine := ?e'\<rparr>
      else st\<lparr>bs_engine := ?e', bs_active := bs_active st @ [\<lparr>ba_pending_index = i,
          ba_state = fst (TransitionTo kWaitingAdmission kPrefill), ba_remaining_tokens = max_output_tokens ?r,
          ba_prefix_cache_hit = (shared \<noteq> [])\<rparr>],
        bs_uncached_prompt_tokens := add64 (bs_uncached_prompt_tokens st) (sub64 (prompt_tokens ?r)
          (if length shared \<ge> pb then prompt_tokens ?r else mul64 (length shared) (kv_block_size_tokens ?cfg)))\<rparr>)"
    unfolding batch_place_def Let_def b n_def [symmetric] pb_def [symmetric] get prod.case shared_def [symmetric] al ..
  have other: ?thesis if "status \<noteq> kAllocated" "kv = de_kv_cache ?e"
  proof -
    have "det_caches ?ids ?e'" using that caches by (intro base) (simp_all add: det_caches_def b)
    with inv that(1) show ?thesis unfolding unf by (simp add: batch_inv_def Let_def)
  qed
  from kvi n al show ?thesis
  proof (cases rule: Allocate_cases)
    case (allocated fresh refs)
    have "mset (map fst (sequence_blocks kv)) = add_mset (request_id ?r) ?ids"
      using allocated(8) caches by (simp add: det_caches_def)
    then have "det_caches (add_mset (request_id ?r) ?ids) ?e'" using size by (intro base) simp_all
    with inv allocated(1) show ?thesis unfolding unf by (simp add: batch_inv_def Let_def)
  qed (use other in simp_all)
qed

lemma batch_admit_inv:
  assumes inv: "batch_inv e0 (i # todo) st" and ok: "request_ok (de_pending e0 ! i)"
  shows "batch_inv e0 todo (batch_admit i st)"
proof -
  let ?e = "bs_engine st" and ?r = "de_pending e0 ! i"
  have b: "de_pending ?e = de_pending e0" "result_cache_sound (de_result_cache ?e)" "det_reason (de_config e0) ?r = None"
    using inv by (simp_all add: batch_inv_def Let_def)
  obtain rc v where g: "ResultCache_Get (de_result_cache ?e) (ResultKey ?r) = (rc, v)" by fastforce
  note s = result_cache_get [OF b(2) g]
  show ?thesis
  proof (cases v)
    case (Some out)
    then have "out = SimulatedOutput ?r" using s by blast
    with Some inv s(1) g b show ?thesis
      by (simp add: batch_admit_def Let_def batch_inv_def result_outcome_def DefaultResult_def det_outcome_def)
  next
    case None
    let ?st = "st\<lparr>bs_engine := ?e\<lparr>de_result_cache := rc\<rparr>\<rparr>"
    have st: "batch_inv e0 (i # todo) ?st" using inv s(1) by (simp add: batch_inv_def Let_def)
    have "batch_admit i st = ?st \<or> batch_admit i st = batch_place i ?st"
      unfolding batch_admit_def Let_def b(1) g None prod.case option.case by meson
    then show ?thesis using batch_place_inv [OF st ok] batch_inv_skip [OF st] by metis
  qed
qed

lemma batch_admit_fold:
  assumes "batch_inv e0 todo st" and "\<forall>r \<in> set (de_pending e0). request_ok r"
  shows "batch_inv e0 [] (fold batch_admit todo st)"
  using assms(1)
proof (induction todo arbitrary: st)
  case (Cons i todo)
  have "i < length (de_pending e0)" using Cons.prems by (simp add: batch_inv_def Let_def)
  then have "request_ok (de_pending e0 ! i)" using assms(2) by simp
  from Cons.IH [OF batch_admit_inv [OF Cons.prems this]] show ?case by simp
qed simp

section \<open>Prefill, decode, completion\<close>

text \<open>What the middle of a batch may change: the clock, the cost model and the two caches.\<close>

definition batch_same :: "DeterministicEngine \<Rightarrow> DeterministicEngine \<Rightarrow> bool" where
  "batch_same e e' \<longleftrightarrow> de_pending e' = de_pending e \<and> de_config e' = de_config e \<and> de_policy e' = de_policy e \<and>
     de_results e' = de_results e \<and> de_result_cache e' = de_result_cache e \<and> de_clock e \<le> de_clock e'"

lemma batch_same_refl [simp]: "batch_same e e"
  by (simp add: batch_same_def)

lemma batch_same_trans: "batch_same a b \<Longrightarrow> batch_same b c \<Longrightarrow> batch_same a c"
  by (auto simp: batch_same_def)

lemma batch_prefill_spec:
  "batch_same (bs_engine st) (batch_prefill st)" "det_caches ids (batch_prefill st) = det_caches ids (bs_engine st)"
  "bs_active st = [] \<Longrightarrow> batch_prefill st = bs_engine st"
  using Advance_ge by (auto simp: batch_prefill_def batch_same_def Let_def split: prod.splits)

lemma batch_cache_prompt_spec:
  assumes "det_caches ids e"
  shows "batch_same e (batch_cache_prompt a e)" and "det_caches ids (batch_cache_prompt a e)"
proof -
  let ?r = "de_pending e ! ba_pending_index a" and ?all = "BlocksFor (de_kv_cache e) (request_id (de_pending e ! ba_pending_index a))"
  let ?bs = "take (min (BlocksForTokens (prompt_tokens ?r) (kv_block_size_tokens (de_config e))) (length ?all)) ?all"
  obtain pc kv ok where put: "PrefixCache_Put (de_prefix_cache e) (de_kv_cache e) (PrefixKey ?r) ?bs = (pc, kv, ok)"
    using prod_cases3 by blast
  have i: "pc_inv (de_prefix_cache e) (de_kv_cache e)" "kv_inv (de_kv_cache e)" using assms by (simp_all add: det_caches_def)
  note p = PrefixCache_Put_spec [OF i det_caches_room [OF assms] put]
  have r: "batch_cache_prompt a e = e \<or> batch_cache_prompt a e = e\<lparr>de_kv_cache := kv, de_prefix_cache := pc\<rparr>"
    unfolding batch_cache_prompt_def Let_def put prod.case by meson
  then show "batch_same e (batch_cache_prompt a e)" by (auto simp: batch_same_def)
  show "det_caches ids (batch_cache_prompt a e)"
    using r assms p by (auto simp: det_caches_def kv_same_seqs_def)
qed

lemma batch_cache_prompts_spec:
  "det_caches ids e \<Longrightarrow> batch_same e (fold batch_cache_prompt as e) \<and> det_caches ids (fold batch_cache_prompt as e)"
proof (induction as arbitrary: e)
  case (Cons a as)
  from Cons.IH [OF batch_cache_prompt_spec(2) [OF Cons.prems]] batch_cache_prompt_spec(1) [OF Cons.prems]
  show ?case using batch_same_trans by (metis fold_simps(2))
qed simp

lemma batch_decode_spec:
  "batch_decode act e = (act', e') \<Longrightarrow> batch_same e e' \<and> (\<forall>ids. det_caches ids e' = det_caches ids e)
     \<and> map ba_pending_index act' = map ba_pending_index act \<and> (\<forall>a \<in> set act'. ba_remaining_tokens a = 0)"
proof (induction act e rule: batch_decode.induct)
  case (1 act e)
  show ?case
  proof (cases "\<exists>a \<in> set act. ba_remaining_tokens a > 0")
    case False
    with "1.prems" show ?thesis by (auto simp: batch_decode.simps [of act e])
  next
    case True
    obtain cm cost where d: "DecodeStep (de_cost_model e) (length (filter (\<lambda>a. ba_remaining_tokens a > 0) act)) = (cm, cost)"
      by fastforce
    let ?e = "e\<lparr>de_clock := Advance (de_clock e) cost, de_cost_model := cm\<rparr>"
    have rec: "batch_decode (map dec_remaining act) ?e = (act', e')"
      using "1.prems" True d by (simp add: batch_decode.simps [of act e])
    have "map ba_pending_index (map dec_remaining act) = map ba_pending_index act" by (simp add: dec_remaining_def)
    moreover have "batch_same e ?e" using Advance_ge by (simp add: batch_same_def)
    ultimately show ?thesis
      using "1.IH" [OF True d [symmetric] rec] batch_same_trans [of e ?e e'] by simp
  qed
qed

text \<open>Completing the whole batch: every sequence is freed and has its result.\<close>

lemma batch_complete_fold:
  assumes "det_caches (mset (map (\<lambda>a. request_id (de_pending e ! ba_pending_index a)) act)) e"
    and "result_cache_sound (de_result_cache e)"
    and "\<forall>a \<in> set act. det_reason (de_config e) (de_pending e ! ba_pending_index a) = None"
  shows "let e' = fold batch_complete act e in
    det_caches {#} e' \<and> result_cache_sound (de_result_cache e') \<and> de_pending e' = de_pending e \<and>
    de_config e' = de_config e \<and> de_policy e' = de_policy e \<and> de_clock e' = de_clock e \<and>
    image_mset result_outcome (mset (de_results e')) = image_mset result_outcome (mset (de_results e)) +
      image_mset (det_outcome (de_config e) \<circ> (!) (de_pending e)) (mset (map ba_pending_index act))"
  using assms
proof (induction act arbitrary: e)
  case (Cons a act)
  let ?r = "de_pending e ! ba_pending_index a" and ?e = "batch_complete a e"
  let ?ids = "mset (map (\<lambda>a. request_id (de_pending e ! ba_pending_index a)) act)"
  obtain kv f where fr: "Free (de_kv_cache e) (request_id ?r) = (kv, f)" by fastforce
  have c: "det_caches (add_mset (request_id ?r) ?ids) e" using Cons.prems(1) by simp
  have kvi: "kv_inv (de_kv_cache e)" using c by (simp add: det_caches_def)
  note ff = Free_frame [OF fr]
  have "kv_inv kv" by (rule Free_inv [OF kvi kv_room_entries [OF det_caches_room [OF c]] fr])
  moreover have m: "mset (map fst (AList.delete (request_id ?r) (sequence_blocks (de_kv_cache e)))) = ?ids"
  proof -
    have d: "distinct (map fst (sequence_blocks (de_kv_cache e)))" using kvi by (simp add: kv_inv_def kv_shape_def)
    have seqs: "mset (map fst (sequence_blocks (de_kv_cache e))) = add_mset (request_id ?r) ?ids"
      using c by (simp add: det_caches_def)
    then have "request_id ?r \<in> fst ` set (sequence_blocks (de_kv_cache e))"
      by (metis list.set_map set_mset_mset union_single_eq_member)
    then obtain bs where "map_of (sequence_blocks (de_kv_cache e)) (request_id ?r) = Some bs"
      by (metis map_of_eq_None_iff option.exhaust)
    from arg_cong [OF mset_delete_key [OF d this], of "image_mset fst"] seqs show ?thesis by simp
  qed
  moreover obtain rs where e: "?e = e\<lparr>de_kv_cache := kv, de_result_cache := ResultCache_Put (de_result_cache e) (ResultKey ?r) (SimulatedOutput ?r),
      de_results := rs\<rparr>" using fr by (simp add: batch_complete_def Let_def)
  ultimately have "det_caches ?ids ?e"
    using c ff pc_inv_same_pins [of "de_prefix_cache e" "de_kv_cache e" kv] by (simp add: det_caches_def)
  moreover have rc: "result_cache_sound (de_result_cache ?e)" using result_cache_put [OF Cons.prems(2), of ?r] by (simp add: e)
  moreover have "de_pending ?e = de_pending e" "de_config ?e = de_config e" "de_policy ?e = de_policy e" "de_clock ?e = de_clock e"
    by (simp_all add: e)
  moreover have "image_mset result_outcome (mset (de_results ?e)) =
      add_mset (det_outcome (de_config e) ?r) (image_mset result_outcome (mset (de_results e)))"
    using Cons.prems(3) by (simp add: batch_complete_def Let_def result_outcome_def DefaultResult_def det_outcome_def)
  ultimately show ?case using Cons.IH [of ?e] Cons.prems(3) by (simp add: Let_def)
qed simp

section \<open>Erasing the completed requests\<close>

lemma mset_erase_index: "i < length xs \<Longrightarrow> mset xs = add_mset (xs ! i) (mset (erase_index i xs))"
  by (metis erase_index_def id_take_nth_drop mset_append mset.simps(2) union_mset_add_mset_right)

lemma erase_indices_mset:
  assumes "sorted_wrt (>) is" and "\<forall>i \<in> set is. i < length xs"
  shows "mset xs = mset (fold erase_index is xs) + image_mset ((!) xs) (mset is)"
  using assms
proof (induction "is" arbitrary: xs)
  case (Cons i "is")
  let ?xs = "erase_index i xs"
  have i: "i < length xs" "\<forall>j \<in> set is. j < i" using Cons.prems by simp_all
  then have len: "\<forall>j \<in> set is. j < length ?xs" by (auto simp: erase_index_def)
  have nth: "?xs ! j = xs ! j" if "j \<in> set is" for j
    using that i by (simp add: erase_index_def nth_append)
  have "image_mset ((!) ?xs) (mset is) = image_mset ((!) xs) (mset is)"
    using nth by (intro image_mset_cong) simp
  with Cons.IH [OF _ len] Cons.prems(1) mset_erase_index [OF i(1)] show ?case by simp
qed simp

lemma erase_completed:
  assumes "distinct completed" and "\<forall>i \<in> set completed. i < length xs"
  shows "mset xs = mset (fold erase_index (rev (sort completed)) xs) + image_mset ((!) xs) (mset completed)"
proof -
  have "sorted_wrt (<) (sort completed)" using assms(1) by (simp add: strict_sorted_iff)
  then have "sorted_wrt (>) (rev (sort completed))" by (simp add: sorted_wrt_rev)
  from erase_indices_mset [OF this] assms(2) show ?thesis by simp
qed

section \<open>Batches\<close>

definition batch_result :: "DeterministicEngine \<Rightarrow> DeterministicEngine \<Rightarrow> bool \<Rightarrow> bool" where
  "batch_result e e' progressed \<longleftrightarrow> det_inv e' \<and> det_ledger e' = det_ledger e \<and> de_config e' = de_config e \<and>
     de_clock e \<le> de_clock e' \<and> (progressed \<longrightarrow> length (de_pending e') < length (de_pending e)) \<and>
     (\<not> progressed \<longrightarrow> mset (de_pending e') = mset (de_pending e) \<and> de_clock e' = de_clock e \<and>
        (\<forall>r \<in> set (de_pending e'). de_clock e < arrival_time r \<or> det_reason (de_config e) r = None))"

lemma policy_input_length [simp]: "length (policy_input ps) = length ps"
  by (simp add: policy_input_def)

lemma policy_input_arrival: "i < length ps \<Longrightarrow> pr_arrival_time (policy_input ps ! i) = arrival_time (ps ! i)"
  by (simp add: policy_input_def)

lemma batch_result_after:
  assumes "batch_result e0 e' p" and "det_ledger e0 = det_ledger e" "de_config e0 = de_config e" "de_clock e0 = de_clock e"
    and "rejected \<longleftrightarrow> length (de_pending e0) < length (de_pending e)" "length (de_pending e0) \<le> length (de_pending e)"
    and "\<not> rejected \<Longrightarrow> de_pending e0 = de_pending e"
  shows "batch_result e e' (rejected \<or> p)"
proof -
  have len: "length (de_pending e') \<le> length (de_pending e0)"
    using assms(1) by (cases p) (auto simp: batch_result_def dest: mset_eq_length)
  show ?thesis
  proof (cases rejected)
    case True
    with assms(1-5) len show ?thesis by (auto simp: batch_result_def)
  next
    case False
    with assms(1-4,7) show ?thesis by (auto simp: batch_result_def)
  qed
qed

text \<open>A selected batch on an engine without impossible ready requests.\<close>

lemma run_selected:
  fixes e0 :: DeterministicEngine
  defines "selected \<equiv> Select (de_policy e0) (policy_input (de_pending e0)) (de_clock e0)"
  defines "st \<equiv> fold batch_admit selected
      \<lparr>bs_engine = e0, bs_active = [], bs_completed_indices = [], bs_uncached_prompt_tokens = 0\<rparr>"
  assumes inv: "det_inv e0" and ready: "\<forall>r \<in> set (de_pending e0). de_clock e0 < arrival_time r \<or> det_reason (de_config e0) r = None"
    and dec: "batch_decode (map enter_decode (bs_active st)) (fold batch_cache_prompt (bs_active st) (batch_prefill st)) = (act, e3)"
    and e4: "e4 = fold batch_complete act e3" and completed: "completed = bs_completed_indices st @ map ba_pending_index act"
  shows "batch_result e0 (e4\<lparr>de_pending := fold erase_index (rev (sort completed)) (de_pending e4)\<rparr>) (completed \<noteq> [])"
proof -
  let ?pend = "de_pending e0" and ?cfg = "de_config e0"
  let ?ids = "mset (map (\<lambda>a. request_id (?pend ! ba_pending_index a)) (bs_active st))"
  have okp: "\<forall>r \<in> set ?pend. request_ok r" and small: "det_small ?cfg"
    using inv by (simp_all add: det_inv_def det_caches_def)
  have pol: "policy_ok (de_policy e0)" "sp_max_batch_sequences (de_policy e0) = max_batch_sequences ?cfg"
    using inv small by (simp_all add: det_inv_def policy_ok_def det_small_def)
  note sel = Select_spec [OF pol(1), of "policy_input ?pend" "de_clock e0"]
  have "i < length ?pend \<and> det_reason ?cfg (?pend ! i) = None" if "i \<in> set selected" for i
  proof -
    have i: "i < length ?pend" "arrival_time (?pend ! i) \<le> de_clock e0"
      using sel(2) that policy_input_arrival [of i ?pend] unfolding selected_def by (auto simp: fits_alone_def)
    with ready show ?thesis by (metis nth_mem not_le)
  qed
  then have "batch_inv e0 selected \<lparr>bs_engine = e0, bs_active = [], bs_completed_indices = [], bs_uncached_prompt_tokens = 0\<rparr>"
    using inv sel(4,5) pol(2) by (simp add: batch_inv_def det_inv_def selected_def)
  then have bi: "batch_inv e0 [] st" unfolding st_def by (rule batch_admit_fold [OF _ okp])
  then have e1: "de_pending (bs_engine st) = ?pend" "de_config (bs_engine st) = ?cfg" "det_caches ?ids (bs_engine st)"
    "result_cache_sound (de_result_cache (bs_engine st))" "de_policy (bs_engine st) = de_policy e0"
    "de_clock (bs_engine st) = de_clock e0" by (simp_all add: batch_inv_def Let_def)
  have "batch_same (batch_prefill st) (fold batch_cache_prompt (bs_active st) (batch_prefill st))
      \<and> det_caches ?ids (fold batch_cache_prompt (bs_active st) (batch_prefill st))"
    using e1(3) batch_prefill_spec(2) by (intro batch_cache_prompts_spec) simp
  then have same: "batch_same (bs_engine st) e3" and e3: "det_caches ?ids e3"
    "map ba_pending_index act = map ba_pending_index (bs_active st)"
    using batch_decode_spec [OF dec] batch_prefill_spec(1) [of st]
      batch_same_trans [of "bs_engine st" "batch_prefill st"] batch_same_trans [of "batch_prefill st"]
    by (metis, metis, simp add: enter_decode_def)
  have ids: "map (\<lambda>a. request_id (de_pending e3 ! ba_pending_index a)) act = map (\<lambda>a. request_id (?pend ! ba_pending_index a)) (bs_active st)"
    using same e1(1) arg_cong [OF e3(2), of "map (\<lambda>i. request_id (?pend ! i))"] by (simp add: batch_same_def o_def)
  have idx: "set (map ba_pending_index act) = ba_pending_index ` set (bs_active st)" using e3(2) by simp
  have "\<forall>a \<in> set act. det_reason (de_config e3) (de_pending e3 ! ba_pending_index a) = None"
    using bi same e1 idx by (auto simp: batch_inv_def Let_def batch_same_def)
  from batch_complete_fold [OF _ _ this] ids e3(1) same e1(4)
  have f: "det_caches {#} e4 \<and> result_cache_sound (de_result_cache e4) \<and> de_pending e4 = de_pending e3 \<and>
      de_config e4 = de_config e3 \<and> de_policy e4 = de_policy e3 \<and> de_clock e4 = de_clock e3 \<and>
      image_mset result_outcome (mset (de_results e4)) = image_mset result_outcome (mset (de_results e3)) +
        image_mset (det_outcome (de_config e3) \<circ> (!) (de_pending e3)) (mset (map ba_pending_index act))"
    unfolding e4 by (simp only: Let_def batch_same_def)
  then have e4': "de_pending e4 = ?pend" "de_config e4 = ?cfg" "de_policy e4 = de_policy e0" "de_clock e0 \<le> de_clock e4"
    using same e1 by (simp_all add: batch_same_def)
  have res: "image_mset result_outcome (mset (de_results e4)) = image_mset result_outcome (mset (de_results e0)) +
      image_mset (det_outcome ?cfg \<circ> (!) ?pend) (mset completed)"
    using f bi same e1(1,2) by (simp add: batch_inv_def Let_def batch_same_def completed)
  have "distinct completed" "\<forall>i \<in> set completed. i < length ?pend"
    using bi e3(2) idx by (auto simp: batch_inv_def Let_def completed)
  note er = erase_completed [OF this]
  let ?p = "fold erase_index (rev (sort completed)) ?pend"
  have "det_ledger (e4\<lparr>de_pending := ?p\<rparr>) = det_ledger e0"
    using res arg_cong [OF er, of "image_mset (det_outcome ?cfg)"]
    by (simp add: det_ledger_def e4' image_mset.compositionality)
  moreover have "set ?p \<subseteq> set ?pend" using arg_cong [OF er, of set_mset] by auto
  then have "\<forall>r \<in> set ?p. request_ok r" using okp by blast
  then have "det_inv (e4\<lparr>de_pending := ?p\<rparr>)" using f e4'(2,3) inv by (simp add: det_inv_def)
  moreover have "length ?pend = length ?p + length completed" using arg_cong [OF er, of size] by simp
  moreover have "de_clock e4 = de_clock e0" if "completed = []"
  proof -
    have "bs_active st = []" "act = []" using that e3(2) by (simp_all add: completed)
    then have "e3 = bs_engine st" using dec batch_prefill_spec(3) by (simp add: batch_decode.simps)
    then show ?thesis using f e1(6) by simp
  qed
  ultimately show ?thesis using e4' ready by (cases "completed = []") (simp_all add: batch_result_def)
qed

lemma RunOneBatch_spec:
  assumes inv: "det_inv e" and run: "RunOneBatch e = (e', progressed)"
  shows "batch_result e e' progressed"
proof -
  obtain e0 rejected where rj: "RejectImpossibleReadyRequests e = (e0, rejected)" by fastforce
  note r = RejectImpossibleReadyRequests_spec [OF inv rj]
  let ?sel = "Select (de_policy e0) (policy_input (de_pending e0)) (de_clock e0)"
  show ?thesis
  proof (cases "?sel = []")
    case True
    then have "e' = e0" "progressed = rejected" using run rj by (simp_all add: RunOneBatch_def)
    moreover have "batch_result e0 e0 False" using r(1,3,4,5) by (simp add: batch_result_def)
    from batch_result_after [OF this r(2-4,6,8,7)] have "batch_result e e0 rejected" by simp
    ultimately show ?thesis by simp
  next
    case False
    define st where "st = fold batch_admit ?sel
      \<lparr>bs_engine = e0, bs_active = [], bs_completed_indices = [], bs_uncached_prompt_tokens = 0\<rparr>"
    obtain act e3 where dec: "batch_decode (map enter_decode (bs_active st)) (fold batch_cache_prompt (bs_active st) (batch_prefill st)) = (act, e3)"
      by fastforce
    let ?e4 = "fold batch_complete act e3" and ?c = "bs_completed_indices st @ map ba_pending_index act"
    have "\<forall>r \<in> set (de_pending e0). de_clock e0 < arrival_time r \<or> det_reason (de_config e0) r = None"
      using r(3,4,5) by simp
    note s = run_selected [OF r(1) this dec [unfolded st_def] refl refl, folded st_def]
    have "RunOneBatch e = (?e4\<lparr>de_pending := fold erase_index (rev (sort ?c)) (de_pending ?e4)\<rparr>, rejected \<or> ?c \<noteq> [])"
      unfolding RunOneBatch_def rj prod.case Let_def st_def [symmetric] dec by (simp add: False)
    then have "e' = ?e4\<lparr>de_pending := fold erase_index (rev (sort ?c)) (de_pending ?e4)\<rparr>" "progressed = (rejected \<or> ?c \<noteq> [])"
      using run by auto
    then show ?thesis using batch_result_after [OF s r(2-4,6,8,7)] by simp
  qed
qed

section \<open>Running until idle\<close>

definition future_count :: "DeterministicEngine \<Rightarrow> nat" where
  "future_count e = size {#r \<in># mset (de_pending e). de_clock e < arrival_time r#}"

lemma earlier_arrival_fold:
  "case fold (earlier_arrival now) rs None of
     None \<Rightarrow> \<forall>r \<in> set rs. arrival_time r \<le> now
   | Some t \<Rightarrow> now < t \<and> (\<exists>r \<in> set rs. arrival_time r = t)"
proof -
  have "case fold (earlier_arrival now) rs acc of
      None \<Rightarrow> acc = None \<and> (\<forall>r \<in> set rs. arrival_time r \<le> now)
    | Some t \<Rightarrow> acc = Some t \<or> now < t \<and> (\<exists>r \<in> set rs. arrival_time r = t)" for acc
  proof (induction rs arbitrary: acc)
    case (Cons r rs)
    from Cons [of "earlier_arrival now r acc"] show ?case
      by (auto simp: earlier_arrival_def split: option.splits if_splits)
  qed (simp split: option.splits)
  from this [of None] show ?thesis by (simp split: option.splits)
qed

lemma future_count_jump:
  assumes "mset (de_pending e') = mset (de_pending e)" "de_clock e \<le> de_clock e'"
    and "de_clock e' < t" "\<exists>r \<in> set (de_pending e'). arrival_time r = t"
  shows "future_count (e'\<lparr>de_clock := t\<rparr>) < future_count e"
proof -
  from assms(4) obtain r where r: "r \<in># mset (de_pending e)" "arrival_time r = t" using assms(1) by (metis set_mset_mset)
  let ?late = "{#r \<in># mset (de_pending e). t < arrival_time r#}" and ?all = "{#r \<in># mset (de_pending e). de_clock e < arrival_time r#}"
  have "?late \<subseteq># ?all" using assms(2,3) by (intro filter_mset_mono_strong) auto
  moreover have "r \<in># ?all" "r \<notin># ?late" using r assms(2,3) by auto
  ultimately have "?late \<subset># ?all" by (metis subset_mset.le_imp_less_or_eq)
  then show ?thesis using mset_subset_size assms(1) by (simp add: future_count_def)
qed

text \<open>
  What the loop leaves behind has arrived and could be served alone, and its last batch made no
  progress; whatever batches and the advancing clock keep still holds.
\<close>

lemma DeterministicEngine_RunUntilIdle_keeps:
  assumes "det_inv e" and "P e"
    and batch: "\<And>e e' p. det_inv e \<Longrightarrow> P e \<Longrightarrow> RunOneBatch e = (e', p) \<Longrightarrow> P e'"
    and tick: "\<And>e t. P e \<Longrightarrow> P (e\<lparr>de_clock := t\<rparr>)"
  shows "\<exists>e'. DeterministicEngine_RunUntilIdle e = Some e' \<and> det_inv e' \<and> det_ledger e' = det_ledger e \<and> P e' \<and>
    de_config e' = de_config e \<and> (\<forall>r \<in> set (de_pending e'). arrival_time r \<le> de_clock e' \<and> det_reason (de_config e) r = None) \<and>
    (de_pending e' = [] \<or> (\<exists>e0. det_inv e0 \<and> P e0 \<and> RunOneBatch e0 = (e', False)))"
  using assms(1,2)
proof (induction "(length (de_pending e), future_count e)" arbitrary: e rule: less_induct)
  case less
  show ?case
  proof (cases "de_pending e = []")
    case True
    with less.prems show ?thesis by (simp add: DeterministicEngine_RunUntilIdle.simps)
  next
    case False
    obtain e1 p where run: "RunOneBatch e = (e1, p)" by fastforce
    note b = RunOneBatch_spec [OF less.prems(1) run, unfolded batch_result_def] and P = batch [OF less.prems run]
    show ?thesis
    proof (cases p)
      case True
      have "det_inv e1" "(length (de_pending e1), future_count e1) < (length (de_pending e), future_count e)"
        using b True by simp_all
      from less.hyps [OF this(2,1) P] b False run True show ?thesis
        by (simp add: DeterministicEngine_RunUntilIdle.simps [of e])
    next
      case p: False
      show ?thesis
      proof (cases "fold (earlier_arrival (de_clock e1)) (de_pending e1) None")
        case None
        then have "\<forall>r \<in> set (de_pending e1). arrival_time r \<le> de_clock e1"
          using earlier_arrival_fold [where now = "de_clock e1" and rs = "de_pending e1"] by simp
        with b p have "\<forall>r \<in> set (de_pending e1). arrival_time r \<le> de_clock e1 \<and> det_reason (de_config e) r = None"
          by (metis not_le)
        moreover have "\<exists>e0. det_inv e0 \<and> P e0 \<and> RunOneBatch e0 = (e1, False)" using less.prems run p by auto
        ultimately show ?thesis using None b p P False run by (simp add: DeterministicEngine_RunUntilIdle.simps [of e])
      next
        case (Some t)
        let ?e2 = "e1\<lparr>de_clock := t\<rparr>"
        have t: "de_clock e1 < t" "\<exists>r \<in> set (de_pending e1). arrival_time r = t"
          using earlier_arrival_fold [where now = "de_clock e1" and rs = "de_pending e1"] Some by simp_all
        have m: "mset (de_pending e1) = mset (de_pending e)" using b p by blast
        have "det_ledger ?e2 = det_ledger e1" "det_inv ?e2 = det_inv e1" by (simp_all add: det_inv_def det_ledger_def)
        then have "det_inv ?e2" "det_ledger ?e2 = det_ledger e" "de_config ?e2 = de_config e" using b by simp_all
        moreover have "(length (de_pending ?e2), future_count ?e2) < (length (de_pending e), future_count e)"
          using future_count_jump [OF m _ t] b mset_eq_length [OF m] by simp
        moreover have "DeterministicEngine_RunUntilIdle e = DeterministicEngine_RunUntilIdle ?e2"
          using False run p Some t(1) by (simp add: DeterministicEngine_RunUntilIdle.simps [of e] Advance_to)
        ultimately show ?thesis using less.hyps [of ?e2] tick [OF P] by simp
      qed
    qed
  qed
qed

lemma DeterministicEngine_RunUntilIdle_returns:
  assumes "det_inv e"
  shows "\<exists>e'. DeterministicEngine_RunUntilIdle e = Some e' \<and> det_inv e' \<and> det_ledger e' = det_ledger e \<and>
    de_config e' = de_config e \<and> (\<forall>r \<in> set (de_pending e'). arrival_time r \<le> de_clock e' \<and> det_reason (de_config e) r = None)"
proof -
  from DeterministicEngine_RunUntilIdle_keeps [where P = "\<lambda>_. True", OF assms TrueI] show ?thesis by blast
qed

section \<open>Progress\<close>

definition batch_taken :: "BatchState \<Rightarrow> nat" where
  "batch_taken st = length (bs_completed_indices st) + length (bs_active st)"

lemma batch_place_mono: "batch_taken st \<le> batch_taken (batch_place i st)"
  by (simp add: batch_place_def batch_taken_def Let_def split: prod.splits)

lemma batch_admit_mono: "batch_taken st \<le> batch_taken (batch_admit i st)"
proof -
  have "batch_taken (st\<lparr>bs_engine := e\<rparr>) = batch_taken st" for e by (simp add: batch_taken_def)
  then have "batch_taken st \<le> batch_taken (batch_place i (st\<lparr>bs_engine := e\<rparr>))" for e
    using batch_place_mono [of "st\<lparr>bs_engine := e\<rparr>" i] by simp
  then show ?thesis by (simp add: batch_admit_def Let_def batch_taken_def split: prod.splits option.splits)
qed

lemma batch_admits_mono: "batch_taken st \<le> batch_taken (fold batch_admit todo st)"
proof (induction todo arbitrary: st)
  case (Cons i todo)
  show ?case using order_trans [OF batch_admit_mono Cons [of "batch_admit i st"]] by simp
qed simp

text \<open>With enough free blocks the first selected request is always taken.\<close>

definition det_room :: "DeterministicEngine \<Rightarrow> EngineRequest \<Rightarrow> bool" where
  "det_room e r \<longleftrightarrow> BlocksForTokens (prompt_tokens r + max_output_tokens r) (kv_block_size_tokens (de_config e))
     \<le> free_blocks (de_kv_cache e)"

lemma batch_admit_first:
  assumes inv: "det_caches {#} e" and room: "det_room e (de_pending e ! i)"
    and ok: "det_reason (de_config e) (de_pending e ! i) = None"
  shows "0 < batch_taken (batch_admit i \<lparr>bs_engine = e, bs_active = [], bs_completed_indices = [], bs_uncached_prompt_tokens = 0\<rparr>)"
proof -
  let ?r = "de_pending e ! i" and ?st = "\<lparr>bs_engine = e, bs_active = [], bs_completed_indices = [], bs_uncached_prompt_tokens = 0\<rparr>"
  let ?b = "kv_block_size_tokens (de_config e)"
  let ?n = "BlocksForTokens (add64 (prompt_tokens ?r) (max_output_tokens ?r)) ?b"
  obtain rc v where g: "ResultCache_Get (de_result_cache e) (ResultKey ?r) = (rc, v)" by fastforce
  show ?thesis
  proof (cases v)
    case (Some out)
    with g show ?thesis by (simp add: batch_admit_def Let_def batch_taken_def)
  next
    case None
    have kvi: "kv_inv (de_kv_cache e)" and pci: "pc_inv (de_prefix_cache e) (de_kv_cache e)"
      and sq: "sequence_blocks (de_kv_cache e) = []" using inv by (simp_all add: det_caches_def)
    obtain pc found where get: "PrefixCache_Get (de_prefix_cache e) (PrefixKey ?r) = (pc, found)" by fastforce
    define shared where "shared = (case found of None \<Rightarrow> [] | Some bs \<Rightarrow> if length bs > BlocksForTokens (prompt_tokens ?r) ?b then [] else bs)"
    have add: "add64 (prompt_tokens ?r) (max_output_tokens ?r) = prompt_tokens ?r + max_output_tokens ?r"
      using ok by (simp add: det_reason_def add64_exact split: if_splits)
    have "bs \<in># kv_entries (de_kv_cache e)" if "found = Some bs" for bs
    proof -
      have "(PrefixKey ?r, bs) \<in> set (pc_entries (de_prefix_cache e))"
        using PrefixCache_Get_spec(2) [OF pci get] that by (simp add: map_of_SomeD)
      moreover have "set (prefix_blocks (de_kv_cache e)) = set (pc_entries (de_prefix_cache e))"
        using pci unfolding pc_inv_def by (metis mset_eq_setD)
      ultimately have "bs \<in> snd ` set (prefix_blocks (de_kv_cache e))" by (metis image_eqI snd_conv)
      then show ?thesis by (simp add: kv_entries_def)
    qed
    then have "shared = [] \<or> shared \<in># kv_entries (de_kv_cache e)" by (auto simp: shared_def split: option.splits)
    then have usable: "blocks_usable (refcounts (de_kv_cache e)) [] shared" using held_blocks_usable [OF kvi] by auto
    have "length shared \<le> BlocksForTokens (prompt_tokens ?r) ?b" by (auto simp: shared_def split: option.splits)
    also have "\<dots> \<le> ?n" unfolding add by (rule BlocksForTokens_mono) simp
    finally have len: "length shared \<le> ?n" .
    have free: "?n \<le> free_blocks (de_kv_cache e)" using room add by (simp add: det_room_def)
    obtain kv s where al: "Allocate (de_kv_cache e) (request_id ?r) ?n shared = (kv, s)" by fastforce
    have "?n \<le> kv_blocks (de_config e)" unfolding add using ok by (auto simp: det_reason_def split: if_splits)
    then have "?n < u64" using inv by (simp add: det_caches_def det_small_def)
    from Allocate_succeeds [OF kvi this al _ len usable free] have "s = kAllocated" by (simp add: sq)
    then have "bs_active (batch_place i (?st\<lparr>bs_engine := e\<lparr>de_result_cache := rc\<rparr>\<rparr>)) \<noteq> []"
      using get al [unfolded shared_def] by (cases found) (simp_all add: batch_place_def Let_def)
    moreover have "\<not> prompt_tokens ?r > (u64 - 1) - max_output_tokens ?r"
      using ok by (auto simp: det_reason_def split: if_splits)
    ultimately show ?thesis using g None by (auto simp: batch_admit_def Let_def batch_taken_def)
  qed
qed

lemma RunOneBatch_progress:
  assumes inv: "det_inv e"
    and room: "\<forall>r \<in> set (de_pending e). det_reason (de_config e) r = None \<longrightarrow> det_room e r"
    and r: "r \<in> set (de_pending e)" "arrival_time r \<le> de_clock e"
  shows "snd (RunOneBatch e)"
proof -
  obtain e0 rejected where rj: "RejectImpossibleReadyRequests e = (e0, rejected)" by fastforce
  note rs = RejectImpossibleReadyRequests_spec [OF inv rj]
  let ?sel = "Select (de_policy e0) (policy_input (de_pending e0)) (de_clock e0)"
  let ?st0 = "\<lparr>bs_engine = e0, bs_active = [], bs_completed_indices = [], bs_uncached_prompt_tokens = 0\<rparr>"
  show ?thesis
  proof (cases rejected)
    case True
    then show ?thesis using rj by (simp add: RunOneBatch_def Let_def split: prod.splits)
  next
    case False
    have e0: "e0 = e\<lparr>de_pending := de_pending e0, de_results := de_results e0\<rparr>"
      using reject_from_spec [of "[]" "de_pending e" e e0 rejected] rj inv
      by (auto simp: RejectImpossibleReadyRequests_def det_inv_def det_caches_def)
    have pend: "de_pending e0 = de_pending e" using rs(7) False by simp
    have pol: "policy_ok (de_policy e0)" "sp_max_batch_tokens (de_policy e0) = max_batch_tokens (de_config e)"
      using rs(1,3) by (simp_all add: det_inv_def det_caches_def policy_ok_def det_small_def)
    have "det_reason (de_config e) r = None" using rs(5) pend r by (metis not_le)
    then have "prompt_tokens r + max_output_tokens r \<le> max_batch_tokens (de_config e)"
      by (simp add: det_reason_def split: if_splits)
    moreover obtain j where j: "j < length (de_pending e0)" "de_pending e0 ! j = r" using r pend by (metis in_set_conv_nth)
    ultimately have "fits_alone (de_policy e0) (de_clock e0) (policy_input (de_pending e0) ! j)"
      using r(2) rs(4) pol by (simp add: fits_alone_def policy_input_def pr_tokens_def)
    moreover have "policy_input (de_pending e0) ! j \<in> set (policy_input (de_pending e0))" using j(1) by (intro nth_mem) simp
    ultimately have ne: "?sel \<noteq> []" using Select_spec(6) [OF pol(1)] by blast
    then obtain i todo where sel: "?sel = i # todo" by (cases ?sel) auto
    have i: "i < length (de_pending e0)" "arrival_time (de_pending e0 ! i) \<le> de_clock e0"
      using Select_spec(2) [OF pol(1), of "policy_input (de_pending e0)" "de_clock e0"] sel
        policy_input_arrival [of i "de_pending e0"] by (auto simp: fits_alone_def)
    have reason: "det_reason (de_config e0) (de_pending e0 ! i) = None" using rs(3,4,5) i by (metis nth_mem not_le)
    moreover have "det_room e (de_pending e0 ! i)" using room reason rs(3) pend i(1) by (metis nth_mem)
    then have "det_room e0 (de_pending e0 ! i)" using e0 by (metis DeterministicEngine.select_convs(1,4) DeterministicEngine.surjective DeterministicEngine.update_convs(8,9) det_room_def)
    ultimately have "0 < batch_taken (batch_admit i ?st0)"
      using rs(1) by (intro batch_admit_first) (simp_all add: det_inv_def)
    then have "0 < batch_taken (fold batch_admit ?sel ?st0)"
      using batch_admits_mono [of "batch_admit i ?st0" todo] sel by simp
    then have taken: "bs_completed_indices (fold batch_admit ?sel ?st0) \<noteq> [] \<or> bs_active (fold batch_admit ?sel ?st0) \<noteq> []"
      by (auto simp: batch_taken_def)
    define st where "st = fold batch_admit ?sel ?st0"
    obtain act e3 where dec: "batch_decode (map enter_decode (bs_active st)) (fold batch_cache_prompt (bs_active st) (batch_prefill st)) = (act, e3)"
      by fastforce
    have "map ba_pending_index act = map ba_pending_index (bs_active st)"
      using batch_decode_spec [OF dec] by (simp add: enter_decode_def)
    then have "bs_completed_indices st @ map ba_pending_index act \<noteq> []" using taken unfolding st_def by auto
    then show ?thesis unfolding RunOneBatch_def rj prod.case Let_def st_def [symmetric] dec by (simp add: ne)
  qed
qed

text \<open>On an empty KV cache every request that could be served alone has room.\<close>

lemma empty_cache_room:
  assumes inv: "det_inv e" and none: "prefix_blocks (de_kv_cache e) = []" and ok: "det_reason (de_config e) r = None"
  shows "det_room e r"
proof -
  have c: "kv_inv (de_kv_cache e)" "sequence_blocks (de_kv_cache e) = []" "total_blocks (de_kv_cache e) = kv_blocks (de_config e)"
    using inv by (simp_all add: det_inv_def det_caches_def)
  then have "free_blocks (de_kv_cache e) = kv_blocks (de_config e)" using free_blocks_none none by (simp add: kv_entries_def)
  then show ?thesis using ok by (simp add: det_room_def det_reason_def split: if_splits)
qed

section \<open>Construction and properties\<close>

lemma MakeDeterministicEngine_inv:
  assumes make: "MakeDeterministicEngine draw cfg = Inr e"
    and small: "max_batch_sequences cfg + prefix_cache_entries cfg + 3 < u32" "max_batch_tokens cfg < u64"
  shows "det_inv e" and "de_config e = cfg" and "det_ledger e = {#}"
proof -
  obtain cm kv pc rc p where m: "MakePagedKvCache (kv_blocks cfg) (kv_block_size_tokens cfg) = Inr kv"
    "MakePrefixCache (prefix_cache_entries cfg) = Inr pc" "MakeResultCache (result_cache_entries cfg) = Inr rc"
    "MakeStaticBatchPolicy (max_batch_sequences cfg) (max_batch_tokens cfg) = Inr p"
    and e: "e = \<lparr>de_config = cfg, de_clock = 0, de_cost_model = cm, de_kv_cache = kv, de_prefix_cache = pc,
           de_result_cache = rc, de_policy = p, de_pending = [], de_results = []\<rparr>"
    using make by (auto simp: MakeDeterministicEngine_def split: sum.splits)
  have kv: "kv_inv kv" "prefix_blocks kv = []" "sequence_blocks kv = []" "total_blocks kv = kv_blocks cfg"
    "0 < kv_block_size_tokens cfg" "kv_blocks cfg < u64"
    using m(1) MakePagedKvCache_inv [OF m(1)] MakePagedKvCache_no_pins [OF m(1)]
    by (auto simp: MakePagedKvCache_def total_blocks_def split: if_splits)
  have pc: "pc_inv pc kv" "pc_capacity pc = prefix_cache_entries cfg"
    using MakePrefixCache_inv [OF m(2) kv(2)] m(2) by (auto simp: MakePrefixCache_def split: if_splits)
  have rc: "result_cache_sound rc" using MakeResultCache_inv [OF m(3)] m(3)
    by (auto simp: result_cache_sound_def rc_view_def MakeResultCache_def split: if_splits)
  have p: "p = \<lparr>sp_max_batch_sequences = max_batch_sequences cfg, sp_max_batch_tokens = max_batch_tokens cfg\<rparr>"
    "0 < max_batch_sequences cfg" "0 < max_batch_tokens cfg"
    using m(4) by (auto simp: MakeStaticBatchPolicy_def split: if_splits)
  show "det_inv e" using kv pc rc p small by (simp add: e det_inv_def det_caches_def det_small_def)
  show "de_config e = cfg" "det_ledger e = {#}" by (simp_all add: e det_ledger_def)
qed

lemma DeterministicEngine_Submit_all:
  assumes "det_inv e" and "\<forall>r \<in> set rs. request_ok r"
  shows "let e' = fold (\<lambda>r e. DeterministicEngine_Submit e r) rs e in det_inv e' \<and> de_config e' = de_config e \<and>
    det_ledger e' = image_mset (det_outcome (de_config e)) (mset rs) + det_ledger e"
proof -
  have "fold (\<lambda>r e. DeterministicEngine_Submit e r) rs e = e\<lparr>de_pending := de_pending e @ rs\<rparr>"
    by (induction rs arbitrary: e) (simp_all add: DeterministicEngine_Submit_def)
  with assms show ?thesis by (auto simp: Let_def det_inv_def det_ledger_def)
qed

lemma det_CheckInvariants: "det_inv e \<Longrightarrow> CheckInvariants (de_kv_cache e) \<and> sequence_count (de_kv_cache e) = 0"
proof -
  assume inv: "det_inv e"
  then have c: "det_caches {#} e" by (simp add: det_inv_def)
  then have "kv_inv (de_kv_cache e)" "sequence_blocks (de_kv_cache e) = []" by (simp_all add: det_caches_def)
  then show ?thesis using CheckInvariants_iff_refs_ok [OF kv_room_entries [OF det_caches_room [OF c]]]
    by (simp add: kv_inv_def kv_shape_def sequence_count_def)
qed

lemma DeterministicEngine_ClearCaches_spec:
  assumes "det_inv e"
  shows "det_inv (DeterministicEngine_ClearCaches e)" and "prefix_blocks (de_kv_cache (DeterministicEngine_ClearCaches e)) = []"
    and "de_pending (DeterministicEngine_ClearCaches e) = de_pending e" and "de_clock (DeterministicEngine_ClearCaches e) = de_clock e"
proof -
  obtain pc kv where c: "PrefixCache_Clear (de_prefix_cache e) (de_kv_cache e) = (pc, kv)" by fastforce
  have dc: "det_caches {#} e" using assms by (simp add: det_inv_def)
  then have "pc_inv (de_prefix_cache e) (de_kv_cache e)" "kv_inv (de_kv_cache e)" by (simp_all add: det_caches_def)
  note s = PrefixCache_Clear_spec [OF this det_caches_room [OF dc] c]
  have cap: "pc_capacity pc = pc_capacity (de_prefix_cache e)" using c by (auto simp: PrefixCache_Clear_def)
  have e': "DeterministicEngine_ClearCaches e = e\<lparr>de_kv_cache := kv, de_prefix_cache := pc\<rparr>"
    by (simp add: DeterministicEngine_ClearCaches_def c)
  show "det_inv (DeterministicEngine_ClearCaches e)" unfolding e'
    using assms s cap by (simp add: det_inv_def det_caches_def kv_same_seqs_def)
  show "prefix_blocks (de_kv_cache (DeterministicEngine_ClearCaches e)) = []"
    "de_pending (DeterministicEngine_ClearCaches e) = de_pending e" "de_clock (DeterministicEngine_ClearCaches e) = de_clock e"
    using s(1) by (simp_all add: e')
qed

text \<open>
  C15: the static-batch engine always stops and never loses, invents or duplicates a request.
  After any submissions to a fresh engine \<open>RunUntilIdle\<close> returns; the results together with
  the requests still pending are, as a multiset, exactly the submitted requests, each result being
  the reason of a refusal or the simulated output. What is still pending has arrived and fits the
  limits; no sequence holds KV blocks and the KV cache passes its check.
\<close>

theorem static_engine_accounts:
  assumes make: "MakeDeterministicEngine draw cfg = Inr e" and ok: "\<forall>r \<in> set rs. request_ok r"
    and small: "max_batch_sequences cfg + prefix_cache_entries cfg + 3 < u32" "max_batch_tokens cfg < u64"
  shows "\<exists>e'. DeterministicEngine_RunUntilIdle (fold (\<lambda>r e. DeterministicEngine_Submit e r) rs e) = Some e' \<and>
    image_mset result_outcome (mset (de_results e')) + image_mset (det_outcome cfg) (mset (de_pending e'))
      = image_mset (det_outcome cfg) (mset rs) \<and>
    (\<forall>r \<in> set (de_pending e'). arrival_time r \<le> de_clock e' \<and> det_reason cfg r = None) \<and>
    sequence_count (de_kv_cache e') = 0 \<and> CheckInvariants (de_kv_cache e')"
proof -
  note m = MakeDeterministicEngine_inv [OF make small]
  let ?e = "fold (\<lambda>r e. DeterministicEngine_Submit e r) rs e"
  have sub: "det_inv ?e" "de_config ?e = cfg" "det_ledger ?e = image_mset (det_outcome cfg) (mset rs)"
    using DeterministicEngine_Submit_all [OF m(1) ok] m(2,3) by (simp_all add: Let_def)
  from DeterministicEngine_RunUntilIdle_returns [OF sub(1)] sub(2,3) obtain e' where
    "DeterministicEngine_RunUntilIdle ?e = Some e'" "det_inv e'" "det_ledger e' = image_mset (det_outcome cfg) (mset rs)"
    "de_config e' = cfg" "\<forall>r \<in> set (de_pending e'). arrival_time r \<le> de_clock e' \<and> det_reason cfg r = None" by auto
  with det_CheckInvariants [of e'] show ?thesis by (auto simp: det_ledger_def add.commute)
qed

definition det_cfg_example :: EngineConfig where
  "det_cfg_example = \<lparr>kv_blocks = 2, kv_block_size_tokens = 16, max_batch_sequences = 2, max_batch_tokens = 64,
     max_prefill_sequences_per_iteration = 1, result_cache_entries = 2, prefix_cache_entries = 2, seed = 1,
     cost_model = \<lparr>prefill_fixed = 10000, prefill_per_token = 1000, decode_fixed = 5000,
                   decode_per_sequence = 2000, jitter_basis_points = 0\<rparr>\<rparr>"

definition det_no_jitter :: draw where "det_no_jitter m s = (0, s)"

definition det_example :: DeterministicEngine where
  "det_example = projr (MakeDeterministicEngine det_no_jitter det_cfg_example)"

definition det_request :: "string \<Rightarrow> string \<Rightarrow> EngineRequest" where
  "det_request rid hash = (req_example rid 0)\<lparr>prompt_hash := hash, prompt_tokens := 17, max_output_tokens := 3\<rparr>"

lemma det_example_make: "MakeDeterministicEngine det_no_jitter det_cfg_example = Inr det_example"
  by (simp add: det_example_def MakeDeterministicEngine_def det_cfg_example_def MakeCostModel_def
      MakePagedKvCache_def MakePrefixCache_def MakeResultCache_def MakeStaticBatchPolicy_def)

lemma det_example_small: "max_batch_sequences det_cfg_example + prefix_cache_entries det_cfg_example + 3 < u32"
  "max_batch_tokens det_cfg_example < u64"
  by (simp_all add: det_cfg_example_def)

theorem static_engine_accounts_witness:
  "\<exists>e'. DeterministicEngine_RunUntilIdle (fold (\<lambda>r e. DeterministicEngine_Submit e r)
       [det_request ''a'' ''x'', det_request ''b'' ''y''] det_example) = Some e' \<and>
     size (mset (de_results e')) + size (mset (de_pending e')) = 2"
proof -
  have "\<forall>r \<in> set [det_request ''a'' ''x'', det_request ''b'' ''y'']. request_ok r"
    by (simp add: det_request_def req_example_def request_ok_def)
  from static_engine_accounts [OF det_example_make this det_example_small] obtain e' where
    e': "DeterministicEngine_RunUntilIdle (fold (\<lambda>r e. DeterministicEngine_Submit e r)
       [det_request ''a'' ''x'', det_request ''b'' ''y''] det_example) = Some e'"
    "image_mset result_outcome (mset (de_results e')) + image_mset (det_outcome det_cfg_example) (mset (de_pending e'))
      = image_mset (det_outcome det_cfg_example) (mset [det_request ''a'' ''x'', det_request ''b'' ''y''])" by blast
  from arg_cong [OF e'(2), of size] e'(1) show ?thesis by auto
qed

text \<open>
  Pinned prefixes are the only thing that can hold an admissible request back. After
  \<open>ClearCaches\<close>, as long as some pending request has arrived, \<open>RunOneBatch\<close> makes
  progress: it returns true and the queue gets shorter.
\<close>

theorem static_engine_progress_after_clear:
  assumes "det_inv e" and "r \<in> set (de_pending e)" and "arrival_time r \<le> de_clock e"
  shows "snd (RunOneBatch (DeterministicEngine_ClearCaches e)) \<and>
    length (de_pending (fst (RunOneBatch (DeterministicEngine_ClearCaches e)))) < length (de_pending e)"
proof -
  let ?e = "DeterministicEngine_ClearCaches e"
  note c = DeterministicEngine_ClearCaches_spec [OF assms(1)]
  have p: "snd (RunOneBatch ?e)"
    using RunOneBatch_progress [OF c(1), of r] empty_cache_room [OF c(1,2)] assms(2,3) c(3,4) by simp
  have "batch_result ?e (fst (RunOneBatch ?e)) (snd (RunOneBatch ?e))"
    by (rule RunOneBatch_spec [OF c(1) surjective_pairing])
  with p c(3) show ?thesis by (simp add: batch_result_def)
qed

text \<open>
  The run in which the prefixes of a first request keep a second one, which fits the limits, out:
  the loop stops with it pending, and clearing the cache lets it through.
\<close>

definition det_stranded :: DeterministicEngine where
  "det_stranded = the (DeterministicEngine_RunUntilIdle (fold (\<lambda>r e. DeterministicEngine_Submit e r)
     [det_request ''a'' ''x'', det_request ''b'' ''y''] det_example))"

lemma stranded_request:
  "map request_id (de_pending det_stranded) = [''b''] \<and> det_reason det_cfg_example (det_request ''b'' ''y'') = None \<and>
   de_pending (fst (RunOneBatch (DeterministicEngine_ClearCaches det_stranded))) = []"
  by code_simp

lemma det_stranded_inv: "det_inv det_stranded"
proof -
  note m = MakeDeterministicEngine_inv [OF det_example_make det_example_small]
  have "\<forall>r \<in> set [det_request ''a'' ''x'', det_request ''b'' ''y'']. request_ok r"
    by (simp add: det_request_def req_example_def request_ok_def)
  then have "det_inv (fold (\<lambda>r e. DeterministicEngine_Submit e r) [det_request ''a'' ''x'', det_request ''b'' ''y''] det_example)"
    using DeterministicEngine_Submit_all [OF m(1)] unfolding Let_def by blast
  from DeterministicEngine_RunUntilIdle_returns [OF this] show ?thesis unfolding det_stranded_def by force
qed

theorem static_engine_progress_after_clear_witness:
  "de_pending det_stranded = [det_request ''b'' ''y''] \<and> snd (RunOneBatch (DeterministicEngine_ClearCaches det_stranded))"
proof -
  have p: "de_pending det_stranded = [det_request ''b'' ''y'']" "arrival_time (det_request ''b'' ''y'') \<le> de_clock det_stranded"
    by code_simp+
  with static_engine_progress_after_clear [OF det_stranded_inv, of "det_request ''b'' ''y''"] show ?thesis by simp
qed

end
