(* ===== verification/DeterministicLiveness.thy ===== *)
theory DeterministicLiveness
  imports DeterministicProofs
begin

text \<open>
  When the static-batch engine serves everything: if the KV cache is large enough for the prefix
  cache filled with the longest prompts and for one more request, no request is left behind.
\<close>

section \<open>Lengths of cached prefixes\<close>

definition pins_short :: "nat \<Rightarrow> PrefixCache \<Rightarrow> bool" where
  "pins_short n c \<longleftrightarrow> (\<forall>kb \<in> set (pc_entries c). length (snd kb) \<le> n)"

lemma pins_short_put:
  assumes "pins_short n c" and "length bs \<le> n" and "PrefixCache_Put c kv k bs = (c', kv', ok)"
  shows "pins_short n c'"
proof -
  have "set (pc_entries c') \<subseteq> insert (k, bs) (set (pc_entries c))"
    using assms(3)
    by (auto simp: PrefixCache_Put_def drop_oldest_def Let_def AList.delete_eq split: option.splits prod.splits if_splits)
  with assms(1,2) show ?thesis by (auto simp: pins_short_def)
qed

lemma batch_place_entries:
  "pc_entries (de_prefix_cache (bs_engine (batch_place i st))) = pc_entries (de_prefix_cache (bs_engine st))"
proof -
  have "pc_entries c' = pc_entries c" if "PrefixCache_Get c k = (c', v)" for c c' k v
    using that by (auto simp: PrefixCache_Get_def split: option.splits)
  then show ?thesis by (auto simp: batch_place_def Let_def split: prod.splits)
qed

lemma batch_admit_entries:
  "pc_entries (de_prefix_cache (bs_engine (batch_admit i st))) = pc_entries (de_prefix_cache (bs_engine st))"
  by (simp add: batch_admit_def Let_def batch_place_entries split: prod.splits option.splits)

lemma batch_admit_active:
  "ba_pending_index ` set (bs_active (batch_admit i st)) \<subseteq> insert i (ba_pending_index ` set (bs_active st))"
proof -
  have "ba_pending_index ` set (bs_active (batch_place i st)) \<subseteq> insert i (ba_pending_index ` set (bs_active st))" for st
    by (auto simp: batch_place_def Let_def split: prod.splits if_splits)
  from this [of "st\<lparr>bs_engine := _\<rparr>"] show ?thesis
    by (auto simp: batch_admit_def Let_def split: prod.splits option.splits if_splits)
qed

lemma batch_admit_frame:
  "de_pending (bs_engine (batch_admit i st)) = de_pending (bs_engine st) \<and> de_config (bs_engine (batch_admit i st)) = de_config (bs_engine st)"
  by (simp add: batch_admit_def batch_place_def Let_def split: prod.splits option.splits)

lemma batch_admits_effect:
  "pc_entries (de_prefix_cache (bs_engine (fold batch_admit todo st))) = pc_entries (de_prefix_cache (bs_engine st)) \<and>
   de_pending (bs_engine (fold batch_admit todo st)) = de_pending (bs_engine st) \<and>
   de_config (bs_engine (fold batch_admit todo st)) = de_config (bs_engine st) \<and>
   ba_pending_index ` set (bs_active (fold batch_admit todo st)) \<subseteq> set todo \<union> ba_pending_index ` set (bs_active st)"
proof (induction todo arbitrary: st)
  case (Cons i todo)
  let ?idx = "\<lambda>st. ba_pending_index ` set (bs_active st)"
  have "?idx (fold batch_admit todo (batch_admit i st)) \<subseteq> set todo \<union> ?idx (batch_admit i st)" using Cons by blast
  also have "\<dots> \<subseteq> set (i # todo) \<union> ?idx st" using batch_admit_active [of i st] by auto
  finally show ?case using Cons [of "batch_admit i st"] by (simp add: batch_admit_entries batch_admit_frame)
qed simp

lemma batch_cache_prompt_short:
  assumes "pins_short n (de_prefix_cache e)"
    and "BlocksForTokens (prompt_tokens (de_pending e ! ba_pending_index a)) (kv_block_size_tokens (de_config e)) \<le> n"
  shows "pins_short n (de_prefix_cache (batch_cache_prompt a e))"
proof -
  let ?r = "de_pending e ! ba_pending_index a" and ?all = "BlocksFor (de_kv_cache e) (request_id (de_pending e ! ba_pending_index a))"
  let ?bs = "take (min (BlocksForTokens (prompt_tokens ?r) (kv_block_size_tokens (de_config e))) (length ?all)) ?all"
  obtain pc kv ok where put: "PrefixCache_Put (de_prefix_cache e) (de_kv_cache e) (PrefixKey ?r) ?bs = (pc, kv, ok)"
    using prod_cases3 by blast
  have "length ?bs \<le> n" using assms(2) by simp
  from pins_short_put [OF assms(1) this put] show ?thesis
    using assms(1) by (simp add: batch_cache_prompt_def Let_def put)
qed

lemma batch_cache_prompts_short:
  assumes "pins_short n (de_prefix_cache e)"
    and "\<forall>a \<in> set act. BlocksForTokens (prompt_tokens (de_pending e ! ba_pending_index a)) (kv_block_size_tokens (de_config e)) \<le> n"
  shows "pins_short n (de_prefix_cache (fold batch_cache_prompt act e))"
  using assms
proof (induction act arbitrary: e)
  case (Cons a act)
  have "de_pending (batch_cache_prompt a e) = de_pending e" "de_config (batch_cache_prompt a e) = de_config e"
    by (simp_all add: batch_cache_prompt_def Let_def split: prod.splits)
  with Cons.IH [of "batch_cache_prompt a e"] Cons.prems batch_cache_prompt_short [of n e a] show ?case by simp
qed simp

lemma batch_decode_prefix_cache: "batch_decode act e = (act', e') \<Longrightarrow> de_prefix_cache e' = de_prefix_cache e"
proof (induction act e rule: batch_decode.induct)
  case (1 act e)
  then show ?case by (auto simp: batch_decode.simps [of act e] split: if_splits prod.splits)
qed

lemma batch_complete_frame:
  "de_prefix_cache (fold batch_complete act e) = de_prefix_cache e \<and> de_pending (fold batch_complete act e) = de_pending e"
  by (induction act arbitrary: e) (simp_all add: batch_complete_def Let_def)

lemma set_erase_indices: "set (fold erase_index is xs) \<subseteq> set xs"
proof (induction "is" arbitrary: xs)
  case (Cons i "is")
  have "set (erase_index i xs) \<subseteq> set xs" by (auto simp: erase_index_def dest: in_set_takeD in_set_dropD)
  with Cons [of "erase_index i xs"] show ?case by auto
qed simp

text \<open>A batch pins prompts of pending requests only, and adds no request to the queue.\<close>

lemma RunOneBatch_short:
  assumes inv: "det_inv e" and short: "pins_short n (de_prefix_cache e)"
    and prompts: "\<forall>r \<in> set (de_pending e). BlocksForTokens (prompt_tokens r) (kv_block_size_tokens (de_config e)) \<le> n"
    and run: "RunOneBatch e = (e', p)"
  shows "pins_short n (de_prefix_cache e') \<and> set (de_pending e') \<subseteq> set (de_pending e)"
proof -
  obtain e0 rejected where rj: "RejectImpossibleReadyRequests e = (e0, rejected)" by fastforce
  have ok: "\<forall>r \<in> set ([] @ de_pending e). request_ok r" "total_blocks (de_kv_cache e) = kv_blocks (de_config e)"
    using inv by (simp_all add: det_inv_def det_caches_def)
  from reject_from_spec [OF ok rj [unfolded RejectImpossibleReadyRequests_def]] obtain ps rs
    where e0: "e0 = e\<lparr>de_pending := ps, de_results := rs\<rparr>" "set ps \<subseteq> set (de_pending e)" by auto
  let ?sel = "Select (de_policy e0) (policy_input (de_pending e0)) (de_clock e0)"
  show ?thesis
  proof (cases "?sel = []")
    case True
    then have "e' = e0" using run rj by (simp add: RunOneBatch_def)
    with e0 short show ?thesis by simp
  next
    case False
    define st where "st = fold batch_admit ?sel
      \<lparr>bs_engine = e0, bs_active = [], bs_completed_indices = [], bs_uncached_prompt_tokens = 0\<rparr>"
    obtain act e3 where dec: "batch_decode (map enter_decode (bs_active st)) (fold batch_cache_prompt (bs_active st) (batch_prefill st)) = (act, e3)"
      by fastforce
    let ?e4 = "fold batch_complete act e3" and ?c = "bs_completed_indices st @ map ba_pending_index act"
    have "RunOneBatch e = (?e4\<lparr>de_pending := fold erase_index (rev (sort ?c)) (de_pending ?e4)\<rparr>, rejected \<or> ?c \<noteq> [])"
      unfolding RunOneBatch_def rj prod.case Let_def st_def [symmetric] dec by (simp add: False)
    then have e': "e' = ?e4\<lparr>de_pending := fold erase_index (rev (sort ?c)) (de_pending ?e4)\<rparr>" using run by auto
    let ?pend = "de_pending e0" and ?b = "kv_block_size_tokens (de_config e0)"
    have pol: "policy_ok (de_policy e0)" using inv e0(1) by (simp add: det_inv_def det_caches_def det_small_def policy_ok_def)
    have sel: "i < length ?pend" if "i \<in> set ?sel" for i
      using Select_spec(2) [OF pol, of "policy_input ?pend" "de_clock e0"] that by auto
    have st: "pc_entries (de_prefix_cache (bs_engine st)) = pc_entries (de_prefix_cache e0)" "de_pending (bs_engine st) = ?pend"
      "de_config (bs_engine st) = de_config e0" "ba_pending_index ` set (bs_active st) \<subseteq> set ?sel"
      using batch_admits_effect [of ?sel "\<lparr>bs_engine = e0, bs_active = [], bs_completed_indices = [], bs_uncached_prompt_tokens = 0\<rparr>"]
      by (simp_all add: st_def)
    have pre: "de_prefix_cache (batch_prefill st) = de_prefix_cache (bs_engine st)" "de_pending (batch_prefill st) = ?pend"
      "de_config (batch_prefill st) = de_config e0"
      using st(2,3) by (simp_all add: batch_prefill_def Let_def split: prod.splits)
    have "BlocksForTokens (prompt_tokens (?pend ! i)) ?b \<le> n" if "i \<in> set ?sel" for i
      using prompts e0 nth_mem [OF sel [OF that]] by auto
    then have "\<forall>a \<in> set (bs_active st). BlocksForTokens (prompt_tokens (?pend ! ba_pending_index a)) ?b \<le> n" using st(4) by blast
    moreover have "pins_short n (de_prefix_cache (batch_prefill st))" using short e0(1) st(1) pre(1) by (simp add: pins_short_def)
    ultimately have "pins_short n (de_prefix_cache (fold batch_cache_prompt (bs_active st) (batch_prefill st)))"
      using pre(2,3) by (intro batch_cache_prompts_short) simp_all
    then have "pins_short n (de_prefix_cache e')"
      using batch_decode_prefix_cache [OF dec] batch_complete_frame [of act e3] by (simp add: e')
    moreover have "de_pending e3 = ?pend"
    proof -
      have "de_pending (fold batch_cache_prompt as e) = de_pending e" for as e
        by (induction as arbitrary: e) (simp_all add: batch_cache_prompt_def Let_def split: prod.splits)
      then show ?thesis using batch_decode_spec [OF dec] pre(2) by (simp add: batch_same_def)
    qed
    then have "set (de_pending e') \<subseteq> set ?pend" using batch_complete_frame [of act e3] set_erase_indices by (simp add: e')
    ultimately show ?thesis using e0 by auto
  qed
qed

section \<open>Nothing is left behind\<close>

text \<open>With short pins in a cache of bounded size enough blocks stay free.\<close>

lemma short_pins_room:
  assumes inv: "det_inv e" and short: "pins_short n (de_prefix_cache e)" and ok: "det_reason (de_config e) r = None"
    and blocks: "prefix_cache_entries (de_config e) * n
      + BlocksForTokens (prompt_tokens r + max_output_tokens r) (kv_block_size_tokens (de_config e)) \<le> kv_blocks (de_config e)"
  shows "det_room e r"
proof -
  have c: "kv_inv (de_kv_cache e)" "pc_inv (de_prefix_cache e) (de_kv_cache e)" "sequence_blocks (de_kv_cache e) = []"
    "total_blocks (de_kv_cache e) = kv_blocks (de_config e)" "pc_capacity (de_prefix_cache e) = prefix_cache_entries (de_config e)"
    using inv by (simp_all add: det_inv_def det_caches_def)
  have pins: "mset (prefix_blocks (de_kv_cache e)) = mset (pc_entries (de_prefix_cache e))" using c(2) by (simp add: pc_inv_def)
  have "image_mset length (kv_entries (de_kv_cache e)) = mset (map (length \<circ> snd) (pc_entries (de_prefix_cache e)))"
    using arg_cong [OF pins, of "image_mset (length \<circ> snd)"] c(3) by (simp add: kv_entries_def image_mset.compositionality comp_def)
  then have "sum_mset (image_mset length (kv_entries (de_kv_cache e))) = sum_list (map (length \<circ> snd) (pc_entries (de_prefix_cache e)))"
    by (metis sum_mset_sum_list)
  also have "\<dots> \<le> length (pc_entries (de_prefix_cache e)) * n"
    using short sum_list_mono [of "pc_entries (de_prefix_cache e)" "length \<circ> snd" "\<lambda>_. n"]
    by (simp add: pins_short_def sum_list_triv comp_def)
  also have "\<dots> \<le> prefix_cache_entries (de_config e) * n" using c(2,5) by (simp add: pc_inv_def pc_shape_def)
  finally show ?thesis using free_blocks_at_least [OF c(1)] c(4) blocks by (simp add: det_room_def)
qed

lemma static_engine_serves:
  assumes make: "MakeDeterministicEngine draw cfg = Inr e" and ok: "\<forall>r \<in> set rs. request_ok r"
    and small: "max_batch_sequences cfg + prefix_cache_entries cfg + 3 < u32" "max_batch_tokens cfg < u64"
    and prompts: "\<forall>r \<in> set rs. BlocksForTokens (prompt_tokens r) (kv_block_size_tokens cfg) \<le> n"
    and blocks: "\<forall>r \<in> set rs. det_reason cfg r = None \<longrightarrow> prefix_cache_entries cfg * n
      + BlocksForTokens (prompt_tokens r + max_output_tokens r) (kv_block_size_tokens cfg) \<le> kv_blocks cfg"
  shows "\<exists>e'. DeterministicEngine_RunUntilIdle (fold (\<lambda>r e. DeterministicEngine_Submit e r) rs e) = Some e' \<and>
    de_pending e' = [] \<and> image_mset result_outcome (mset (de_results e')) = image_mset (det_outcome cfg) (mset rs) \<and>
    allocated_blocks (de_kv_cache (DeterministicEngine_ClearCaches e')) = 0"
proof -
  note m = MakeDeterministicEngine_inv [OF make small]
  let ?e = "fold (\<lambda>r e. DeterministicEngine_Submit e r) rs e"
  have sub: "det_inv ?e" "de_config ?e = cfg" "det_ledger ?e = image_mset (det_outcome cfg) (mset rs)"
    using DeterministicEngine_Submit_all [OF m(1) ok] m(2,3) by (simp_all add: Let_def)
  have e: "de_pending e = []" "pc_entries (de_prefix_cache e) = []"
    using make by (auto simp: MakeDeterministicEngine_def MakePrefixCache_def split: sum.splits if_splits)
  have "fold (\<lambda>r e. DeterministicEngine_Submit e r) rs e = e\<lparr>de_pending := de_pending e @ rs\<rparr>" for e
    by (induction rs arbitrary: e) (simp_all add: DeterministicEngine_Submit_def)
  note sub_e = this [of e]
  define P where "P x \<longleftrightarrow> de_config x = cfg \<and> pins_short n (de_prefix_cache x) \<and> set (de_pending x) \<subseteq> set rs"
    for x :: DeterministicEngine
  have "P ?e" using sub(2) e by (simp add: P_def sub_e pins_short_def)
  moreover have batch: "P x'" if "det_inv x" "P x" "RunOneBatch x = (x', p)" for x x' p
    using RunOneBatch_short [OF that(1) _ _ that(3), of n] RunOneBatch_spec [OF that(1,3)] that(2) prompts
    by (auto simp: P_def batch_result_def)
  moreover have "P (x\<lparr>de_clock := t\<rparr>)" if "P x" for x t using that by (simp add: P_def)
  ultimately have "\<exists>e'. DeterministicEngine_RunUntilIdle ?e = Some e' \<and> det_inv e' \<and> det_ledger e' = det_ledger ?e \<and> P e' \<and>
    de_config e' = de_config ?e \<and> (\<forall>r \<in> set (de_pending e'). arrival_time r \<le> de_clock e' \<and> det_reason (de_config ?e) r = None) \<and>
    (de_pending e' = [] \<or> (\<exists>e0. det_inv e0 \<and> P e0 \<and> RunOneBatch e0 = (e', False)))"
    by (rule DeterministicEngine_RunUntilIdle_keeps [OF sub(1)])
  then obtain e' where e': "DeterministicEngine_RunUntilIdle ?e = Some e'" "det_inv e'" "det_ledger e' = det_ledger ?e"
    "de_config e' = cfg" "\<forall>r \<in> set (de_pending e'). arrival_time r \<le> de_clock e' \<and> det_reason cfg r = None"
    "de_pending e' = [] \<or> (\<exists>e0. det_inv e0 \<and> P e0 \<and> RunOneBatch e0 = (e', False))"
    unfolding sub(2) by blast
  have none: "de_pending e' = []"
  proof (rule ccontr)
    assume ne: "de_pending e' \<noteq> []"
    then obtain e0 where e0: "det_inv e0" "P e0" "RunOneBatch e0 = (e', False)" using e'(6) by blast
    have r: "batch_result e0 e' False" by (rule RunOneBatch_spec [OF e0(1,3)])
    from ne obtain r where "r \<in> set (de_pending e')" by (cases "de_pending e'") auto
    then have "r \<in> set (de_pending e0)" "arrival_time r \<le> de_clock e0"
      using e'(5) r by (auto simp: batch_result_def dest: mset_eq_setD)
    moreover have "\<forall>r \<in> set (de_pending e0). det_reason (de_config e0) r = None \<longrightarrow> det_room e0 r"
      using short_pins_room [OF e0(1)] e0(2) blocks by (auto simp: P_def)
    ultimately have "snd (RunOneBatch e0)" by (intro RunOneBatch_progress [OF e0(1)])
    with e0(3) show False by simp
  qed
  have c: "det_inv (DeterministicEngine_ClearCaches e')" "prefix_blocks (de_kv_cache (DeterministicEngine_ClearCaches e')) = []"
    using DeterministicEngine_ClearCaches_spec [OF e'(2)] by simp_all
  then have kv: "kv_inv (de_kv_cache (DeterministicEngine_ClearCaches e'))" "kv_entries (de_kv_cache (DeterministicEngine_ClearCaches e')) = {#}"
    by (simp_all add: det_inv_def det_caches_def kv_entries_def)
  then have "allocated_blocks (de_kv_cache (DeterministicEngine_ClearCaches e')) = 0"
    using free_blocks_none [OF kv] by (simp add: allocated_blocks_def sub64_exact kv_inv_def kv_shape_def total_blocks_def)
  with e'(1,3,4) sub(3) none show ?thesis by (simp add: det_ledger_def)
qed

text \<open>
  C16: a statically batched engine whose KV cache holds the prefix cache and one more request serves
  every request: \<open>RunUntilIdle\<close> returns with an empty queue, and the results are, as a multiset, the
  outcome of every submitted request (its simulated output, or the reason why it can never run).
\<close>

theorem static_engine_serves_all:
  assumes make: "MakeDeterministicEngine draw cfg = Inr e" and ok: "\<forall>r \<in> set rs. request_ok r"
    and small: "max_batch_sequences cfg + prefix_cache_entries cfg + 3 < u32" "max_batch_tokens cfg < u64"
    and prompts: "\<forall>r \<in> set rs. BlocksForTokens (prompt_tokens r) (kv_block_size_tokens cfg) \<le> n"
    and blocks: "\<forall>r \<in> set rs. det_reason cfg r = None \<longrightarrow> prefix_cache_entries cfg * n
      + BlocksForTokens (prompt_tokens r + max_output_tokens r) (kv_block_size_tokens cfg) \<le> kv_blocks cfg"
  shows "\<exists>e'. DeterministicEngine_RunUntilIdle (fold (\<lambda>r e. DeterministicEngine_Submit e r) rs e) = Some e' \<and>
    de_pending e' = [] \<and> image_mset result_outcome (mset (de_results e')) = image_mset (det_outcome cfg) (mset rs) \<and>
    allocated_blocks (de_kv_cache (DeterministicEngine_ClearCaches e')) = 0"
  by (rule static_engine_serves [OF assms])

text \<open>The two requests of \<open>stranded_request\<close>, on an engine with six blocks instead of two.\<close>

definition det_cfg_roomy :: EngineConfig where
  "det_cfg_roomy = det_cfg_example\<lparr>kv_blocks := 6\<rparr>"

theorem static_engine_serves_all_witness:
  "\<exists>e e'. MakeDeterministicEngine det_no_jitter det_cfg_roomy = Inr e \<and>
     DeterministicEngine_RunUntilIdle (fold (\<lambda>r e. DeterministicEngine_Submit e r)
       [det_request ''a'' ''x'', det_request ''b'' ''y''] e) = Some e' \<and> de_pending e' = [] \<and> length (de_results e') = 2"
proof -
  let ?rs = "[det_request ''a'' ''x'', det_request ''b'' ''y'']"
  obtain e where e: "MakeDeterministicEngine det_no_jitter det_cfg_roomy = Inr e"
    by (simp add: MakeDeterministicEngine_def det_cfg_roomy_def det_cfg_example_def MakeCostModel_def
        MakePagedKvCache_def MakePrefixCache_def MakeResultCache_def MakeStaticBatchPolicy_def)
  have ok: "\<forall>r \<in> set ?rs. request_ok r" by (simp add: det_request_def req_example_def request_ok_def)
  have small: "max_batch_sequences det_cfg_roomy + prefix_cache_entries det_cfg_roomy + 3 < u32" "max_batch_tokens det_cfg_roomy < u64"
    by (simp_all add: det_cfg_roomy_def det_cfg_example_def)
  have fit: "\<forall>r \<in> set ?rs. BlocksForTokens (prompt_tokens r) (kv_block_size_tokens det_cfg_roomy) \<le> 2"
    "\<forall>r \<in> set ?rs. det_reason det_cfg_roomy r = None \<longrightarrow> prefix_cache_entries det_cfg_roomy * 2
      + BlocksForTokens (prompt_tokens r + max_output_tokens r) (kv_block_size_tokens det_cfg_roomy) \<le> kv_blocks det_cfg_roomy"
    by (simp_all add: det_request_def req_example_def det_cfg_roomy_def det_cfg_example_def BlocksForTokens_def)
  from static_engine_serves_all [OF e ok small fit] obtain e' where
    e': "DeterministicEngine_RunUntilIdle (fold (\<lambda>r e. DeterministicEngine_Submit e r) ?rs e) = Some e'" "de_pending e' = []"
    "image_mset result_outcome (mset (de_results e')) = image_mset (det_outcome det_cfg_roomy) (mset ?rs)" by blast
  from arg_cong [OF e'(3), of size] have "length (de_results e') = 2" by simp
  with e e' show ?thesis by blast
qed

end
