(* ===== verification/SchedulerBench.thy ===== *)
theory SchedulerBench
  imports ContinuousProgress DeterministicLiveness CommandLines
begin

text \<open>
  \<open>cpp/bench/scheduler_bench.cpp\<close>: the command line, the \<open>scheduler\<close> mode with the
  continuous and with the static-batch engine. The program exits with failure when a run is incomplete
  or leaks KV blocks; it is shown that it never does. The random source of the cost model is the parameter \<open>draw\<close>.
\<close>

section \<open>Command line\<close>

record Arguments =
  arg_mode :: string
  arg_engine :: string
  arg_queue :: string
  arg_registry :: string
  arg_requests :: nat
  arg_producers :: nat
  arg_qps :: nat
  arg_seed :: nat
  arg_telemetry :: bool
  arg_cache :: string

definition default_arguments :: Arguments where
  "default_arguments = \<lparr>arg_mode = ''scheduler'', arg_engine = ''continuous'', arg_queue = ''mpsc'',
     arg_registry = ''sharded'', arg_requests = 100000, arg_producers = 4, arg_qps = 500, arg_seed = 7,
     arg_telemetry = True, arg_cache = ''none''\<rparr>"

text \<open>\<open>std::from_chars\<close>: the longest run of digits, refused when empty or out of range; the rest of the input.\<close>

definition from_chars :: "string \<Rightarrow> (nat \<times> string) option" where
  "from_chars s =
     (let ds = takeWhile is_digit s
      in if ds = [] \<or> digits_value ds \<ge> u64 then None else Some (digits_value ds, dropWhile is_digit s))"

text \<open>\<open>std::exit(EXIT_FAILURE)\<close> with its message is an error value.\<close>

definition ParseSize :: "string \<Rightarrow> string \<Rightarrow> error + nat" where
  "ParseSize value name =
     (case from_chars value of
        None \<Rightarrow> Inl (RuntimeError (''invalid '' @ name @ '': '' @ value))
      | Some (parsed, rest) \<Rightarrow>
          if rest \<noteq> [] \<or> parsed = 0 then Inl (RuntimeError (''invalid '' @ name @ '': '' @ value)) else Inr parsed)"

definition set_argument :: "string \<Rightarrow> string \<Rightarrow> Arguments \<Rightarrow> error + Arguments" where
  "set_argument argument value a =
     (let size = (\<lambda>name upd. case ParseSize value name of Inl e \<Rightarrow> Inl e | Inr n \<Rightarrow> Inr (upd n)) in
      if argument = ''--mode'' then Inr (a\<lparr>arg_mode := value\<rparr>)
      else if argument = ''--engine'' then Inr (a\<lparr>arg_engine := value\<rparr>)
      else if argument = ''--queue'' then Inr (a\<lparr>arg_queue := value\<rparr>)
      else if argument = ''--registry'' then Inr (a\<lparr>arg_registry := value\<rparr>)
      else if argument = ''--requests'' then size ''request count'' (\<lambda>n. a\<lparr>arg_requests := n\<rparr>)
      else if argument = ''--producers'' then size ''producer count'' (\<lambda>n. a\<lparr>arg_producers := n\<rparr>)
      else if argument = ''--qps'' then size ''QPS'' (\<lambda>n. a\<lparr>arg_qps := n\<rparr>)
      else if argument = ''--seed'' then size ''seed'' (\<lambda>n. a\<lparr>arg_seed := n\<rparr>)
      else if argument = ''--telemetry'' then Inr (a\<lparr>arg_telemetry := (value = ''enabled'')\<rparr>)
      else if argument = ''--cache'' then Inr (a\<lparr>arg_cache := value\<rparr>)
      else Inl (RuntimeError (''unknown argument: '' @ argument)))"

fun parse_from :: "string list \<Rightarrow> Arguments \<Rightarrow> error + Arguments" where
  "parse_from [] a = Inr a"
| "parse_from [argument] a = Inl (RuntimeError (''missing value for '' @ argument))"
| "parse_from (argument # value # rest) a =
     (case set_argument argument value a of Inl e \<Rightarrow> Inl e | Inr a' \<Rightarrow> parse_from rest a')"

definition ParseArguments :: "string list \<Rightarrow> error + Arguments" where
  "ParseArguments args = parse_from args default_arguments"

section \<open>Workload\<close>

definition default_cost :: CostModelConfig where
  "default_cost = \<lparr>prefill_fixed = 10000, prefill_per_token = 1000, decode_fixed = 5000,
     decode_per_sequence = 2000, jitter_basis_points = 0\<rparr>"

definition default_config :: EngineConfig where
  "default_config = \<lparr>kv_blocks = 256, kv_block_size_tokens = 16, max_batch_sequences = 8, max_batch_tokens = 4096,
     max_prefill_sequences_per_iteration = 1, result_cache_entries = 128, prefix_cache_entries = 128, seed = 1,
     cost_model = default_cost\<rparr>"

definition BenchmarkConfig :: EngineConfig where
  "BenchmarkConfig = default_config\<lparr>kv_blocks := 4096, kv_block_size_tokens := 16, max_batch_sequences := 64,
     max_batch_tokens := 8192, max_prefill_sequences_per_iteration := 64, result_cache_entries := 64,
     prefix_cache_entries := 1,
     cost_model := default_cost\<lparr>prefill_fixed := 0, prefill_per_token := 0, decode_fixed := 0, decode_per_sequence := 0\<rparr>\<rparr>"

definition MakeRequest :: "nat \<Rightarrow> EngineRequest" where
  "MakeRequest index = \<lparr>request_id = ''request-'' @ to_string index, model_revision = ''benchmark-model'',
     tokenizer_revision = ''benchmark-tokenizer'', prompt_hash = ''prompt-'' @ to_string index,
     prompt_block_hashes = [], prompt_tokens = 16 + index mod 113, max_output_tokens = 1 + index mod 16,
     priority = 0, sampling_seed = index, temperature_micros = 0, top_p_micros = 1000000, arrival_time = 0\<rparr>"

section \<open>The scheduler mode\<close>

text \<open>
  Outer result: a constructor throws. Inner: \<open>RunUntilIdle\<close> does not return. The report has the token
  count, whether every request has a result, and whether no block is left allocated.
\<close>

record SchedulerReport =
  rep_token_count :: nat
  rep_complete :: bool
  rep_zero_leak :: bool

definition submit_index :: "nat \<Rightarrow> ContinuousEngine \<times> nat \<Rightarrow> ContinuousEngine \<times> nat" where
  "submit_index index = (\<lambda>(e, token_count). let r = MakeRequest index
     in (Submit e r, add64 token_count (add64 (prompt_tokens r) (max_output_tokens r))))"

definition RunScheduler :: "draw \<Rightarrow> nat \<Rightarrow> error + SchedulerReport option" where
  "RunScheduler draw requests =
     (case MakeContinuousEngine draw BenchmarkConfig of Inl err \<Rightarrow> Inl err
      | Inr e0 \<Rightarrow> let (e, token_count) = fold submit_index [0..<requests] (e0, 0)
        in Inr (case RunUntilIdle e of None \<Rightarrow> None
           | Some e' \<Rightarrow> Some \<lparr>rep_token_count = token_count, rep_complete = (length (ce_results e') = requests),
               rep_zero_leak = (allocated_blocks (ce_kv_cache (ClearCaches e')) = 0)\<rparr>))"

text \<open>The same template, instantiated with the static-batch engine.\<close>

definition submit_index_static :: "nat \<Rightarrow> DeterministicEngine \<times> nat \<Rightarrow> DeterministicEngine \<times> nat" where
  "submit_index_static index = (\<lambda>(e, token_count). let r = MakeRequest index
     in (DeterministicEngine_Submit e r, add64 token_count (add64 (prompt_tokens r) (max_output_tokens r))))"

definition RunScheduler_static :: "draw \<Rightarrow> nat \<Rightarrow> error + SchedulerReport option" where
  "RunScheduler_static draw requests =
     (case MakeDeterministicEngine draw BenchmarkConfig of Inl err \<Rightarrow> Inl err
      | Inr e0 \<Rightarrow> let (e, token_count) = fold submit_index_static [0..<requests] (e0, 0)
        in Inr (case DeterministicEngine_RunUntilIdle e of None \<Rightarrow> None
           | Some e' \<Rightarrow> Some \<lparr>rep_token_count = token_count, rep_complete = (length (de_results e') = requests),
               rep_zero_leak = (allocated_blocks (de_kv_cache (DeterministicEngine_ClearCaches e')) = 0)\<rparr>))"

section \<open>Numbers on the command line\<close>

lemma from_chars_to_string: "n < u64 \<Longrightarrow> from_chars (to_string n) = Some (n, [])"
  by (simp add: from_chars_def Let_def digits_to_string digits_value_to_string)

lemma ParseSize_to_string: "0 < n \<Longrightarrow> n < u64 \<Longrightarrow> ParseSize (to_string n) name = Inr n"
  by (simp add: ParseSize_def from_chars_to_string)

text \<open>The command line that spells out a set of arguments.\<close>

definition print_arguments :: "Arguments \<Rightarrow> string list" where
  "print_arguments a = [''--mode'', arg_mode a, ''--engine'', arg_engine a, ''--queue'', arg_queue a,
     ''--registry'', arg_registry a, ''--requests'', to_string (arg_requests a), ''--producers'', to_string (arg_producers a),
     ''--qps'', to_string (arg_qps a), ''--seed'', to_string (arg_seed a),
     ''--telemetry'', (if arg_telemetry a then ''enabled'' else ''disabled''), ''--cache'', arg_cache a]"

text \<open>
  Every set of arguments with positive 64-bit counts can be given on the command line and is read
  back exactly; every count the parser accepts is a positive 64-bit number.
\<close>

theorem ParseArguments_roundtrip:
  assumes "0 < arg_requests a" "arg_requests a < u64" "0 < arg_producers a" "arg_producers a < u64"
    and "0 < arg_qps a" "arg_qps a < u64" "0 < arg_seed a" "arg_seed a < u64"
    and "ParseSize value name = Inr n"
  shows "ParseArguments (print_arguments a) = Inr a \<and> 0 < n \<and> n < u64"
proof -
  have "0 < n \<and> n < u64"
    using assms(9) by (auto simp: ParseSize_def from_chars_def Let_def split: option.splits prod.splits if_splits)
  moreover have "ParseArguments (print_arguments a) = Inr a"
    using assms(1-8)
    by (simp add: ParseArguments_def print_arguments_def set_argument_def ParseSize_to_string default_arguments_def Let_def)
  ultimately show ?thesis by simp
qed

theorem ParseArguments_roundtrip_witness:
  "ParseArguments (print_arguments (default_arguments\<lparr>arg_requests := 12\<rparr>)) = Inr (default_arguments\<lparr>arg_requests := 12\<rparr>)"
proof -
  have "ParseSize ''12'' ''seed'' = Inr 12" by code_simp
  from ParseArguments_roundtrip [OF _ _ _ _ _ _ _ _ this, of "default_arguments\<lparr>arg_requests := 12\<rparr>"] show ?thesis
    by (simp add: default_arguments_def)
qed

section \<open>Idle engines and cleared caches\<close>

lemma idle_results:
  assumes "settled e"
  shows "\<exists>e'. RunUntilIdle e = Some e' \<and> settled e' \<and> ce_active e' = [] \<and>
    image_mset result_outcome (mset (ce_results e')) = ledger e"
proof -
  from RunUntilIdle_returns [OF assms] obtain e' where e': "RunUntilIdle e = Some e'" "settled e'" "ce_pending e' = []"
    "ce_active e' = []" "ledger e' = ledger e" by blast
  then have "ledger e' = image_mset result_outcome (mset (ce_results e'))" by (simp add: ledger_def)
  with e' show ?thesis by auto
qed

lemma cleared_no_leak:
  assumes "settled e" and "ce_active e = []"
  shows "allocated_blocks (ce_kv_cache (ClearCaches e)) = 0"
proof -
  obtain rx kv where c: "RadixClear (ce_prefix_cache e) (ce_kv_cache e) = (rx, kv)" by fastforce
  have ci: "caches_inv (ce_config e) {#} (ce_prefix_cache e) (ce_kv_cache e)"
    using assms by (simp add: settled_def ce_inv_def ce_caches_def)
  then have i: "rx_inv (ce_prefix_cache e) (ce_kv_cache e)" "kv_inv (ce_kv_cache e)" "sequence_blocks (ce_kv_cache e) = []"
    by (simp_all add: caches_inv_def)
  note s = RadixClear_spec [OF i(1,2) caches_inv_entries(3) [OF ci] c]
  have "kv_entries kv = {#}" using s(1,3) i(3) by (simp add: kv_entries_def kv_same_seqs_def)
  then have f: "free_blocks kv = total_blocks kv" by (rule free_blocks_none [OF s(2)])
  have "total_blocks kv < u64" using s(2) by (simp add: kv_inv_def kv_shape_def total_blocks_def)
  then show ?thesis using f c by (simp add: ClearCaches_def allocated_blocks_def sub64_exact)
qed

lemma MakeEngine_total:
  assumes "cost_config_ok (cost_model cfg)" "kv_blocks cfg < u32" "0 < kv_block_size_tokens cfg" "0 < prefix_cache_entries cfg"
    "0 < result_cache_entries cfg" "0 < max_batch_sequences cfg" "0 < max_batch_tokens cfg" "0 < max_prefill_sequences_per_iteration cfg"
  shows "\<exists>e. MakeContinuousEngine draw cfg = Inr e"
  using assms by (simp add: MakeContinuousEngine_def MakeCostModel_def MakePagedKvCache_def MakeRadixPrefixCache_def
      MakeResultCache_def cost_config_ok_def)

section \<open>The scheduler mode never fails\<close>

lemma small_tokens: "16 + i mod 113 < u64" "1 + i mod 16 < u64"
  using mod_less_divisor [of 113 i] mod_less_divisor [of 16 i] by linarith+

lemma MakeRequest_ok: "request_ok (MakeRequest i)"
  using small_tokens [of i] by (simp add: request_ok_def MakeRequest_def)

lemma submit_indices:
  "fold submit_index is (e, n) = (fold (\<lambda>r e. Submit e r) (map MakeRequest is) e,
     fold (\<lambda>i n. add64 n (add64 (prompt_tokens (MakeRequest i)) (max_output_tokens (MakeRequest i)))) is n)"
  by (induction "is" arbitrary: e n) (simp_all add: submit_index_def Let_def)

text \<open>
  The scheduler benchmark always passes. For every number of requests and every random source the
  engine is constructed, the run returns, every request has a result, and after clearing the caches no
  KV block is allocated: the program never exits with failure.
\<close>

lemma RunScheduler_passes:
  "\<exists>tokens. RunScheduler draw requests =
     Inr (Some \<lparr>rep_token_count = tokens, rep_complete = True, rep_zero_leak = True\<rparr>)"
proof -
  have cfg: "small_config BenchmarkConfig" "cost_config_ok (cost_model BenchmarkConfig)"
    by (simp_all add: small_config_def BenchmarkConfig_def default_config_def default_cost_def cost_config_ok_def)
  then obtain e0 where m: "MakeContinuousEngine draw BenchmarkConfig = Inr e0"
    using MakeEngine_total [of BenchmarkConfig draw] by (auto simp: BenchmarkConfig_def default_config_def)
  note s = MakeContinuousEngine_settled [OF m cfg(1) [unfolded small_config_def, THEN conjunct1] cfg(1) [unfolded small_config_def, THEN conjunct2]]
  let ?e = "fold (\<lambda>r e. Submit e r) (map MakeRequest [0..<requests]) e0"
  have sub: "settled ?e" "ledger ?e = image_mset (request_outcome BenchmarkConfig) (mset (map MakeRequest [0..<requests]))"
    using Submit_all [OF s(1), of "map MakeRequest [0..<requests]"] s(2,3) MakeRequest_ok by auto
  from idle_results [OF sub(1)] obtain e' where e': "RunUntilIdle ?e = Some e'" "settled e'" "ce_active e' = []"
    "image_mset result_outcome (mset (ce_results e')) = ledger ?e" by blast
  have "size (image_mset result_outcome (mset (ce_results e'))) = requests" unfolding e'(4) sub(2) by simp
  then have "length (ce_results e') = requests" by simp
  with m e'(1) cleared_no_leak [OF e'(2,3)] show ?thesis by (simp add: RunScheduler_def submit_indices)
qed

text \<open>The static-batch engine of the benchmark has one cached prefix of at most eight blocks.\<close>

lemma submit_indices_static:
  "fold submit_index_static is (e, n) = (fold (\<lambda>r e. DeterministicEngine_Submit e r) (map MakeRequest is) e,
     fold (\<lambda>i n. add64 n (add64 (prompt_tokens (MakeRequest i)) (max_output_tokens (MakeRequest i)))) is n)"
  by (induction "is" arbitrary: e n) (simp_all add: submit_index_static_def Let_def)

lemma MakeRequest_blocks:
  "BlocksForTokens (prompt_tokens (MakeRequest i)) 16 \<le> 8"
  "BlocksForTokens (prompt_tokens (MakeRequest i) + max_output_tokens (MakeRequest i)) 16 \<le> 9"
proof -
  have m: "i mod 113 \<le> 112" "i mod 16 \<le> 15" by (simp_all flip: less_Suc_eq_le)
  then have "BlocksForTokens (prompt_tokens (MakeRequest i)) 16 \<le> BlocksForTokens 128 16"
    "BlocksForTokens (prompt_tokens (MakeRequest i) + max_output_tokens (MakeRequest i)) 16 \<le> BlocksForTokens 144 16"
    by (intro BlocksForTokens_mono; simp add: MakeRequest_def)+
  then show "BlocksForTokens (prompt_tokens (MakeRequest i)) 16 \<le> 8"
    "BlocksForTokens (prompt_tokens (MakeRequest i) + max_output_tokens (MakeRequest i)) 16 \<le> 9"
    by (simp_all add: BlocksForTokens_def)
qed

lemma RunScheduler_static_passes:
  "\<exists>tokens. RunScheduler_static draw requests =
     Inr (Some \<lparr>rep_token_count = tokens, rep_complete = True, rep_zero_leak = True\<rparr>)"
proof -
  obtain e0 where m: "MakeDeterministicEngine draw BenchmarkConfig = Inr e0"
    by (simp add: MakeDeterministicEngine_def BenchmarkConfig_def default_config_def default_cost_def MakeCostModel_def
        MakePagedKvCache_def MakePrefixCache_def MakeResultCache_def MakeStaticBatchPolicy_def)
  let ?rs = "map MakeRequest [0..<requests]"
  have cfg: "kv_block_size_tokens BenchmarkConfig = 16" "prefix_cache_entries BenchmarkConfig = 1" "kv_blocks BenchmarkConfig = 4096"
    "max_batch_sequences BenchmarkConfig + prefix_cache_entries BenchmarkConfig + 3 < u32" "max_batch_tokens BenchmarkConfig < u64"
    by (simp_all add: BenchmarkConfig_def default_config_def)
  have ok: "\<forall>r \<in> set ?rs. request_ok r" using MakeRequest_ok by simp
  have fit: "\<forall>r \<in> set ?rs. BlocksForTokens (prompt_tokens r) (kv_block_size_tokens BenchmarkConfig) \<le> 8"
    "\<forall>r \<in> set ?rs. det_reason BenchmarkConfig r = None \<longrightarrow> prefix_cache_entries BenchmarkConfig * 8
      + BlocksForTokens (prompt_tokens r + max_output_tokens r) (kv_block_size_tokens BenchmarkConfig) \<le> kv_blocks BenchmarkConfig"
    using MakeRequest_blocks(1) by (auto simp: cfg(1-3) intro: order_trans [OF MakeRequest_blocks(2)])
  from static_engine_serves [OF m ok cfg(4,5) fit] obtain e' where
    e': "DeterministicEngine_RunUntilIdle (fold (\<lambda>r e. DeterministicEngine_Submit e r) ?rs e0) = Some e'"
    "image_mset result_outcome (mset (de_results e')) = image_mset (det_outcome BenchmarkConfig) (mset ?rs)"
    "allocated_blocks (de_kv_cache (DeterministicEngine_ClearCaches e')) = 0" by blast
  from arg_cong [OF e'(2), of size] have "length (de_results e') = requests" by simp
  with m e' show ?thesis by (simp add: RunScheduler_static_def submit_indices_static)
qed

end
