(* ===== verification/RouterScenarios.thy ===== *)
theory RouterScenarios
  imports RouterClients SchedulerBench
begin

text \<open>
  The demonstration run of \<open>cpp/src/router_main.cpp\<close> against the engine program of
  \<open>cpp/src/engine_main.cpp\<close>: one thread per request calls \<open>DispatchOne\<close> on the engine service while its
  worker runs; when all have returned, a repeated attempt and an old epoch are tried, and the engine is
  drained. The steps of the threads and of the worker interleave in any order. Deadlines of the calls
  (ten seconds each) do not pass in the model.
\<close>

section \<open>The engine program\<close>

definition engine_main_config :: EngineConfig where
  "engine_main_config = default_config\<lparr>kv_blocks := 4096, max_batch_sequences := 64, max_prefill_sequences_per_iteration := 64\<rparr>"

definition engine_main_service :: "draw \<Rightarrow> error + EngineService" where
  "engine_main_service draw = MakeEngineService draw engine_main_config 1024"

section \<open>Threads and worker\<close>

datatype DemoClient = NotCalled | Calling nat | Returned bool

record DemoSystem =
  dm_phase :: phase
  dm_service :: EngineService
  dm_clients :: "DemoClient list"

definition demo_start :: "nat \<Rightarrow> EngineService \<Rightarrow> DemoSystem" where
  "demo_start requests s = \<lparr>dm_phase = Waiting, dm_service = s, dm_clients = replicate requests NotCalled\<rparr>"

text \<open>
  A thread reads the acknowledgement; after a rejection the stream ends, after an acceptance it waits
  until the handler has written the events of its job.
\<close>

definition client_begin :: "nat \<Rightarrow> nat \<Rightarrow> nat \<Rightarrow> nat \<Rightarrow> DispatchEvent \<Rightarrow> DemoClient" where
  "client_begin a e i j ack = (case ack of Ack ACCEPTED _ \<Rightarrow> Calling j
     | _ \<Rightarrow> Returned (DispatchOne (\<lambda>d. ([ack], True)) i a e False))"

definition client_end :: "nat \<Rightarrow> nat \<Rightarrow> nat \<Rightarrow> DispatchEvent list \<Rightarrow> DemoClient" where
  "client_end a e i events = Returned (DispatchOne (\<lambda>d. (Ack ACCEPTED [] # events, True)) i a e False)"

inductive demo_step :: "(rat \<Rightarrow> rat) \<Rightarrow> nat \<Rightarrow> nat \<Rightarrow> DemoSystem \<Rightarrow> DemoSystem \<Rightarrow> bool" for fl a e where
  call: "i < length (dm_clients D) \<Longrightarrow> dm_clients D ! i = NotCalled \<Longrightarrow>
    Dispatch_begin (demo_dispatch i a e) (dm_service D) = (ack, s') \<Longrightarrow>
    demo_step fl a e D (D\<lparr>dm_service := s', dm_clients := (dm_clients D)[i := client_begin a e i (es_next_job (dm_service D)) ack]\<rparr>)"
| answer: "i < length (dm_clients D) \<Longrightarrow> dm_clients D ! i = Calling j \<Longrightarrow> job_done (es_jobs (dm_service D) j) \<Longrightarrow>
    Dispatch_end j (dm_service D) = (events, s') \<Longrightarrow>
    demo_step fl a e D (D\<lparr>dm_service := s', dm_clients := (dm_clients D)[i := client_end a e i events]\<rparr>)"
| take: "dm_phase D = Waiting \<Longrightarrow> es_queue (dm_service D) \<noteq> [] \<Longrightarrow>
    demo_step fl a e D (D\<lparr>dm_phase := Taken, dm_service := worker_take (dm_service D)\<rparr>)"
| run: "dm_phase D = Taken \<Longrightarrow> worker_run fl (dm_service D) = Some t \<Longrightarrow>
    demo_step fl a e D (D\<lparr>dm_phase := Ran, dm_service := t\<rparr>)"
| finish: "dm_phase D = Ran \<Longrightarrow> demo_step fl a e D (D\<lparr>dm_phase := Waiting, dm_service := worker_finish (dm_service D)\<rparr>)"

text \<open>What \<open>main\<close> does when all threads have joined: the two calls that must be rejected, and the drain.\<close>

definition rejected_call :: "nat \<Rightarrow> nat \<Rightarrow> nat \<Rightarrow> EngineService \<Rightarrow> bool \<times> EngineService" where
  "rejected_call index attempt epoch s =
     (case Dispatch_begin (demo_dispatch index attempt epoch) s of
        (ack, s') \<Rightarrow> (DispatchOne (\<lambda>d. ([ack], True)) index attempt epoch True, s'))"

definition demo_checks :: "nat \<Rightarrow> DemoSystem \<Rightarrow> bool \<times> EngineService" where
  "demo_checks requests D =
     (let completed = length (filter (\<lambda>c. c = Returned True) (dm_clients D));
          (stale_attempt_rejected, s1) = rejected_call 0 1 1 (dm_service D);
          (stale_epoch_rejected, s2) = rejected_call (requests + 1) 1 0 s1
      in (completed = requests \<and> stale_attempt_rejected \<and> stale_epoch_rejected, s2))"

definition all_joined :: "DemoSystem \<Rightarrow> bool" where
  "all_joined D \<longleftrightarrow> (\<forall>c \<in> set (dm_clients D). case c of Returned _ \<Rightarrow> True | _ \<Rightarrow> False)"

section \<open>What the threads and the worker keep\<close>

abbreviation demo_id :: "nat \<Rightarrow> string" where
  "demo_id i \<equiv> ir_request_id (demo_request i)"

lemma demo_id_inject [simp]: "demo_id i = demo_id i' \<longleftrightarrow> i = i'"
  by (simp add: demo_request_def)

definition answered :: "(rat \<Rightarrow> rat) \<Rightarrow> EngineConfig \<Rightarrow> nat \<Rightarrow> Job \<Rightarrow> bool" where
  "answered fl cfg i job \<longleftrightarrow> result_outcome (job_result job) = request_outcome cfg (ToEngineRequest fl (demo_request i))"

definition demo_ok :: "(rat \<Rightarrow> rat) \<Rightarrow> nat \<Rightarrow> nat \<Rightarrow> EngineConfig \<Rightarrow> nat \<Rightarrow> phase \<Rightarrow> EngineService \<Rightarrow> DemoClient list \<Rightarrow> bool" where
  "demo_ok fl a e cfg n ph s cs \<longleftrightarrow>
     service_inv (ph, s) \<and> ce_config (es_engine s) = cfg \<and> \<not> es_draining s \<and> n \<le> es_queue_capacity s \<and> length cs = n \<and>
     (\<forall>i < n. map_of (es_request_attempts s) (demo_id i) = (if cs ! i = NotCalled then None else Some a)) \<and>
     map_of (es_partition_epochs s) 0 = (if \<forall>i < n. cs ! i = NotCalled then None else Some e) \<and>
     (\<forall>j \<in> set (in_flight s). \<exists>i < n. cs ! i \<noteq> NotCalled \<and> job_dispatch (es_jobs s j) = demo_dispatch i a e) \<and>
     (\<forall>i < n. \<forall>j. cs ! i = Calling j \<longrightarrow> job_dispatch (es_jobs s j) = demo_dispatch i a e \<and> j < es_next_job s \<and>
        \<not> job_superseded (es_jobs s j) \<and>
        (if job_done (es_jobs s j) then answered fl cfg i (es_jobs s j) else j \<in> set (in_flight s))) \<and>
     (\<forall>i < n. \<forall>b. cs ! i = Returned b \<longrightarrow> b) \<and>
     (ph = Ran \<longrightarrow> (\<forall>j \<in> set (es_batch s). job_done (es_jobs s j)))"

definition demo_inv :: "(rat \<Rightarrow> rat) \<Rightarrow> nat \<Rightarrow> nat \<Rightarrow> EngineConfig \<Rightarrow> nat \<Rightarrow> DemoSystem \<Rightarrow> bool" where
  "demo_inv fl a e cfg n D \<longleftrightarrow> demo_ok fl a e cfg n (dm_phase D) (dm_service D) (dm_clients D)"

lemma demo_okI:
  assumes "service_inv (ph, s)"
    and "ce_config (es_engine s) = cfg"
    and "\<not> es_draining s"
    and "n \<le> es_queue_capacity s"
    and "length cs = n"
    and "\<And>i. i < n \<Longrightarrow> map_of (es_request_attempts s) (demo_id i) = (if cs ! i = NotCalled then None else Some a)"
    and "map_of (es_partition_epochs s) 0 = (if \<forall>i < n. cs ! i = NotCalled then None else Some e)"
    and "\<And>j. j \<in> set (in_flight s) \<Longrightarrow>
      \<exists>i < n. cs ! i \<noteq> NotCalled \<and> job_dispatch (es_jobs s j) = demo_dispatch i a e"
    and "\<And>i j. i < n \<Longrightarrow> cs ! i = Calling j \<Longrightarrow> job_dispatch (es_jobs s j) = demo_dispatch i a e \<and>
      j < es_next_job s \<and> \<not> job_superseded (es_jobs s j) \<and>
      (if job_done (es_jobs s j) then answered fl cfg i (es_jobs s j) else j \<in> set (in_flight s))"
    and "\<And>i b. i < n \<Longrightarrow> cs ! i = Returned b \<Longrightarrow> b"
    and "\<And>j. ph = Ran \<Longrightarrow> j \<in> set (es_batch s) \<Longrightarrow> job_done (es_jobs s j)"
  shows "demo_ok fl a e cfg n ph s cs"
  unfolding demo_ok_def using assms by (intro conjI allI impI ballI) blast+

lemma demo_invD:
  assumes "demo_inv fl a e cfg n D"
  shows "service_inv (dm_phase D, dm_service D)"
    and "ce_config (es_engine (dm_service D)) = cfg"
    and "\<not> es_draining (dm_service D)"
    and "n \<le> es_queue_capacity (dm_service D)"
    and "length (dm_clients D) = n"
    and "\<And>i. i < n \<Longrightarrow> map_of (es_request_attempts (dm_service D)) (demo_id i) = (if dm_clients D ! i = NotCalled then None else Some a)"
    and "map_of (es_partition_epochs (dm_service D)) 0 = (if \<forall>i < n. dm_clients D ! i = NotCalled then None else Some e)"
    and "\<And>j. j \<in> set (in_flight (dm_service D)) \<Longrightarrow>
      \<exists>i < n. dm_clients D ! i \<noteq> NotCalled \<and> job_dispatch (es_jobs (dm_service D) j) = demo_dispatch i a e"
    and "\<And>i j. i < n \<Longrightarrow> dm_clients D ! i = Calling j \<Longrightarrow> job_dispatch (es_jobs (dm_service D) j) = demo_dispatch i a e \<and>
      j < es_next_job (dm_service D) \<and> \<not> job_superseded (es_jobs (dm_service D) j) \<and>
      (if job_done (es_jobs (dm_service D) j) then answered fl cfg i (es_jobs (dm_service D) j) else j \<in> set (in_flight (dm_service D)))"
    and "\<And>i b. i < n \<Longrightarrow> dm_clients D ! i = Returned b \<Longrightarrow> b"
    and "\<And>j. dm_phase D = Ran \<Longrightarrow> j \<in> set (es_batch (dm_service D)) \<Longrightarrow> job_done (es_jobs (dm_service D) j)"
  using assms unfolding demo_inv_def demo_ok_def by blast+

lemma Dispatch_begin_accepts:
  assumes "\<not> es_draining s" and "length (es_queue s) < es_queue_capacity s"
    and "case map_of (es_partition_epochs s) (wf_partition_id (dr_fence d)) of None \<Rightarrow> True | Some e \<Rightarrow> e \<le> wf_epoch (dr_fence d)"
    and "map_of (es_request_attempts s) (ir_request_id (dr_request d)) = None"
    and "map_of (es_live_jobs s) (ir_request_id (dr_request d)) = None"
  shows "Dispatch_begin d s = (Ack ACCEPTED [], s\<lparr>es_jobs := (es_jobs s)(es_next_job s := fresh_job d),
    es_next_job := Suc (es_next_job s), es_handlers := es_next_job s # es_handlers s, es_queue := es_queue s @ [es_next_job s],
    es_partition_epochs := AList.update (wf_partition_id (dr_fence d)) (wf_epoch (dr_fence d)) (es_partition_epochs s),
    es_request_attempts := AList.update (ir_request_id (dr_request d)) (wf_attempt_id (dr_fence d)) (es_request_attempts s),
    es_live_jobs := AList.update (ir_request_id (dr_request d)) (es_next_job s) (es_live_jobs s)\<rparr>)"
  using assms by (simp add: Dispatch_begin_def ValidateAndReserve_def Let_def split: option.splits)

text \<open>As long as a thread has not called, the queue has room.\<close>

lemma demo_queue_room:
  assumes inv: "demo_inv fl a e cfg n D" and i: "i < n" "dm_clients D ! i = NotCalled"
  shows "length (es_queue (dm_service D)) < n"
proof -
  let ?s = "dm_service D" and ?called = "{i. i < n \<and> dm_clients D ! i \<noteq> NotCalled}"
  have l: "live_ok ?s" "jobs_ok ?s" using demo_invD(1) [OF inv] by (simp_all add: service_inv_def)
  have d: "distinct (map (job_rid ?s) (es_queue ?s))" using live_ok_distinct_rids [OF l] by simp
  have "set (map (job_rid ?s) (es_queue ?s)) \<subseteq> demo_id ` ?called"
  proof
    fix r
    assume "r \<in> set (map (job_rid ?s) (es_queue ?s))"
    then obtain j where j: "j \<in> set (es_queue ?s)" "r = job_rid ?s j" by auto
    then obtain i where "i < n" "dm_clients D ! i \<noteq> NotCalled" "job_dispatch (es_jobs ?s j) = demo_dispatch i a e"
      using demo_invD(8) [OF inv, of j] by auto
    then show "r \<in> demo_id ` ?called" using j(2) by (auto simp: demo_dispatch_def)
  qed
  moreover have fin: "finite ?called" by simp
  ultimately have "card (set (map (job_rid ?s) (es_queue ?s))) \<le> card (demo_id ` ?called)" by (intro card_mono) simp_all
  also have "\<dots> \<le> card ?called" by (rule card_image_le [OF fin])
  also have "card ?called < card {..<n}" using i by (intro psubset_card_mono) auto
  finally show ?thesis using distinct_card [OF d] by simp
qed

lemma demo_dispatch_ok: "dispatch_ok (demo_dispatch i a e)"
  using mod_less_divisor [of 16 i] by (simp add: dispatch_ok_def demo_dispatch_def demo_request_def)

lemma demo_in_flight_old:
  assumes "demo_inv fl a e cfg n D" and "j \<in> set (in_flight (dm_service D))"
  shows "j < es_next_job (dm_service D)"
  using demo_invD(1) [OF assms(1)] assms(2) unfolding service_inv_def jobs_ok_def by auto

lemma demo_call_accepted:
  assumes inv: "demo_inv fl a e cfg n D" and i: "i < n" "dm_clients D ! i = NotCalled"
  shows "Dispatch_begin (demo_dispatch i a e) (dm_service D) = (Ack ACCEPTED [], (dm_service D)\<lparr>
    es_jobs := (es_jobs (dm_service D))(es_next_job (dm_service D) := fresh_job (demo_dispatch i a e)),
    es_next_job := Suc (es_next_job (dm_service D)), es_handlers := es_next_job (dm_service D) # es_handlers (dm_service D),
    es_queue := es_queue (dm_service D) @ [es_next_job (dm_service D)],
    es_partition_epochs := AList.update 0 e (es_partition_epochs (dm_service D)),
    es_request_attempts := AList.update (demo_id i) a (es_request_attempts (dm_service D)),
    es_live_jobs := AList.update (demo_id i) (es_next_job (dm_service D)) (es_live_jobs (dm_service D))\<rparr>)"
proof -
  let ?s = "dm_service D"
  have live: "live_ok ?s" using demo_invD(1) [OF inv] by (simp add: service_inv_def)
  have "map_of (es_live_jobs ?s) (demo_id i) = None"
  proof (rule ccontr)
    assume "map_of (es_live_jobs ?s) (demo_id i) \<noteq> None"
    then obtain l where "map_of (es_live_jobs ?s) (demo_id i) = Some l" by blast
    then have l: "l \<in> set (in_flight ?s)" "job_rid ?s l = demo_id i" by (simp_all only: live_ok_map_of [OF live])
    from demo_invD(8) [OF inv l(1)] l(2) i show False by (auto simp: demo_dispatch_def)
  qed
  moreover have "length (es_queue ?s) < es_queue_capacity ?s"
    using demo_queue_room [OF inv i] demo_invD(4) [OF inv] by linarith
  moreover have "case map_of (es_partition_epochs ?s) 0 of None \<Rightarrow> True | Some e' \<Rightarrow> e' \<le> e"
    using demo_invD(7) [OF inv] by (simp split: option.splits if_splits)
  moreover have "map_of (es_request_attempts ?s) (demo_id i) = None" using demo_invD(6) [OF inv i(1)] i(2) by simp
  ultimately show ?thesis using demo_invD(3) [OF inv] 
    by (subst Dispatch_begin_accepts) (simp_all add: demo_dispatch_def split: option.splits)
qed

lemma demo_call_inv:
  assumes inv: "demo_inv fl a e cfg n D" and i: "i < n" "dm_clients D ! i = NotCalled"
    and b: "Dispatch_begin (demo_dispatch i a e) (dm_service D) = (ack, s')"
  shows "demo_inv fl a e cfg n (D\<lparr>dm_service := s', dm_clients := (dm_clients D)[i := client_begin a e i (es_next_job (dm_service D)) ack]\<rparr>)"
proof -
  let ?s = "dm_service D" and ?j = "es_next_job (dm_service D)"
  define cs where "cs = (dm_clients D)[i := Calling ?j]"
  have ack: "ack = Ack ACCEPTED []" and s': "s' = ?s\<lparr>es_jobs := (es_jobs ?s)(?j := fresh_job (demo_dispatch i a e)),
      es_next_job := Suc ?j, es_handlers := ?j # es_handlers ?s, es_queue := es_queue ?s @ [?j],
      es_partition_epochs := AList.update 0 e (es_partition_epochs ?s),
      es_request_attempts := AList.update (demo_id i) a (es_request_attempts ?s),
      es_live_jobs := AList.update (demo_id i) ?j (es_live_jobs ?s)\<rparr>"
    using demo_call_accepted [OF inv i] b by simp_all
  have len: "length (dm_clients D) = n" by (rule demo_invD(5) [OF inv])
  have cs_nth: "cs ! i' = (if i' = i then Calling ?j else dm_clients D ! i')" if "i' < n" for i'
    using that i(1) len by (simp add: cs_def)
  have old: "es_jobs s' j = es_jobs ?s j" if "j < ?j" for j using that by (simp add: s')
  have f1: "service_inv (dm_phase D, s')"
    using Dispatch_begin_inv [OF demo_invD(1) [OF inv] demo_dispatch_ok, of i a e] b by simp
  have f8: "\<exists>i' < n. cs ! i' \<noteq> NotCalled \<and> job_dispatch (es_jobs s' j) = demo_dispatch i' a e"
    if j: "j \<in> set (in_flight s')" for j
  proof (cases "j = ?j")
    case True
    then show ?thesis using i(1) cs_nth [OF i(1)] by (intro exI [of _ i]) (simp add: s' fresh_job_def)
  next
    case False
    then have j': "j \<in> set (in_flight ?s)" using j by (auto simp: s')
    then obtain i' where "i' < n" "dm_clients D ! i' \<noteq> NotCalled" "job_dispatch (es_jobs ?s j) = demo_dispatch i' a e"
      using demo_invD(8) [OF inv] by blast
    then show ?thesis using cs_nth [of i'] old [OF demo_in_flight_old [OF inv j']] by (intro exI [of _ i']) simp
  qed
  have f9: "job_dispatch (es_jobs s' j) = demo_dispatch i' a e \<and> j < es_next_job s' \<and> \<not> job_superseded (es_jobs s' j) \<and>
      (if job_done (es_jobs s' j) then answered fl cfg i' (es_jobs s' j) else j \<in> set (in_flight s'))"
    if i': "i' < n" and c: "cs ! i' = Calling j" for i' j
  proof (cases "i' = i")
    case True
    then show ?thesis using c cs_nth [OF i'] by (simp add: s' fresh_job_def)
  next
    case False
    then have "dm_clients D ! i' = Calling j" using c cs_nth [OF i'] by simp
    note d = demo_invD(9) [OF inv i' this]
    then have "es_jobs s' j = es_jobs ?s j" using old by blast
    moreover have "set (in_flight ?s) \<subseteq> set (in_flight s')" by (auto simp: s')
    ultimately show ?thesis using d by (auto simp: s')
  qed
  have f11: "job_done (es_jobs s' j)" if "dm_phase D = Ran" "j \<in> set (es_batch s')" for j
  proof -
    have j: "j \<in> set (es_batch ?s)" using that(2) by (simp add: s')
    then show ?thesis using demo_invD(11) [OF inv that(1) j] old [OF demo_in_flight_old [OF inv]] by simp
  qed
  have f10: "b" if "i' < n" "cs ! i' = Returned b" for i' b
    using that cs_nth [OF that(1)] demo_invD(10) [OF inv that(1)] by (simp split: if_splits)
  have f6: "map_of (es_request_attempts s') (demo_id i') = (if cs ! i' = NotCalled then None else Some a)" if "i' < n" for i'
    using cs_nth [OF that] demo_invD(6) [OF inv that] by (simp add: s' update_conv')
  have f7: "map_of (es_partition_epochs s') 0 = (if \<forall>i < n. cs ! i = NotCalled then None else Some e)"
    using cs_nth [OF i(1)] i(1) by (auto simp: s' update_conv')
  have "ce_config (es_engine s') = cfg" "\<not> es_draining s'" "n \<le> es_queue_capacity s'" "length cs = n"
    using demo_invD(2-5) [OF inv] by (simp_all add: s' cs_def)
  from demo_okI [where cs = cs, OF f1 this f6 f7 f8 f9 f10 f11] show ?thesis
    by (simp add: demo_inv_def cs_def client_begin_def ack)
qed

lemma demo_answer_inv:
  assumes inv: "demo_inv fl a e cfg n D" and i: "i < n" "dm_clients D ! i = Calling j" and d: "job_done (es_jobs (dm_service D) j)"
    and e: "Dispatch_end j (dm_service D) = (events, s')"
    and possible: "impossible_reason cfg (ToEngineRequest fl (demo_request i)) = None"
  shows "demo_inv fl a e cfg n (D\<lparr>dm_service := s', dm_clients := (dm_clients D)[i := client_end a e i events]\<rparr>)"
proof -
  let ?s = "dm_service D"
  have s': "s' = ?s\<lparr>es_handlers := removeAll j (es_handlers ?s)\<rparr>" and ev: "events = WriteProgress (es_jobs ?s j)"
    using e d by (auto simp: Dispatch_end_def)
  have "answered fl cfg i (es_jobs ?s j)" using demo_invD(9) [OF inv i] d by simp
  then have "succeeded (job_result (es_jobs ?s j))"
    using possible by (simp add: answered_def result_outcome_def request_outcome_def split: if_splits)
  then have c: "client_end a e i events = Returned True"
    using scan_WriteProgress [of "[]" "es_jobs ?s j"] by (simp add: client_end_def DispatchOne_def ev)
  define cs where "cs = (dm_clients D)[i := Returned True]"
  have cs_nth: "cs ! i' = (if i' = i then Returned True else dm_clients D ! i')" if "i' < n" for i'
    using that i(1) demo_invD(5) [OF inv] by (simp add: cs_def)
  have same: "cs ! i' = NotCalled \<longleftrightarrow> dm_clients D ! i' = NotCalled" if "i' < n" for i'
    using cs_nth [OF that] i(2) by auto
  have f1: "service_inv (dm_phase D, s')" using demo_invD(1) [OF inv] by (rule service_inv_frame) (simp_all add: s')
  have f6: "map_of (es_request_attempts s') (demo_id i') = (if cs ! i' = NotCalled then None else Some a)" if "i' < n" for i'
    using demo_invD(6) [OF inv that] same [OF that] by (simp add: s')
  have f7: "map_of (es_partition_epochs s') 0 = (if \<forall>i < n. cs ! i = NotCalled then None else Some e)"
    using demo_invD(7) [OF inv] same by (simp add: s')
  have f8: "\<exists>i' < n. cs ! i' \<noteq> NotCalled \<and> job_dispatch (es_jobs s' j) = demo_dispatch i' a e" if "j \<in> set (in_flight s')" for j
    using demo_invD(8) [OF inv, of j] that same by (auto simp: s')
  have f9: "job_dispatch (es_jobs s' j) = demo_dispatch i' a e \<and> j < es_next_job s' \<and> \<not> job_superseded (es_jobs s' j) \<and>
      (if job_done (es_jobs s' j) then answered fl cfg i' (es_jobs s' j) else j \<in> set (in_flight s'))"
    if "i' < n" and "cs ! i' = Calling j" for i' j
    using demo_invD(9) [OF inv that(1), of j] that(2) cs_nth [OF that(1)] by (simp add: s' split: if_splits)
  have f10: "b" if "i' < n" "cs ! i' = Returned b" for i' b
    using that cs_nth [OF that(1)] demo_invD(10) [OF inv that(1)] by (simp split: if_splits)
  have f11: "job_done (es_jobs s' j)" if "dm_phase D = Ran" "j \<in> set (es_batch s')" for j
    using demo_invD(11) [OF inv that(1), of j] that(2) by (simp add: s')
  have "ce_config (es_engine s') = cfg" "\<not> es_draining s'" "n \<le> es_queue_capacity s'" "length cs = n"
    using demo_invD(2-5) [OF inv] by (simp_all add: s' cs_def)
  from demo_okI [where cs = cs, OF f1 this f6 f7 f8 f9 f10 f11] show ?thesis by (simp add: demo_inv_def cs_def c)
qed

text \<open>Steps that leave the threads and the fences alone, and the jobs that exist up to their progress.\<close>

lemma demo_worker_inv:
  assumes inv: "demo_inv fl a e cfg n D" and f1: "service_inv (ph, t)" and cfg: "ce_config (es_engine t) = cfg"
    and frame: "es_draining t = es_draining (dm_service D)" "es_queue_capacity t = es_queue_capacity (dm_service D)"
      "es_request_attempts t = es_request_attempts (dm_service D)" "es_partition_epochs t = es_partition_epochs (dm_service D)"
      "es_next_job (dm_service D) \<le> es_next_job t"
    and fl: "set (in_flight t) \<subseteq> set (in_flight (dm_service D))"
    and jobs: "\<And>j. j < es_next_job (dm_service D) \<Longrightarrow> job_dispatch (es_jobs t j) = job_dispatch (es_jobs (dm_service D) j) \<and>
      job_superseded (es_jobs t j) = job_superseded (es_jobs (dm_service D) j)"
    and progress: "\<And>i j. i < n \<Longrightarrow> dm_clients D ! i = Calling j \<Longrightarrow>
      if job_done (es_jobs t j) then answered fl cfg i (es_jobs t j) else j \<in> set (in_flight t)"
    and f11: "\<And>j. ph = Ran \<Longrightarrow> j \<in> set (es_batch t) \<Longrightarrow> job_done (es_jobs t j)"
  shows "demo_inv fl a e cfg n (D\<lparr>dm_phase := ph, dm_service := t\<rparr>)"
proof -
  have f8: "\<exists>i < n. dm_clients D ! i \<noteq> NotCalled \<and> job_dispatch (es_jobs t j) = demo_dispatch i a e" if "j \<in> set (in_flight t)" for j
    using demo_invD(8) [OF inv subsetD [OF fl that]] jobs [OF demo_in_flight_old [OF inv subsetD [OF fl that]]] by simp
  have f9: "job_dispatch (es_jobs t j) = demo_dispatch i a e \<and> j < es_next_job t \<and> \<not> job_superseded (es_jobs t j) \<and>
      (if job_done (es_jobs t j) then answered fl cfg i (es_jobs t j) else j \<in> set (in_flight t))"
    if "i < n" and "dm_clients D ! i = Calling j" for i j
    using demo_invD(9) [OF inv that] jobs [of j] progress [OF that] frame(5) by simp
  note keep = demo_invD(3,4) [OF inv, folded frame(1,2)] demo_invD(5) [OF inv] demo_invD(6) [OF inv, folded frame(3)]
    demo_invD(7) [OF inv, folded frame(4)]
  have "demo_ok fl a e cfg n ph t (dm_clients D)"
    by (rule demo_okI [OF f1 cfg keep f8 f9 demo_invD(10) [OF inv] f11])
  then show ?thesis by (simp add: demo_inv_def)
qed

lemma worker_run_frame:
  assumes run: "worker_run fl s = Some t" and d: "distinct (es_batch s)"
  shows "es_queue t = es_queue s" "es_batch t = es_batch s" "es_draining t = es_draining s" "es_queue_capacity t = es_queue_capacity s"
    "es_request_attempts t = es_request_attempts s" "es_partition_epochs t = es_partition_epochs s" "es_next_job t = es_next_job s"
    "j \<notin> set (es_batch s) \<Longrightarrow> es_jobs t j = es_jobs s j"
  using run fold_finish_jobs [OF d] by (auto simp: worker_run_def Let_def split: option.splits)

lemma demo_take_inv:
  assumes inv: "demo_inv fl a e cfg n D" and w: "dm_phase D = Waiting"
  shows "demo_inv fl a e cfg n (D\<lparr>dm_phase := Taken, dm_service := worker_take (dm_service D)\<rparr>)"
proof (rule demo_worker_inv [OF inv])
  have i: "service_inv (Waiting, dm_service D)" using demo_invD(1) [OF inv] w by simp
  then have none: "es_batch (dm_service D) = []" by (simp add: service_inv_def)
  show "service_inv (Taken, worker_take (dm_service D))" by (rule worker_take_inv [OF i])
  show "if job_done (es_jobs (worker_take (dm_service D)) j) then answered fl cfg i (es_jobs (worker_take (dm_service D)) j)
      else j \<in> set (in_flight (worker_take (dm_service D)))" if "i < n" "dm_clients D ! i = Calling j" for i j
    using demo_invD(9) [OF inv that] none by (auto simp: worker_take_def split: if_splits)
qed (use demo_invD(2) [OF inv] in \<open>auto simp: worker_take_def\<close>)

lemma demo_run_inv:
  assumes inv: "demo_inv fl a e cfg n D" and ph: "dm_phase D = Taken" and run: "worker_run fl (dm_service D) = Some t"
  shows "demo_inv fl a e cfg n (D\<lparr>dm_phase := Ran, dm_service := t\<rparr>)"
proof (rule demo_worker_inv [OF inv])
  let ?s = "dm_service D"
  have i: "service_inv (Taken, ?s)" using demo_invD(1) [OF inv] ph by simp
  have cfg: "ce_config (es_engine ?s) = cfg" by (rule demo_invD(2) [OF inv])
  have d: "distinct (es_batch ?s)" using i by (simp add: service_inv_def jobs_ok_def)
  note fr = worker_run_frame [OF run d]
  from worker_run_spec [OF i, of fl] run have spec: "service_inv (Taken, t)" "ce_config (es_engine t) = ce_config (es_engine ?s)"
    "\<And>j. j \<in> set (es_batch ?s) \<Longrightarrow> job_done (es_jobs t j) \<and> job_superseded (es_jobs t j) = job_superseded (es_jobs ?s j) \<and>
      job_dispatch (es_jobs t j) = job_dispatch (es_jobs ?s j) \<and>
      (\<exists>x. result_outcome x = request_outcome (ce_config (es_engine ?s)) (ToEngineRequest fl (dr_request (job_dispatch (es_jobs ?s j)))) \<and>
        job_result (es_jobs t j) = (if job_superseded (es_jobs ?s j)
          then x\<lparr>succeeded := False, failure_reason := ''superseded''\<rparr> else x))" by auto
  show "service_inv (Ran, t)" using spec(1) by (simp add: service_inv_def)
  show "ce_config (es_engine t) = cfg" using spec(2) cfg by simp
  show "job_dispatch (es_jobs t j) = job_dispatch (es_jobs ?s j) \<and> job_superseded (es_jobs t j) = job_superseded (es_jobs ?s j)" for j
    using spec(3) [of j] fr(8) [of j] by (cases "j \<in> set (es_batch ?s)") auto
  show "job_done (es_jobs t j)" if "j \<in> set (es_batch t)" for j using spec(3) that fr(2) by simp
  show "if job_done (es_jobs t j) then answered fl cfg i (es_jobs t j) else j \<in> set (in_flight t)"
    if c: "i < n" "dm_clients D ! i = Calling j" for i j
  proof (cases "j \<in> set (es_batch ?s)")
    case False
    then show ?thesis using demo_invD(9) [OF inv c] fr(1,2,8) by (auto split: if_splits)
  next
    case True
    then show ?thesis using demo_invD(9) [OF inv c] spec(3) [OF True] cfg
      by (auto simp: answered_def demo_dispatch_def)
  qed
  show "set (in_flight t) \<subseteq> set (in_flight ?s)" using fr(1,2) by simp
qed (use worker_run_frame [OF run] demo_invD(1) [OF inv] in \<open>simp_all add: service_inv_def jobs_ok_def\<close>)

lemma demo_finish_inv:
  assumes inv: "demo_inv fl a e cfg n D" and ph: "dm_phase D = Ran"
  shows "demo_inv fl a e cfg n (D\<lparr>dm_phase := Waiting, dm_service := worker_finish (dm_service D)\<rparr>)"
proof (rule demo_worker_inv [OF inv])
  have "service_inv (Ran, dm_service D)" using demo_invD(1) [OF inv] ph by simp
  then show "service_inv (Waiting, worker_finish (dm_service D))" by (rule worker_finish_inv)
  show "if job_done (es_jobs (worker_finish (dm_service D)) j) then answered fl cfg i (es_jobs (worker_finish (dm_service D)) j)
      else j \<in> set (in_flight (worker_finish (dm_service D)))" if "i < n" "dm_clients D ! i = Calling j" for i j
    using demo_invD(9) [OF inv that] demo_invD(11) [OF inv ph, of j] by (auto simp: worker_finish_def)
qed (use demo_invD(2) [OF inv] in \<open>auto simp: worker_finish_def\<close>)

section \<open>Every run ends, and ends well\<close>

definition phase_load :: "phase \<Rightarrow> nat" where
  "phase_load ph = (case ph of Waiting \<Rightarrow> 0 | Taken \<Rightarrow> 2 | Ran \<Rightarrow> 1)"

definition client_load :: "DemoClient \<Rightarrow> nat" where
  "client_load c = (case c of NotCalled \<Rightarrow> 10 | Calling _ \<Rightarrow> 5 | Returned _ \<Rightarrow> 0)"

definition demo_load :: "DemoSystem \<Rightarrow> nat" where
  "demo_load D = sum_list (map client_load (dm_clients D)) + 3 * length (es_queue (dm_service D)) + phase_load (dm_phase D)"

lemma client_load_update:
  assumes "i < length cs" and "client_load c < client_load (cs ! i)"
  shows "sum_list (map client_load (cs[i := c])) + (client_load (cs ! i) - client_load c) = sum_list (map client_load cs)"
proof -
  have "client_load (cs ! i) \<le> sum_list (map client_load cs)" using elem_le_sum_list [of i "map client_load cs"] assms(1) by simp
  then show ?thesis using assms by (simp add: map_update sum_list_update)
qed

lemma demo_step_progress:
  assumes step: "demo_step fl a e D D'" and inv: "demo_inv fl a e cfg n D"
    and possible: "\<And>i. i < n \<Longrightarrow> impossible_reason cfg (ToEngineRequest fl (demo_request i)) = None"
  shows "demo_inv fl a e cfg n D' \<and> demo_load D' < demo_load D"
  using step
proof cases
  case (call i ack s')
  have i: "i < n" using call(2) demo_invD(5) [OF inv] by simp
  have s': "ack = Ack ACCEPTED []" "length (es_queue s') = Suc (length (es_queue (dm_service D)))"
    using demo_call_accepted [OF inv i call(3)] call(4) by auto
  have "client_load (client_begin a e i (es_next_job (dm_service D)) ack) = 5" "client_load (dm_clients D ! i) = 10"
    using call(3) s'(1) by (simp_all add: client_load_def client_begin_def)
  with client_load_update [OF call(2), of "client_begin a e i (es_next_job (dm_service D)) ack"] s'(2)
  have "demo_load D' < demo_load D" by (simp add: call(1) demo_load_def)
  then show ?thesis using demo_call_inv [OF inv i call(3,4)] call(1) by simp
next
  case (answer i j events s')
  have i: "i < n" using answer(2) demo_invD(5) [OF inv] by simp
  have q: "es_queue s' = es_queue (dm_service D)" using answer(5) by (auto simp: Dispatch_end_def)
  have "client_load (client_end a e i events) = 0" "client_load (dm_clients D ! i) = 5"
    using answer(3) by (simp_all add: client_load_def client_end_def)
  with client_load_update [OF answer(2), of "client_end a e i events"] q
  have "demo_load D' < demo_load D" by (simp add: answer(1) demo_load_def)
  then show ?thesis using demo_answer_inv [OF inv i answer(3-5) possible [OF i]] answer(1) by simp
next
  case take
  then have "demo_load D' < demo_load D"
    by (cases "es_queue (dm_service D)") (simp_all add: demo_load_def phase_load_def worker_take_def)
  then show ?thesis using demo_take_inv [OF inv take(2)] take(1) by simp
next
  case (run t)
  have "distinct (es_batch (dm_service D))" using demo_invD(1) [OF inv] by (simp add: service_inv_def jobs_ok_def)
  then have "demo_load D' < demo_load D"
    using worker_run_frame(1) [OF run(3)] run(2) by (simp add: run(1) demo_load_def phase_load_def)
  then show ?thesis using demo_run_inv [OF inv run(2,3)] run(1) by simp
next
  case finish
  then have "demo_load D' < demo_load D" by (simp add: demo_load_def phase_load_def worker_finish_def)
  then show ?thesis using demo_finish_inv [OF inv finish(2)] finish(1) by simp
qed

text \<open>When nothing can move, every thread has its result and the engine is idle.\<close>

lemma demo_stuck:
  assumes inv: "demo_inv fl a e cfg n D" and stuck: "\<And>D'. \<not> demo_step fl a e D D'"
  shows "dm_clients D = replicate n (Returned True)" "es_queue (dm_service D) = []" "es_batch (dm_service D) = []"
proof -
  let ?s = "dm_service D"
  have len: "length (dm_clients D) = n" by (rule demo_invD(5) [OF inv])
  have ph: "dm_phase D = Waiting"
  proof (cases "dm_phase D")
    case Taken
    then obtain t where "worker_run fl ?s = Some t" using worker_run_spec [of Taken ?s fl] demo_invD(1) [OF inv] by auto
    with demo_step.run [OF Taken] stuck show ?thesis by blast
  next
    case Ran
    with demo_step.finish stuck show ?thesis by blast
  qed
  then show q: "es_queue ?s = []" using demo_step.take [of D fl] stuck by blast
  show b: "es_batch ?s = []" using demo_invD(1) [OF inv] ph by (simp add: service_inv_def)
  have "dm_clients D ! i = Returned True" if i: "i < n" for i
  proof (cases "dm_clients D ! i")
    case NotCalled
    obtain ack s' where "Dispatch_begin (demo_dispatch i a e) ?s = (ack, s')" by fastforce
    with demo_step.call [of i D] i len NotCalled stuck show ?thesis by blast
  next
    case (Calling j)
    obtain ev s' where e: "Dispatch_end j ?s = (ev, s')" by fastforce
    have "job_done (es_jobs ?s j)" using demo_invD(9) [OF inv i Calling] q b by (simp split: if_splits)
    with demo_step.answer [of i D j ev s'] i len Calling e stuck show ?thesis by blast
  next
    case (Returned b)
    then show ?thesis using demo_invD(10) [OF inv i Returned] by simp
  qed
  then show "dm_clients D = replicate n (Returned True)" using len by (intro nth_equalityI) simp_all
qed

lemma rejected_call_stale:
  assumes "\<not> es_draining s" and e: "map_of (es_partition_epochs s) 0 = Some 1"
    and "epoch = 0 \<or> epoch = 1 \<and> map_of (es_request_attempts s) (demo_id index) = Some 1"
  shows "\<exists>s'. rejected_call index 1 epoch s = (True, s') \<and> \<not> es_draining s' \<and> map_of (es_partition_epochs s') 0 = Some 1 \<and>
    es_queue s' = es_queue s \<and> es_running_jobs s' = es_running_jobs s"
  using assms
  by (auto simp: rejected_call_def Dispatch_begin_def ValidateAndReserve_def Let_def demo_dispatch_def DispatchOne_def update_conv')

lemma demo_joined_checks:
  assumes inv: "demo_inv fl 1 1 cfg n D" and n: "0 < n" and joined: "all_joined D"
  shows "\<exists>s. demo_checks n D = (True, s) \<and> es_queue s = es_queue (dm_service D) \<and> es_running_jobs s = es_running_jobs (dm_service D)"
proof -
  let ?s = "dm_service D"
  have len: "length (dm_clients D) = n" by (rule demo_invD(5) [OF inv])
  have "dm_clients D ! i = Returned True" if "i < n" for i
  proof -
    have "dm_clients D ! i \<in> set (dm_clients D)" using that len by simp
    with joined have "case dm_clients D ! i of Returned _ \<Rightarrow> True | _ \<Rightarrow> False" unfolding all_joined_def by blast
    then obtain b where "dm_clients D ! i = Returned b" by (cases "dm_clients D ! i") auto
    with demo_invD(10) [OF inv that this] show ?thesis by simp
  qed
  then have cs: "dm_clients D = replicate n (Returned True)" using len by (intro nth_equalityI) simp_all
  then have a: "map_of (es_request_attempts ?s) (demo_id 0) = Some 1" and e: "map_of (es_partition_epochs ?s) 0 = Some 1"
    using demo_invD(6) [OF inv n] demo_invD(7) [OF inv] n by auto
  from rejected_call_stale [OF demo_invD(3) [OF inv] e, of 1 0] a obtain s1 where s1: "rejected_call 0 1 1 ?s = (True, s1)"
    "\<not> es_draining s1" "map_of (es_partition_epochs s1) 0 = Some 1" "es_queue s1 = es_queue ?s" "es_running_jobs s1 = es_running_jobs ?s"
    by blast
  from rejected_call_stale [OF s1(2,3), of 0 "n + 1"] s1(4,5) obtain s2 where "rejected_call (n + 1) 1 0 s1 = (True, s2)"
    "es_queue s2 = es_queue ?s" "es_running_jobs s2 = es_running_jobs ?s" by auto
  with s1(1) cs show ?thesis by (simp add: demo_checks_def)
qed

lemma demo_final:
  assumes inv: "demo_inv fl 1 1 cfg n D" and n: "0 < n" and stuck: "\<And>D'. \<not> demo_step fl 1 1 D D'"
  shows "all_joined D \<and> Drain_returns (Drain_begin (snd (demo_checks n D)))"
proof -
  note d = demo_stuck [OF inv stuck]
  have j: "all_joined D" using d(1) by (simp add: all_joined_def)
  moreover have "es_running_jobs (dm_service D) = 0" using demo_invD(1) [OF inv] d(3) by (simp add: service_inv_def)
  ultimately show ?thesis using demo_joined_checks [OF inv n j] d(2) by (auto simp: Drain_begin_def Drain_returns_def)
qed

lemma demo_reachable:
  assumes "(demo_step fl a e)\<^sup>*\<^sup>* D0 D" and "demo_inv fl a e cfg n D0"
    and "\<And>i. i < n \<Longrightarrow> impossible_reason cfg (ToEngineRequest fl (demo_request i)) = None"
  shows "demo_inv fl a e cfg n D"
  using assms(1,2)
proof (induction rule: rtranclp_induct)
  case (step D D')
  then show ?case using demo_step_progress [OF step.hyps(2)] assms(3) by blast
qed

lemma demo_start_inv:
  assumes "MakeEngineService draw cfg capacity = Inr s0" and "small_config cfg" and "n \<le> capacity"
  shows "demo_inv fl a e cfg n (demo_start n s0)"
proof -
  have s0: "\<not> es_draining s0" "es_queue_capacity s0 = capacity" "es_request_attempts s0 = []" "es_partition_epochs s0 = []"
    "es_queue s0 = []" "es_batch s0 = []"
    using assms(1) by (auto simp: MakeEngineService_def split: sum.splits)
  with MakeEngineService_start [OF assms(1,2)] assms(3) show ?thesis
    by (simp add: demo_inv_def demo_ok_def demo_start_def)
qed

lemma engine_main_possible: "impossible_reason engine_main_config (ToEngineRequest fl (demo_request i)) = None"
proof -
  have m: "i mod 16 \<le> 15" by (simp flip: less_Suc_eq_le)
  have "BlocksForTokens (16 + i mod 16 + 4) 16 \<le> 16 + i mod 16 + 4" by (rule BlocksForTokens_bounds) simp
  with m show ?thesis
    by (simp add: impossible_reason_def ToEngineRequest_def demo_request_def engine_main_config_def default_config_def)
qed

section \<open>A retry that overlaps\<close>

lemma rejected_call_in_flight:
  assumes "live_ok s" and "j \<in> set (in_flight s)" and "job_rid s j = demo_id i" and epoch: "map_of (es_partition_epochs s) 0 = Some e"
  shows "\<exists>hs. rejected_call i a' e s = (True, s\<lparr>es_jobs := (es_jobs s)(es_next_job s := fresh_job (demo_dispatch i a' e)),
    es_next_job := Suc (es_next_job s), es_handlers := hs\<rparr>)"
proof -
  have live: "map_of (es_live_jobs s) (demo_id i) = Some j" using assms(1-3) by (simp add: live_ok_map_of)
  have "AList.update 0 e (es_partition_epochs s) = es_partition_epochs s" using epoch by (rule update_triv)
  with live epoch assms(2) show ?thesis
    by (auto simp: rejected_call_def Dispatch_begin_def ValidateAndReserve_def Let_def demo_dispatch_def DispatchOne_def expired_def)
qed

lemma demo_retry:
  assumes inv: "demo_inv fl a e cfg n D" and i: "i < n" "dm_clients D ! i = Calling j" and run: "\<not> job_done (es_jobs (dm_service D) j)"
  obtains s' where "rejected_call i a' e (dm_service D) = (True, s')" "demo_inv fl a e cfg n (D\<lparr>dm_service := s'\<rparr>)"
proof -
  let ?s = "dm_service D"
  have live: "live_ok ?s" using demo_invD(1) [OF inv] by (simp add: service_inv_def)
  have j: "j \<in> set (in_flight ?s)" "job_rid ?s j = demo_id i"
    using demo_invD(9) [OF inv i] run by (simp_all add: demo_dispatch_def)
  have "map_of (es_partition_epochs ?s) 0 = Some e" using demo_invD(7) [OF inv] i by (auto split: if_splits)
  from rejected_call_in_flight [OF live j this, of a'] obtain hs where c: "rejected_call i a' e ?s =
      (True, ?s\<lparr>es_jobs := (es_jobs ?s)(es_next_job ?s := fresh_job (demo_dispatch i a' e)), es_next_job := Suc (es_next_job ?s), es_handlers := hs\<rparr>)"
    by blast
  let ?s' = "?s\<lparr>es_jobs := (es_jobs ?s)(es_next_job ?s := fresh_job (demo_dispatch i a' e)), es_next_job := Suc (es_next_job ?s), es_handlers := hs\<rparr>"
  have "?s' = snd (Dispatch_begin (demo_dispatch i a' e) ?s)" using c by (auto simp: rejected_call_def split: prod.splits)
  then have f1: "service_inv (dm_phase D, ?s')"
    using Dispatch_begin_inv [OF demo_invD(1) [OF inv] demo_dispatch_ok, of i a' e] by simp
  have "demo_inv fl a e cfg n (D\<lparr>dm_phase := dm_phase D, dm_service := ?s'\<rparr>)"
  proof (rule demo_worker_inv [OF inv f1])
    show "if job_done (es_jobs ?s' j') then answered fl cfg i' (es_jobs ?s' j') else j' \<in> set (in_flight ?s')"
      if "i' < n" "dm_clients D ! i' = Calling j'" for i' j' using demo_invD(9) [OF inv that] by (auto split: if_splits)
    show "job_done (es_jobs ?s' j')" if "dm_phase D = Ran" "j' \<in> set (es_batch ?s')" for j'
      using demo_invD(11) [OF inv that(1), of j'] demo_in_flight_old [OF inv, of j'] that(2) by simp
  qed (use demo_invD(2) [OF inv] in simp_all)
  with c show ?thesis by (intro that) simp_all
qed

lemma demo_drained:
  assumes inv: "demo_inv fl a e cfg n D" and stuck: "\<And>D'. \<not> demo_step fl a e D D'"
  shows "dm_clients D = replicate n (Returned True)" "Drain_returns (Drain_begin (dm_service D))"
proof -
  note d = demo_stuck [OF inv stuck]
  have "es_running_jobs (dm_service D) = 0" using demo_invD(1) [OF inv] d(3) by (simp add: service_inv_def)
  with d show "dm_clients D = replicate n (Returned True)" "Drain_returns (Drain_begin (dm_service D))"
    by (simp_all add: Drain_begin_def Drain_returns_def)
qed

lemma demo_terminates:
  assumes "demo_inv fl a e cfg n D" and "\<And>i. i < n \<Longrightarrow> impossible_reason cfg (ToEngineRequest fl (demo_request i)) = None"
  shows "\<exists>D'. (demo_step fl a e)\<^sup>*\<^sup>* D D' \<and> demo_inv fl a e cfg n D' \<and> (\<nexists>E. demo_step fl a e D' E)"
  using assms(1)
proof (induction "demo_load D" arbitrary: D rule: less_induct)
  case less
  show ?case
  proof (cases "\<exists>E. demo_step fl a e D E")
    case True
    then obtain E where E: "demo_step fl a e D E" by blast
    from demo_step_progress [OF E less.prems assms(2)] less.hyps [of E]
    obtain D' where "(demo_step fl a e)\<^sup>*\<^sup>* E D'" "demo_inv fl a e cfg n D'" "\<nexists>E. demo_step fl a e D' E" by blast
    with E show ?thesis by (meson converse_rtranclp_into_rtranclp)
  qed (use less.prems in blast)
qed

lemma engine_main_demo:
  assumes "engine_main_service draw = Inr s0" and "n \<le> 1024"
  shows "demo_inv fl a e engine_main_config n (demo_start n s0)"
proof -
  have "small_config engine_main_config" by (simp add: small_config_def engine_main_config_def default_config_def)
  from demo_start_inv [OF assms(1) [unfolded engine_main_service_def] this assms(2)] show ?thesis .
qed

text \<open>The checks of \<open>main\<close> with \<open>--overlapping-retry-demo\<close> and with \<open>--retry-demo\<close>.\<close>

definition overlap_checks :: "bool \<Rightarrow> DemoSystem \<Rightarrow> bool" where
  "overlap_checks overlapping_retry_rejected D \<longleftrightarrow> dm_clients D ! 0 = Returned True \<and> overlapping_retry_rejected \<and>
     Drain_returns (Drain_begin (dm_service D))"

definition retry_checks :: "DispatchEvent list \<times> bool \<Rightarrow> EngineRecord option \<Rightarrow> DemoSystem \<Rightarrow> bool" where
  "retry_checks first replacement D =
     (let first_attempt_failed = (\<not> DispatchOne (\<lambda>d. first) 0 1 1 False);
          (retry_completed, drained) = (case replacement of None \<Rightarrow> (False, False)
            | Some r \<Rightarrow> (dm_clients D ! 0 = Returned True, Drain_returns (Drain_begin (dm_service D))))
      in first_attempt_failed \<and> retry_completed \<and> drained)"

text \<open>
  A retry that overlaps with the attempt it repeats is rejected and does no harm. If the second attempt of
  the demonstration reaches the engine while the first one is queued or running, it is rejected; the first
  one goes on, every later step brings it closer to its end, and when nothing can move any more all
  checks of the demonstration hold.
\<close>

theorem overlapping_retry_passes:
  assumes make: "engine_main_service draw = Inr s0" and reach: "(demo_step fl 1 1)\<^sup>*\<^sup>* (demo_start 1 s0) D1"
    and during: "dm_clients D1 ! 0 = Calling j" "\<not> job_done (es_jobs (dm_service D1) j)"
    and retry: "rejected_call 0 2 1 (dm_service D1) = (rejected, s')" and rest: "(demo_step fl 1 1)\<^sup>*\<^sup>* (D1\<lparr>dm_service := s'\<rparr>) D"
  shows "rejected \<and> (\<forall>D'. demo_step fl 1 1 D D' \<longrightarrow> demo_load D' < demo_load D) \<and>
    ((\<nexists>D'. demo_step fl 1 1 D D') \<longrightarrow> overlap_checks rejected D)"
proof -
  have inv1: "demo_inv fl 1 1 engine_main_config 1 D1"
    using demo_reachable [OF reach engine_main_demo [OF make]] engine_main_possible by simp
  obtain s'' where s'': "rejected_call 0 2 1 (dm_service D1) = (True, s'')" "demo_inv fl 1 1 engine_main_config 1 (D1\<lparr>dm_service := s''\<rparr>)"
    by (rule demo_retry [OF inv1 _ during]) simp
  then have r: "rejected" "s'' = s'" using retry by simp_all
  have inv: "demo_inv fl 1 1 engine_main_config 1 D"
    using demo_reachable [OF rest] s''(2) r(2) engine_main_possible by blast
  show ?thesis using r(1) demo_step_progress [OF _ inv] engine_main_possible demo_drained [OF inv]
    by (auto simp: overlap_checks_def)
qed

lemma engine_main_service_starts: "\<exists>s0. engine_main_service no_jitter = Inr s0"
  by (simp add: engine_main_service_def MakeEngineService_def engine_main_config_def default_config_def default_cost_def
      MakeContinuousEngine_def MakeCostModel_def MakePagedKvCache_def MakeRadixPrefixCache_def MakeResultCache_def)

theorem overlapping_retry_passes_witness:
  "\<exists>s0 D1 s'. engine_main_service no_jitter = Inr s0 \<and> (demo_step id 1 1)\<^sup>*\<^sup>* (demo_start 1 s0) D1 \<and>
     rejected_call 0 2 1 (dm_service D1) = (True, s')"
proof -
  obtain s0 where s0: "engine_main_service no_jitter = Inr s0" using engine_main_service_starts by blast
  let ?D = "demo_start 1 s0"
  have inv: "demo_inv id 1 1 engine_main_config 1 ?D" using engine_main_demo [OF s0] by simp
  have c: "0 < length (dm_clients ?D)" "dm_clients ?D ! 0 = NotCalled" by (simp_all add: demo_start_def)
  from demo_call_accepted [OF inv _ c(2)] obtain s1 where s1: "Dispatch_begin (demo_dispatch 0 1 1) (dm_service ?D) = (Ack ACCEPTED [], s1)"
    "\<not> job_done (es_jobs s1 (es_next_job (dm_service ?D)))" by (simp add: fresh_job_def)
  define D1 where "D1 = ?D\<lparr>dm_service := s1, dm_clients := (dm_clients ?D)[0 := client_begin 1 1 0 (es_next_job (dm_service ?D)) (Ack ACCEPTED [])]\<rparr>"
  have step: "(demo_step id 1 1)\<^sup>*\<^sup>* ?D D1" using demo_step.call [OF c s1(1)] by (auto simp: D1_def)
  have d: "dm_clients D1 ! 0 = Calling (es_next_job (dm_service ?D))" "\<not> job_done (es_jobs (dm_service D1) (es_next_job (dm_service ?D)))"
    using s1(2) c(1) by (simp_all add: D1_def client_begin_def)
  obtain rejected s' where r: "rejected_call 0 2 1 (dm_service D1) = (rejected, s')" by fastforce
  from overlapping_retry_passes [OF s0 step d r rtranclp.rtrancl_refl] have "rejected" by blast
  with r have "rejected_call 0 2 1 (dm_service D1) = (True, s')" by simp
  with s0 step show ?thesis by blast
qed

text \<open>
  The retry after a crash: when the call on the first engine broke off and a new incarnation has registered,
  the second attempt under the next epoch always completes on the fresh engine.
\<close>

theorem retry_after_crash_passes:
  assumes make: "engine_main_service draw = Inr s0" and reach: "(demo_step fl 2 2)\<^sup>*\<^sup>* (demo_start 1 s0) D" and broken: "\<not> snd first"
  shows "(\<forall>D'. demo_step fl 2 2 D D' \<longrightarrow> demo_load D' < demo_load D) \<and>
    ((\<nexists>D'. demo_step fl 2 2 D D') \<longrightarrow> retry_checks first (Some r) D)"
proof -
  have inv: "demo_inv fl 2 2 engine_main_config 1 D"
    using demo_reachable [OF reach engine_main_demo [OF make]] engine_main_possible by simp
  show ?thesis using demo_step_progress [OF _ inv] engine_main_possible demo_drained [OF inv] broken
    by (auto simp: retry_checks_def DispatchOne_def split: prod.splits)
qed

section \<open>The normal run\<close>

text \<open>
  The demonstration of the router against the engine program always ends and always succeeds. For up
  to 1024 requests (the capacity of the engine's queue), whatever the interleaving of the client threads
  and the worker: every step brings the run closer to its end; as soon as all threads have returned, every
  \<open>DispatchOne\<close> has returned true, and the repeated attempt and the old ownership epoch are rejected; and
  when nothing can move any more, all threads have returned and the drain returns, so \<open>main\<close> exits with
  success.
\<close>

theorem router_demo_passes:
  assumes make: "engine_main_service draw = Inr s0" and n: "0 < n" "n \<le> 1024"
    and reach: "(demo_step fl 1 1)\<^sup>*\<^sup>* (demo_start n s0) D"
  shows "(\<forall>D'. demo_step fl 1 1 D D' \<longrightarrow> demo_load D' < demo_load D) \<and> (all_joined D \<longrightarrow> fst (demo_checks n D)) \<and>
    ((\<nexists>D'. demo_step fl 1 1 D D') \<longrightarrow> all_joined D \<and> Drain_returns (Drain_begin (snd (demo_checks n D))))"
proof -
  have inv: "demo_inv fl 1 1 engine_main_config n D"
    using demo_reachable [OF reach engine_main_demo [OF make n(2)]] engine_main_possible by simp
  have "all_joined D \<Longrightarrow> fst (demo_checks n D)" using demo_joined_checks [OF inv n(1)] by auto
  then show ?thesis using demo_step_progress [OF _ inv] engine_main_possible demo_final [OF inv n(1)] by blast
qed

text \<open>The demonstration with one request, from the first call to the end.\<close>

theorem router_demo_passes_witness:
  "\<exists>s0 D. engine_main_service no_jitter = Inr s0 \<and> (demo_step id 1 1)\<^sup>*\<^sup>* (demo_start 1 s0) D \<and> fst (demo_checks 1 D) \<and>
     Drain_returns (Drain_begin (snd (demo_checks 1 D)))"
proof -
  obtain s0 where s0: "engine_main_service no_jitter = Inr s0" using engine_main_service_starts by blast
  have "demo_inv id 1 1 engine_main_config 1 (demo_start 1 s0)" using engine_main_demo [OF s0] by simp
  from demo_terminates [OF this engine_main_possible] obtain D
    where D: "(demo_step id 1 1)\<^sup>*\<^sup>* (demo_start 1 s0) D" "\<nexists>E. demo_step id 1 1 D E" by blast
  with router_demo_passes [OF s0 _ _ D(1)] have "fst (demo_checks 1 D)" "Drain_returns (Drain_begin (snd (demo_checks 1 D)))" by simp_all
  with s0 D(1) show ?thesis by blast
qed

end
