(* ===== verification/RouterMains.thy ===== *)
theory RouterMains
  imports RouterScenarios
begin

text \<open>
  The \<open>main\<close> functions of \<open>cpp/src/engine_main.cpp\<close> and \<open>cpp/src/router_main.cpp\<close>: their arguments, the order of
  what they do, the line they print and the exit status. Whether a server could be started, what the other process answers and
  which engine was found are parameters. \<open>router_main\<close> is a relation because its threads interleave.
\<close>

section \<open>\<open>engine_main.cpp\<close>\<close>

definition register_request :: "string list \<Rightarrow> EngineService \<Rightarrow> RegisterRequest" where
  "register_request args service = \<lparr>reg_engine_id = Argument args ''--engine-id'' ''engine-1'',
     reg_incarnation_id = Argument args ''--incarnation'' ''incarnation-1'', reg_models = [''benchmark-model''],
     reg_capacity = Capacity service, reg_endpoint = Argument args ''--listen'' ''127.0.0.1:50052''\<rparr>"

definition engine_main :: "draw \<Rightarrow> bool \<Rightarrow> (RegisterRequest \<Rightarrow> 'w \<Rightarrow> (bool \<times> RegisterReply) \<times> 'w) \<Rightarrow> string list \<Rightarrow> 'w \<Rightarrow>
    error + (ExitStatus \<times> 'w)" where
  "engine_main draw started stub args w =
     bind_result (stoll (Argument args ''--batch-delay-ms'' ''0'')) (\<lambda>delay.
     bind_result (engine_main_service draw) (\<lambda>service.
       if \<not> started then Inr (EXIT_FAILURE, w)
       else case register_loop stub (register_request args service) 100 w of
         (registered, w') \<Rightarrow> Inr (exit_unless (\<not> registered), w')))"

text \<open>
  An engine started with its default names next to a router that answers is registered at once, and the
  router's wait for an engine ends with it.
\<close>

lemma engine_main_registers:
  assumes "engine_main_service draw = Inr service" and "0 < ttl"
  obtains s' e where "engine_main draw True (\<lambda>r s. case Register now r s of (reply, s') \<Rightarrow> ((True, reply), s')) [] (MakeRouterService ttl) =
      Inr (EXIT_SUCCESS, s')"
    "fst (WaitForEngine (\<lambda>es. es) now wakes tmo s') = Some e" "er_endpoint e = ''127.0.0.1:50052''"
proof -
  have hundred: "(100 :: nat) = Suc 99" by simp
  have "stoll ''0'' = Inr 0" by code_simp
  moreover have "register_loop (\<lambda>r s. case Register now r s of (reply, s') \<Rightarrow> ((True, reply), s')) (register_request [] service) 100 (MakeRouterService ttl) =
      (True, snd (Register now (register_request [] service) (MakeRouterService ttl)))"
    by (subst hundred, subst register_loop.simps) (simp add: Register_def register_request_def)
  ultimately have m: "engine_main draw True (\<lambda>r s. case Register now r s of (reply, s') \<Rightarrow> ((True, reply), s')) [] (MakeRouterService ttl) =
      Inr (EXIT_SUCCESS, snd (Register now (register_request [] service) (MakeRouterService ttl)))"
    using assms(1) by (simp add: engine_main_def exit_unless_def)
  show ?thesis
    by (rule that [OF m, of "\<lparr>er_engine_id = ''engine-1'', er_incarnation_id = ''incarnation-1'', er_endpoint = ''127.0.0.1:50052'',
        er_capacity = Capacity service, er_last_heartbeat = now\<rparr>"])
      (cases wakes; simp add: assms(2) WaitForEngine_def has_live_engine_def PruneExpiredLocked_def lease_expired_def Register_def
        register_request_def MakeRouterService_def)+
qed

section \<open>\<open>router_main.cpp\<close>\<close>

text \<open>The lines of the three runs, and the file that tells a script that the retry demonstration is dispatching.\<close>

definition demo_line :: "nat \<Rightarrow> DemoSystem \<Rightarrow> bool \<Rightarrow> line" where
  "demo_line requests D drained =
     (let (stale_attempt_rejected, s1) = rejected_call 0 1 1 (dm_service D);
          (stale_epoch_rejected, s2) = rejected_call (requests + 1) 1 0 s1
      in [(''requests'', JNat requests), (''completed'', JNat (length (filter (\<lambda>c. c = Returned True) (dm_clients D)))),
          (''stale_attempt_rejected'', JBool stale_attempt_rejected), (''stale_epoch_rejected'', JBool stale_epoch_rejected),
          (''drained'', JBool drained)])"

definition overlap_line :: "bool \<Rightarrow> bool \<Rightarrow> bool \<Rightarrow> line" where
  "overlap_line first_completed overlapping_retry_rejected drained = [(''first_completed'', JBool first_completed),
     (''overlapping_retry_rejected'', JBool overlapping_retry_rejected), (''drained'', JBool drained)]"

definition retry_line :: "DispatchEvent list \<times> bool \<Rightarrow> EngineRecord option \<Rightarrow> DemoSystem \<Rightarrow> line" where
  "retry_line first replacement D =
     [(''first_attempt_failed'', JBool (\<not> DispatchOne (\<lambda>d. first) 0 1 1 False)),
      (''retry_completed'', JBool (replacement \<noteq> None \<and> dm_clients D ! 0 = Returned True)),
      (''drained'', JBool (replacement \<noteq> None \<and> Drain_returns (Drain_begin (dm_service D))))]"

definition dispatch_marker :: "(string \<Rightarrow> bool) \<Rightarrow> string list \<Rightarrow> string option" where
  "dispatch_marker opens args = (let marker = Argument args ''--dispatch-marker'' [] in
     if marker \<noteq> [] \<and> opens marker then Some (''dispatching'' @ [CHR 0x0A]) else None)"

text \<open>
  \<open>s0\<close> is the service of the engine that was found, \<open>first\<close> what the first call of the retry demonstration gave
  before that engine went away, \<open>s1\<close> the service of the replacement, and \<open>opens\<close> tells which files can be written. A run
  of the client threads ends with a state in which they have joined; \<open>Drain\<close> then lets the worker go on until
  nothing is in flight. A retry that is accepted makes the overlapping demonstration fail whatever follows. The result
  is an exception, or the exit status with the line printed and what was written to the marker file.
\<close>

inductive router_main :: "(rat \<Rightarrow> rat) \<Rightarrow> (string \<Rightarrow> bool) \<Rightarrow> EngineService \<Rightarrow> EngineService \<Rightarrow> DispatchEvent list \<times> bool \<Rightarrow> bool \<Rightarrow>
    EngineRecord option \<Rightarrow> EngineRecord option \<Rightarrow> string list \<Rightarrow> error + (ExitStatus \<times> line \<times> string option) \<Rightarrow> bool"
  for fl opens s0 s1 first started engine replacement where
  bad_number: "stoull (Argument args ''--requests'' ''32'') = Inl err \<Longrightarrow>
    router_main fl opens s0 s1 first started engine replacement args (Inl err)"
| no_engine: "stoull (Argument args ''--requests'' ''32'') = Inr n \<Longrightarrow> \<not> started \<or> engine = None \<Longrightarrow>
    router_main fl opens s0 s1 first started engine replacement args (Inr (EXIT_FAILURE, [], None))"
| overlapping: "stoull (Argument args ''--requests'' ''32'') = Inr n \<Longrightarrow> started \<Longrightarrow> engine \<noteq> None \<Longrightarrow>
    Argument args ''--overlapping-retry-demo'' ''false'' = ''true'' \<Longrightarrow>
    (demo_step fl 1 1)\<^sup>*\<^sup>* (demo_start 1 s0) D \<Longrightarrow> rejected_call 0 2 1 (dm_service D) = (True, s') \<Longrightarrow>
    (demo_step fl 1 1)\<^sup>*\<^sup>* (D\<lparr>dm_service := s'\<rparr>) E \<Longrightarrow> all_joined E \<Longrightarrow> Drain_returns (Drain_begin (dm_service E)) \<Longrightarrow>
    router_main fl opens s0 s1 first started engine replacement args (Inr (exit_unless (\<not> overlap_checks True E),
      overlap_line (dm_clients E ! 0 = Returned True) True True, None))"
| overlapping_late: "stoull (Argument args ''--requests'' ''32'') = Inr n \<Longrightarrow> started \<Longrightarrow> engine \<noteq> None \<Longrightarrow>
    Argument args ''--overlapping-retry-demo'' ''false'' = ''true'' \<Longrightarrow>
    (demo_step fl 1 1)\<^sup>*\<^sup>* (demo_start 1 s0) D \<Longrightarrow> rejected_call 0 2 1 (dm_service D) = (False, s') \<Longrightarrow>
    router_main fl opens s0 s1 first started engine replacement args (Inr (EXIT_FAILURE, overlap_line first_completed False drained, None))"
| retry: "stoull (Argument args ''--requests'' ''32'') = Inr n \<Longrightarrow> started \<Longrightarrow> engine \<noteq> None \<Longrightarrow>
    Argument args ''--overlapping-retry-demo'' ''false'' \<noteq> ''true'' \<Longrightarrow> Argument args ''--retry-demo'' ''false'' = ''true'' \<Longrightarrow>
    (demo_step fl 2 2)\<^sup>*\<^sup>* (demo_start 1 s1) D \<Longrightarrow> replacement = None \<or> all_joined D \<and> Drain_returns (Drain_begin (dm_service D)) \<Longrightarrow>
    router_main fl opens s0 s1 first started engine replacement args (Inr (exit_unless (\<not> retry_checks first replacement D),
      retry_line first replacement D, dispatch_marker opens args))"
| normal: "stoull (Argument args ''--requests'' ''32'') = Inr n \<Longrightarrow> started \<Longrightarrow> engine \<noteq> None \<Longrightarrow>
    Argument args ''--overlapping-retry-demo'' ''false'' \<noteq> ''true'' \<Longrightarrow> Argument args ''--retry-demo'' ''false'' \<noteq> ''true'' \<Longrightarrow>
    (demo_step fl 1 1)\<^sup>*\<^sup>* (demo_start n s0) D \<Longrightarrow> all_joined D \<Longrightarrow> demo_checks n D = (ok, s') \<Longrightarrow>
    (demo_step fl 1 1)\<^sup>*\<^sup>* (D\<lparr>dm_service := s'\<rparr>) E \<Longrightarrow> Drain_returns (Drain_begin (dm_service E)) \<Longrightarrow>
    router_main fl opens s0 s1 first started engine replacement args (Inr (exit_unless (\<not> ok), demo_line n D True, None))"

lemma demo_joined_drained:
  assumes inv: "demo_inv fl a e cfg 1 D" and "all_joined D"
  shows "dm_clients D ! 0 = Returned True"
proof -
  have len: "length (dm_clients D) = 1" by (rule demo_invD(5) [OF inv])
  then have "dm_clients D ! 0 \<in> set (dm_clients D)" by simp
  with assms(2) obtain b where b: "dm_clients D ! 0 = Returned b"
    unfolding all_joined_def by (cases "dm_clients D ! 0") fastforce+
  with demo_invD(10) [OF inv _ b] show ?thesis by simp
qed

lemma demo_checks_line:
  assumes "demo_checks n D = (True, s)"
  shows "demo_line n D drained = [(''requests'', JNat n), (''completed'', JNat n), (''stale_attempt_rejected'', JBool True),
    (''stale_epoch_rejected'', JBool True), (''drained'', JBool drained)]"
  using assms by (auto simp: demo_checks_def demo_line_def Let_def split: prod.splits)



end
