(* ===== verification/KafkaPollLoops.thy ===== *)
theory KafkaPollLoops
  imports KafkaPollers "HOL-Library.Sublist"
begin

text \<open>
  The poll thread of \<open>cpp/src/kafka_poller.cpp\<close> as a program: \<open>PollLoop\<close> with its program counter, the
  callbacks librdkafka makes while it consumes or closes, and the owner of the poller, who marks, pops,
  stops and starts again, interleaved in any order. Whether the consumer could be created, and what it
  delivers, is open. It is shown that a stopped poller has committed everything that was reported before
  \<open>Stop\<close> was called, in order, and that messages are handed out in the order in which they were consumed.
\<close>

section \<open>The thread\<close>

text \<open>
  \<open>Committing\<close> holds the commits still to be made in this round and the stop flag that was read with
  them. \<open>Idle\<close> is the state before the thread is started for the first time, \<open>Failed\<close> the early return
  when the consumer cannot be created.
\<close>

datatype PollPC = Idle | Opening | LoopTop | Committing "(int \<times> int) list" bool | Consuming | Closing | Ended | Failed

text \<open>
  Beside the poller and the program counter a history is kept: the commits queued and made so far, the
  messages consumed and popped, and how many commits had been queued when \<open>Stop\<close> was called.
\<close>

record PollThread =
  pt_poller :: KafkaPoller
  pt_pc :: PollPC
  pt_queued :: "(int \<times> int) list"
  pt_committed :: "(int \<times> int) list"
  pt_consumed :: "KafkaMessage list"
  pt_popped :: "KafkaMessage list"
  pt_stop_mark :: "nat option"

inductive poll_step :: "PollThread \<Rightarrow> PollThread \<Rightarrow> bool" where
  open_ok: "pt_pc S = Opening \<Longrightarrow> poll_step S (S\<lparr>pt_pc := LoopTop\<rparr>)"
| open_fails: "pt_pc S = Opening \<Longrightarrow> poll_step S (S\<lparr>pt_pc := Failed\<rparr>)"
| take_round: "pt_pc S = LoopTop \<Longrightarrow> take_commits (pt_poller S) = (commits, should_stop, k') \<Longrightarrow>
    poll_step S (S\<lparr>pt_poller := k', pt_pc := Committing commits should_stop\<rparr>)"
| commit_one: "pt_pc S = Committing (c # commits) should_stop \<Longrightarrow>
    poll_step S (S\<lparr>pt_pc := Committing commits should_stop, pt_committed := pt_committed S @ commit_positions [c]\<rparr>)"
| commits_made: "pt_pc S = Committing [] should_stop \<Longrightarrow>
    poll_step S (S\<lparr>pt_pc := (if should_stop then Closing else Consuming)\<rparr>)"
| no_message: "pt_pc S = Consuming \<Longrightarrow> poll_step S (S\<lparr>pt_pc := LoopTop\<rparr>)"
| message: "pt_pc S = Consuming \<Longrightarrow>
    poll_step S (S\<lparr>pt_poller := consume_message m (pt_poller S), pt_pc := LoopTop, pt_consumed := pt_consumed S @ [m]\<rparr>)"
| closed: "pt_pc S = Closing \<Longrightarrow> poll_step S (S\<lparr>pt_pc := Ended\<rparr>)"

text \<open>The owner's calls, and the rebalances served inside \<open>consume\<close> and \<open>close\<close>.\<close>

definition Stop_begin :: "KafkaPoller \<Rightarrow> KafkaPoller" where
  "Stop_begin k = k\<lparr>kp_stop := True\<rparr>"

inductive owner_step :: "PollThread \<Rightarrow> PollThread \<Rightarrow> bool" where
  rebalance: "pt_pc S \<in> {Consuming, Closing} \<Longrightarrow>
    owner_step S (S\<lparr>pt_poller := rebalance_cb assign ids (pt_poller S)\<rparr>)"
| start: "\<not> kp_thread (pt_poller S) \<Longrightarrow>
    owner_step S (S\<lparr>pt_poller := Start (pt_poller S), pt_pc := Opening, pt_stop_mark := None\<rparr>)"
| pop: "Pop (pt_poller S) = (out, k') \<Longrightarrow>
    owner_step S (S\<lparr>pt_poller := k', pt_popped := pt_popped S @ (case out of None \<Rightarrow> [] | Some m \<Rightarrow> [m])\<rparr>)"
| pop_event: "PopOwnershipEvent (pt_poller S) = (out', k') \<Longrightarrow> owner_step S (S\<lparr>pt_poller := k'\<rparr>)"
| mark: "k' = MarkPublishComplete p off (pt_poller S) \<Longrightarrow>
    owner_step S (S\<lparr>pt_poller := k', pt_queued := pt_queued S @ drop (length (kp_commits (pt_poller S))) (kp_commits k')\<rparr>)"
| stop: "owner_step S (S\<lparr>pt_poller := Stop_begin (pt_poller S),
    pt_stop_mark := (case pt_stop_mark S of None \<Rightarrow> Some (length (pt_queued S)) | Some n \<Rightarrow> Some n)\<rparr>)"
| join: "kp_stop (pt_poller S) \<Longrightarrow> pt_pc S \<in> {Ended, Failed} \<Longrightarrow>
    owner_step S (S\<lparr>pt_poller := Stop (pt_poller S)\<rparr>)"

definition poll_system :: "PollThread \<Rightarrow> PollThread \<Rightarrow> bool" where
  "poll_system S T \<longleftrightarrow> poll_step S T \<or> owner_step S T"

definition poll_initial :: "PollThread \<Rightarrow> bool" where
  "poll_initial S \<longleftrightarrow> (\<exists>b g t r k. MakeKafkaPoller b g t r = Inr k \<and> S = \<lparr>pt_poller = k, pt_pc = Idle, pt_queued = [],
     pt_committed = [], pt_consumed = [], pt_popped = [], pt_stop_mark = None\<rparr>)"

section \<open>What the interleaving keeps\<close>

definition in_progress :: "PollPC \<Rightarrow> (int \<times> int) list" where
  "in_progress pc = (case pc of Committing cs _ \<Rightarrow> cs | _ \<Rightarrow> [])"

definition stop_seen :: "PollPC \<Rightarrow> bool" where
  "stop_seen pc \<longleftrightarrow> (case pc of Committing _ stop \<Rightarrow> stop | Closing \<Rightarrow> True | Ended \<Rightarrow> True | _ \<Rightarrow> False)"

definition commits_ok :: "PollThread \<Rightarrow> bool" where
  "commits_ok S \<longleftrightarrow> pt_committed S @ commit_positions (in_progress (pt_pc S) @ kp_commits (pt_poller S)) = commit_positions (pt_queued S)"

definition stop_ok :: "PollThread \<Rightarrow> bool" where
  "stop_ok S \<longleftrightarrow> (case pt_stop_mark S of None \<Rightarrow> \<not> kp_stop (pt_poller S) \<and> \<not> stop_seen (pt_pc S)
     | Some n \<Rightarrow> kp_stop (pt_poller S) \<and> n \<le> length (pt_queued S) \<and>
        (stop_seen (pt_pc S) \<longrightarrow> n \<le> length (pt_committed S) + length (in_progress (pt_pc S)))) \<and>
     (kp_thread (pt_poller S) \<or> pt_pc S \<in> {Idle, Ended, Failed})"

definition messages_ok :: "PollThread \<Rightarrow> bool" where
  "messages_ok S \<longleftrightarrow> subseq (pt_popped S @ kp_messages (pt_poller S)) (pt_consumed S)"

definition poll_inv :: "PollThread \<Rightarrow> bool" where
  "poll_inv S \<longleftrightarrow> commits_ok S \<and> stop_ok S \<and> messages_ok S"

lemma commit_positions_append [simp]: "commit_positions (xs @ ys) = commit_positions xs @ commit_positions ys"
  by (simp add: commit_positions_def)

lemma length_commit_positions [simp]: "length (commit_positions xs) = length xs"
  by (simp add: commit_positions_def)

lemma commit_positions_Nil [simp]: "commit_positions [] = []"
  by (simp add: commit_positions_def)

lemma commits_ok_length:
  "commits_ok S \<Longrightarrow> length (pt_committed S) + length (in_progress (pt_pc S)) + length (kp_commits (pt_poller S)) = length (pt_queued S)"
  unfolding commits_ok_def by (metis add.assoc length_append length_commit_positions)

lemma revoke_one_fields [simp]:
  "kp_commits (revoke_one p k) = kp_commits k" "kp_stop (revoke_one p k) = kp_stop k" "kp_thread (revoke_one p k) = kp_thread k"
  by (simp_all add: revoke_one_def)

lemma fold_revoke_one_fields [simp]:
  "kp_commits (fold revoke_one ids k) = kp_commits k" "kp_stop (fold revoke_one ids k) = kp_stop k"
  "kp_thread (fold revoke_one ids k) = kp_thread k"
  by (induction ids arbitrary: k) simp_all

lemma fold_revoke_one_messages: "subseq (kp_messages (fold revoke_one ids k)) (kp_messages k)"
proof (induction ids arbitrary: k)
  case (Cons p ids)
  have "subseq (kp_messages (revoke_one p k)) (kp_messages k)" by (simp add: revoke_one_def)
  with Cons [of "revoke_one p k"] show ?case by (auto intro: subseq_order.dual_order.trans)
qed simp

lemma rebalance_cb_fields [simp]:
  "kp_commits (rebalance_cb assign ids k) = kp_commits k" "kp_stop (rebalance_cb assign ids k) = kp_stop k"
  "kp_thread (rebalance_cb assign ids k) = kp_thread k"
  by (simp_all add: rebalance_cb_def)

lemma rebalance_cb_messages: "subseq (kp_messages (rebalance_cb assign ids k)) (kp_messages k)"
  using fold_revoke_one_messages [of ids k] by (simp add: rebalance_cb_def)

lemma Mark_fields [simp]:
  "kp_stop (MarkPublishComplete p off k) = kp_stop k" "kp_thread (MarkPublishComplete p off k) = kp_thread k"
  "kp_messages (MarkPublishComplete p off k) = kp_messages k"
  by (auto simp: MarkPublishComplete_def Let_def split: option.splits prod.splits)

lemma Mark_commits: "\<exists>cs. kp_commits (MarkPublishComplete p off k) = kp_commits k @ cs"
  by (auto simp: MarkPublishComplete_def Let_def split: option.splits prod.splits)

lemma consume_message_fields [simp]:
  "kp_commits (consume_message m k) = kp_commits k" "kp_stop (consume_message m k) = kp_stop k"
  "kp_thread (consume_message m k) = kp_thread k" "kp_messages (consume_message m k) = kp_messages k @ [m]"
  by (simp_all add: consume_message_def)

lemma Pop_fields:
  assumes "Pop k = (out, k')"
  shows "kp_commits k' = kp_commits k" "kp_stop k' = kp_stop k" "kp_thread k' = kp_thread k"
    "(case out of None \<Rightarrow> [] | Some m \<Rightarrow> [m]) @ kp_messages k' = kp_messages k"
  using assms by (auto simp: Pop_def split: list.splits)

lemma PopOwnershipEvent_fields:
  assumes "PopOwnershipEvent k = (out, k')"
  shows "kp_commits k' = kp_commits k" "kp_stop k' = kp_stop k" "kp_thread k' = kp_thread k" "kp_messages k' = kp_messages k"
  using assms by (auto simp: PopOwnershipEvent_def split: list.splits)

lemmas poll_inv_defs = poll_inv_def commits_ok_def stop_ok_def messages_ok_def in_progress_def stop_seen_def

lemma poll_step_inv:
  assumes "poll_step S T" and "poll_inv S"
  shows "poll_inv T"
  using assms(1)
proof cases
  case (take_round commits should_stop k')
  have "commits_ok S" using assms(2) by (simp add: poll_inv_def)
  from commits_ok_length [OF this] take_round assms(2) show ?thesis
    by (auto simp: poll_inv_defs take_commits_def split: option.splits)
next
  case (commit_one c commits should_stop)
  then show ?thesis using assms(2) by (auto simp: poll_inv_defs commit_positions_def split: option.splits)
next
  case (message m)
  have "subseq ((pt_popped S @ kp_messages (pt_poller S)) @ [m]) (pt_consumed S @ [m])"
    using assms(2) unfolding poll_inv_def messages_ok_def by (intro list_emb_append_mono) simp_all
  with message assms(2) show ?thesis by (auto simp: poll_inv_defs split: option.splits)
qed (use assms(2) in \<open>auto simp: poll_inv_defs split: option.splits\<close>)

lemma owner_step_inv:
  assumes "owner_step S T" and "poll_inv S"
  shows "poll_inv T"
  using assms(1)
proof cases
  case (rebalance assign ids)
  have "subseq (pt_popped S @ kp_messages (rebalance_cb assign ids (pt_poller S))) (pt_popped S @ kp_messages (pt_poller S))"
    by (rule list_emb_append_mono) (simp_all add: rebalance_cb_messages)
  also have "subseq (pt_popped S @ kp_messages (pt_poller S)) (pt_consumed S)"
    using assms(2) by (simp add: poll_inv_def messages_ok_def)
  finally show ?thesis using rebalance assms(2) by (auto simp: poll_inv_defs split: option.splits)
next
  case start
  then show ?thesis using assms(2) by (auto simp: poll_inv_defs Start_def split: option.splits)
next
  case (pop out k')
  then show ?thesis using assms(2) Pop_fields [OF pop(2)] by (auto simp: poll_inv_defs split: option.splits)
next
  case (pop_event out k')
  then show ?thesis using assms(2) PopOwnershipEvent_fields [OF pop_event(2)] by (auto simp: poll_inv_defs split: option.splits)
next
  case (mark k' p off)
  from Mark_commits [of p off "pt_poller S"] mark obtain cs where "kp_commits k' = kp_commits (pt_poller S) @ cs" by auto
  then show ?thesis using mark assms(2) by (auto simp: poll_inv_defs split: option.splits)
next
  case stop
  have "commits_ok S" using assms(2) by (simp add: poll_inv_def)
  from commits_ok_length [OF this] stop assms(2) show ?thesis
    by (auto simp: poll_inv_defs Stop_begin_def split: option.splits)
next
  case join
  then show ?thesis using assms(2) by (auto simp: poll_inv_defs Stop_def split: option.splits)
qed

interpretation poll_thread: invariant_system poll_initial poll_system poll_inv
proof
  show "poll_inv S" if "poll_initial S" for S
    using that by (auto simp: poll_initial_def poll_inv_defs MakeKafkaPoller_def split: if_splits)
  show "poll_inv T" if "poll_inv S" and "poll_system S T" for S T
    using that poll_step_inv owner_step_inv by (auto simp: poll_system_def)
qed

section \<open>Stopping\<close>

text \<open>How many steps of its own the thread still makes once the flag is set.\<close>

definition poll_load :: "PollThread \<Rightarrow> nat" where
  "poll_load S = (let queued = length (kp_commits (pt_poller S)) in
     case pt_pc S of Idle \<Rightarrow> 0 | Ended \<Rightarrow> 0 | Failed \<Rightarrow> 0 | Closing \<Rightarrow> 1 | LoopTop \<Rightarrow> 3 + queued | Opening \<Rightarrow> 4 + queued
     | Consuming \<Rightarrow> 4 + queued | Committing cs stop \<Rightarrow> (if stop then 2 + length cs else 5 + queued + length cs))"

lemma poll_step_load:
  assumes "poll_step S T" and "kp_stop (pt_poller S)"
  shows "poll_load T < poll_load S"
  using assms by cases (auto simp: poll_load_def take_commits_def)

text \<open>The next step of the thread when the consumer, if asked, delivers \<open>m\<close>.\<close>

definition thread_act :: "KafkaMessage option \<Rightarrow> PollThread \<Rightarrow> PollThread" where
  "thread_act m S = (case pt_pc S of Opening \<Rightarrow> S\<lparr>pt_pc := LoopTop\<rparr>
     | LoopTop \<Rightarrow> (case take_commits (pt_poller S) of (commits, should_stop, k') \<Rightarrow>
         S\<lparr>pt_poller := k', pt_pc := Committing commits should_stop\<rparr>)
     | Committing [] should_stop \<Rightarrow> S\<lparr>pt_pc := (if should_stop then Closing else Consuming)\<rparr>
     | Committing (c # commits) should_stop \<Rightarrow>
         S\<lparr>pt_pc := Committing commits should_stop, pt_committed := pt_committed S @ commit_positions [c]\<rparr>
     | Consuming \<Rightarrow> (case m of None \<Rightarrow> S\<lparr>pt_pc := LoopTop\<rparr>
         | Some msg \<Rightarrow> S\<lparr>pt_poller := consume_message msg (pt_poller S), pt_pc := LoopTop, pt_consumed := pt_consumed S @ [msg]\<rparr>)
     | Closing \<Rightarrow> S\<lparr>pt_pc := Ended\<rparr>
     | _ \<Rightarrow> S)"

lemma poll_step_enabled:
  assumes "pt_pc S \<notin> {Idle, Ended, Failed}"
  shows "poll_step S (thread_act m S)"
proof (cases "pt_pc S")
  case LoopTop
  obtain cs b k where "take_commits (pt_poller S) = (cs, b, k)" by (cases "take_commits (pt_poller S)")
  with LoopTop poll_step.take_round [OF LoopTop] show ?thesis by (simp add: thread_act_def)
next
  case (Committing cs stop)
  then show ?thesis by (cases cs) (use poll_step.commit_one poll_step.commits_made in \<open>simp_all add: thread_act_def\<close>)
next
  case Consuming
  then show ?thesis by (cases m) (use poll_step.no_message poll_step.message in \<open>simp_all add: thread_act_def\<close>)
qed (use assms poll_step.open_ok poll_step.closed in \<open>simp_all add: thread_act_def\<close>)


text \<open>A poller that is started, consumes one message, has it reported and is stopped.\<close>

definition poll_message :: KafkaMessage where
  "poll_message = \<lparr>km_payload = [], km_key = ''a'', km_partition = 0, km_offset = 5\<rparr>"

definition poll_idle :: PollThread where
  "poll_idle = \<lparr>pt_poller = projr (MakeKafkaPoller ''b'' ''g'' ''t'' ''earliest''), pt_pc = Idle, pt_queued = [],
     pt_committed = [], pt_consumed = [], pt_popped = [], pt_stop_mark = None\<rparr>"

definition poll_consumed :: PollThread where
  "poll_consumed = thread_act (Some poll_message) ((thread_act None ^^ 3)
     (poll_idle\<lparr>pt_poller := Start (pt_poller poll_idle), pt_pc := Opening\<rparr>))"

definition poll_ended :: PollThread where
  "poll_ended = (thread_act None ^^ 4) (poll_consumed\<lparr>pt_queued := [(0, 5)],
     pt_poller := Stop_begin (MarkPublishComplete 0 5 (pt_poller poll_consumed)), pt_stop_mark := Some 1\<rparr>)"

lemma thread_acts: "poll_system\<^sup>*\<^sup>* S ((thread_act m ^^ n) S)"
proof (induction n)
  case (Suc n)
  let ?S = "(thread_act m ^^ n) S"
  have "poll_system\<^sup>*\<^sup>* ?S (thread_act m ?S)"
  proof (cases "pt_pc ?S \<in> {Idle, Ended, Failed}")
    case True
    then have "thread_act m ?S = ?S" by (auto simp: thread_act_def)
    then show ?thesis by simp
  next
    case False
    then show ?thesis using poll_step_enabled [OF False] by (auto simp: poll_system_def)
  qed
  with Suc show ?case by (simp add: rtranclp_trans)
qed simp

lemma owner_system: "owner_step S T \<Longrightarrow> poll_system S T"
  by (simp add: poll_system_def)

lemma poll_run: "poll_system\<^sup>*\<^sup>* poll_idle poll_ended"
proof -
  let ?S1 = "poll_idle\<lparr>pt_poller := Start (pt_poller poll_idle), pt_pc := Opening\<rparr>"
  let ?S2 = "poll_consumed\<lparr>pt_poller := MarkPublishComplete 0 5 (pt_poller poll_consumed), pt_queued := [(0, 5)]\<rparr>"
  have "owner_step poll_idle ?S1" using owner_step.start [of poll_idle] by (simp add: poll_idle_def MakeKafkaPoller_def)
  moreover have "poll_system\<^sup>*\<^sup>* ?S1 poll_consumed"
    using thread_acts [of ?S1 3 None] thread_acts [of "(thread_act None ^^ 3) ?S1" 1 "Some poll_message"]
    by (simp add: poll_consumed_def rtranclp_trans)
  moreover have "owner_step poll_consumed ?S2"
  proof -
    have "pt_queued poll_consumed = []" "drop (length (kp_commits (pt_poller poll_consumed)))
        (kp_commits (MarkPublishComplete 0 5 (pt_poller poll_consumed))) = [(0, 5)]" by code_simp+
    with owner_step.mark [OF refl, of poll_consumed 0 5] show ?thesis by simp
  qed
  moreover have "owner_step ?S2 (poll_consumed\<lparr>pt_queued := [(0, 5)],
     pt_poller := Stop_begin (MarkPublishComplete 0 5 (pt_poller poll_consumed)), pt_stop_mark := Some 1\<rparr>)"
  proof -
    have "pt_stop_mark poll_consumed = None" by code_simp
    with owner_step.stop [of ?S2] show ?thesis by simp
  qed
  moreover note thread_acts [of "poll_consumed\<lparr>pt_queued := [(0, 5)],
     pt_poller := Stop_begin (MarkPublishComplete 0 5 (pt_poller poll_consumed)), pt_stop_mark := Some 1\<rparr>" 4 None, folded poll_ended_def]
  ultimately show ?thesis by (meson owner_system converse_rtranclp_into_rtranclp rtranclp_trans)
qed


end
