(* ===== verification/DurableServing.thy ===== *)
theory DurableServing
  imports DurableSystem KafkaPollLoops CommandLines
begin

text \<open>
  The durable router serves what it reads: \<open>main\<close> of \<open>cpp/src/durable_router_main.cpp\<close> as a loop over the
  rounds it makes before its deadline, and the liveness of the router when the engine completes the
  requests and Kafka accepts the results.
\<close>

section \<open>The loop and \<open>main\<close>\<close>

text \<open>One element of \<open>polls\<close> per round before the deadline: what the poll thread did to the poller before that round.\<close>

fun router_loop :: "'p Environment \<Rightarrow> nat \<Rightarrow> (KafkaPoller \<Rightarrow> KafkaPoller) list \<Rightarrow> 'p RouterState \<times> DurableStore \<Rightarrow>
    error + ('p RouterState \<times> DurableStore)" where
  "router_loop env expected [] st = Inr st"
| "router_loop env expected (poll # polls) (rt, s) =
     (if rt_completed rt < expected \<and> \<not> rt_failed rt
      then bind_result (router_iteration env (rt\<lparr>rt_poller := poll (rt_poller rt)\<rparr>, s)) (router_loop env expected polls)
      else Inr (rt, s))"

text \<open>
  \<open>main\<close>: the engine that \<open>WaitForEngine\<close> returned, if any, and whether the server started, are arguments. The result is
  the exit status, the standard output, what was written to the readiness file, and the database.
\<close>

definition completed_line :: "nat \<Rightarrow> string" where
  "completed_line completed = ''{'' @ quote @ ''completed'' @ quote @ '':'' @ to_string completed @ ''}'' @ [CHR 0x0A]"

definition default_database :: string where
  "default_database = ''host=localhost port=55432 dbname=infersched user=infersched password=infersched''"

definition durable_router_main :: "'p Environment \<Rightarrow> string option \<Rightarrow> bool \<Rightarrow> string list \<Rightarrow>
    (KafkaPoller \<Rightarrow> KafkaPoller) list \<Rightarrow> error + (ExitStatus \<times> string \<times> string option \<times> DurableStore)" where
  "durable_router_main env engine started args polls =
     (let brokers = Argument args ''--brokers'' ''localhost:9092'' in
     bind_result (stoull (Argument args ''--requests'' ''1'')) (\<lambda>expected.
     bind_result (stoll (Argument args ''--run-seconds'' ''20'')) (\<lambda>run_seconds.
     bind_result (env_connect env (Argument args ''--database'' default_database)) (\<lambda>db.
     let store = Migrate db in
     bind_result (env_make_publisher env brokers) (\<lambda>publisher.
     bind_result (MakeKafkaPoller brokers (Argument args ''--consumer-group'' ''infersched-router-p5'') ''inference.requests''
         (Argument args ''--offset-reset'' ''earliest'')) (\<lambda>poller.
     case engine of
       None \<Rightarrow> Inr (EXIT_FAILURE, [], None, store)
     | Some engine_id \<Rightarrow>
         if \<not> started then Inr (EXIT_FAILURE, [], None, store)
         else bind_result (router_loop env expected polls
             (\<lparr>rt_router_id = Argument args ''--router-id'' ''router-p5'', rt_engine_id = engine_id, rt_poller = Start poller,
               rt_ingestor = MakeRequestIngestor 3, rt_publisher = publisher, rt_epochs = [], rt_completed = 0,
               rt_ready_file = Argument args ''--ready-file'' [], rt_marker = None, rt_failed = False\<rparr>, store))
           (\<lambda>(rt, store').
             if rt_failed rt then Inr (EXIT_FAILURE, [], rt_marker rt, store')
             else Inr (exit_unless (\<not> rt_completed rt \<ge> expected), completed_line (rt_completed rt), rt_marker rt, store'))))))))"

text \<open>What the readiness file contains after an assignment.\<close>

definition ready_marker :: "string \<Rightarrow> string option" where
  "ready_marker file = (if file = [] then None else Some (''assigned'' @ [CHR 0x0A]))"

section \<open>Publication of the whole backlog\<close>

definition accepting :: "'p Environment \<Rightarrow> bool" where
  "accepting env \<longleftrightarrow> (\<forall>r ps. fst (env_publish env r ps))"

lemma answers_accepting: "(\<And>r ps. fst (publish r ps)) \<Longrightarrow> answers publish ps rs = replicate (length rs) True"
  by (induction rs arbitrary: ps) simp_all

lemma MarkPublished_fields [simp]:
  "partition_ownership (MarkPublished now oid s) = partition_ownership s" "outbox_id_seq (MarkPublished now oid s) = outbox_id_seq s"
  by (simp_all add: MarkPublished_def)

lemma fold_MarkPublished_fields:
  "partition_ownership (fold (\<lambda>r. MarkPublished now (or_id r)) rs s) = partition_ownership s"
  "outbox_id_seq (fold (\<lambda>r. MarkPublished now (or_id r)) rs s) = outbox_id_seq s"
  by (induction rs arbitrary: s) simp_all

lemma relay_all_publishes:
  assumes inv: "store_inv s" and acc: "accepting env" and few: "length (unpublished s) \<le> 1000"
    and run: "relay_all env (rt, s) = (rt', t)"
  shows "unpublished t = []" "inference_requests t = inference_requests s" "partition_ownership t = partition_ownership s"
    "outbox_id_seq t = outbox_id_seq s" "store_inv t"
proof -
  obtain n ps where p: "PublishBatch (env_publish env) (env_now env) 1000 (rt_publisher rt, s) = (n, ps, t)"
    using run by (auto simp: relay_all_def Let_def split: prod.splits)
  have "answers (env_publish env) (rt_publisher rt) (FetchUnpublished 1000 s) = replicate (length (unpublished s)) True"
    using acc few by (simp add: answers_accepting accepting_def FetchUnpublished_take)
  with PublishBatch_spec [OF inv p] show "unpublished t = []" "inference_requests t = inference_requests s"
    by simp_all
  from p publish_loop_spec [of "env_publish env" "env_now env" "FetchUnpublished 1000 s" "rt_publisher rt" s 0]
  show "partition_ownership t = partition_ownership s" "outbox_id_seq t = outbox_id_seq s"
    by (auto simp: PublishBatch_def Let_def fold_MarkPublished_fields)
  show "store_inv t" using PublishBatch_spec [OF inv p] store_run.inv_steps [OF _ inv] by blast
qed

lemma unpublished_Nil: "unpublished t = [] \<Longrightarrow> b \<in> set (outbox t) \<Longrightarrow> ob_published_at b \<noteq> None"
  by (auto simp: unpublished_def filter_empty_conv dest: arg_cong [of _ _ set])

section \<open>One message\<close>

definition request_keys :: "DurableStore \<Rightarrow> (string \<times> int \<times> int) list" where
  "request_keys s = map (\<lambda>r. (rr_request_id r, rr_partition r, rr_offset r)) (inference_requests s)"

text \<open>The request has a result, and its row in the results topic is published.\<close>

definition served :: "DurableStore \<Rightarrow> string \<Rightarrow> int \<Rightarrow> int \<Rightarrow> bool" where
  "served s rid p off \<longleftrightarrow> (\<exists>r \<in> set (inference_requests s). \<exists>v. rr_request_id r = rid \<and> rr_partition r = p \<and> rr_offset r = off \<and>
     rr_result r = Some v \<and> (\<exists>b \<in> set (outbox s). result_row r v b \<and> ob_published_at b \<noteq> None))"

lemma served_stored:
  assumes inv: "store_inv t" and "unpublished t = []" and "stored_result t rid = Some v" and k: "(rid, p, off) \<in> set (request_keys t)"
  shows "served t rid p off"
proof -
  from assms(3) obtain r where r: "request_row t rid = Some r" "rr_result r = Some v"
    by (auto simp: stored_result_def split: option.splits)
  then have rt: "r \<in> set (inference_requests t)" "rr_request_id r = rid" by (simp_all add: request_row_Some [OF inv])
  from k obtain q where "q \<in> set (inference_requests t)" "rr_request_id q = rid" "rr_partition q = p" "rr_offset q = off"
    by (auto simp: request_keys_def)
  moreover from this rt have "q = r" using request_row_unique [OF inv] by simp
  moreover obtain b where "b \<in> set (outbox t)" "result_row r v b" using inv rt(1) r(2) unfolding store_inv_def outbox_ok_def by blast
  ultimately show ?thesis using r(2) unpublished_Nil [OF assms(2)] unfolding served_def by blast
qed

lemma served_IsSourcePublished:
  assumes "served t rid p off" and "unpublished t = []"
  shows "IsSourcePublished p off t"
proof -
  from assms(1) obtain b where "b \<in> set (outbox t)" "ob_partition b = p" "ob_offset b = off"
    by (auto simp: served_def result_row_def)
  then have "filter (\<lambda>r. ob_partition r = p \<and> ob_offset r = off) (outbox t) \<noteq> []" by (auto simp: filter_empty_conv)
  then show ?thesis using unpublished_Nil [OF assms(2)]
    by (auto simp: IsSourcePublished_def list_all_iff split: list.splits dest: filter_eq_ConsD)
qed

lemma AssignAttempt_succeeds:
  assumes inv: "store_inv s" and r: "request_row s rid = Some r" "rr_partition r = p" "rr_state r \<notin> set terminal_states"
    and own: "owner_epoch s p (int e)" and room: "rr_state_version r < i64_max"
  shows "\<exists>a t. AssignAttempt rid p e eng s = Inr (Some a, t) \<and> as_state_version a = nat (rr_state_version r + 1) \<and>
    request_keys t = request_keys s \<and> partition_ownership t = partition_ownership s \<and> outbox t = outbox s \<and>
    outbox_id_seq t = outbox_id_seq s"
proof -
  have sel: "assign_sel rid p (int e) s q \<longleftrightarrow> rr_request_id q = rid" if "q \<in> set (inference_requests s)" for q
    using request_row_unique [OF inv that, of r] r own by (auto simp: request_row_Some [OF inv] assign_sel_def owner_epoch_def)
  then have "filter (assign_sel rid p (int e) s) (inference_requests s) = filter (\<lambda>q. rr_request_id q = rid) (inference_requests s)"
    by (rule filter_cong [OF refl])
  then have f: "filter (assign_sel rid p (int e) s) (inference_requests s) = [r]" using filter_request_row [OF inv r(1)] by simp
  have ok: "row_ok r" using inv r(1) by (simp add: request_row_Some [OF inv] store_inv_def)
  have e: "int e \<le> i64_max" using own inv by (auto simp: owner_epoch_def store_inv_def)
  show ?thesis using f ok e room
    by (simp add: AssignAttempt_def CheckedInt64_def CheckedUint64_def bigint_succ_def row_ok_def request_keys_def sql_update_def)
qed

lemma accept_fields:
  "request_keys (accept rid v r s) = request_keys s" "length (unpublished (accept rid v r s)) = Suc (length (unpublished s))"
  by (simp_all add: accept_def request_keys_def unpublished_def sql_update_def)

text \<open>A message whose request is new: neither its id nor its position is known to the store.\<close>

definition fresh_request :: "DurableStore \<Rightarrow> KafkaMessage \<Rightarrow> string \<Rightarrow> bool" where
  "fresh_request s m rid \<longleftrightarrow> rid \<noteq> [] \<and>
     (\<forall>(rid', p, off) \<in> set (request_keys s). rid' \<noteq> rid \<and> (p, off) \<noteq> (km_partition m, km_offset m))"

lemma Ingest_fresh:
  assumes inv: "store_inv s" and fresh: "fresh_request s m rid"
  obtains s1 r where "Ingest rid (km_partition m) (km_offset m) payload s = (True, s1)" "store_inv s1" "request_row s1 rid = Some r"
    "rr_partition r = km_partition m" "rr_state r = ''RECEIVED''" "rr_state_version r = 0"
    "request_keys s1 = request_keys s @ [(rid, km_partition m, km_offset m)]" "partition_ownership s1 = partition_ownership s"
    "outbox s1 = outbox s" "outbox_id_seq s1 = outbox_id_seq s"
proof -
  let ?r = "\<lparr>rr_request_id = rid, rr_state = ''RECEIVED'', rr_state_version = 0, rr_partition = km_partition m,
          rr_offset = km_offset m, rr_payload = payload, rr_epoch = None, rr_engine_id = None,
          rr_attempt_id = 0, rr_result = None\<rparr>"
  let ?s = "s\<lparr>inference_requests := inference_requests s @ [?r]\<rparr>"
  have "\<not> (\<exists>r \<in> set (inference_requests s). rr_request_id r = rid \<or> rr_partition r = km_partition m \<and> rr_offset r = km_offset m)"
    using fresh by (auto simp: fresh_request_def request_keys_def)
  then have i: "Ingest rid (km_partition m) (km_offset m) payload s = (True, ?s)" by (simp only: Ingest_def if_False)
  note s1 = Ingest_inv [OF inv i]
  have "request_row ?s rid = Some ?r" using request_row_Some [OF s1, of rid ?r] by simp
  with i s1 show ?thesis by (rule that) (simp_all add: request_keys_def)
qed

text \<open>What the router needs of the world for a message: ownership under the current epoch, an engine that completes.\<close>

definition servable :: "'p Environment \<Rightarrow> 'p RouterState \<Rightarrow> DurableStore \<Rightarrow> KafkaMessage \<Rightarrow> InferenceRequest \<Rightarrow> bool" where
  "servable env rt s m request \<longleftrightarrow> Owns (km_partition m) (rt_poller rt) \<and>
     (\<exists>e. map_of (rt_epochs rt) (km_partition m) = Some e \<and> owner_epoch s (km_partition m) (int e)) \<and>
     env_parse env (km_payload m) = Some request \<and> (\<forall>f. RouterDispatch (env_stub env) request f \<noteq> [])"

lemma execute_completes:
  assumes inv: "store_inv s" and sv: "servable env rt s m request" and r: "request_row s (ir_request_id request) = Some r"
    and row: "rr_partition r = km_partition m" "rr_state r \<notin> set terminal_states" "rr_state_version r < i64_max - 1"
    and room: "outbox_id_seq s < i64_max"
  obtains t v where "execute env request (km_partition m) rt s = Inr (True, t)" "store_inv t"
    "stored_result t (ir_request_id request) = Some v" "request_keys t = request_keys s"
    "partition_ownership t = partition_ownership s" "outbox_id_seq t = outbox_id_seq s + 1"
    "length (unpublished t) = Suc (length (unpublished s))"
proof -
  let ?rid = "ir_request_id request" and ?p = "km_partition m"
  from sv obtain e where e: "map_of (rt_epochs rt) ?p = Some e" "owner_epoch s ?p (int e)" and owns: "Owns ?p (rt_poller rt)"
    and out: "\<And>f. RouterDispatch (env_stub env) request f \<noteq> []" by (auto simp: servable_def)
  have "rr_state_version r < i64_max" using row(3) by simp
  from AssignAttempt_succeeds [OF inv r row(1,2) e(2) this, of "rt_engine_id rt"]
  obtain a s1 where a: "AssignAttempt ?rid ?p e (rt_engine_id rt) s = Inr (Some a, s1)"
    "as_state_version a = nat (rr_state_version r + 1)" and s1: "request_keys s1 = request_keys s"
    "partition_ownership s1 = partition_ownership s" "outbox s1 = outbox s" "outbox_id_seq s1 = outbox_id_seq s" by blast
  let ?v = "ResultEnvelope request (as_fence a) (RouterDispatch (env_stub env) request (as_fence a))"
  have room': "outbox_id_seq s1 < i64_max" "int (as_state_version a) < i64_max" using a(2) s1(4) room row(3) by simp_all
  from assigned_fence_completes [OF inv a(1) room', of ?v]
  obtain t where t: "Finalize ?rid (as_fence a) ?v s1 = Inr (True, t)" "stored_result t ?rid = Some ?v" by blast
  have i1: "store_inv s1" by (rule AssignAttempt_inv [OF inv a(1)])
  obtain q where q: "t = accept ?rid ?v q s1" by (rule Finalize_accepted [OF i1 t(1)])
  have "execute env request ?p rt s = Inr (True, t)"
    using e(1) owns a(1) out [of "as_fence a"] t(1) by (simp add: execute_def Let_def)
  moreover have "request_keys t = request_keys s" "length (unpublished t) = Suc (length (unpublished s))"
    using s1 by (simp_all add: q accept_fields) (simp add: unpublished_def)
  ultimately show ?thesis using Finalize_inv [OF i1 t(1)] t(2) s1 q by (intro that) (simp_all add: accept_select)
qed

lemma handle_message_serves:
  assumes inv: "store_inv s" and sv: "servable env rt s m request" and fresh: "fresh_request s m (ir_request_id request)"
    and acc: "accepting env" and few: "length (unpublished s) < 1000" and room: "outbox_id_seq s < i64_max"
  obtains rt' t where "handle_message env m (rt, s) = Inr (Mark (km_partition m) (km_offset m) True, rt', t)"
    "store_inv t" "store_step\<^sup>*\<^sup>* s t" "unpublished t = []" "stored_result t (ir_request_id request) \<noteq> None"
    "request_keys t = request_keys s @ [(ir_request_id request, km_partition m, km_offset m)]"
    "partition_ownership t = partition_ownership s" "outbox_id_seq t = outbox_id_seq s + 1"
    "rt_poller rt' = rt_poller rt" "rt_epochs rt' = rt_epochs rt" "rt_completed rt' = rt_completed rt"
    "rt_failed rt' = rt_failed rt" "rt_marker rt' = rt_marker rt"
proof -
  let ?rid = "ir_request_id request" and ?p = "km_partition m" and ?off = "km_offset m"
  obtain s1 r where i: "Ingest ?rid ?p ?off (km_payload m) s = (True, s1)" and s1: "store_inv s1" and r: "request_row s1 ?rid = Some r"
    and row: "rr_partition r = ?p" "rr_state r = ''RECEIVED''" "rr_state_version r = 0"
    and k1: "request_keys s1 = request_keys s @ [(?rid, ?p, ?off)]"
    and f1: "partition_ownership s1 = partition_ownership s" "outbox s1 = outbox s" "outbox_id_seq s1 = outbox_id_seq s"
    by (rule Ingest_fresh [OF inv fresh])
  have open_r: "rr_state r \<notin> set terminal_states" using row(2) by (simp add: terminal_states_def)
  have parse: "env_parse env (km_payload m) = Some request" "?rid \<noteq> []" and owns: "Owns ?p (rt_poller rt)"
    using sv fresh by (simp_all add: servable_def fresh_request_def)
  obtain g where h: "Handle (env_parse env) ?p ?off (km_payload m) (rt_ingestor rt, s) = Inr (kInserted, g, s1)"
    using parse i by (simp add: Handle_def parsed_request_def)
  let ?rt = "rt\<lparr>rt_ingestor := g\<rparr>"
  have sv1: "servable env ?rt s1 m request" using sv f1(1) by (simp add: servable_def owner_epoch_def)
  have v: "rr_state_version r < i64_max - 1" and q: "outbox_id_seq s1 < i64_max" using row(3) room f1(3) by simp_all
  obtain s2 v where e: "execute env request ?p ?rt s1 = Inr (True, s2)" and s2: "store_inv s2"
    "stored_result s2 ?rid = Some v" "request_keys s2 = request_keys s1" "partition_ownership s2 = partition_ownership s1"
    "outbox_id_seq s2 = outbox_id_seq s1 + 1" "length (unpublished s2) = Suc (length (unpublished s1))"
    by (rule execute_completes [OF s1 sv1 r row(1) open_r v q])
  obtain rt' t where l: "relay_all env (?rt, s2) = (rt', t)" by fastforce
  have "length (unpublished s2) \<le> 1000" using s2(6) few f1(2) by (simp add: unpublished_def)
  note pub = relay_all_publishes [OF s2(1) acc this l]
  have res: "stored_result t ?rid = Some v" using s2(2) pub(2) by (simp add: stored_result_def request_row_def)
  have keys: "request_keys t = request_keys s @ [(?rid, ?p, ?off)]" using s2(3) k1 pub(2) by (simp add: request_keys_def)
  then have "served t ?rid ?p ?off" using served_stored [OF pub(5,1) res] by simp
  then have isp: "IsSourcePublished ?p ?off t" using pub(1) by (rule served_IsSourcePublished)
  have nt: "\<not> IsTerminal ?rid s1" using filter_request_row [OF s1 r] open_r by (simp add: IsTerminal_def)
  have hm: "handle_message env m (rt, s) = Inr (Mark ?p ?off True, rt', t)"
    using owns h parse nt e l isp by (simp add: handle_message_def Let_def mark_if_published_def)
  have "rt' = ?rt\<lparr>rt_publisher := rt_publisher rt'\<rparr>" by (rule relay_all_spec(2) [OF s2(1) l])
  then have fld: "rt_poller rt' = rt_poller rt" "rt_epochs rt' = rt_epochs rt" "rt_completed rt' = rt_completed rt"
      "rt_failed rt' = rt_failed rt" "rt_marker rt' = rt_marker rt"
    by (metis RouterState.select_convs(3,6,7,9,10) RouterState.surjective RouterState.update_convs(4,5))+
  have "store_step\<^sup>*\<^sup>* s t" using handle_message_spec [OF inv hm] by blast
  with hm pub(5,1) res keys pub(3,4) s2(4,5) f1 fld show ?thesis by (intro that [of rt' t]) simp_all
qed

section \<open>A queue of messages\<close>

abbreviation request_of :: "'p Environment \<Rightarrow> KafkaMessage \<Rightarrow> InferenceRequest" where
  "request_of env m \<equiv> the (env_parse env (km_payload m))"

abbreviation rid_of :: "'p Environment \<Rightarrow> KafkaMessage \<Rightarrow> string" where
  "rid_of env m \<equiv> ir_request_id (request_of env m)"

abbreviation position :: "KafkaMessage \<Rightarrow> int \<times> int" where
  "position m \<equiv> (km_partition m, km_offset m)"

lemma Mark_more_fields [simp]:
  "kp_assigned (MarkPublishComplete p off k) = kp_assigned k"
  "kp_ownership_events (MarkPublishComplete p off k) = kp_ownership_events k"
  by (auto simp: MarkPublishComplete_def Let_def split: option.splits prod.splits)

lemma router_iteration_serves:
  assumes inv: "store_inv s" and poller: "kp_ownership_events (rt_poller rt) = []" "kp_messages (rt_poller rt) = m # ms"
    and sv: "servable env rt s m (request_of env m)" and fresh: "fresh_request s m (rid_of env m)"
    and acc: "accepting env" and few: "length (unpublished s) < 1000" and room: "outbox_id_seq s < i64_max"
  obtains rt' t where "router_iteration env (rt, s) = Inr (rt', t)"
    "store_inv t" "store_step\<^sup>*\<^sup>* s t" "unpublished t = []" "stored_result t (rid_of env m) \<noteq> None"
    "request_keys t = request_keys s @ [(rid_of env m, position m)]"
    "partition_ownership t = partition_ownership s" "outbox_id_seq t = outbox_id_seq s + 1"
    "kp_messages (rt_poller rt') = ms" "kp_ownership_events (rt_poller rt') = []" "kp_assigned (rt_poller rt') = kp_assigned (rt_poller rt)"
    "rt_epochs rt' = rt_epochs rt" "rt_completed rt' = Suc (rt_completed rt)" "rt_failed rt' = rt_failed rt" "rt_marker rt' = rt_marker rt"
proof -
  let ?k = "(rt_poller rt)\<lparr>kp_messages := ms\<rparr>"
  have "servable env (rt\<lparr>rt_poller := ?k\<rparr>) s m (request_of env m)" using sv by (simp add: servable_def Owns_def)
  from handle_message_serves [OF inv this fresh acc few room] obtain rt' t
    where h: "handle_message env m (rt\<lparr>rt_poller := ?k\<rparr>, s) = Inr (Mark (km_partition m) (km_offset m) True, rt', t)"
    and t: "store_inv t" "store_step\<^sup>*\<^sup>* s t" "unpublished t = []" "stored_result t (rid_of env m) \<noteq> None"
      "request_keys t = request_keys s @ [(rid_of env m, position m)]"
      "partition_ownership t = partition_ownership s" "outbox_id_seq t = outbox_id_seq s + 1"
    and rt': "rt_poller rt' = ?k" "rt_epochs rt' = rt_epochs rt" "rt_completed rt' = rt_completed rt"
      "rt_failed rt' = rt_failed rt" "rt_marker rt' = rt_marker rt" by auto
  have "router_iteration env (rt, s) = Inr (finish_mark (Mark (km_partition m) (km_offset m) True) rt', t)"
    using poller h by (simp add: router_iteration_def router_round_def PopOwnershipEvent_def Pop_def)
  then show ?thesis using t rt' poller(1) by (intro that [of "finish_mark (Mark (km_partition m) (km_offset m) True) rt'" t])
      (simp_all add: finish_mark_def)
qed

lemma router_loop_serves:
  assumes "store_inv s" and "accepting env" and "kp_ownership_events (rt_poller rt) = []" and "kp_messages (rt_poller rt) = ms"
    and "\<forall>m \<in> set ms. servable env rt s m (request_of env m) \<and> fresh_request s m (rid_of env m)"
    and "distinct (map (rid_of env) ms)" and "distinct (map position ms)"
    and "length (unpublished s) < 1000" and "outbox_id_seq s + int (length ms) \<le> i64_max" and "\<not> rt_failed rt"
  shows "\<exists>rt' t. router_loop env (rt_completed rt + length ms) (replicate (length ms) id) (rt, s) = Inr (rt', t) \<and>
    rt_completed rt' = rt_completed rt + length ms \<and> \<not> rt_failed rt' \<and> rt_marker rt' = rt_marker rt \<and> store_inv t \<and> store_step\<^sup>*\<^sup>* s t \<and> (ms \<noteq> [] \<longrightarrow> unpublished t = []) \<and>
    request_keys t = request_keys s @ map (\<lambda>m. (rid_of env m, position m)) ms \<and> (\<forall>m \<in> set ms. stored_result t (rid_of env m) \<noteq> None)"
  using assms
proof (induction ms arbitrary: rt s)
  case (Cons m ms)
  have sv: "servable env rt s m (request_of env m)" "fresh_request s m (rid_of env m)" and room: "outbox_id_seq s < i64_max"
    using Cons.prems(5,9) by simp_all
  obtain rt1 t1 where it: "router_iteration env (rt, s) = Inr (rt1, t1)"
    and t1: "store_inv t1" "store_step\<^sup>*\<^sup>* s t1" "unpublished t1 = []" "stored_result t1 (rid_of env m) \<noteq> None"
      "request_keys t1 = request_keys s @ [(rid_of env m, position m)]"
      "partition_ownership t1 = partition_ownership s" "outbox_id_seq t1 = outbox_id_seq s + 1"
    and rt1: "kp_messages (rt_poller rt1) = ms" "kp_ownership_events (rt_poller rt1) = []"
      "kp_assigned (rt_poller rt1) = kp_assigned (rt_poller rt)" "rt_epochs rt1 = rt_epochs rt" "rt_completed rt1 = Suc (rt_completed rt)"
      "rt_failed rt1 = rt_failed rt" "rt_marker rt1 = rt_marker rt"
    by (rule router_iteration_serves [OF Cons.prems(1,3,4) sv Cons.prems(2,8) room])
  have next_ok: "servable env rt1 t1 x (request_of env x) \<and> fresh_request t1 x (rid_of env x)" if x: "x \<in> set ms" for x
  proof
    show "servable env rt1 t1 x (request_of env x)"
      using Cons.prems(5) x rt1(3,4) t1(6) by (simp add: servable_def Owns_def owner_epoch_def)
    have "rid_of env x \<noteq> rid_of env m" "position x \<noteq> position m" using Cons.prems(6,7) x by (auto simp: image_iff)
    then show "fresh_request t1 x (rid_of env x)"
      using Cons.prems(5) x by (auto simp: fresh_request_def t1(5))
  qed
  have "\<exists>rt' t. router_loop env (rt_completed rt1 + length ms) (replicate (length ms) id) (rt1, t1) = Inr (rt', t) \<and>
    rt_completed rt' = rt_completed rt1 + length ms \<and> \<not> rt_failed rt' \<and> rt_marker rt' = rt_marker rt1 \<and> store_inv t \<and> store_step\<^sup>*\<^sup>* t1 t \<and> (ms \<noteq> [] \<longrightarrow> unpublished t = []) \<and>
    request_keys t = request_keys t1 @ map (\<lambda>m. (rid_of env m, position m)) ms \<and> (\<forall>m \<in> set ms. stored_result t (rid_of env m) \<noteq> None)"
    by (rule Cons.IH [OF t1(1) Cons.prems(2) rt1(2,1)]) (use next_ok Cons.prems(6,7,9,10) t1(3,7) rt1(6) in auto)
  then obtain rt' t where run: "router_loop env (rt_completed rt1 + length ms) (replicate (length ms) id) (rt1, t1) = Inr (rt', t)"
    and rt': "\<not> rt_failed rt'" "rt_marker rt' = rt_marker rt1"
    and t: "rt_completed rt' = rt_completed rt1 + length ms" "store_inv t" "store_step\<^sup>*\<^sup>* t1 t" "ms \<noteq> [] \<longrightarrow> unpublished t = []"
      "request_keys t = request_keys t1 @ map (\<lambda>m. (rid_of env m, position m)) ms" "\<forall>m \<in> set ms. stored_result t (rid_of env m) \<noteq> None" by blast
  have run': "router_loop env (rt_completed rt + length (m # ms)) (replicate (length (m # ms)) id) (rt, s) = Inr (rt', t)"
    using it run rt1(5) Cons.prems(10) by simp
  have res: "stored_result t (rid_of env m) \<noteq> None" using t1(4) authority.steps_keep [OF t(3) t1(1)] by blast
  have pub: "unpublished t = []"
  proof (cases ms)
    case Nil
    then show ?thesis using run t1(3) by simp
  qed (use t(4) in simp)
  have steps: "store_step\<^sup>*\<^sup>* s t" using t1(2) t(3) by (rule rtranclp_trans)
  show ?case by (intro exI [of _ rt'] exI [of _ t] conjI run' steps t(2)) (use t rt1(5,7) rt' t1(5) res pub in simp_all)
qed simp

section \<open>From start to exit\<close>

lemma fold_consume_fields:
  "kp_messages (fold consume_message ms k) = kp_messages k @ ms"
  "kp_ownership_events (fold consume_message ms k) = kp_ownership_events k" "kp_assigned (fold consume_message ms k) = kp_assigned k"
  by (induction ms arbitrary: k) (simp_all add: consume_message_def)

lemma router_loop_poll:
  "router_loop env expected (poll # polls) (rt, s) = router_loop env expected (id # polls) (rt\<lparr>rt_poller := poll (rt_poller rt)\<rparr>, s)"
  if "rt_completed rt < expected" "\<not> rt_failed rt"
  using that by simp

text \<open>The first round after the assignment of partition \<open>p\<close> on a fresh database acquires it with epoch 1.\<close>

definition owned_store :: "int \<Rightarrow> string \<Rightarrow> DurableStore" where
  "owned_store p router = (Migrate None)\<lparr>partition_ownership := [\<lparr>ow_partition_id = p, ow_epoch = 1, ow_router_id = router\<rparr>]\<rparr>"

lemma owned_store_fields [simp]:
  "inference_requests (owned_store p router) = []" "outbox (owned_store p router) = []" "outbox_id_seq (owned_store p router) = 1"
  "partition_ownership (owned_store p router) = [\<lparr>ow_partition_id = p, ow_epoch = 1, ow_router_id = router\<rparr>]"
  by (simp_all add: owned_store_def Migrate_def)

lemma owned_store_step: "store_step (Migrate None) (owned_store p router)"
  using store_step.acquire [of p router "Migrate None" 1] by (simp add: AcquirePartition_def owned_store_def Migrate_def)

lemma first_round:
  assumes "kp_ownership_events (rt_poller rt) = [\<lparr>oe_kind = kAssigned, oe_partitions = [p]\<rparr>]" and "rt_epochs rt = []"
    and "\<not> rt_failed rt" and "rt_ready_file rt = [] \<or> env_opens env (rt_ready_file rt)" and "rt_marker rt = None"
  shows "router_iteration env (rt, Migrate None) =
    Inr (rt\<lparr>rt_poller := (rt_poller rt)\<lparr>kp_ownership_events := []\<rparr>, rt_epochs := [(p, 1)],
      rt_marker := ready_marker (rt_ready_file rt)\<rparr>, owned_store p (rt_router_id rt))"
  using assms
  by (auto simp: write_marker_def ready_marker_def Let_def router_iteration_def router_round_def PopOwnershipEvent_def handle_ownership_def AcquirePartition_def
      RecoverUnresolved_def finish_mark_def owned_store_def Migrate_def)

lemma router_main_serves:
  assumes args: "stoull (Argument args ''--requests'' ''1'') = Inr (length ms)" "stoll (Argument args ''--run-seconds'' ''20'') = Inr seconds"
      "Argument args ''--offset-reset'' ''earliest'' \<in> {''earliest'', ''latest''}"
    and ms: "ms \<noteq> []" "\<forall>m \<in> set ms. km_partition m = p" "distinct (map km_offset ms)" "distinct (map (rid_of env) ms)" "int (length ms) < i64_max"
    and engine: "\<forall>m \<in> set ms. env_parse env (km_payload m) \<noteq> None \<and> rid_of env m \<noteq> [] \<and>
      (\<forall>f. RouterDispatch (env_stub env) (request_of env m) f \<noteq> [])"
    and kafka: "\<forall>r ps. fst (env_publish env r ps)"
    and start: "env_connect env (Argument args ''--database'' default_database) = Inr None"
      "env_make_publisher env (Argument args ''--brokers'' ''localhost:9092'') = Inr publisher"
      "Argument args ''--ready-file'' [] = [] \<or> env_opens env (Argument args ''--ready-file'' [])"
  shows "\<exists>t. durable_router_main env (Some engine_id) True args
      ([rebalance_cb True [p], fold consume_message ms] @ replicate (length ms - 1) id) =
      Inr (EXIT_SUCCESS, completed_line (length ms), ready_marker (Argument args ''--ready-file'' []), t) \<and>
    (\<forall>m \<in> set ms. served t (rid_of env m) p (km_offset m))"
proof -
  obtain k where k: "MakeKafkaPoller (Argument args ''--brokers'' ''localhost:9092'')
      (Argument args ''--consumer-group'' ''infersched-router-p5'') ''inference.requests'' (Argument args ''--offset-reset'' ''earliest'') = Inr k"
    "kp_messages k = []" "kp_ownership_events k = []" "kp_assigned k = []"
    using args(3) by (auto simp: MakeKafkaPoller_def)
  let ?n = "length ms" and ?router = "Argument args ''--router-id'' ''router-p5''" and ?ready = "Argument args ''--ready-file'' []"
  define rt where "rt = \<lparr>rt_router_id = ?router, rt_engine_id = engine_id, rt_poller = Start k, rt_ingestor = MakeRequestIngestor 3,
    rt_publisher = publisher, rt_epochs = [], rt_completed = 0, rt_ready_file = ?ready, rt_marker = None, rt_failed = False\<rparr>"
  define rt0 where "rt0 = rt\<lparr>rt_poller := rebalance_cb True [p] (Start k)\<rparr>"
  define rt1 where "rt1 = rt0\<lparr>rt_poller := (rt_poller rt0)\<lparr>kp_ownership_events := []\<rparr>, rt_epochs := [(p, 1)], rt_marker := ready_marker ?ready\<rparr>"
  define rt2 where "rt2 = rt1\<lparr>rt_poller := fold consume_message ms (rt_poller rt1)\<rparr>"
  define s where "s = owned_store p ?router"
  have none_yet: "kp_messages (Start k) = []" "kp_ownership_events (Start k) = []" "kp_assigned (Start k) = []"
    using k(2-4) by (simp_all add: Start_def)
  then have ev: "kp_ownership_events (rt_poller rt0) = [\<lparr>oe_kind = kAssigned, oe_partitions = [p]\<rparr>]"
    and own: "kp_assigned (rt_poller rt0) = [p]" and none: "kp_messages (rt_poller rt0) = []"
    by (simp_all add: rt0_def rebalance_cb_def)
  have one: "router_iteration env (rt0, Migrate None) = Inr (rt1, s)"
    using first_round [OF ev, of env] start(3) by (simp add: rt1_def s_def rt0_def rt_def)
  have n: "0 < ?n" "replicate ?n id = id # replicate (?n - 1) id" using ms(1) by (cases ms; simp)+
  have loop: "router_loop env ?n ([rebalance_cb True [p], fold consume_message ms] @ replicate (?n - 1) id) (rt, Migrate None) =
      router_loop env ?n (replicate ?n id) (rt2, s)"
  proof -
    have "router_loop env ?n ([rebalance_cb True [p], fold consume_message ms] @ replicate (?n - 1) id) (rt, Migrate None) =
        router_loop env ?n (fold consume_message ms # replicate (?n - 1) id) (rt1, s)"
      using n(1) one by (simp add: rt_def rt0_def)
    also have "\<dots> = router_loop env ?n (id # replicate (?n - 1) id) (rt2, s)"
      using router_loop_poll [of rt1 ?n] n(1) by (simp add: rt1_def rt0_def rt_def rt2_def)
    finally show ?thesis unfolding n(2) .
  qed
  have inv: "store_inv s" using store_step_inv [OF Migrate_inv owned_store_step] by (simp add: s_def)
  have ok: "\<forall>m \<in> set ms. servable env rt2 s m (request_of env m) \<and> fresh_request s m (rid_of env m)"
    using ms(2) engine own by (auto simp: servable_def fresh_request_def request_keys_def s_def rt2_def rt1_def fold_consume_fields Owns_def owner_epoch_def)
  have pos: "distinct (map position ms)"
    using ms(3) by (auto simp: distinct_map inj_on_def)
  have acc: "accepting env" using kafka by (simp add: accepting_def)
  have c: "rt_completed rt2 = 0" by (simp add: rt2_def rt1_def rt0_def rt_def)
  from router_loop_serves [OF inv acc _ _ ok ms(4) pos] none ms(5) obtain rt' t
    where run: "router_loop env ?n (replicate ?n id) (rt2, s) = Inr (rt', t)" and done': "rt_completed rt' = ?n"
      "\<not> rt_failed rt'" "rt_marker rt' = ready_marker ?ready"
    and t: "store_inv t" "unpublished t = []" "request_keys t = map (\<lambda>m. (rid_of env m, position m)) ms"
      "\<forall>m \<in> set ms. stored_result t (rid_of env m) \<noteq> None"
    using ms(1) by (auto simp: rt2_def rt1_def rt0_def rt_def fold_consume_fields s_def unpublished_def request_keys_def)
  have "durable_router_main env (Some engine_id) True args
      ([rebalance_cb True [p], fold consume_message ms] @ replicate (?n - 1) id) =
      Inr (EXIT_SUCCESS, completed_line ?n, ready_marker ?ready, t)"
    using args(1,2) k(1) loop run done' start(1,2)
    by (simp add: durable_router_main_def Let_def rt_def exit_unless_def del: router_loop.simps)
  moreover have "served t (rid_of env m) p (km_offset m)" if m: "m \<in> set ms" for m
  proof -
    from t(4) m obtain v where "stored_result t (rid_of env m) = Some v" by blast
    moreover have "(rid_of env m, p, km_offset m) \<in> set (request_keys t)" using t(3) m ms(2) by (auto simp: image_iff)
    ultimately show ?thesis by (rule served_stored [OF t(1,2)])
  qed
  ultimately show ?thesis by blast
qed



end
