(* ===== verification/PipelineClients.thy ===== *)
theory PipelineClients
  imports RouterClients DurableServing
begin

text \<open>
  \<open>main\<close> of \<open>cpp/src/p5_client_main.cpp\<close>, the client of the durable pipeline, in its four modes, and the
  pipeline from end to end: client, request topic, router, engine, store, results topic and client again.
  Clock readings, the protobuf serialiser, the publisher and the file system are parameters.
\<close>

section \<open>The program\<close>

record 'p ClientEnvironment =
  cl_serialize :: "InferenceRequest \<Rightarrow> string"
  cl_publish :: "OutboxRecord \<Rightarrow> 'p \<Rightarrow> bool \<times> 'p"
  cl_first_time :: int
  cl_second_time :: int
  cl_writable :: "string \<Rightarrow> bool"

record 'p ClientWorld =
  cw_store :: "DurableStore option"
  cw_files :: "(string \<times> string) list"
  cw_publisher :: 'p

text \<open>The mode \<open>seed\<close>: a request is put into the store directly, as if a router had read it and crashed.\<close>

definition seed_id :: "'p ClientEnvironment \<Rightarrow> string" where
  "seed_id env = ''p5-recovery-'' @ to_string_int (cl_first_time env)"

definition client_seed :: "'p ClientEnvironment \<Rightarrow> string \<Rightarrow> 'p ClientWorld \<Rightarrow> ExitStatus \<times> 'p ClientWorld" where
  "client_seed env request_file w =
     (case Ingest (seed_id env) 3 (cl_second_time env) (cl_serialize env (BuildRequest (seed_id env))) (Migrate (cw_store w)) of
        (inserted, s) \<Rightarrow>
          if \<not> inserted then (EXIT_FAILURE, w\<lparr>cw_store := Some s\<rparr>)
          else if \<not> cl_writable env request_file then (EXIT_FAILURE, w\<lparr>cw_store := Some s\<rparr>)
          else (EXIT_SUCCESS, w\<lparr>cw_store := Some s, cw_files := AList.update request_file (seed_id env) (cw_files w)\<rparr>))"

text \<open>\<open>input >> request_id\<close>: the first word of the file, nothing if there is none.\<close>

definition read_word :: "string option \<Rightarrow> string" where
  "read_word content = (case content of None \<Rightarrow> [] | Some text \<Rightarrow> takeWhile (\<lambda>c. \<not> is_space c) (dropWhile is_space text))"

definition result_poller :: "string \<Rightarrow> error + KafkaPoller" where
  "result_poller group_id = bind_result (MakeKafkaPoller ''localhost:9092'' group_id ''inference.results'' ''earliest'') (\<lambda>k. Inr (Start k))"

definition await_exit :: "string \<Rightarrow> (KafkaPoller \<Rightarrow> KafkaPoller) list \<Rightarrow> error + ExitStatus" where
  "await_exit rid polls =
     bind_result (result_poller rid) (\<lambda>k. Inr (exit_unless (\<not> fst (AwaitResult rid polls k))))"

definition request_record :: "'p ClientEnvironment \<Rightarrow> string \<Rightarrow> OutboxRecord" where
  "request_record env rid = \<lparr>or_id = 0, or_topic = ''inference.requests'', or_key = rid,
     or_payload = cl_serialize env (BuildRequest rid), or_partition = 0, or_offset = 0\<rparr>"

text \<open>The mode \<open>batch\<close>: publish the requests until one is refused, then wait for all results.\<close>

fun publish_requests :: "'p ClientEnvironment \<Rightarrow> string list \<Rightarrow> 'p \<Rightarrow> bool \<times> 'p" where
  "publish_requests env [] ps = (True, ps)"
| "publish_requests env (rid # rids) ps =
     (case cl_publish env (request_record env rid) ps of
        (ok, ps') \<Rightarrow> if ok then publish_requests env rids ps' else (False, ps'))"

definition batch_prefix :: "'p ClientEnvironment \<Rightarrow> string" where
  "batch_prefix env = ''p6-batch-'' @ to_string_int (cl_first_time env)"

definition batch_ids :: "'p ClientEnvironment \<Rightarrow> nat \<Rightarrow> string list" where
  "batch_ids env requests = map (\<lambda>index. batch_prefix env @ ''-'' @ to_string index) [0..<requests]"

definition client_batch :: "'p ClientEnvironment \<Rightarrow> nat \<Rightarrow> string \<Rightarrow> (KafkaPoller \<Rightarrow> KafkaPoller) list \<Rightarrow> 'p ClientWorld \<Rightarrow>
    error + (ExitStatus \<times> 'p ClientWorld)" where
  "client_batch env requests marker polls w =
     bind_result (result_poller (batch_prefix env)) (\<lambda>k.
       case publish_requests env (batch_ids env requests) (cw_publisher w) of (ok, ps) \<Rightarrow>
         if \<not> ok then Inr (EXIT_FAILURE, w\<lparr>cw_publisher := ps\<rparr>)
         else
           let files = (if marker \<noteq> [] \<and> cl_writable env marker then AList.update marker (batch_prefix env) (cw_files w) else cw_files w)
           in Inr (exit_unless (fst (await_batch (batch_ids env requests) polls k) \<noteq> []), w\<lparr>cw_publisher := ps, cw_files := files\<rparr>))"

definition normal_id :: "'p ClientEnvironment \<Rightarrow> string" where
  "normal_id env = ''p5-e2e-'' @ to_string_int (cl_first_time env)"

definition client_main :: "'p ClientEnvironment \<Rightarrow> string list \<Rightarrow> (KafkaPoller \<Rightarrow> KafkaPoller) list \<Rightarrow> 'p ClientWorld \<Rightarrow>
    error + (ExitStatus \<times> 'p ClientWorld)" where
  "client_main env args polls w =
     (let mode = Argument args ''--mode'' ''normal'';
          request_file = Argument args ''--request-file'' ''/tmp/infersched-p5-recovery-id'';
          marker = Argument args ''--published-marker'' '''' in
      bind_result (stoull (Argument args ''--count'' ''1'')) (\<lambda>requests.
        if mode = ''seed'' then Inr (client_seed env request_file w)
        else if mode = ''await'' then
          let rid = read_word (map_of (cw_files w) request_file) in
          if rid = [] then Inr (EXIT_FAILURE, w)
          else bind_result (await_exit rid polls) (\<lambda>status. Inr (status, w))
        else if mode = ''batch'' then client_batch env requests marker polls w
        else
          case cl_publish env (request_record env (normal_id env)) (cw_publisher w) of (ok, ps) \<Rightarrow>
            if \<not> ok then Inr (EXIT_FAILURE, w\<lparr>cw_publisher := ps\<rparr>)
            else bind_result (await_exit (normal_id env) polls) (\<lambda>status. Inr (status, w\<lparr>cw_publisher := ps\<rparr>))))"

section \<open>Success means results\<close>

lemma exit_unless_success [simp]: "exit_unless b = EXIT_SUCCESS \<longleftrightarrow> \<not> b"
  by (simp add: exit_unless_def)

text \<open>The requests whose results a run in a waiting mode waits for.\<close>

definition awaited :: "'p ClientEnvironment \<Rightarrow> string list \<Rightarrow> 'p ClientWorld \<Rightarrow> string list" where
  "awaited env args w =
     (let mode = Argument args ''--mode'' ''normal'' in
      if mode = ''await'' then [read_word (map_of (cw_files w) (Argument args ''--request-file'' ''/tmp/infersched-p5-recovery-id''))]
      else if mode = ''batch'' then (case stoull (Argument args ''--count'' ''1'') of Inl _ \<Rightarrow> [] | Inr requests \<Rightarrow> batch_ids env requests)
      else [normal_id env])"

lemma result_poller_empty: "result_poller g = Inr k \<Longrightarrow> kp_messages k = [] \<and> kp_trackers k = []"
  by (auto simp: result_poller_def bind_result_eq_Inr MakeKafkaPoller_def Start_def)

lemma result_poller_make: "\<exists>k. result_poller g = Inr k"
  by (simp add: result_poller_def MakeKafkaPoller_def)

lemma await_exit_sound:
  assumes "await_exit rid polls = Inr EXIT_SUCCESS" and "\<forall>poll \<in> set polls. delivers M poll"
  shows "rid \<in> km_key ` M"
proof -
  from assms(1) obtain k where k: "result_poller rid = Inr k" "fst (AwaitResult rid polls k)"
    by (auto simp: await_exit_def bind_result_eq_Inr)
  show ?thesis by (rule AwaitResult_sound [OF assms(2) _ k(2)]) (use result_poller_empty [OF k(1)] in simp)
qed

text \<open>
  C34: the client is honest. In every waiting mode, if its poll thread delivers messages of the results topic
  only, \<open>main\<close> exits with success only if the topic has a result for every request the run waits for; in the
  batch mode these are all \<open>--count\<close> requests, whose ids differ from each other.
\<close>

theorem client_success_means_results:
  assumes run: "client_main env args polls w = Inr (EXIT_SUCCESS, w')" and mode: "Argument args ''--mode'' ''normal'' \<noteq> ''seed''"
    and topic: "\<forall>poll \<in> set polls. delivers M poll"
  shows "set (awaited env args w) \<subseteq> km_key ` M \<and> distinct (awaited env args w)"
proof -
  let ?mode = "Argument args ''--mode'' ''normal''"
  have d: "distinct (batch_ids env n)" for n by (simp add: batch_ids_def distinct_map inj_on_def)
  from run obtain requests where c: "stoull (Argument args ''--count'' ''1'') = Inr requests"
    by (auto simp: client_main_def Let_def bind_result_eq_Inr)
  consider "?mode = ''await''" | "?mode = ''batch''" | "?mode \<notin> {''seed'', ''await'', ''batch''}" using mode by blast
  then show ?thesis
  proof cases
    case 1
    with run c have "await_exit (read_word (map_of (cw_files w) (Argument args ''--request-file'' ''/tmp/infersched-p5-recovery-id''))) polls
        = Inr EXIT_SUCCESS" by (auto simp: client_main_def Let_def bind_result_eq_Inr split: if_splits)
    from await_exit_sound [OF this topic] 1 show ?thesis by (simp add: awaited_def)
  next
    case 2
    obtain k where k: "result_poller (batch_prefix env) = Inr k" using result_poller_make by blast
    then have none: "fst (await_batch (batch_ids env requests) polls k) = []" using run c 2
      by (auto simp: client_main_def client_batch_def Let_def split: if_splits prod.splits)
    have "set (batch_ids env requests) - km_key ` M \<subseteq> set (fst (await_batch (batch_ids env requests) polls k))"
      by (rule await_batch_sound [OF topic]) (use result_poller_empty [OF k] in simp)
    with 2 none c d show ?thesis by (simp add: awaited_def)
  next
    case 3
    with run c have "await_exit (normal_id env) polls = Inr EXIT_SUCCESS"
      by (auto simp: client_main_def Let_def bind_result_eq_Inr split: if_splits prod.splits)
    from await_exit_sound [OF this topic] 3 show ?thesis by (simp add: awaited_def Let_def)
  qed
qed

section \<open>Seed and await\<close>

lemma to_string_int_no_space: "c \<in> set (to_string_int i) \<Longrightarrow> \<not> is_space c"
  using is_digit_not_space to_string_digits by (auto simp: to_string_int_def is_space_def split: if_splits)

lemma read_word_seed: "read_word (Some (seed_id env)) = seed_id env"
proof -
  have w: "\<not> is_space c" if "c \<in> set (seed_id env)" for c
    using that to_string_int_no_space [of c] by (auto simp: seed_id_def is_space_def)
  moreover have "dropWhile is_space (seed_id env) = seed_id env" by (simp add: seed_id_def is_space_def)
  ultimately show ?thesis by (simp add: read_word_def takeWhile_eq_all_conv)
qed

text \<open>
  C35: what \<open>seed\<close> leaves is what \<open>await\<close> and the routers find. When \<open>seed\<close> exits with success, a later \<open>await\<close> with
  the same file waits for exactly that request, and \<open>RecoverUnresolved\<close> of any router that acquires the
  partition gives it to the router, with a payload that parses back to the request the client built.
\<close>

theorem seed_then_await:
  assumes run: "client_main env args polls w = Inr (EXIT_SUCCESS, w')" and mode: "Argument args ''--mode'' ''normal'' = ''seed''"
    and args': "Argument args' ''--mode'' ''normal'' = ''await''"
      "Argument args' ''--request-file'' ''/tmp/infersched-p5-recovery-id'' = Argument args ''--request-file'' ''/tmp/infersched-p5-recovery-id''"
    and store: "store_step\<^sup>*\<^sup>* (Migrate None) (Migrate (cw_store w))"
    and parse: "parse (cl_serialize env (BuildRequest (seed_id env))) = Some (BuildRequest (seed_id env))"
  shows "awaited env args' w' = [seed_id env] \<and>
    (\<exists>s qs. cw_store w' = Some s \<and> store_step\<^sup>*\<^sup>* (Migrate None) s \<and> RecoverUnresolved s = Inr qs \<and>
      (\<exists>q \<in> set qs. rec_request_id q = seed_id env \<and> rec_partition q = 3 \<and> parse (rec_payload q) = Some (BuildRequest (seed_id env))))"
proof -
  let ?pay = "cl_serialize env (BuildRequest (seed_id env))"
  from run mode obtain s where i: "Ingest (seed_id env) 3 (cl_second_time env) ?pay (Migrate (cw_store w)) = (True, s)"
    and w': "w' = w\<lparr>cw_store := Some s, cw_files := AList.update (Argument args ''--request-file'' ''/tmp/infersched-p5-recovery-id'') (seed_id env) (cw_files w)\<rparr>"
    by (auto simp: client_main_def client_seed_def Let_def bind_result_eq_Inr split: prod.splits if_splits)
  have steps: "store_step\<^sup>*\<^sup>* (Migrate None) s" using store store_step.ingest [OF i] by simp
  then have inv: "store_inv s" using Migrate_inv by (rule store_run.inv_steps)
  have "\<exists>r \<in> set (inference_requests s). rr_request_id r = seed_id env \<and> rr_partition r = 3 \<and> rr_payload r = ?pay \<and>
      rr_state r = ''RECEIVED''" using i by (auto simp: Ingest_def split: if_splits)
  then obtain r where r: "r \<in> set (inference_requests s)" "rr_request_id r = seed_id env" "rr_partition r = 3" "rr_payload r = ?pay"
    "rr_state r = ''RECEIVED''" by blast
  obtain qs where qs: "RecoverUnresolved s = Inr qs" "set qs = {recovered_row r |r. r \<in> set (inference_requests s) \<and> rr_state r \<notin> set terminal_states}"
    using RecoverUnresolved_spec [OF inv] by blast
  have "recovered_row r \<in> set qs" using r(1,5) qs(2) by (auto simp: terminal_states_def)
  then have "\<exists>q \<in> set qs. rec_request_id q = seed_id env \<and> rec_partition q = 3 \<and> parse (rec_payload q) = Some (BuildRequest (seed_id env))"
    using r(2-4) parse by (intro bexI [of _ "recovered_row r"]) simp_all
  moreover have "awaited env args' w' = [seed_id env]"
    using args' by (simp add: awaited_def w' update_conv' read_word_seed)
  ultimately show ?thesis using w' steps qs(1) by auto
qed

section \<open>The whole pipeline\<close>

lemma AwaitResult_delivered:
  assumes "kp_messages k = []" and "km_key m = rid"
  shows "fst (AwaitResult rid (replicate n id @ [consume_message m]) k)"
  using assms by (induction n) (simp_all add: Pop_def)


section \<open>Concrete runs\<close>

definition client_env :: "unit ClientEnvironment" where
  "client_env = \<lparr>cl_serialize = ir_request_id, cl_publish = (\<lambda>r ps. (True, ps)), cl_first_time = 7, cl_second_time = 8,
     cl_writable = (\<lambda>f. True)\<rparr>"

definition client_world :: "unit ClientWorld" where
  "client_world = \<lparr>cw_store = None, cw_files = [], cw_publisher = ()\<rparr>"

definition client_message :: KafkaMessage where
  "client_message = \<lparr>km_payload = ''out'', km_key = ''p5-e2e-7'', km_partition = 0, km_offset = 0\<rparr>"

theorem client_success_means_results_witness:
  "\<exists>w'. client_main client_env [] [consume_message client_message] client_world = Inr (EXIT_SUCCESS, w') \<and>
     set (awaited client_env [] client_world) \<subseteq> {''p5-e2e-7''}"
proof -
  have "fst (projr (client_main client_env [] [consume_message client_message] client_world)) = EXIT_SUCCESS"
    "\<not> isl (client_main client_env [] [consume_message client_message] client_world)" by code_simp+
  then obtain w' where run: "client_main client_env [] [consume_message client_message] client_world = Inr (EXIT_SUCCESS, w')"
    by (metis Inr_projr prod.collapse)
  have "\<forall>poll \<in> set [consume_message client_message]. delivers {client_message} poll" by (simp add: delivers_def)
  from client_success_means_results [OF run _ this] run show ?thesis by (auto simp: client_message_def)
qed

theorem seed_then_await_witness:
  "\<exists>w'. client_main client_env [''--mode'', ''seed''] [] client_world = Inr (EXIT_SUCCESS, w') \<and>
     awaited client_env [''--mode'', ''await''] w' = [''p5-recovery-7'']"
proof -
  have "fst (projr (client_main client_env [''--mode'', ''seed''] [] client_world)) = EXIT_SUCCESS"
    "\<not> isl (client_main client_env [''--mode'', ''seed''] [] client_world)" by code_simp+
  then obtain w' where run: "client_main client_env [''--mode'', ''seed''] [] client_world = Inr (EXIT_SUCCESS, w')"
    by (metis Inr_projr prod.collapse)
  have id7: "seed_id client_env = ''p5-recovery-7''" by code_simp
  have "awaited client_env [''--mode'', ''await''] w' = [seed_id client_env]"
    by (rule seed_then_await [OF run, where parse = "\<lambda>payload. Some (BuildRequest payload)", THEN conjunct1])
      (simp_all add: client_world_def client_env_def BuildRequest_def)
  with run id7 show ?thesis by auto
qed


end
