(* ===== verification/RouterExits.thy ===== *)
theory RouterExits
  imports DurableServing
begin

text \<open>
  What the outside can conclude from the durable router (\<open>cpp/src/durable_router_main.cpp\<close>): from its readiness file,
  that it owns the partitions it was assigned; from its exit status and its printed number, that so many
  requests have been completed.
\<close>

section \<open>Counting results\<close>

text \<open>The result rows in the outbox: one per completed request.\<close>

definition result_count :: "DurableStore \<Rightarrow> nat" where
  "result_count s = length (filter (\<lambda>topic. topic = ''inference.results'') (map ob_topic (outbox s)))"

lemma result_count_cong: "map ob_topic (outbox t) = map ob_topic (outbox s) \<Longrightarrow> result_count t = result_count s"
  by (simp add: result_count_def)

lemma MarkPublished_result_count [simp]: "result_count (MarkPublished now oid s) = result_count s"
  unfolding MarkPublished_def by (rule result_count_cong) (simp, rule sql_update_keeps, simp)

lemma relay_all_keeps:
  assumes "relay_all env (rt, s) = (rt', t)"
  shows "result_count t = result_count s" "partition_ownership t = partition_ownership s" "rt' = rt\<lparr>rt_publisher := rt_publisher rt'\<rparr>"
proof -
  have c: "result_count (fold (\<lambda>r. MarkPublished now (or_id r)) rs s) = result_count s" for now rs
    by (induction rs arbitrary: s) simp_all
  from assms publish_loop_spec [of "env_publish env" "env_now env" "FetchUnpublished 1000 s" "rt_publisher rt" s 0]
  show "result_count t = result_count s" "partition_ownership t = partition_ownership s" "rt' = rt\<lparr>rt_publisher := rt_publisher rt'\<rparr>"
    by (auto simp: relay_all_def PublishBatch_def Let_def fold_MarkPublished_fields c)
qed

lemma execute_count:
  assumes inv: "store_inv s" and "execute env request p rt s = Inr (ok, t)"
  shows "result_count t = result_count s + (if ok then 1 else 0)" "partition_ownership t = partition_ownership s"
proof -
  have "result_count t = result_count s + (if ok then 1 else 0) \<and> partition_ownership t = partition_ownership s"
    using assms(2)
  proof (cases rule: execute_cases)
    case (assigned e a)
    then show ?thesis by (auto elim!: AssignAttempt_cases simp: result_count_def)
  next
    case (finalized e a s1 v)
    have s1: "store_inv s1" "outbox s1 = outbox s" "partition_ownership s1 = partition_ownership s"
      using AssignAttempt_inv [OF inv finalized(1)] finalized(1) by (auto elim!: AssignAttempt_cases)
    show ?thesis
    proof (cases ok)
      case True
      then obtain r where "t = accept (ir_request_id request) v r s1" using Finalize_accepted [OF s1(1)] finalized(2) by metis
      with s1 True show ?thesis by (simp add: accept_select result_count_def)
    next
      case False
      with finalized(2) s1 show ?thesis by (auto elim!: Finalize_cases simp: result_count_def)
    qed
  qed (auto simp: result_count_def)
  then show "result_count t = result_count s + (if ok then 1 else 0)" "partition_ownership t = partition_ownership s" by simp_all
qed

lemma Handle_count:
  assumes "Handle parse p off payload (g, s) = Inr (out, g', t)"
  shows "result_count t = result_count s"
proof (cases "parsed_request parse payload")
  case None
  with assms show ?thesis
    by (auto simp: Handle_def Let_def bind_result_eq_Inr RecordPoison_def insert_outbox_def result_count_def split: if_splits)
next
  case (Some r)
  then have "snd (Ingest (ir_request_id r) p off payload s) = t"
    using assms by (auto simp: Handle_def Let_def split: prod.splits)
  then show ?thesis by (auto simp: Ingest_def result_count_def)
qed

section \<open>Ownership\<close>

text \<open>The router holds the partition: its epoch is the current one of the store, under the router's name.\<close>

definition holds_partition :: "'p RouterState \<Rightarrow> DurableStore \<Rightarrow> int \<Rightarrow> bool" where
  "holds_partition rt s p \<longleftrightarrow> (\<exists>e. map_of (rt_epochs rt) p = Some e \<and>
     \<lparr>ow_partition_id = p, ow_epoch = int e, ow_router_id = rt_router_id rt\<rparr> \<in> set (partition_ownership s))"

lemma AcquirePartition_holds:
  assumes "AcquirePartition p (rt_router_id rt) s = Inr (e, t)"
  shows "holds_partition (rt\<lparr>rt_epochs := AList.update p e (rt_epochs rt)\<rparr>) t p"
    and "holds_partition rt s q \<Longrightarrow> q \<noteq> p \<Longrightarrow> holds_partition (rt\<lparr>rt_epochs := AList.update p e (rt_epochs rt)\<rparr>) t q"
    and "result_count t = result_count s"
proof -
  have "holds_partition (rt\<lparr>rt_epochs := AList.update p e (rt_epochs rt)\<rparr>) t p \<and>
    (holds_partition rt s q \<longrightarrow> q \<noteq> p \<longrightarrow> holds_partition (rt\<lparr>rt_epochs := AList.update p e (rt_epochs rt)\<rparr>) t q) \<and>
    result_count t = result_count s"
    using assms
  proof (cases rule: AcquirePartition_cases)
    case new
    then show ?thesis by (auto simp: holds_partition_def update_conv' result_count_def)
  next
    case (bump o')
    have "\<lparr>ow_partition_id = p, ow_epoch = int e, ow_router_id = rt_router_id rt\<rparr> \<in> set (partition_ownership t)"
      using bump by (auto simp: set_sql_update intro!: bexI [of _ o'])
    moreover have "x \<in> set (partition_ownership t)" if "x \<in> set (partition_ownership s)" "ow_partition_id x \<noteq> p" for x
      using bump(6) that by (auto simp: set_sql_update)
    ultimately show ?thesis using bump(6) by (auto simp: holds_partition_def update_conv' result_count_def)
  qed
  then show "holds_partition (rt\<lparr>rt_epochs := AList.update p e (rt_epochs rt)\<rparr>) t p"
    "holds_partition rt s q \<Longrightarrow> q \<noteq> p \<Longrightarrow> holds_partition (rt\<lparr>rt_epochs := AList.update p e (rt_epochs rt)\<rparr>) t q"
    "result_count t = result_count s" by simp_all
qed

lemma acquire_all_holds:
  assumes "acquire_all ps (rt, s) = Inr (rt', t)"
  shows "\<forall>p. p \<in> set ps \<or> holds_partition rt s p \<longrightarrow> holds_partition rt' t p" and "result_count t = result_count s"
    and "rt' = rt\<lparr>rt_epochs := rt_epochs rt'\<rparr>"
proof -
  have "(\<forall>p. p \<in> set ps \<or> holds_partition rt s p \<longrightarrow> holds_partition rt' t p) \<and> result_count t = result_count s \<and>
    rt' = rt\<lparr>rt_epochs := rt_epochs rt'\<rparr>"
    using assms
  proof (induction ps arbitrary: rt s)
    case (Cons p ps)
    then obtain e s1 where a: "AcquirePartition p (rt_router_id rt) s = Inr (e, s1)"
      and r: "acquire_all ps (rt\<lparr>rt_epochs := AList.update p e (rt_epochs rt)\<rparr>, s1) = Inr (rt', t)"
      by (auto simp: bind_result_eq_Inr)
    note h = AcquirePartition_holds [OF a]
    have "holds_partition rt' t q" if "q \<in> set (p # ps) \<or> holds_partition rt s q" for q
      using Cons.IH [OF r] h(1) h(2) [of q] that by (cases "q = p") auto
    with Cons.IH [OF r] h(3) show ?case by simp
  qed simp
  then show "\<forall>p. p \<in> set ps \<or> holds_partition rt s p \<longrightarrow> holds_partition rt' t p" "result_count t = result_count s"
    "rt' = rt\<lparr>rt_epochs := rt_epochs rt'\<rparr>" by blast+
qed

text \<open>What the serving of requests leaves alone in a router.\<close>

definition same_role :: "'p RouterState \<Rightarrow> 'p RouterState \<Rightarrow> bool" where
  "same_role rt rt' \<longleftrightarrow> rt_epochs rt' = rt_epochs rt \<and> rt_router_id rt' = rt_router_id rt \<and> rt_marker rt' = rt_marker rt \<and>
     rt_failed rt' = rt_failed rt"

lemma same_role_refl [simp]: "same_role rt rt"
  by (simp add: same_role_def)

lemma same_role_publisher: "rt' = rt\<lparr>rt_publisher := ps\<rparr> \<Longrightarrow> same_role rt rt' \<and> rt_completed rt' = rt_completed rt"
  by (simp add: same_role_def)

lemma holds_partition_cong:
  "same_role rt rt' \<Longrightarrow> partition_ownership t = partition_ownership s \<Longrightarrow> holds_partition rt' t p = holds_partition rt s p"
  by (simp add: same_role_def holds_partition_def)

lemma recover_all_keeps:
  assumes "store_inv s" and "recover_all env qs (rt, s) = Inr (rt', t)"
  shows "rt_completed rt' + result_count s = rt_completed rt + result_count t \<and> partition_ownership t = partition_ownership s \<and> same_role rt rt'"
  using assms
proof (induction qs arbitrary: rt s)
  case (Cons q qs)
  show ?case
  proof (cases "rec_partition q \<in> fst ` set (rt_epochs rt) \<and> env_parse env (rec_payload q) \<noteq> None")
    case False
    then show ?thesis using Cons by (auto split: if_splits option.splits)
  next
    case True
    then obtain request where r: "env_parse env (rec_payload q) = Some request" by blast
    then obtain ok s1 where e: "execute env request (rec_partition q) rt s = Inr (ok, s1)"
      using Cons.prems(2) True by (auto simp: bind_result_eq_Inr)
    note c = execute_count [OF Cons.prems(1) e]
    have i1: "store_inv s1" using store_run.inv_steps [OF execute_steps [OF e] Cons.prems(1)] .
    obtain rt2 s2 where l: "relay_all env (rt, s1) = (rt2, s2)" by force
    note k = relay_all_keeps [OF l]
    show ?thesis
    proof (cases ok)
      case t: True
      have "recover_all env qs (rt2\<lparr>rt_completed := Suc (rt_completed rt2)\<rparr>, s2) = Inr (rt', t)"
        using Cons.prems(2) True r e t l by (simp add: Let_def)
      from Cons.IH [OF store_run.inv_steps [OF relay_all_spec(1) [OF i1 l] i1] this] same_role_publisher [OF k(3)] k(1,2) c t
      show ?thesis by (auto simp: same_role_def)
    next
      case f: False
      then have "recover_all env qs (rt, s1) = Inr (rt', t)" using Cons.prems(2) True r e by simp
      from Cons.IH [OF i1 this] c f show ?thesis by simp
    qed
  qed
qed simp

lemma handle_ownership_keeps:
  assumes inv: "store_inv s" and h: "handle_ownership env ev (rt, s) = Inr (rt', t)"
  shows "rt_completed rt' + result_count s = rt_completed rt + result_count t"
    and "oe_kind ev = kAssigned \<Longrightarrow> p \<in> set (oe_partitions ev) \<Longrightarrow> holds_partition rt' t p"
    and "rt_marker rt' = rt_marker rt \<or> oe_kind ev = kAssigned \<and> rt_marker rt' = Some (''assigned'' @ [CHR 0x0A])"
proof -
  have "rt_completed rt' + result_count s = rt_completed rt + result_count t \<and>
    (oe_kind ev = kAssigned \<longrightarrow> p \<in> set (oe_partitions ev) \<longrightarrow> holds_partition rt' t p) \<and>
    (rt_marker rt' = rt_marker rt \<or> oe_kind ev = kAssigned \<and> rt_marker rt' = Some (''assigned'' @ [CHR 0x0A]))"
  proof (cases "oe_kind ev")
    case kAssigned
    then obtain rt1 s1 where a: "acquire_all (oe_partitions ev) (rt, s) = Inr (rt1, s1)"
      using h by (auto simp: handle_ownership_def bind_result_eq_Inr)
    note q = acquire_all_holds [OF a]
    let ?rt = "write_marker env rt1"
    have m: "rt_marker ?rt = rt_marker rt1 \<or> rt_marker ?rt = Some (''assigned'' @ [CHR 0x0A])" by (simp add: write_marker_def)
    have f: "rt_completed rt1 = rt_completed rt" "rt_marker rt1 = rt_marker rt"
      using arg_cong [OF q(3), of rt_completed] arg_cong [OF q(3), of rt_marker] by simp_all
    have p: "holds_partition ?rt s1 x = holds_partition rt1 s1 x" for x by (simp add: holds_partition_def)
    show ?thesis
    proof (cases "rt_failed ?rt")
      case True
      then have "rt' = ?rt" "t = s1" using h kAssigned a by (auto simp: handle_ownership_def Let_def)
      then show ?thesis using q(1,2) m f p kAssigned by auto
    next
      case False
      then obtain qs where "recover_all env qs (?rt, s1) = Inr (rt', t)"
        using h kAssigned a by (auto simp: handle_ownership_def bind_result_eq_Inr Let_def)
      moreover have "store_inv s1" using store_run.inv_steps [OF _ inv] acquire_all_steps [OF a] by blast
      ultimately have r: "rt_completed rt' + result_count s1 = rt_completed ?rt + result_count t"
        "partition_ownership t = partition_ownership s1" "same_role ?rt rt'" using recover_all_keeps by blast+
      have "rt_marker rt' = rt_marker ?rt" using r(3) by (simp add: same_role_def)
      with r(1) q(1,2) m f p holds_partition_cong [OF r(3,2)] kAssigned show ?thesis by auto
    qed
  qed (use h in \<open>auto simp: handle_ownership_def\<close>)
  then show "rt_completed rt' + result_count s = rt_completed rt + result_count t"
    "oe_kind ev = kAssigned \<Longrightarrow> p \<in> set (oe_partitions ev) \<Longrightarrow> holds_partition rt' t p"
    "rt_marker rt' = rt_marker rt \<or> oe_kind ev = kAssigned \<and> rt_marker rt' = Some (''assigned'' @ [CHR 0x0A])" by blast+
qed

section \<open>Messages and the loop\<close>

definition counted_mark :: "MarkAction \<Rightarrow> nat" where
  "counted_mark a = (case a of NoMark \<Rightarrow> 0 | Mark p off counts \<Rightarrow> if counts then 1 else 0)"

lemma counted_mark_if [simp]: "counted_mark NoMark = 0" "counted_mark (mark_if_published m False s) = 0" "counted_mark (mark_if_published m b s) \<le> 1"
  by (simp_all add: counted_mark_def mark_if_published_def)

lemma handle_message_count:
  assumes inv: "store_inv s" and h: "handle_message env m (rt, s) = Inr (a, rt', t)"
  shows "result_count s + counted_mark a \<le> result_count t \<and> rt_completed rt' = rt_completed rt \<and> same_role rt rt'"
proof (cases "Owns (km_partition m) (rt_poller rt)")
  case False
  then show ?thesis using h by (simp add: handle_message_def)
next
  case True
  then obtain out g s1 where hd: "Handle (env_parse env) (km_partition m) (km_offset m) (km_payload m) (rt_ingestor rt, s) = Inr (out, g, s1)"
    using h by (auto simp: handle_message_def bind_result_eq_Inr)
  let ?rt = "rt\<lparr>rt_ingestor := g\<rparr>"
  have i1: "store_inv s1" using store_run.inv_steps [OF Handle_store_step [OF hd] inv] .
  note c1 = Handle_count [OF hd]
  have role: "same_role rt x \<and> rt_completed x = rt_completed rt" if "relay_all env (?rt, u) = (x, v)" for x u v
    using same_role_publisher [OF relay_all_keeps(3) [OF that]] by (simp add: same_role_def)
  obtain rt2 s2 where l: "relay_all env (?rt, s1) = (rt2, s2)" by force
  consider "out = kRetryParse" | "out = kPoisonRecorded" | "out \<noteq> kRetryParse" "out \<noteq> kPoisonRecorded" "env_parse env (km_payload m) = None"
    | request where "out \<noteq> kRetryParse" "out \<noteq> kPoisonRecorded" "env_parse env (km_payload m) = Some request" "IsTerminal (ir_request_id request) s1"
    | request where "out \<noteq> kRetryParse" "out \<noteq> kPoisonRecorded" "env_parse env (km_payload m) = Some request" "\<not> IsTerminal (ir_request_id request) s1"
    by fastforce
  then show ?thesis
  proof cases
    case 5
    then obtain ok s3 where e: "execute env request (km_partition m) ?rt s1 = Inr (ok, s3)"
      using h True hd by (auto simp: handle_message_def Let_def bind_result_eq_Inr)
    obtain rt4 s4 where l4: "relay_all env (?rt, s3) = (rt4, s4)" by force
    from role [OF l4] relay_all_keeps(1) [OF l4] execute_count(1) [OF i1 e] c1 show ?thesis
      using h True hd 5 e l4 counted_mark_if(3) [of m True s4] by (cases ok) (auto simp: handle_message_def Let_def same_role_def)
  qed (use h True hd l role [OF l] relay_all_keeps(1) [OF l] c1 in \<open>auto simp: handle_message_def Let_def same_role_def\<close>)
qed

lemma finish_mark_fields:
  "rt_completed (finish_mark a rt) = rt_completed rt + counted_mark a" "same_role rt (finish_mark a rt)"
  by (cases a; simp add: finish_mark_def counted_mark_def same_role_def)+

text \<open>A round ends with an ownership event, a message, or nothing to do.\<close>

lemma router_iteration_cases:
  assumes "router_iteration env (rt, s) = Inr (rt', t)"
  obtains (event) ev es where "kp_ownership_events (rt_poller rt) = ev # es"
      "handle_ownership env ev (rt\<lparr>rt_poller := (rt_poller rt)\<lparr>kp_ownership_events := es\<rparr>\<rparr>, s) = Inr (rt', t)"
  | (message) m ms a rt1 where "kp_messages (rt_poller rt) = m # ms" "rt' = finish_mark a rt1"
      "handle_message env m (rt\<lparr>rt_poller := (rt_poller rt)\<lparr>kp_messages := ms\<rparr>\<rparr>, s) = Inr (a, rt1, t)"
  | (idle) "rt' = rt" "t = s"
proof (cases "kp_ownership_events (rt_poller rt)")
  case Nil
  show ?thesis
  proof (cases "kp_messages (rt_poller rt)")
    case n: Nil
    then show ?thesis using assms Nil idle
      by (simp add: router_iteration_def router_round_def PopOwnershipEvent_def Pop_def finish_mark_def)
  next
    case (Cons m ms)
    then show ?thesis using assms Nil message [of m ms]
      by (auto simp: router_iteration_def router_round_def PopOwnershipEvent_def Pop_def bind_result_eq_Inr)
  qed
next
  case (Cons ev es)
  then show ?thesis using assms event [of ev es]
    by (auto simp: router_iteration_def router_round_def PopOwnershipEvent_def bind_result_eq_Inr finish_mark_def)
qed

lemma router_iteration_count:
  assumes inv: "store_inv s" and "router_iteration env (rt, s) = Inr (rt', t)"
  shows "store_inv t \<and> rt_completed rt' + result_count s \<le> rt_completed rt + result_count t"
proof -
  obtain a rt1 where "router_round env (rt, s) = Inr (a, rt1, t)"
    using assms(2) by (auto simp: router_iteration_def bind_result_eq_Inr)
  then have t: "store_inv t" using router_round_spec [OF inv] store_run.inv_steps [OF _ inv] by blast
  show ?thesis
    using assms(2)
  proof (cases rule: router_iteration_cases)
    case (event ev es)
    from handle_ownership_keeps(1) [OF inv event(2)] t show ?thesis by simp
  next
    case (message m ms a rt1)
    from handle_message_count [OF inv message(3)] finish_mark_fields(1) [of a rt1] message(2) t show ?thesis by simp
  qed (use inv in simp)
qed

lemma router_loop_count:
  "store_inv s \<Longrightarrow> router_loop env expected polls (rt, s) = Inr (rt', t) \<Longrightarrow>
    rt_completed rt' + result_count s \<le> rt_completed rt + result_count t"
proof (induction polls arbitrary: rt s)
  case (Cons poll polls)
  show ?case
  proof (cases "rt_completed rt < expected \<and> \<not> rt_failed rt")
    case True
    then obtain rt1 s1 where i: "router_iteration env (rt\<lparr>rt_poller := poll (rt_poller rt)\<rparr>, s) = Inr (rt1, s1)"
      and l: "router_loop env expected polls (rt1, s1) = Inr (rt', t)"
      using Cons.prems(2) by (auto simp: bind_result_eq_Inr)
    from router_iteration_count [OF Cons.prems(1) i] Cons.IH [of s1 rt1] l show ?thesis by simp
  next
    case False
    then show ?thesis using Cons.prems(2) by (simp split: if_splits)
  qed
qed simp

section \<open>Properties\<close>



text \<open>
  C23: the exit status tells what was done. Whatever the engine, Kafka and the partitions do, when \<open>main\<close> returns it
  has either failed without a summary, or printed a number of which it exits with success exactly if it is
  at least the number of requests asked for; and at least so many requests have been completed in this run,
  each with its own result row in the outbox.
\<close>

theorem exit_status_means_completed:
  assumes "stoull (Argument args ''--requests'' ''1'') = Inr expected"
    and "env_connect env (Argument args ''--database'' default_database) = Inr db" and "store_step\<^sup>*\<^sup>* (Migrate None) (Migrate db)"
    and "durable_router_main env engine started args polls = Inr (status, out, marker, t)"
  shows "status = EXIT_FAILURE \<and> out = [] \<or>
    (\<exists>n. out = completed_line n \<and> (status = EXIT_SUCCESS \<longleftrightarrow> expected \<le> n) \<and> result_count (Migrate db) + n \<le> result_count t)"
proof (cases "status = EXIT_FAILURE \<and> out = []")
  case False
  then obtain rt0 rt where loop: "router_loop env expected polls (rt0, Migrate db) = Inr (rt, t)" and start: "rt_completed rt0 = 0"
    and end': "status = exit_unless (\<not> expected \<le> rt_completed rt)" "out = completed_line (rt_completed rt)"
    using assms(1,2,4)
    by (fastforce simp: durable_router_main_def Let_def bind_result_eq_Inr split: option.splits if_splits)
  have "store_inv (Migrate db)" using assms(3) Migrate_inv by (rule store_run.inv_steps)
  from router_loop_count [OF this loop] start end' show ?thesis by (auto simp: exit_unless_def)
qed simp

text \<open>
  The program's own publisher: the environment in which records go through \<open>KafkaOutboxPublisher\<close>, with the answers of
  librdkafka as arguments (does \<open>produce\<close> take a record, and which reports do the polls serve).
\<close>

definition kafka_environment :: "ProducerLibrary \<Rightarrow> (OutboxRecord \<Rightarrow> bool) \<Rightarrow> (OutboxRecord \<Rightarrow> (int \<times> bool) list list) \<Rightarrow> 'p Environment \<Rightarrow>
    KafkaOutboxPublisher Environment" where
  "kafka_environment lib produce reports env = \<lparr>env_parse = env_parse env, env_stub = env_stub env,
     env_publish = (\<lambda>r st. Publish (produce r) (reports r) r st), env_now = env_now env, env_connect = env_connect env,
     env_make_publisher = MakeKafkaOutboxPublisher lib, env_opens = env_opens env\<rparr>"

definition demo_kafka :: "KafkaOutboxPublisher Environment" where
  "demo_kafka = kafka_environment \<lparr>conf_set = (\<lambda>_ _. None), conf_set_dr_cb = None, Producer_create = None\<rparr>
     (\<lambda>r. True) (\<lambda>r. [[], [(or_id r, True)]]) demo_env"

text \<open>A run with a delivery report in the second poll.\<close>

theorem exit_status_means_completed_witness:
  "\<exists>out marker t. durable_router_main demo_kafka (Some ''e'') True [] [rebalance_cb True [0], consume_message (demo_message 0 ''q'')] =
     Inr (EXIT_SUCCESS, out, marker, t) \<and> 1 \<le> result_count t"
proof -
  let ?run = "durable_router_main demo_kafka (Some ''e'') True [] [rebalance_cb True [0], consume_message (demo_message 0 ''q'')]"
  have ok: "\<not> isl ?run" "fst (projr ?run) = EXIT_SUCCESS" by code_simp+
  obtain out marker t where run: "?run = Inr (EXIT_SUCCESS, out, marker, t)"
    using Inr_projr [OF ok(1)] ok(2) by (metis prod.collapse)
  have "stoull (Argument [] ''--requests'' ''1'') = Inr 1" by code_simp
  moreover have "env_connect demo_kafka (Argument [] ''--database'' default_database) = Inr None"
    by (simp add: demo_kafka_def kafka_environment_def demo_env_def)
  ultimately show ?thesis using exit_status_means_completed [OF _ _ rtranclp.rtrancl_refl run] run by fastforce
qed

end
