(* ===== verification/DurableTypes.thy ===== *)
theory DurableTypes
  imports DurableFencing
begin

text \<open>
  The types of the columns of \<open>cpp/src/durable_store.cpp\<close>. The code keeps counters as \<open>uint64_t\<close> and
  PostgreSQL keeps them as \<open>BIGINT\<close>; \<open>CheckedUint64\<close> and \<open>CheckedInt64\<close> convert between the two and throw
  on a value that does not fit. It is shown that every value the store ever holds fits both types, so
  that reading back what was written never throws.
\<close>

section \<open>Values of both types\<close>

definition counter_ok :: "int \<Rightarrow> bool" where
  "counter_ok v \<longleftrightarrow> CheckedUint64 v = Inr (nat v) \<and> CheckedInt64 (nat v) = Inr v"

lemma counter_ok_iff: "counter_ok v \<longleftrightarrow> 0 \<le> v \<and> v \<le> i64_max"
  by (auto simp: counter_ok_def)

text \<open>What \<open>store_inv\<close> leaves open: outbox ids and dispatch epochs are positive.\<close>

definition ids_ok :: "DurableStore \<Rightarrow> bool" where
  "ids_ok s \<longleftrightarrow> 0 < outbox_id_seq s \<and> outbox_id_seq s \<le> i64_max \<and> (\<forall>b \<in> set (outbox s). 0 < ob_id b) \<and>
     (\<forall>r \<in> set (inference_requests s). \<forall>e. rr_epoch r = Some e \<longrightarrow> 0 < e)"

lemma insert_outbox_ids:
  assumes "insert_outbox topic key payload p off s = Inr t" and "ids_ok s"
  shows "ids_ok t"
  using assms by (auto simp: insert_outbox_def ids_ok_def bind_result_eq_Inr split: if_splits)

lemma ids_ok_update:
  assumes "ids_ok s" and "\<And>q. q \<in> set (inference_requests s) \<Longrightarrow> sel q \<Longrightarrow> rr_epoch (upd q) = rr_epoch q \<or> (\<exists>e > 0. rr_epoch (upd q) = Some e)"
  shows "ids_ok (s\<lparr>inference_requests := sql_update sel upd (inference_requests s)\<rparr>)"
proof -
  have "0 < e" if q: "q \<in> set (inference_requests s)" and e: "rr_epoch (if sel q then upd q else q) = Some e" for q e
    using assms(1) [unfolded ids_ok_def] assms(2) [OF q] q e by (cases "sel q") force+
  with assms(1) show ?thesis by (auto simp: ids_ok_def set_sql_update simp del: if_split)
qed

lemma store_step_ids:
  assumes "store_step s t" and inv: "store_inv s" and ids: "ids_ok s"
  shows "ids_ok t"
  using assms(1)
proof cases
  case (acquire p router n)
  then show ?thesis using ids by (auto elim!: AcquirePartition_cases simp: ids_ok_def)
next
  case (ingest rid p off payload b)
  then show ?thesis using ids by (auto simp: Ingest_def ids_ok_def split: if_splits)
next
  case (assign rid p epoch engine a)
  then show ?thesis
  proof (cases rule: AssignAttempt_cases)
    case (some r)
    have "0 < int epoch" using some(2) inv by (auto simp: assign_sel_def store_inv_def)
    then show ?thesis unfolding some(9) by (intro ids_ok_update [OF ids]) simp
  qed (use ids in simp)
next
  case (transit rid v frm nxt b)
  then show ?thesis
  proof (cases rule: Transition_cases)
    case (some r)
    then show ?thesis by (simp add: ids_ok_update [OF ids])
  qed (use ids in simp)
next
  case (finalize rid f payload b)
  then show ?thesis
  proof (cases rule: Finalize_cases)
    case (some r)
    then show ?thesis by (elim insert_outbox_ids) (simp add: ids_ok_update [OF ids])
  qed (use ids in simp)
next
  case (poison p off payload err b)
  have "ids_ok (s\<lparr>poison_messages := ms\<rparr>)" for ms using ids by (simp add: ids_ok_def)
  with poison ids show ?thesis
    by (auto simp: RecordPoison_def bind_result_eq_Inr intro: insert_outbox_ids split: if_splits)
next
  case (mark now oid)
  then show ?thesis using ids by (auto simp: MarkPublished_def ids_ok_def set_sql_update)
qed

lemma store_steps_typed:
  assumes "store_step\<^sup>*\<^sup>* (Migrate None) s"
  shows "store_inv s \<and> ids_ok s"
  using assms
proof induction
  case base
  then show ?case using Migrate_inv by (simp add: ids_ok_def Migrate_def)
next
  case (step s t)
  then show ?case using store_step_ids store_run.inv_steps [OF rtranclp.rtrancl_into_rtrancl [OF step.hyps] Migrate_inv] by blast
qed

section \<open>No conversion fails\<close>

lemma AcquirePartition_error:
  assumes "store_inv s" and "AcquirePartition p router s = Inl err"
  shows "err = RuntimeError ''bigint out of range''"
proof (cases "filter (\<lambda>o'. ow_partition_id o' = p) (partition_ownership s)")
  case Nil
  then show ?thesis using assms(2) by (simp add: AcquirePartition_def)
next
  case (Cons q qs)
  then have "0 < ow_epoch q" using assms(1) filter_Cons_in [OF Cons] by (auto simp: store_inv_def)
  then show ?thesis using assms(2) Cons
    by (auto simp: AcquirePartition_def bind_result_def bigint_succ_def CheckedUint64_def split: if_splits)
qed

lemma AssignAttempt_error:
  assumes "store_inv s" and "AssignAttempt rid p epoch engine s = Inl err" and "int epoch \<le> i64_max"
  shows "err = RuntimeError ''bigint out of range''"
proof (cases "filter (assign_sel rid p (int epoch) s) (inference_requests s)")
  case Nil
  then show ?thesis using assms(2,3) by (simp add: AssignAttempt_def CheckedInt64_def)
next
  case (Cons r rs)
  then have "row_ok r" using assms(1) filter_Cons_in [OF Cons] by (auto simp: store_inv_def)
  then show ?thesis using assms(2,3) Cons
    by (auto simp: row_ok_def AssignAttempt_def bind_result_def CheckedInt64_def bigint_succ_def CheckedUint64_def split: if_splits)
qed

text \<open>
  C30: every value in the tables is well typed. In every reachable state of the store the ownership epochs,
  the state versions and the attempt numbers fit both \<open>BIGINT\<close> and \<open>uint64_t\<close>; a request that was never
  dispatched has neither epoch nor engine, and one that was has both, with a positive epoch and attempt;
  outbox ids are positive and below the sequence. So \<open>AcquirePartition\<close> and \<open>AssignAttempt\<close> with an epoch
  that was ever handed out fail only when a counter is used up, never because a stored value is negative.
\<close>

theorem store_values_typed:
  assumes "store_step\<^sup>*\<^sup>* (Migrate None) s"
  shows "(\<forall>o' \<in> set (partition_ownership s). counter_ok (ow_epoch o')) \<and>
    (\<forall>r \<in> set (inference_requests s). counter_ok (rr_state_version r) \<and> counter_ok (rr_attempt_id r) \<and>
      (case rr_epoch r of None \<Rightarrow> rr_engine_id r = None \<and> rr_attempt_id r = 0
       | Some e \<Rightarrow> rr_engine_id r \<noteq> None \<and> 0 < rr_attempt_id r \<and> 0 < e \<and> counter_ok e)) \<and>
    (\<forall>b \<in> set (outbox s). 0 < ob_id b \<and> ob_id b < outbox_id_seq s) \<and> outbox_id_seq s \<le> i64_max \<and>
    (\<forall>p router err. AcquirePartition p router s = Inl err \<longrightarrow> err = RuntimeError ''bigint out of range'') \<and>
    (\<forall>rid p epoch engine err. counter_ok (int epoch) \<and> AssignAttempt rid p epoch engine s = Inl err \<longrightarrow>
      err = RuntimeError ''bigint out of range'')"
proof -
  have inv: "store_inv s" and ids: "ids_ok s" using store_steps_typed [OF assms] by simp_all
  have row: "row_ok r" "epoch_ok s r" "\<And>e. rr_epoch r = Some e \<Longrightarrow> 0 < e" if "r \<in> set (inference_requests s)" for r
    using inv ids that by (auto simp: store_inv_def ids_ok_def)
  show ?thesis
  proof (intro conjI ballI)
    fix r
    assume r: "r \<in> set (inference_requests s)"
    show "counter_ok (rr_state_version r)" "counter_ok (rr_attempt_id r)"
      using row(1) [OF r] by (auto simp: counter_ok_iff row_ok_def)
    have "e \<le> i64_max" if "rr_epoch r = Some e" for e
      using row(2) [OF r] inv that by (fastforce simp: epoch_ok_def store_inv_def)
    then show "case rr_epoch r of None \<Rightarrow> rr_engine_id r = None \<and> rr_attempt_id r = 0
       | Some e \<Rightarrow> rr_engine_id r \<noteq> None \<and> 0 < rr_attempt_id r \<and> 0 < e \<and> counter_ok e"
      using row(1,3) [OF r] by (auto simp: row_ok_def counter_ok_iff split: option.split)
  qed (use inv ids AcquirePartition_error [OF inv] AssignAttempt_error [OF inv] in
    \<open>auto simp: counter_ok_iff store_inv_def ids_ok_def keys_ok_def\<close>)
qed

theorem store_values_typed_witness: "map rr_attempt_id (inference_requests run_second) = [2] \<and> counter_ok 2"
  using store_values_typed [OF run_steps(4)] by (simp add: run_received_def)

end
