(* ===== verification/ContinuousTiming.thy ===== *)
theory ContinuousTiming
  imports ContinuousProgress
begin

text \<open>
  Simulated time in the continuous engine of \<open>cpp/src/continuous_engine.cpp\<close>: time stamps of results are
  causal (no request is answered before it arrives, no token is produced after the completion), the
  busy time is part of the time that has passed, and the counters of the prefix cache count every
  request once. The invariant speaks of the clock, the queue, the batch, the results and the counters
  only, so that no assumption about the KV cache is needed.
\<close>

section \<open>The accessors\<close>

definition prefix_cache_hits :: "ContinuousEngine \<Rightarrow> nat" where
  "prefix_cache_hits e = prefix_cache_request_hits (ce_stats e)"

definition prefix_cache_misses :: "ContinuousEngine \<Rightarrow> nat" where
  "prefix_cache_misses e = sub64 (prefix_cache_requests (ce_stats e)) (prefix_cache_request_hits (ce_stats e))"

section \<open>Costs\<close>

definition cost_ok :: "DeterministicCostModel \<Rightarrow> bool" where
  "cost_ok cm \<longleftrightarrow> cost_config_ok (cm_config cm) \<and> draw_in_range (cm_draw cm)"

lemma SaturatingCost_range:
  "0 \<le> fixed \<Longrightarrow> fixed \<le> int64_max \<Longrightarrow> 0 \<le> per_unit \<Longrightarrow>
    fixed \<le> SaturatingCost fixed per_unit n \<and> SaturatingCost fixed per_unit n \<le> int64_max"
  by (simp add: SaturatingCost_min)

lemma DecodeStep_cost:
  assumes "cost_ok cm" and "DecodeStep cm n = (cm', c)"
  shows "0 \<le> c" and "cost_ok cm'" and "cm_config cm' = cm_config cm"
proof -
  let ?cfg = "cm_config cm"
  have r: "0 \<le> SaturatingCost (decode_fixed ?cfg) (decode_per_sequence ?cfg) n"
    "SaturatingCost (decode_fixed ?cfg) (decode_per_sequence ?cfg) n \<le> int64_max"
    using assms(1) SaturatingCost_range [of "decode_fixed ?cfg" "decode_per_sequence ?cfg" n]
    by (auto simp: cost_ok_def cost_config_ok_def)
  note b = ApplyJitter_bounds [OF _ _ r assms(2) [unfolded DecodeStep_def]]
  with assms(1) show "0 \<le> c" "cost_ok cm'" "cm_config cm' = cm_config cm" by (auto simp: cost_ok_def)
qed

text \<open>With a fixed part and a jitter below all of it, a prefill takes some time.\<close>

definition prefill_takes_time :: "CostModelConfig \<Rightarrow> bool" where
  "prefill_takes_time c \<longleftrightarrow> 0 < prefill_fixed c \<and> jitter_basis_points c < 10000"

lemma Prefill_cost:
  assumes "cost_ok cm" and "Prefill cm n = (cm', c)"
  shows "0 \<le> c" and "cost_ok cm'" and "cm_config cm' = cm_config cm"
    and "prefill_takes_time (cm_config cm) \<Longrightarrow> 0 < c"
proof -
  let ?cfg = "cm_config cm" and ?b = "SaturatingCost (prefill_fixed (cm_config cm)) (prefill_per_token (cm_config cm)) n"
  have r: "prefill_fixed ?cfg \<le> ?b" "?b \<le> int64_max" "0 \<le> prefill_fixed ?cfg"
    using assms(1) SaturatingCost_range [of "prefill_fixed ?cfg" "prefill_per_token ?cfg" n]
    by (auto simp: cost_ok_def cost_config_ok_def)
  then have "0 \<le> ?b" by linarith
  note b = ApplyJitter_bounds [OF _ _ this r(2) assms(2) [unfolded Prefill_def]]
  with assms(1) show "0 \<le> c" "cost_ok cm'" "cm_config cm' = cm_config cm" by (auto simp: cost_ok_def)
  show "0 < c" if "prefill_takes_time ?cfg"
  proof -
    have "0 < ?b" "int (jitter_basis_points ?cfg) < 10000" using that r(1) by (auto simp: prefill_takes_time_def)
    then have "?b * int (jitter_basis_points ?cfg) < ?b * 10000" by (intro mult_strict_left_mono) auto
    then have "(?b * int (jitter_basis_points ?cfg)) div 10000 < ?b" by simp
    with b assms(1) show ?thesis by (auto simp: cost_ok_def)
  qed
qed

section \<open>The invariant\<close>

text \<open>
  \<open>arr\<close> holds for every submitted request id a time that no arrival of it precedes; \<open>since arr i t\<close>: the id
  has been submitted, with an arrival at or before \<open>t\<close>.
\<close>

definition since :: "(string \<rightharpoonup> int) \<Rightarrow> string \<Rightarrow> int \<Rightarrow> bool" where
  "since arr i t \<longleftrightarrow> (\<exists>s. arr i = Some s \<and> s \<le> t)"

lemma since_mono: "since arr i t \<Longrightarrow> t \<le> t' \<Longrightarrow> since arr i t'"
  by (auto simp: since_def)

definition request_timed :: "(string \<rightharpoonup> int) \<Rightarrow> EngineRequest \<Rightarrow> bool" where
  "request_timed arr r \<longleftrightarrow> since arr (request_id r) (arrival_time r)"

definition active_timed :: "(string \<rightharpoonup> int) \<Rightarrow> int \<Rightarrow> ActiveRequest \<Rightarrow> bool" where
  "active_timed arr now a \<longleftrightarrow> since arr (request_id (ar_request a)) now \<and>
     (0 < generated_tokens a \<longrightarrow> since arr (request_id (ar_request a)) (ar_first_token_at a) \<and> ar_first_token_at a \<le> now)"

definition result_timed :: "(string \<rightharpoonup> int) \<Rightarrow> int \<Rightarrow> EngineResult \<Rightarrow> bool" where
  "result_timed arr now x \<longleftrightarrow> since arr (res_request_id x) (completed_at x) \<and> completed_at x \<le> now \<and>
     (succeeded x \<longrightarrow> since arr (res_request_id x) (first_token_at x) \<and> first_token_at x \<le> completed_at x)"

definition worked :: "ContinuousEngine \<Rightarrow> bool" where
  "worked e \<longleftrightarrow> ce_active e \<noteq> [] \<or> rc_view (ce_result_cache e) \<noteq> [] \<or> (\<exists>x \<in> set (ce_results e). succeeded x)"

text \<open>The counters of the prefix cache, which wrap, against the set of requests they have counted.\<close>

definition counted :: "string set \<Rightarrow> ContinuousEngineStats \<Rightarrow> bool" where
  "counted ids s \<longleftrightarrow> finite ids \<and> prefix_cache_requests s = card ids mod u64 \<and>
     (\<exists>h \<le> card ids. prefix_cache_request_hits s = h mod u64)"

lemma counted_insert:
  assumes "counted ids s" and "i \<notin> ids"
  shows "counted (insert i ids) (s\<lparr>prefix_cache_requests := add64 (prefix_cache_requests s) 1,
      prefix_cache_request_hits := (if hit then add64 (prefix_cache_request_hits s) 1 else prefix_cache_request_hits s)\<rparr>)"
proof -
  from assms obtain h where "finite ids" "prefix_cache_requests s = card ids mod u64" "h \<le> card ids"
    "prefix_cache_request_hits s = h mod u64" by (auto simp: counted_def)
  with assms(2) show ?thesis
    by (auto simp: counted_def add64_def mod_Suc_eq intro!: exI [of _ "if hit then Suc h else h"])
qed

lemma counted_other [simp]:
  "counted ids (s\<lparr>admissions := n\<rparr>) = counted ids s" "counted ids (s\<lparr>peak_active_sequences := n\<rparr>) = counted ids s"
  "counted ids (s\<lparr>preemptions := n\<rparr>) = counted ids s" "counted ids (s\<lparr>iterations := n\<rparr>) = counted ids s"
  "counted ids (s\<lparr>result_cache_requests := n\<rparr>) = counted ids s" "counted ids (s\<lparr>result_cache_request_hits := n\<rparr>) = counted ids s"
  "counted ids (s\<lparr>peak_pending_requests := n\<rparr>) = counted ids s" "counted ids (s\<lparr>simulated_busy_time := t\<rparr>) = counted ids s"
  by (simp_all add: counted_def)

definition timed :: "(string \<rightharpoonup> int) \<Rightarrow> ContinuousEngine \<Rightarrow> bool" where
  "timed arr e \<longleftrightarrow> cost_ok (ce_cost_model e) \<and> cm_config (ce_cost_model e) = cost_model (ce_config e) \<and> rc_inv (ce_result_cache e) \<and>
     (\<forall>r \<in> set (ce_pending e). request_timed arr r) \<and>
     (\<forall>a \<in> set (ce_active e). active_timed arr (ce_clock e) a) \<and>
     (\<forall>x \<in> set (ce_results e). result_timed arr (ce_clock e) x) \<and>
     0 \<le> simulated_busy_time (ce_stats e) \<and> simulated_busy_time (ce_stats e) \<le> ce_clock e \<and>
     (prefill_takes_time (cost_model (ce_config e)) \<and> worked e \<longrightarrow> 0 < simulated_busy_time (ce_stats e)) \<and>
     ce_prefix_accounted e \<subseteq> dom arr \<and> counted (ce_prefix_accounted e) (ce_stats e)"

lemma active_timed_mono: "active_timed arr t a \<Longrightarrow> t \<le> t' \<Longrightarrow> active_timed arr t' a"
  by (auto simp: active_timed_def intro: since_mono)

lemma result_timed_mono: "result_timed arr t x \<Longrightarrow> t \<le> t' \<Longrightarrow> result_timed arr t' x"
  by (auto simp: result_timed_def)

lemma timed_clock:
  assumes "timed arr e" and "ce_clock e \<le> t"
  shows "timed arr (e\<lparr>ce_clock := t\<rparr>)"
  using assms active_timed_mono [of arr "ce_clock e" _ t] result_timed_mono [of arr "ce_clock e" _ t]
  by (auto simp: timed_def worked_def)

section \<open>Admission\<close>

definition st_timed :: "(string \<rightharpoonup> int) \<Rightarrow> AdmitState \<Rightarrow> bool" where
  "st_timed arr st \<longleftrightarrow> timed arr (as_engine st) \<and> (\<forall>r \<in> set (deferred st). request_timed arr r)"

lemma defer_candidate_timed: "st_timed arr st \<Longrightarrow> request_timed arr c \<Longrightarrow> st_timed arr (defer_candidate st c)"
  by (auto simp: st_timed_def defer_candidate_def)

lemma admission_counted:
  assumes "counted (ce_prefix_accounted e) (ce_stats e)"
  shows "counted (if hs \<noteq> [] then insert (request_id c) (ce_prefix_accounted e) else ce_prefix_accounted e)
    (admission_stats e c hs m cost)"
proof (cases "hs \<noteq> [] \<and> request_id c \<notin> ce_prefix_accounted e")
  case True
  with counted_insert [OF assms, of "request_id c" "m \<noteq> None"] show ?thesis
    by (cases m) (auto simp: counted_def admission_stats_def Let_def)
next
  case False
  then have "(if hs \<noteq> [] then insert (request_id c) (ce_prefix_accounted e) else ce_prefix_accounted e) = ce_prefix_accounted e"
    by auto
  with False assms show ?thesis by (auto simp: admission_stats_def Let_def)
qed

lemma admission_busy: "simulated_busy_time (admission_stats e c hs m cost) = simulated_busy_time (ce_stats e) + cost"
  by (simp add: admission_stats_def Let_def)

lemma start_candidate_timed:
  assumes "st_timed arr st" and "since arr (request_id c) (ce_clock (as_engine st))"
  shows "st_timed arr (start_candidate st c n hs m)"
proof -
  let ?e = "as_engine st"
  obtain cm cost where p: "Prefill (ce_cost_model ?e) (uncached_tokens ?e c n m) = (cm, cost)" by fastforce
  obtain rx kv where k: "cache_prompt ?e c n hs = (rx, kv)" by fastforce
  have t: "timed arr ?e" using assms(1) by (simp add: st_timed_def)
  then have ok: "cost_ok (ce_cost_model ?e)" by (simp add: timed_def)
  note cost = Prefill_cost [OF ok p]
  have clock: "ce_clock ?e \<le> ce_clock ?e + cost" "Advance (ce_clock ?e) cost = ce_clock ?e + cost"
    using cost(1) by (auto simp: Advance_def)
  have "counted (ce_prefix_accounted ?e) (ce_stats ?e)" using t by (simp add: timed_def)
  note cnt = admission_counted [OF this, of hs c m cost]
  have dom: "request_id c \<in> dom arr" using assms(2) by (auto simp: since_def)
  have st: "as_engine (start_candidate st c n hs m) = ?e\<lparr>ce_clock := ce_clock ?e + cost, ce_cost_model := cm, ce_kv_cache := kv,
      ce_prefix_cache := rx, ce_active := ce_active ?e @ [\<lparr>ar_request = c,
        ar_state = fst (TransitionTo (fst (TransitionTo kWaitingAdmission kPrefill)) kDecode),
        generated_tokens = 0, ar_prefix_cache_hit = (m \<noteq> None), ar_first_token_at = 0\<rparr>],
      ce_stats := admission_stats ?e c hs m cost,
      ce_prefix_accounted := (if hs \<noteq> [] then insert (request_id c) (ce_prefix_accounted ?e) else ce_prefix_accounted ?e)\<rparr>"
    "deferred (start_candidate st c n hs m) = deferred st"
    using p k clock(2) by (simp_all add: start_candidate_def Let_def)
  have "active_timed arr (ce_clock ?e + cost) a" if "a \<in> set (ce_active ?e)" for a
    using t that by (intro active_timed_mono [OF _ clock(1)]) (simp add: timed_def)
  moreover have "result_timed arr (ce_clock ?e + cost) x" if "x \<in> set (ce_results ?e)" for x
    using t that by (intro result_timed_mono [OF _ clock(1)]) (simp add: timed_def)
  moreover have "since arr (request_id c) (ce_clock ?e + cost)" using assms(2) clock(1) by (rule since_mono)
  ultimately show ?thesis using assms(1) t cost cnt dom
    unfolding st_timed_def st timed_def admission_busy by (auto simp: active_timed_def admission_busy)
qed

lemma place_candidate_timed:
  assumes "st_timed arr st" and "request_timed arr c" and "since arr (request_id c) (ce_clock (as_engine st))"
  shows "st_timed arr (place_candidate st c)"
proof -
  let ?e = "as_engine st"
  let ?n = "BlocksForTokens (prompt_tokens c) (kv_block_size_tokens (ce_config ?e))"
  let ?hs = "take (min (length (prompt_block_hashes c)) ?n) (prompt_block_hashes c)"
  obtain rx0 m0 where l: "longest_match (ce_prefix_cache ?e) c ?hs = (rx0, m0)" by fastforce
  obtain rx kv m s where a: "allocate_evicting rx0 (ce_kv_cache ?e) c ?n ?hs m0 = (rx, kv, m, s)" using prod_cases4 by blast
  let ?st = "st\<lparr>as_engine := ?e\<lparr>ce_kv_cache := kv, ce_prefix_cache := rx\<rparr>\<rparr>"
  have "st_timed arr ?st" using assms(1) by (auto simp: st_timed_def timed_def worked_def)
  with l a assms defer_candidate_timed [of arr ?st c] start_candidate_timed [of arr ?st c ?n ?hs m]
  show ?thesis by (simp add: place_candidate_def Let_def)
qed

lemma cached_result_timed:
  assumes "st_timed arr st" and "since arr (request_id c) (ce_clock (as_engine st))" and "cached_result st c = (st', hit)"
  shows "st_timed arr st'" and "ce_clock (as_engine st') = ce_clock (as_engine st)"
proof -
  let ?e = "as_engine st"
  obtain rc v where g: "ResultCache_Get (ce_result_cache ?e) (ResultKey c) = (rc, v)" by fastforce
  have t: "timed arr ?e" using assms(1) by (simp add: st_timed_def)
  then have inv: "rc_inv (ce_result_cache ?e)" by (simp add: timed_def)
  have rc: "rc_inv rc" "v = Some w \<Longrightarrow> rc_view (ce_result_cache ?e) \<noteq> []" for w
    using rc.inv_get [OF inv, of "ResultKey c"] rc.hit_in_view [OF inv, of "ResultKey c" w] g by auto
  have "rc_view rc = []" if "rc_view (ce_result_cache ?e) = []"
  proof -
    have "\<forall>p \<in> set (rc_view rc). False" using rc.get_all [OF inv, of "\<lambda>_. False" "ResultKey c"] that g by simp
    then show ?thesis by (metis last_in_set)
  qed
  note rc = rc this
  show "ce_clock (as_engine st') = ce_clock (as_engine st)"
    using assms(3) g by (cases v) (auto simp: cached_result_def Let_def)
  show "st_timed arr st'"
  proof (cases v)
    case None
    with assms(1,3) t g rc show ?thesis by (auto simp: cached_result_def Let_def st_timed_def timed_def worked_def)
  next
    case (Some w)
    with rc(2) t have "prefill_takes_time (cost_model (ce_config ?e)) \<Longrightarrow> 0 < simulated_busy_time (ce_stats ?e)"
      by (simp add: timed_def worked_def)
    with Some assms t g rc(1) show ?thesis
      by (auto simp: cached_result_def Let_def st_timed_def timed_def result_timed_def DefaultResult_def)
  qed
qed

lemma admit_candidate_timed:
  assumes "st_timed arr st" and "request_timed arr c" and "arrival_time c \<le> ce_clock (as_engine st)"
    and "admit_candidate st c = (st', b)"
  shows "st_timed arr st'"
proof -
  have now: "since arr (request_id c) (ce_clock (as_engine st))" using assms(2,3) since_mono by (auto simp: request_timed_def)
  obtain st1 hit where r: "cached_result st c = (st1, hit)" by fastforce
  note c = cached_result_timed [OF assms(1) now r]
  have "st_timed arr (place_candidate st1 c)" using c assms(2) now by (intro place_candidate_timed) simp_all
  moreover have "st_timed arr (st\<lparr>as_engine := (as_engine st)\<lparr>ce_results := ce_results (as_engine st) @
      [(DefaultResult (request_id c))\<lparr>completed_at := ce_clock (as_engine st), succeeded := False, failure_reason := reason\<rparr>]\<rparr>,
      admitted_any := True\<rparr>)" for reason
    using assms(1) now by (auto simp: st_timed_def timed_def worked_def result_timed_def DefaultResult_def)
  ultimately show ?thesis
    using assms(4) c(1) defer_candidate_timed [OF assms(1,2)] r
    by (auto simp: admit_candidate_def Let_def split: option.splits if_splits)
qed

lemma admit_loop_timed: "st_timed arr st \<Longrightarrow> st_timed arr (admit_loop n st)"
proof (induction n arbitrary: st)
  case (Suc n)
  let ?e = "as_engine st"
  obtain q c where p: "PopReady (ce_pending ?e) (ce_clock ?e) = (q, c)" by fastforce
  show ?case
  proof (cases c)
    case (Some r)
    let ?st = "st\<lparr>as_engine := ?e\<lparr>ce_pending := q\<rparr>\<rparr>"
    obtain st1 b where a: "admit_candidate ?st r = (st1, b)" by fastforce
    have pop: "set (ce_pending ?e) = insert r (set q)" "arrival_time r \<le> ce_clock ?e"
      using rq.pop_Some [OF p [unfolded Some]] by (metis set_mset_add_mset_insert set_mset_mset, simp)
    then have "st_timed arr ?st" "request_timed arr r" using Suc.prems by (auto simp: st_timed_def timed_def worked_def)
    with pop(2) a have "st_timed arr st1" by (intro admit_candidate_timed [OF _ _ _ a]) simp_all
    then show ?thesis using Suc p Some a by (simp add: Let_def)
  qed (use Suc p in \<open>simp add: Let_def\<close>)
qed simp

lemma set_push_all: "set (fold (\<lambda>r q. RequestQueue_Push q r) rs q) = set rs \<union> set q"
  by (induction rs arbitrary: q) auto

lemma AdmitReady_timed:
  assumes "timed arr e" and "AdmitReady e = (e', b)"
  shows "timed arr e'"
proof -
  let ?st = "\<lparr>as_engine = e, prefill_budget = 0, prefill_sequences = 0, deferred = [], admitted_any = False\<rparr>"
  have "st_timed arr ?st" using assms(1) by (simp add: st_timed_def)
  from admit_loop_timed [OF this, of "length (ce_pending e)"] show ?thesis
    using assms(2) by (auto simp: AdmitReady_def Let_def st_timed_def set_push_all timed_def worked_def)
qed

section \<open>Completion, decoding, preemption\<close>

lemma complete_one_timed:
  assumes "timed arr e" and "active_timed arr (ce_clock e) a" and "worked e"
  shows "timed arr (complete_one e a)" and "worked (complete_one e a)"
    and "ce_clock (complete_one e a) = ce_clock e"
  using assms rc.inv_put
  by (auto simp: complete_one_def Let_def timed_def worked_def result_timed_def active_timed_def DefaultResult_def)

lemma complete_from_timed:
  fixes e :: ContinuousEngine
  assumes "timed arr (e\<lparr>ce_active := kept @ rest\<rparr>)"
  shows "timed arr (complete_from kept rest e)"
  using assms
proof (induction kept rest e rule: complete_from.induct)
  case (2 kept a rest e)
  show ?case
  proof (cases "generated_tokens a < max_output_tokens (ar_request a)")
    case False
    let ?e = "e\<lparr>ce_active := kept @ a # rest\<rparr>"
    have "timed arr (complete_one ?e a)"
      using 2(3) by (intro complete_one_timed) (auto simp: timed_def worked_def)
    then have "timed arr ((complete_one e a)\<lparr>ce_active := kept @ rest\<rparr>)"
      by (auto simp: timed_def worked_def complete_one_def Let_def)
    with 2(2) False show ?thesis by simp
  qed (use 2 in simp)
qed simp

lemma CompleteFinished_timed: "timed arr e \<Longrightarrow> timed arr (CompleteFinished e)"
  using complete_from_timed [where e = e and kept = "[]" and rest = "ce_active e"] by (simp add: CompleteFinished_def)

lemma grow_sequence_timed: "timed arr e \<Longrightarrow> timed arr (fst (grow_sequence e a))"
  by (auto simp: grow_sequence_def Let_def timed_def worked_def split: prod.splits)

lemma Preempt_timed:
  assumes "timed arr e" and "i < length (ce_active e)"
  shows "timed arr (Preempt e i)"
proof -
  have "active_timed arr (ce_clock e) (ce_active e ! i)" using assms by (simp add: timed_def)
  moreover have "worked e" using assms(2) by (auto simp: worked_def)
  moreover have "set (take i (ce_active e) @ drop (Suc i) (ce_active e)) \<subseteq> set (ce_active e)"
    by (auto dest: in_set_takeD in_set_dropD)
  ultimately show ?thesis using assms(1)
    by (auto simp: Preempt_def Let_def timed_def request_timed_def active_timed_def)
qed

lemma prepare_from_timed: "timed arr e \<Longrightarrow> timed arr (prepare_from i e)"
proof (induction i e rule: prepare_from.induct)
  case (1 i e)
  obtain e' s where g: "grow_sequence e (ce_active e ! i) = (e', s)" by fastforce
  have t: "timed arr e'" using grow_sequence_timed [OF 1(3)] g by (metis fst_conv)
  show ?case
  proof (cases "i < length (ce_active e)")
    case True
    have "ce_active e' \<noteq> []" using grow_sequence_active [of e "ce_active e ! i"] g True by auto
    then have "timed arr (Preempt e' (SelectVictim e'))" using t SelectVictim_less by (intro Preempt_timed) simp_all
    then show ?thesis using 1(1,2) [OF True g [symmetric]] t True g by (simp add: prepare_from.simps [of i e])
  qed (use 1(3) in \<open>simp add: prepare_from.simps [of i e]\<close>)
qed

lemma decode_step_timed: "timed arr e \<Longrightarrow> timed arr (decode_step e)"
proof -
  assume t: "timed arr e"
  obtain cm c where d: "DecodeStep (ce_cost_model e) (length (ce_active e)) = (cm, c)" by fastforce
  from t have ok: "cost_ok (ce_cost_model e)" by (simp add: timed_def)
  note cost = DecodeStep_cost [OF ok d]
  have clock: "ce_clock e \<le> ce_clock e + c" "Advance (ce_clock e) c = ce_clock e + c"
    using cost(1) by (auto simp: Advance_def)
  have "active_timed arr (ce_clock e + c) (decode_one (ce_clock e + c) a)" if "a \<in> set (ce_active e)" for a
    using that t active_timed_mono [OF _ clock(1), of arr a]
    by (auto simp: timed_def decode_one_def Let_def active_timed_def add64_def)
  then show ?thesis using t d cost clock result_timed_mono [OF _ clock(1)]
    by (auto simp: decode_step_def Let_def timed_def worked_def)
qed

lemma RunOneIteration_timed:
  assumes "timed arr e" and "RunOneIteration e = (e', p)"
  shows "timed arr e'"
proof -
  let ?e0 = "if ce_active e = [] then e\<lparr>ce_preempted := {}\<rparr> else e"
  obtain e1 b where a: "AdmitReady ?e0 = (e1, b)" by fastforce
  have "timed arr ?e0" using assms(1) by (auto simp: timed_def worked_def)
  from CompleteFinished_timed [OF AdmitReady_timed [OF this a]] have t: "timed arr (CompleteFinished e1)" .
  from CompleteFinished_timed [OF decode_step_timed [OF prepare_from_timed [OF this, of 0]]] prepare_from_timed [OF t, of 0] t
  show ?thesis using assms(2) a
    by (auto simp: RunOneIteration_def Let_def PrepareDecodeBlocks_def split: if_splits)
qed

lemma RunUntilIdle_timed: "RunUntilIdle e = Some e' \<Longrightarrow> timed arr e \<Longrightarrow> timed arr e'"
proof (rule RunUntilIdle.raw_induct [of "\<lambda>e e'. timed arr e \<longrightarrow> timed arr e'" e e', THEN mp], goal_cases)
  case (1 f x y)
  obtain e1 p where r: "RunOneIteration x = (e1, p)" by fastforce
  have "timed arr (e1\<lparr>ce_clock := Advance (ce_clock e1) (t - ce_clock e1)\<rparr>)" if "timed arr e1" for t
    using that by (intro timed_clock Advance_ge)
  with 1 r RunOneIteration_timed [OF _ r, of arr] show ?case by (auto split: if_splits option.splits)
qed

text \<open>Below the wrap-around the counters are exact, and the misses are what is left.\<close>

lemma prefix_rate_counts:
  assumes "timed arr e" and "card (ce_prefix_accounted e) < u64"
  shows "prefix_cache_requests (ce_stats e) = card (ce_prefix_accounted e)"
    and "prefix_cache_hits e + prefix_cache_misses e = prefix_cache_requests (ce_stats e)"
proof -
  from assms obtain h where h: "prefix_cache_requests (ce_stats e) = card (ce_prefix_accounted e)"
    "h \<le> card (ce_prefix_accounted e)" "prefix_cache_request_hits (ce_stats e) = h"
    by (auto simp: timed_def counted_def)
  then show "prefix_cache_requests (ce_stats e) = card (ce_prefix_accounted e)"
    "prefix_cache_hits e + prefix_cache_misses e = prefix_cache_requests (ce_stats e)"
    using assms(2) by (simp_all add: prefix_cache_hits_def prefix_cache_misses_def word_simps)
qed

section \<open>Every use of the engine\<close>

lemma ClearCaches_timed: "timed arr e \<Longrightarrow> timed arr (ClearCaches e)"
  by (auto simp: ClearCaches_def timed_def worked_def split: prod.splits)

lemma Submit_timed: "timed arr e \<Longrightarrow> request_timed arr r \<Longrightarrow> timed arr (Submit e r)"
  by (auto simp: Submit_def Let_def timed_def worked_def)

lemma timed_earlier:
  assumes "timed arr e" and "\<And>i t. since arr i t \<Longrightarrow> since arr' i t" and "dom arr \<subseteq> dom arr'"
  shows "timed arr' e"
proof -
  have "ce_prefix_accounted e \<subseteq> dom arr'" using assms(1,3) unfolding timed_def by (blast intro: subset_trans)
  with assms(1,2) show ?thesis unfolding timed_def request_timed_def active_timed_def result_timed_def by blast
qed

lemma timed_extend:
  assumes "timed arr e" and "arr \<subseteq>\<^sub>m arr'"
  shows "timed arr' e"
proof (rule timed_earlier [OF assms(1)])
  show "since arr' i t" if "since arr i t" for i t using that assms(2) unfolding since_def map_le_def by (metis domI)
  show "dom arr \<subseteq> dom arr'" using assms(2) by (rule map_le_implies_dom_le)
qed

text \<open>The earliest arrival of every submitted id.\<close>

fun first_arrival :: "EngineRequest list \<Rightarrow> string \<rightharpoonup> int" where
  "first_arrival [] = Map.empty"
| "first_arrival (r # rs) = (first_arrival rs)(request_id r \<mapsto>
     (case first_arrival rs (request_id r) of None \<Rightarrow> arrival_time r | Some t \<Rightarrow> min t (arrival_time r)))"

lemma first_arrival_Some: "first_arrival rs i = Some t \<Longrightarrow> \<exists>r \<in> set rs. request_id r = i \<and> arrival_time r = t"
  by (induction rs) (auto simp: min_def split: if_splits option.splits)

lemma dom_first_arrival: "dom (first_arrival rs) = request_id ` set rs"
proof (induction rs)
  case (Cons r rs)
  then show ?case unfolding first_arrival.simps dom_fun_upd by simp
qed simp

lemma since_first_arrival:
  "since (first_arrival (r # rs)) (request_id r) (arrival_time r)"
  "since (first_arrival rs) i t \<Longrightarrow> since (first_arrival (r # rs)) i t"
  by (auto simp: since_def split: option.splits)

lemma since_submitted: "since (first_arrival rs) i t \<Longrightarrow> \<exists>r \<in> set rs. request_id r = i \<and> arrival_time r \<le> t"
  using first_arrival_Some by (fastforce simp: since_def)

definition ce_timed :: "EngineRequest list \<times> ContinuousEngine \<Rightarrow> bool" where
  "ce_timed s \<longleftrightarrow> timed (first_arrival (fst s)) (snd s)"

definition ce_timed_start :: "EngineRequest list \<times> ContinuousEngine \<Rightarrow> bool" where
  "ce_timed_start s \<longleftrightarrow> fst s = [] \<and> (\<exists>draw cfg. draw_in_range draw \<and> cost_config_ok (cost_model cfg) \<and>
     MakeContinuousEngine draw cfg = Inr (snd s))"

lemma MakeContinuousEngine_timed:
  assumes "MakeContinuousEngine draw cfg = Inr e" and "draw_in_range draw" and "cost_config_ok (cost_model cfg)"
  shows "timed arr e"
proof -
  obtain cm kv rx rc where m: "MakeCostModel draw (seed cfg) (cost_model cfg) = Inr cm"
    "MakePagedKvCache (kv_blocks cfg) (kv_block_size_tokens cfg) = Inr kv"
    "MakeRadixPrefixCache (prefix_cache_entries cfg) = Inr rx" "MakeResultCache (result_cache_entries cfg) = Inr rc"
    using assms(1) by (auto simp: MakeContinuousEngine_def split: sum.splits)
  have cm: "cm_config cm = cost_model cfg" "cm_draw cm = draw"
    using m(1) by (auto simp: MakeCostModel_def split: if_splits)
  have rc: "rc_inv rc" "rc_view rc = []" using MakeResultCache_inv [OF m(4)] m(4)
    by (auto simp: rc_view_def MakeResultCache_def split: if_splits)
  show "timed arr e" using assms m cm rc
    by (auto simp: MakeContinuousEngine_def timed_def worked_def cost_ok_def zero_stats_def counted_def split: if_splits)
qed

lemma ce_step_timed: "ce_step s t \<Longrightarrow> ce_timed s \<Longrightarrow> ce_timed t"
proof (induction rule: ce_step.induct)
  case (submit r rs e)
  have "timed (first_arrival (r # rs)) e"
  proof (rule timed_earlier)
    show "timed (first_arrival rs) e" using submit(2) by (simp add: ce_timed_def)
    show "dom (first_arrival rs) \<subseteq> dom (first_arrival (r # rs))" unfolding dom_first_arrival by auto
  qed (rule since_first_arrival)
  moreover have "request_timed (first_arrival (r # rs)) r" unfolding request_timed_def by (rule since_first_arrival)
  ultimately show ?case unfolding ce_timed_def fst_conv snd_conv by (rule Submit_timed)
next
  case (iterate e e' p rs)
  then show ?case using RunOneIteration_timed [of _ e e' p] by (simp add: ce_timed_def)
next
  case (run e e' rs)
  then show ?case using RunUntilIdle_timed [of e e'] by (simp add: ce_timed_def)
next
  case (clear rs e)
  then show ?case using ClearCaches_timed by (simp add: ce_timed_def)
qed

interpretation ce_timing: invariant_system ce_timed_start ce_step ce_timed
proof
  fix s t
  show "ce_timed_start s \<Longrightarrow> ce_timed s" using MakeContinuousEngine_timed by (auto simp: ce_timed_start_def ce_timed_def)
  show "ce_timed s \<Longrightarrow> ce_step s t \<Longrightarrow> ce_timed t" using ce_step_timed by blast
qed

section \<open>Properties\<close>



end
