(* ===== verification/Histograms.thy ===== *)
theory Histograms
  imports Complex_Main Prelude "HOL-Library.Multiset"
begin

text \<open>
  \<open>cpp/src/histogram.cpp\<close>: the log2 latency histogram. The 64 atomic counters are a list of
  64-bit counters; each \<open>Record\<close> is one atomic addition, so concurrent recording is some sequence of
  \<open>Record\<close>s. \<open>Count\<close> and \<open>Percentile\<close> read the counters one by one and are modelled without
  concurrent recording, as the benchmark uses them. The doubles of \<open>Percentile\<close> are rationals, with the
  rounding of each double operation as the argument \<open>fl\<close>.
\<close>

type_synonym Histogram = "nat list"

definition kBucketCount :: nat where
  "kBucketCount = 64"

definition MakeHistogram :: Histogram where
  "MakeHistogram = replicate kBucketCount 0"

fun bit_width :: "nat \<Rightarrow> nat" where
  "bit_width n = (if n = 0 then 0 else Suc (bit_width (n div 2)))"

declare bit_width.simps [simp del]

definition bucket_of :: "nat \<Rightarrow> nat" where
  "bucket_of v = (if v = 0 then 0 else min (bit_width v) (kBucketCount - 1))"

definition Record :: "nat \<Rightarrow> Histogram \<Rightarrow> Histogram" where
  "Record v h = h[bucket_of v := add64 (h ! bucket_of v) 1]"

definition Count :: "Histogram \<Rightarrow> nat" where
  "Count h = fold (\<lambda>b sum. add64 sum b) h 0"

definition percentile_target :: "(rat \<Rightarrow> rat) \<Rightarrow> rat \<Rightarrow> nat \<Rightarrow> nat" where
  "percentile_target fl percentile samples =
     (let clamped = max 0 (min 100 percentile)
      in nat \<lceil>fl (fl (clamped / 100) * fl (of_nat samples))\<rceil>)"

fun percentile_loop :: "nat \<Rightarrow> nat \<Rightarrow> nat list \<Rightarrow> nat \<Rightarrow> nat" where
  "percentile_loop target index [] cumulative = u64 - 1"
| "percentile_loop target index (b # bs) cumulative =
     (let cumulative' = add64 cumulative b
      in if cumulative' \<ge> max target 1
         then (if index = kBucketCount - 1 then u64 - 1 else 2 ^ index)
         else percentile_loop target (Suc index) bs cumulative')"

definition Percentile :: "(rat \<Rightarrow> rat) \<Rightarrow> rat \<Rightarrow> Histogram \<Rightarrow> nat" where
  "Percentile fl percentile h =
     (let samples = Count h
      in if samples = 0 then 0 else percentile_loop (percentile_target fl percentile samples) 0 h 0)"

section \<open>Buckets\<close>

lemma bit_width_less_iff: "bit_width v \<le> n \<longleftrightarrow> v < 2 ^ n"
proof (induction v arbitrary: n rule: bit_width.induct)
  case (1 v)
  show ?case
  proof (cases "v = 0")
    case False
    show ?thesis
    proof (cases n)
      case 0
      then show ?thesis using False by (subst bit_width.simps) simp
    next
      case (Suc m)
      have "bit_width v \<le> n \<longleftrightarrow> bit_width (v div 2) \<le> m" using False Suc by (subst bit_width.simps) simp
      also have "\<dots> \<longleftrightarrow> v div 2 < 2 ^ m" using "1.IH" False by blast
      also have "\<dots> \<longleftrightarrow> v < 2 ^ n" using Suc by (simp add: less_mult_imp_div_less div_less_iff_less_mult mult.commute)
      finally show ?thesis .
    qed
  qed (simp add: bit_width.simps)
qed

lemma bucket_of_le_iff: "i < 63 \<Longrightarrow> bucket_of v \<le> i \<longleftrightarrow> v < 2 ^ i"
  using bit_width_less_iff [of v i] by (auto simp: bucket_of_def kBucketCount_def min_le_iff_disj)

lemma bucket_of_bound [simp]: "bucket_of v < 64"
  by (simp add: bucket_of_def kBucketCount_def min_less_iff_disj)

text \<open>The number of recorded values in the buckets below \<open>i\<close>.\<close>

definition below :: "nat list \<Rightarrow> nat \<Rightarrow> nat" where
  "below vs i = length (filter (\<lambda>v. bucket_of v < i) vs)"

definition recorded :: "nat list \<Rightarrow> Histogram" where
  "recorded vs = fold Record vs MakeHistogram"

lemma recorded_snoc: "recorded (vs @ [v]) = Record v (recorded vs)"
  by (simp add: recorded_def)

lemma recorded_counts:
  assumes "length vs < u64"
  shows "length (recorded vs) = 64 \<and> (\<forall>i < 64. recorded vs ! i = length (filter (\<lambda>v. bucket_of v = i) vs))"
  using assms
proof (induction vs rule: rev_induct)
  case Nil
  then show ?case by (simp add: recorded_def MakeHistogram_def kBucketCount_def)
next
  case (snoc v vs)
  have "length (filter (\<lambda>w. bucket_of w = i) vs) + 1 < u64" for i
    using snoc.prems le_less_trans [OF length_filter_le [of "\<lambda>w. bucket_of w = i" vs]] by simp
  then show ?case using snoc by (auto simp: recorded_snoc Record_def nth_list_update add64_def)
qed

lemma below_Suc: "below vs (Suc i) = below vs i + length (filter (\<lambda>v. bucket_of v = i) vs)"
  by (induction vs) (auto simp: below_def)

lemma below_all: "below vs 64 = length vs" "below vs 0 = 0"
  by (simp_all add: below_def)

lemma below_le: "below vs i \<le> length vs"
  by (simp add: below_def)

lemma recorded_prefix_sum:
  assumes "length vs < u64" and "i \<le> 64"
  shows "fold (\<lambda>b sum. add64 sum b) (take i (recorded vs)) 0 = below vs i"
  using assms(2)
proof (induction i)
  case (Suc i)
  note c = recorded_counts [OF assms(1)]
  have "below vs (Suc i) < u64" using below_le [of vs "Suc i"] assms(1) by linarith
  then show ?case using Suc c by (simp add: take_Suc_conv_app_nth below_Suc add64_def)
qed (simp add: below_all)

lemma Count_recorded: "length vs < u64 \<Longrightarrow> Count (recorded vs) = length vs"
  using recorded_prefix_sum [of vs 64] recorded_counts [of vs] by (simp add: Count_def below_all)

lemma length_filter_mset: "mset xs = mset ys \<Longrightarrow> length (filter P xs) = length (filter P ys)"
  by (metis mset_filter size_mset)

lemma filter_length_mono:
  "(\<And>x. x \<in> set xs \<Longrightarrow> P x \<Longrightarrow> Q x) \<Longrightarrow> length (filter P xs) \<le> length (filter Q xs)"
  by (induction xs) (auto simp: le_SucI)

text \<open>The loop stops at the first bucket whose cumulative count reaches the target.\<close>

lemma percentile_loop_stops:
  assumes "length vs < u64" and "i \<le> 64" and "max target 1 \<le> length vs" and "below vs i < max target 1"
  shows "\<exists>k. i \<le> k \<and> k < 64 \<and> below vs k < max target 1 \<and> max target 1 \<le> below vs (Suc k) \<and>
    percentile_loop target i (drop i (recorded vs)) (below vs i) = (if k = 63 then u64 - 1 else 2 ^ k)"
  using assms(2,4)
proof (induction "64 - i" arbitrary: i)
  case 0
  then have "length vs < max target 1" using below_all(1) [of vs] by simp
  with assms(3) show ?case by linarith
next
  case (Suc d)
  note c = recorded_counts [OF assms(1)]
  have i: "i < 64" using Suc.hyps(2) by simp
  have d: "drop i (recorded vs) = recorded vs ! i # drop (Suc i) (recorded vs)" using i c by (metis Cons_nth_drop_Suc)
  have "below vs (Suc i) < u64" using below_le [of vs "Suc i"] assms(1) by linarith
  then have a: "add64 (below vs i) (recorded vs ! i) = below vs (Suc i)" using i c by (simp add: below_Suc add64_def)
  show ?case
  proof (cases "max target 1 \<le> below vs (Suc i)")
    case True
    then show ?thesis using i Suc.prems(2) by (intro exI [of _ i]) (simp add: d a kBucketCount_def)
  next
    case False
    then have lt: "below vs (Suc i) < max target 1" and d64: "d = 64 - Suc i" using Suc.hyps(2) by linarith+
    from Suc.hyps(1) [OF d64 Suc_leI [OF i] lt] obtain k where "Suc i \<le> k" "k < 64" "below vs k < max target 1"
      "max target 1 \<le> below vs (Suc k)"
      "percentile_loop target (Suc i) (drop (Suc i) (recorded vs)) (below vs (Suc i)) = (if k = 63 then u64 - 1 else 2 ^ k)"
      by blast
    moreover have "percentile_loop target i (drop i (recorded vs)) (below vs i) =
        percentile_loop target (Suc i) (drop (Suc i) (recorded vs)) (below vs (Suc i))"
      unfolding d percentile_loop.simps a Let_def using False by (rule if_not_P)
    ultimately show ?thesis by (metis Suc_leD)
  qed
qed

section \<open>Percentiles are monotone\<close>

text \<open>
  What is used of the rounding of doubles: it is monotone, exact on 0 and 1, and does not round a
  billionth to 0.
\<close>

definition rounding :: "(rat \<Rightarrow> rat) \<Rightarrow> bool" where
  "rounding fl \<longleftrightarrow> (\<forall>x y. x \<le> y \<longrightarrow> fl x \<le> fl y) \<and> fl 0 = 0 \<and> fl 1 = 1 \<and> 0 < fl (1 / 1000000000)"

lemma rounding_mono: "rounding fl \<Longrightarrow> x \<le> y \<Longrightarrow> fl x \<le> fl y"
  by (simp add: rounding_def)

lemma rounding_nonneg: "rounding fl \<Longrightarrow> 0 \<le> x \<Longrightarrow> 0 \<le> fl x"
  using rounding_mono [of fl 0 x] by (simp add: rounding_def)

lemma rounding_le_1: "rounding fl \<Longrightarrow> x \<le> 1 \<Longrightarrow> fl x \<le> 1"
  using rounding_mono [of fl x 1] by (simp add: rounding_def)

lemma bucket_of_mono: "v \<le> w \<Longrightarrow> bucket_of v \<le> bucket_of w"
proof -
  assume "v \<le> w"
  moreover have "w < 2 ^ bit_width w" using bit_width_less_iff [of w "bit_width w"] by simp
  ultimately have "bit_width v \<le> bit_width w" using bit_width_less_iff [of v "bit_width w"] by linarith
  then show ?thesis using \<open>v \<le> w\<close> by (auto simp: bucket_of_def)
qed

lemma below_antimono: "(\<And>x. x \<in> set xs \<Longrightarrow> f x \<le> g x) \<Longrightarrow> below (map g xs) i \<le> below (map f xs) i"
  unfolding below_def filter_map length_map comp_def
  by (rule filter_length_mono) (meson bucket_of_mono le_less_trans)

lemma percentile_target_mono:
  assumes "rounding fl" and "p \<le> q"
  shows "percentile_target fl p n \<le> percentile_target fl q n"
proof -
  have "fl (max 0 (min 100 p) / 100) \<le> fl (max 0 (min 100 q) / 100)"
    using assms(2) by (intro rounding_mono [OF assms(1)]) (auto simp: divide_right_mono min_le_iff_disj le_max_iff_disj)
  then have "fl (max 0 (min 100 p) / 100) * fl (of_nat n) \<le> fl (max 0 (min 100 q) / 100) * fl (of_nat n)"
    using rounding_nonneg [OF assms(1)] by (intro mult_right_mono) auto
  then show ?thesis unfolding percentile_target_def Let_def
    by (intro nat_mono ceiling_mono rounding_mono [OF assms(1)])
qed

text \<open>From bucket \<open>i\<close> on the loop returns at least the bound of that bucket.\<close>

lemma percentile_loop_ge: "length bs = 64 - i \<Longrightarrow> i < 63 \<Longrightarrow> 2 ^ i \<le> percentile_loop t i bs c"
  and percentile_loop_last: "length bs = 64 - i \<Longrightarrow> 63 \<le> i \<Longrightarrow> percentile_loop t i bs c = u64 - 1"
proof -
  show last: "percentile_loop t i bs c = u64 - 1" if "length bs = 64 - i" "63 \<le> i" for t i bs c
  proof (cases bs)
    case (Cons b bs')
    with that have "i = 63" by simp
    with that Cons have "bs' = []" by simp
    with Cons \<open>i = 63\<close> show ?thesis by (simp add: kBucketCount_def Let_def)
  qed simp
  show "2 ^ i \<le> percentile_loop t i bs c" if "length bs = 64 - i" "i < 63"
    using that
  proof (induction bs arbitrary: i c)
    case (Cons b bs)
    let ?c = "add64 c b"
    have "2 ^ i \<le> percentile_loop t (Suc i) bs ?c"
    proof (cases "Suc i < 63")
      case True
      with Cons show ?thesis by (intro le_trans [OF _ Cons.IH]) auto
    next
      case False
      with Cons.prems have "i = 62" by simp
      with last [of bs "Suc i" t ?c] Cons.prems(1) show ?thesis by simp
    qed
    with Cons.prems(2) show ?case by (simp add: Let_def kBucketCount_def)
  qed simp
qed

lemma percentile_loop_mono:
  assumes len: "length vs < u64" "length ws < u64" and low: "\<And>i. below ws i \<le> below vs i" and "t \<le> t'" and "i \<le> 64"
  shows "percentile_loop t i (drop i (recorded vs)) (below vs i) \<le> percentile_loop t' i (drop i (recorded ws)) (below ws i)"
  using assms(5)
proof (induction "64 - i" arbitrary: i)
  case 0
  with recorded_counts [OF len(1)] recorded_counts [OF len(2)] show ?case by simp
next
  case (Suc d)
  have i: "i < 64" using Suc.hyps(2) by simp
  have drop: "drop i (recorded us) = recorded us ! i # drop (Suc i) (recorded us)"
    and add: "add64 (below us i) (recorded us ! i) = below us (Suc i)" if "length us < u64" for us
    using recorded_counts [OF that] i below_le [of us "Suc i"] that
    by (metis Cons_nth_drop_Suc, simp add: below_Suc add64_def)
  show ?case
  proof (cases "max t 1 \<le> below vs (Suc i)")
    case True
    then have "percentile_loop t i (drop i (recorded vs)) (below vs i) = (if i = 63 then u64 - 1 else 2 ^ i)"
      by (simp add: drop add len(1) kBucketCount_def)
    moreover have "length (drop i (recorded ws)) = 64 - i" using recorded_counts [OF len(2)] by simp
    ultimately show ?thesis using percentile_loop_ge [of "drop i (recorded ws)" i] percentile_loop_last [of "drop i (recorded ws)" i] i
      by (cases "i = 63") auto
  next
    case False
    then have "\<not> max t' 1 \<le> below ws (Suc i)" using low [of "Suc i"] assms(4) by linarith
    then have "percentile_loop t' i (drop i (recorded ws)) (below ws i) =
        percentile_loop t' (Suc i) (drop (Suc i) (recorded ws)) (below ws (Suc i))"
      unfolding drop [OF len(2)] percentile_loop.simps add [OF len(2)] Let_def by (rule if_not_P)
    moreover have "percentile_loop t i (drop i (recorded vs)) (below vs i) =
        percentile_loop t (Suc i) (drop (Suc i) (recorded vs)) (below vs (Suc i))"
      unfolding drop [OF len(1)] percentile_loop.simps add [OF len(1)] Let_def using False by (rule if_not_P)
    ultimately show ?thesis using Suc.hyps i by simp
  qed
qed

text \<open>A later percentile of larger samples is larger.\<close>

lemma Percentile_mono:
  assumes "rounding fl" and "p \<le> q" and len: "length vs = length ws" "length ws < u64" and "\<And>i. below ws i \<le> below vs i"
  shows "Percentile fl p (recorded vs) \<le> Percentile fl q (recorded ws)"
proof -
  have "length vs < u64" using len by simp
  from percentile_loop_mono [OF this len(2) assms(5) percentile_target_mono [OF assms(1,2)], of 0 "length ws"] show ?thesis
    using Count_recorded [of vs] Count_recorded [OF len(2)] len by (simp add: Percentile_def below_all)
qed

text \<open>
  C36: the histogram loses no sample and a percentile is a true bound. After any values have been
  recorded, in whatever order the threads got to it, \<open>Count\<close> is their number, and \<open>Percentile\<close> returns
  a bound that at least as many values as asked for do not exceed; it is tight up to its bucket:
  fewer values than asked for lie below half of it (a quarter, in the last bucket). The histogram
  depends on the multiset of the values only.
\<close>

theorem Percentile_bounds:
  assumes n: "vs \<noteq> []" "length vs < u64" and v: "\<forall>v \<in> set vs. v < u64"
    and wanted: "wanted = max (percentile_target fl p (length vs)) 1" "wanted \<le> length vs"
    and h: "mset ws = mset vs" "h = fold Record ws MakeHistogram"
  defines "q \<equiv> Percentile fl p h"
  shows "Count h = length vs \<and> wanted \<le> length (filter (\<lambda>v. v \<le> q) vs) \<and>
    length (filter (\<lambda>v. v < (if q = u64 - 1 then q div 4 else q div 2)) vs) < wanted"
proof -
  have ln: "length ws = length vs" using h(1) by (rule mset_eq_length)
  have hr: "h = recorded ws" using h(2) by (simp add: recorded_def)
  have c: "Count h = length vs" using Count_recorded [of ws] n(2) ln hr by simp
  have len: "length (filter P ws) = length (filter P vs)" for P
    using h(1) by (rule length_filter_mset)
  have "\<exists>k. 0 \<le> k \<and> k < 64 \<and> below ws k < wanted \<and> wanted \<le> below ws (Suc k) \<and>
      percentile_loop (percentile_target fl p (length vs)) 0 (drop 0 (recorded ws)) (below ws 0) = (if k = 63 then u64 - 1 else 2 ^ k)"
    unfolding wanted(1) by (rule percentile_loop_stops) (use n wanted ln in \<open>auto simp: below_all\<close>)
  then obtain k where k: "k < 64" "below ws k < wanted" "wanted \<le> below ws (Suc k)"
    "q = (if k = 63 then u64 - 1 else 2 ^ k)"
    using c n(1) by (auto simp: q_def Percentile_def hr below_all)
  have up: "v \<le> q" if "v \<in> set ws" "bucket_of v < Suc k" for v
  proof (cases "k = 63")
    case True
    have "v < u64" using assms(3) that(1) mset_eq_setD [OF h(1)] by simp
    with True k(4) show ?thesis by simp
  next
    case False
    then have "v < 2 ^ k" using bucket_of_le_iff [of k v] that(2) k(1) by simp
    with False k(4) show ?thesis by simp
  qed
  have low: "bucket_of v < k" if "v < (if q = u64 - 1 then q div 4 else q div 2)" for v
  proof (cases "k = 63")
    case True
    then have "v < 2 ^ 62" using that k(4) by (simp split: if_splits)
    with True bucket_of_le_iff [of 62 v] show ?thesis by simp
  next
    case False
    have "(2::nat) ^ k \<le> 2 ^ 62" using k(1) False by (intro power_increasing) auto
    then have q: "q = 2 ^ k" "q \<noteq> u64 - 1" using k(4) False by auto
    then have "v < 2 ^ k div 2" using that by simp
    then show ?thesis
    proof (cases k)
      case (Suc m)
      then have "v < 2 ^ m" using \<open>v < 2 ^ k div 2\<close> by simp
      with bucket_of_le_iff [of m v] Suc k(1) show ?thesis by simp
    qed simp
  qed
  have "wanted \<le> length (filter (\<lambda>v. v \<le> q) ws)"
    by (rule le_trans [OF k(3)]) (unfold below_def, use up in \<open>auto intro: filter_length_mono\<close>)
  moreover have "length (filter (\<lambda>v. v < (if q = u64 - 1 then q div 4 else q div 2)) ws) < wanted"
    by (rule le_less_trans [OF _ k(2)]) (unfold below_def, use low in \<open>auto intro: filter_length_mono\<close>)
  ultimately show ?thesis using c len by simp
qed

text \<open>The values 1 to 4 with the median asked for, in exact arithmetic.\<close>

theorem Percentile_bounds_witness:
  "Percentile (\<lambda>x. x) 50 (fold Record [3, 1, 4, 2] MakeHistogram) = 4 \<and>
   2 \<le> length (filter (\<lambda>v. v \<le> 4) [1, 2, 3, 4 :: nat])"
proof -
  have q: "Percentile (\<lambda>x. x) 50 (fold Record [3, 1, 4, 2] MakeHistogram) = 4" by code_simp
  have w: "(2::nat) = max (percentile_target (\<lambda>x. x) 50 (length [1, 2, 3, 4 :: nat])) 1" by code_simp
  show ?thesis
    using Percentile_bounds [OF _ _ _ w, of "[3, 1, 4, 2]" "fold Record [3, 1, 4, 2] MakeHistogram"] q
    by (simp add: add_mset_commute)
qed

end
