(* ===== verification/OpenLoopBench.thy ===== *)
theory OpenLoopBench
  imports SchedulerBench ContinuousTiming Histograms
begin

text \<open>
  The \<open>open_loop\<close> mode of \<open>cpp/bench/scheduler_bench.cpp\<close>: requests that arrive at random times, the latency
  histograms, and the report. The random inter-arrival times are the parameter \<open>gap\<close> (nanoseconds before
  the request of that index), the random source of the cost model is \<open>draw\<close>, the rounding of doubles is \<open>fl\<close>. It is
  shown that the run passes its own checks and that the reported figures make sense. The measured
  wall-clock time is added when the report is printed, in \<open>BenchMain\<close>.
\<close>

section \<open>The open-loop mode\<close>

definition OpenLoopConfig :: "nat \<Rightarrow> EngineConfig" where
  "OpenLoopConfig s = BenchmarkConfig\<lparr>seed := s, kv_blocks := 16384, prefix_cache_entries := 1024,
     cost_model := (cost_model BenchmarkConfig)\<lparr>prefill_fixed := 100000, prefill_per_token := 10000,
       decode_fixed := 50000, decode_per_sequence := 10000, jitter_basis_points := 200\<rparr>\<rparr>"

text \<open>The request of index \<open>index\<close> that arrives at \<open>arrival\<close>, shaped by the \<open>--cache\<close> argument.\<close>

definition open_loop_request :: "string \<Rightarrow> nat \<Rightarrow> int \<Rightarrow> EngineRequest" where
  "open_loop_request cache index arrival =
     (let r = MakeRequest index;
          r1 = (if (cache = ''result'' \<or> cache = ''both'') \<and> index mod 5 = 4
                then let origin = index - 4 in
                  r\<lparr>prompt_hash := ''prompt-'' @ to_string origin, prompt_tokens := 16 + origin mod 113,
                    max_output_tokens := 1 + origin mod 16, sampling_seed := origin\<rparr>
                else r);
          r2 = (if cache = ''prefix'' \<or> cache = ''both''
                then let bucket = to_string (index div 5) in
                  r1\<lparr>prompt_tokens := 64, prompt_block_hashes := [''shared-a-'' @ bucket, ''shared-b-'' @ bucket,
                     ''shared-c-'' @ bucket, ''unique-'' @ to_string index]\<rparr>
                else r1)
      in r2\<lparr>arrival_time := arrival, priority := (if index mod 10 = 0 then 0 else 1)\<rparr>)"

record OpenLoop =
  ol_engine :: ContinuousEngine
  ol_arrival :: int
  ol_arrivals :: "(string \<times> int) list"

definition open_loop_submit :: "string \<Rightarrow> (nat \<Rightarrow> int) \<Rightarrow> nat \<Rightarrow> OpenLoop \<Rightarrow> OpenLoop" where
  "open_loop_submit cache gap index st =
     (let arrival = (if index \<noteq> 0 then ol_arrival st + gap index else ol_arrival st);
          r = open_loop_request cache index arrival
      in st\<lparr>ol_engine := Submit (ol_engine st) r, ol_arrival := arrival,
            ol_arrivals := (if request_id r \<in> fst ` set (ol_arrivals st) then ol_arrivals st
                            else ol_arrivals st @ [(request_id r, arrival)])\<rparr>)"

text \<open>\<open>duration_cast<microseconds>\<close> truncates towards zero; negative latencies are recorded as 0.\<close>

definition duration_us :: "int \<Rightarrow> int" where
  "duration_us d = (if d < 0 then - ((- d) div 1000) else d div 1000)"

definition to_us :: "int \<Rightarrow> nat" where
  "to_us d = nat (max (duration_us d) 0)"

record Telemetry =
  tm_ttft :: Histogram
  tm_end_to_end :: Histogram
  tm_low_priority :: Histogram

text \<open>One result: \<open>arrivals.at\<close> throws on an unknown id.\<close>

definition record_result :: "bool \<Rightarrow> (string \<times> int) list \<Rightarrow> EngineResult \<Rightarrow> error + Telemetry \<Rightarrow> error + Telemetry" where
  "record_result telemetry arrivals x tm = (case tm of Inl err \<Rightarrow> Inl err | Inr m \<Rightarrow>
     (case map_of arrivals (res_request_id x) of
        None \<Rightarrow> Inl (OutOfRange ''unordered_map::at'')
      | Some submitted \<Rightarrow>
          let ttft_us = to_us (first_token_at x - submitted); e2e_us = to_us (completed_at x - submitted);
              m1 = (if telemetry then m\<lparr>tm_ttft := Record ttft_us (tm_ttft m),
                      tm_end_to_end := Record e2e_us (tm_end_to_end m)\<rparr> else m)
          in Inr (if telemetry \<and> res_request_id x \<noteq> [] \<and> last (res_request_id x) = CHR ''0''
                  then m1\<lparr>tm_low_priority := Record ttft_us (tm_low_priority m1)\<rparr> else m1)))"

text \<open>\<open>std::chrono::duration<double>\<close> of a number of nanoseconds, and a hit rate.\<close>

definition seconds_of :: "(rat \<Rightarrow> rat) \<Rightarrow> int \<Rightarrow> rat" where
  "seconds_of fl ns = fl (fl (of_int ns) / 1000000000)"

definition hit_rate :: "(rat \<Rightarrow> rat) \<Rightarrow> nat \<Rightarrow> nat \<Rightarrow> rat" where
  "hit_rate fl hits requests = (if requests = 0 then 0 else fl (fl (of_nat hits) / fl (of_nat requests)))"

text \<open>The printed values, in their order.\<close>

record OpenLoopReport =
  olr_requests :: nat
  olr_offered_qps :: nat
  olr_telemetry :: bool
  olr_achieved_qps :: rat
  olr_ttft_p50_us :: nat
  olr_ttft_p90_us :: nat
  olr_ttft_p99_us :: nat
  olr_e2e_p50_us :: nat
  olr_e2e_p90_us :: nat
  olr_e2e_p99_us :: nat
  olr_low_priority_ttft_p99_us :: nat
  olr_engine_utilization :: rat
  olr_scheduled_event_depth :: nat
  olr_drain_lag_us :: int
  olr_prefix_hit_rate :: rat
  olr_result_hit_rate :: rat
  olr_complete :: bool
  olr_zero_leak :: bool

definition open_loop_report :: "(rat \<Rightarrow> rat) \<Rightarrow> Arguments \<Rightarrow> int \<Rightarrow> Telemetry \<Rightarrow> ContinuousEngine \<Rightarrow> OpenLoopReport" where
  "open_loop_report fl a arrival m e =
     (let makespan_seconds = seconds_of fl (ce_clock e);
          busy_seconds = seconds_of fl (simulated_busy_time (ce_stats e));
          utilization = (if makespan_seconds = 0 then 0 else fl (busy_seconds / makespan_seconds));
          drain_lag = duration_us (ce_clock e - arrival);
          complete = (length (ce_results e) = arg_requests a);
          cleared = ClearCaches e;
          zero_leak = (allocated_blocks (ce_kv_cache cleared) = 0);
          s = ce_stats cleared
      in \<lparr>olr_requests = arg_requests a, olr_offered_qps = arg_qps a, olr_telemetry = arg_telemetry a,
          olr_achieved_qps = fl (fl (of_nat (arg_requests a)) / makespan_seconds),
          olr_ttft_p50_us = Percentile fl 50 (tm_ttft m), olr_ttft_p90_us = Percentile fl 90 (tm_ttft m),
          olr_ttft_p99_us = Percentile fl 99 (tm_ttft m), olr_e2e_p50_us = Percentile fl 50 (tm_end_to_end m),
          olr_e2e_p90_us = Percentile fl 90 (tm_end_to_end m), olr_e2e_p99_us = Percentile fl 99 (tm_end_to_end m),
          olr_low_priority_ttft_p99_us = Percentile fl 99 (tm_low_priority m),
          olr_engine_utilization = utilization, olr_scheduled_event_depth = peak_pending_requests s,
          olr_drain_lag_us = drain_lag, olr_prefix_hit_rate = hit_rate fl (prefix_cache_hits cleared) (prefix_cache_requests s),
          olr_result_hit_rate = hit_rate fl (result_cache_request_hits s) (result_cache_requests s),
          olr_complete = complete, olr_zero_leak = zero_leak\<rparr>)"

definition empty_telemetry :: Telemetry where
  "empty_telemetry = \<lparr>tm_ttft = MakeHistogram, tm_end_to_end = MakeHistogram, tm_low_priority = MakeHistogram\<rparr>"

text \<open>Outer result: a constructor or \<open>arrivals.at\<close> throws. Inner: \<open>RunUntilIdle\<close> does not return.\<close>

definition RunOpenLoop :: "(rat \<Rightarrow> rat) \<Rightarrow> draw \<Rightarrow> (nat \<Rightarrow> int) \<Rightarrow> Arguments \<Rightarrow> error + OpenLoopReport option" where
  "RunOpenLoop fl draw gap a =
     (case MakeContinuousEngine draw (OpenLoopConfig (arg_seed a)) of Inl err \<Rightarrow> Inl err
      | Inr e0 \<Rightarrow>
        let st = fold (open_loop_submit (arg_cache a) gap) [0..<arg_requests a]
                   \<lparr>ol_engine = e0, ol_arrival = 0, ol_arrivals = []\<rparr>
        in case RunUntilIdle (ol_engine st) of None \<Rightarrow> Inr None
           | Some e' \<Rightarrow>
             (case fold (record_result (arg_telemetry a) (ol_arrivals st)) (ce_results e') (Inr empty_telemetry) of
                Inl err \<Rightarrow> Inl err
              | Inr m \<Rightarrow> Inr (Some (open_loop_report fl a (ol_arrival st) m e'))))"

section \<open>The submitted requests\<close>

lemma open_loop_request_ok: "request_ok (open_loop_request cache i t)"
  using small_tokens [of i] small_tokens [of "i - 4"]
  by (auto simp: request_ok_def open_loop_request_def MakeRequest_def Let_def)

definition bench_id :: "nat \<Rightarrow> string" where
  "bench_id i = ''request-'' @ to_string i"

lemma bench_id_inject [simp]: "bench_id i = bench_id j \<longleftrightarrow> i = j"
  by (simp add: bench_id_def)

lemma open_loop_request_simps [simp]:
  "request_id (open_loop_request cache i t) = bench_id i" "arrival_time (open_loop_request cache i t) = t"
  by (simp_all add: open_loop_request_def MakeRequest_def bench_id_def Let_def)

lemma open_loop_request_small:
  "prompt_tokens (open_loop_request cache i t) \<le> 128" "max_output_tokens (open_loop_request cache i t) \<le> 16"
proof -
  have "k mod 113 \<le> 112" "k mod 16 \<le> 15" for k :: nat by (simp_all flip: less_Suc_eq_le)
  from this [of i] this [of "i - 4"]
  show "prompt_tokens (open_loop_request cache i t) \<le> 128" "max_output_tokens (open_loop_request cache i t) \<le> 16"
    by (simp_all add: open_loop_request_def MakeRequest_def Let_def)
qed

text \<open>No request of the benchmark is too large for its engine.\<close>

lemma open_loop_request_possible: "impossible_reason (OpenLoopConfig s) (open_loop_request cache i t) = None"
proof -
  let ?r = "open_loop_request cache i t"
  have "BlocksForTokens (prompt_tokens ?r + max_output_tokens ?r) 16 \<le> BlocksForTokens 144 16"
    using open_loop_request_small [of cache i t] by (intro BlocksForTokens_mono) simp
  then show ?thesis using open_loop_request_small [of cache i t]
    by (simp add: impossible_reason_def OpenLoopConfig_def BenchmarkConfig_def default_config_def BlocksForTokens_def)
qed

text \<open>\<open>lawful\<close>: the random source of the cost model keeps to its range, which only the statements on times need.\<close>

definition open_loop_inv :: "bool \<Rightarrow> EngineConfig \<Rightarrow> nat \<Rightarrow> OpenLoop \<Rightarrow> bool" where
  "open_loop_inv lawful cfg n st \<longleftrightarrow> settled (ol_engine st) \<and> ce_config (ol_engine st) = cfg \<and>
     (lawful \<longrightarrow> timed (map_of (ol_arrivals st)) (ol_engine st)) \<and> map fst (ol_arrivals st) = map bench_id [0..<n] \<and>
     (0 < n \<longrightarrow> map_of (ol_arrivals st) (bench_id (n - 1)) = Some (ol_arrival st)) \<and>
     (\<exists>rs. ledger (ol_engine st) = image_mset (request_outcome cfg) (mset rs) \<and>
        map request_id rs = map bench_id [0..<n] \<and> (\<forall>r \<in> set rs. impossible_reason cfg r = None))"

lemma open_loop_submit_inv:
  assumes "open_loop_inv lawful (OpenLoopConfig s) n st"
  shows "open_loop_inv lawful (OpenLoopConfig s) (Suc n) (open_loop_submit cache gap n st)"
proof -
  let ?cfg = "OpenLoopConfig s" and ?st = "open_loop_submit cache gap n st"
  define t where "t = (if n \<noteq> 0 then ol_arrival st + gap n else ol_arrival st)"
  let ?r = "open_loop_request cache n t" and ?arr = "ol_arrivals st @ [(bench_id n, t)]"
  from assms have st: "settled (ol_engine st)" "ce_config (ol_engine st) = ?cfg" "lawful \<Longrightarrow> timed (map_of (ol_arrivals st)) (ol_engine st)"
    "map fst (ol_arrivals st) = map bench_id [0..<n]" by (simp_all add: open_loop_inv_def)
  from st(4) have ids: "fst ` set (ol_arrivals st) = bench_id ` {0..<n}" by (metis list.set_map set_upt)
  then have new: "bench_id n \<notin> fst ` set (ol_arrivals st)" by auto
  then have st': "ol_engine ?st = Submit (ol_engine st) ?r" "ol_arrivals ?st = ?arr" "ol_arrival ?st = t"
    by (simp_all add: open_loop_submit_def Let_def t_def)
  have none: "map_of (ol_arrivals st) (bench_id n) = None" using new by (simp add: map_of_eq_None_iff)
  then have ext: "map_of (ol_arrivals st) \<subseteq>\<^sub>m map_of ?arr" "map_of ?arr (bench_id n) = Some t"
    by (auto simp: map_add_def map_le_def split: option.splits)
  have "timed (map_of ?arr) (ol_engine st)" if lawful
    using st(3) [OF that] ext(1) by (rule timed_extend)
  moreover have "request_timed (map_of ?arr) ?r" using ext(2) by (simp add: request_timed_def since_def del: map_of_append)
  ultimately have tm: "timed (map_of ?arr) (ol_engine ?st)" if lawful unfolding st' using that by (intro Submit_timed) simp_all
  note sub = Submit_settled [OF st(1) open_loop_request_ok, of cache n t]
  from assms obtain rs where rs: "ledger (ol_engine st) = image_mset (request_outcome ?cfg) (mset rs)"
    "map request_id rs = map bench_id [0..<n]" "\<forall>r \<in> set rs. impossible_reason ?cfg r = None" by (auto simp: open_loop_inv_def)
  have "ledger (ol_engine ?st) = image_mset (request_outcome ?cfg) (mset (rs @ [?r]))"
    "map request_id (rs @ [?r]) = map bench_id [0..<Suc n]" "\<forall>r \<in> set (rs @ [?r]). impossible_reason ?cfg r = None"
    using sub(2) rs st(2) open_loop_request_possible by (simp_all add: st')
  then have "\<exists>rs. ledger (ol_engine ?st) = image_mset (request_outcome ?cfg) (mset rs) \<and>
      map request_id rs = map bench_id [0..<Suc n] \<and> (\<forall>r \<in> set rs. impossible_reason ?cfg r = None)" by blast
  moreover have "map fst (ol_arrivals ?st) = map bench_id [0..<Suc n]" using st(4) by (simp add: st')
  moreover have "settled (ol_engine ?st)" "ce_config (ol_engine ?st) = ?cfg" using sub st(2) by (simp_all add: st')
  moreover have "map_of (ol_arrivals ?st) (bench_id (Suc n - 1)) = Some (ol_arrival ?st)" using ext(2) by (simp add: st' del: map_of_append)
  ultimately show ?thesis using tm unfolding open_loop_inv_def st'(2) by blast
qed

lemma open_loop_submits:
  "open_loop_inv lawful (OpenLoopConfig s) 0 st \<Longrightarrow> open_loop_inv lawful (OpenLoopConfig s) n (fold (open_loop_submit cache gap) [0..<n] st)"
  by (induction n) (simp_all add: open_loop_submit_inv)

section \<open>The telemetry\<close>

definition ttft_sample :: "(string \<times> int) list \<Rightarrow> EngineResult \<Rightarrow> nat" where
  "ttft_sample arrivals x = to_us (first_token_at x - the (map_of arrivals (res_request_id x)))"

definition e2e_sample :: "(string \<times> int) list \<Rightarrow> EngineResult \<Rightarrow> nat" where
  "e2e_sample arrivals x = to_us (completed_at x - the (map_of arrivals (res_request_id x)))"

abbreviation low_priority :: "string \<Rightarrow> bool" where
  "low_priority i \<equiv> i \<noteq> [] \<and> last i = CHR ''0''"

text \<open>The recording loop when every id is known.\<close>

lemma record_results:
  assumes "\<forall>x \<in> set xs. res_request_id x \<in> fst ` set arrivals"
  shows "fold (record_result telemetry arrivals) xs (Inr m) = Inr (if telemetry then
    m\<lparr>tm_ttft := fold Record (map (ttft_sample arrivals) xs) (tm_ttft m),
      tm_end_to_end := fold Record (map (e2e_sample arrivals) xs) (tm_end_to_end m),
      tm_low_priority := fold Record (map (ttft_sample arrivals) (filter (\<lambda>x. low_priority (res_request_id x)) xs)) (tm_low_priority m)\<rparr>
    else m)"
  using assms
proof (induction xs arbitrary: m)
  case (Cons x xs)
  then obtain t where "map_of arrivals (res_request_id x) = Some t"
    by (metis list.set_intros(1) map_of_eq_None_iff not_None_eq)
  then show ?case using Cons by (simp add: record_result_def ttft_sample_def e2e_sample_def Let_def)
qed simp

lemma last_to_string: "last (to_string n) = digit_char (n mod 10)"
  by (cases "n < 10") (simp_all add: to_string.simps [of n])

lemma ends_with_zero: "low_priority (bench_id i) \<longleftrightarrow> i mod 10 = 0"
proof -
  have "digit_char (i mod 10) = digit_char 0 \<longleftrightarrow> i mod 10 = 0" by (rule digit_char_inject) simp_all
  moreover have "digit_char 0 = CHR ''0''" by code_simp
  ultimately show ?thesis by (simp add: last_to_string bench_id_def)
qed

lemma to_us_mono: "d \<le> d' \<Longrightarrow> to_us d \<le> to_us d'"
proof -
  assume le: "d \<le> d'"
  show ?thesis
  proof (cases "0 \<le> d")
    case True
    with le zdiv_mono1 [OF le, of 1000] show ?thesis by (simp add: to_us_def duration_us_def nat_mono max.coboundedI1)
  next
    case False
    then have "duration_us d \<le> 0" by (simp add: duration_us_def div_int_pos_iff)
    then show ?thesis by (simp add: to_us_def)
  qed
qed

section \<open>The finished run\<close>

text \<open>
  What holds when \<open>RunUntilIdle\<close> has returned: every request has one result, all of them succeeded, every id
  is known, and the engine's times are in order.
\<close>

definition finished :: "bool \<Rightarrow> nat \<Rightarrow> OpenLoop \<Rightarrow> ContinuousEngine \<Rightarrow> bool" where
  "finished lawful n st e \<longleftrightarrow> mset (map res_request_id (ce_results e)) = mset (map bench_id [0..<n]) \<and>
     (\<forall>x \<in> set (ce_results e). succeeded x \<and> res_request_id x \<in> fst ` set (ol_arrivals st)) \<and>
     (lawful \<longrightarrow> timed (map_of (ol_arrivals st)) e \<and> card (ce_prefix_accounted e) \<le> n \<and>
       (0 < n \<longrightarrow> ol_arrival st \<le> ce_clock e \<and> 0 < simulated_busy_time (ce_stats e))) \<and> allocated_blocks (ce_kv_cache (ClearCaches e)) = 0"

lemma open_loop_finishes:
  assumes inv: "open_loop_inv lawful (OpenLoopConfig s) n st"
  shows "\<exists>e'. RunUntilIdle (ol_engine st) = Some e' \<and> finished lawful n st e'"
proof -
  let ?cfg = "OpenLoopConfig s" and ?arr = "map_of (ol_arrivals st)"
  from inv obtain rs where st: "settled (ol_engine st)" "ce_config (ol_engine st) = ?cfg" "lawful \<Longrightarrow> timed ?arr (ol_engine st)"
    "map fst (ol_arrivals st) = map bench_id [0..<n]" "0 < n \<Longrightarrow> ?arr (bench_id (n - 1)) = Some (ol_arrival st)"
    and rs: "ledger (ol_engine st) = image_mset (request_outcome ?cfg) (mset rs)" "map request_id rs = map bench_id [0..<n]"
      "\<forall>r \<in> set rs. impossible_reason ?cfg r = None" by (auto simp: open_loop_inv_def)
  from RunUntilIdle_returns [OF st(1)] obtain e' where e': "RunUntilIdle (ol_engine st) = Some e'" "settled e'"
    "ce_pending e' = []" "ce_active e' = []" "ledger e' = ledger (ol_engine st)" "ce_config e' = ?cfg" using st(2) by auto
  have out: "image_mset result_outcome (mset (ce_results e')) = image_mset (request_outcome ?cfg) (mset rs)"
    using e'(3-5) rs(1) by (simp add: ledger_def)
  have tm: "timed ?arr e'" if lawful using RunUntilIdle_timed [OF e'(1) st(3)] that .
  have "image_mset fst (image_mset result_outcome (mset (ce_results e'))) = image_mset request_id (mset rs)"
    unfolding out by (simp add: multiset.map_comp request_outcome_def comp_def)
  then have ids: "mset (map res_request_id (ce_results e')) = mset (map bench_id [0..<n])"
    unfolding rs(2) [symmetric] by (simp add: multiset.map_comp result_outcome_def comp_def)
  have known: "fst ` set (ol_arrivals st) = bench_id ` {0..<n}" using st(4) by (metis list.set_map set_upt)
  have res: "succeeded x \<and> res_request_id x \<in> fst ` set (ol_arrivals st)" if "x \<in> set (ce_results e')" for x
  proof -
    have "result_outcome x \<in># image_mset (request_outcome ?cfg) (mset rs)" using that unfolding out [symmetric] by simp
    then obtain r where "r \<in> set rs" "result_outcome x = request_outcome ?cfg r" by auto
    then have "succeeded x" using rs(3) request_outcome_possible [of ?cfg r]
      by (auto simp: result_outcome_def split: if_splits)
    moreover have "res_request_id x \<in> set (map bench_id [0..<n])" using that mset_eq_setD [OF ids] by auto
    ultimately show ?thesis using known by simp
  qed
  have pos: "ol_arrival st \<le> ce_clock e' \<and> 0 < simulated_busy_time (ce_stats e')" if "0 < n" lawful
  proof -
    have "bench_id (n - 1) \<in> set (map res_request_id (ce_results e'))" using that unfolding mset_eq_setD [OF ids] by simp
    then obtain x where x: "x \<in> set (ce_results e')" "res_request_id x = bench_id (n - 1)" by auto
    then have "ol_arrival st \<le> completed_at x" "completed_at x \<le> ce_clock e'"
      using tm [OF that(2)] st(5) [OF that(1)] by (auto simp: timed_def result_timed_def since_def)
    moreover have "worked e'" using res [OF x(1)] x(1) by (auto simp: worked_def)
    moreover have "prefill_takes_time (cost_model ?cfg)"
      by (simp add: prefill_takes_time_def OpenLoopConfig_def BenchmarkConfig_def default_config_def default_cost_def)
    ultimately show ?thesis using tm [OF that(2)] e'(6) by (auto simp: timed_def)
  qed
  have "card (ce_prefix_accounted e') \<le> n" if lawful
  proof -
    have "ce_prefix_accounted e' \<subseteq> bench_id ` {0..<n}" using tm [OF that] known by (simp add: timed_def dom_map_of_conv_image_fst)
    then have "card (ce_prefix_accounted e') \<le> card (bench_id ` {0..<n})" by (intro card_mono) auto
    also have "\<dots> \<le> n" using card_image_le [of "{0..<n}" bench_id] by simp
    finally show ?thesis .
  qed
  then show ?thesis using e'(1) ids res tm pos cleared_no_leak [OF e'(2,4)] by (auto simp: finished_def)
qed

text \<open>The figures of a finished run.\<close>

lemma seconds_of_mono:
  assumes "rounding fl" and "x \<le> y"
  shows "seconds_of fl x \<le> seconds_of fl y"
proof -
  have "fl (of_int x) \<le> fl (of_int y)" by (rule rounding_mono [OF assms(1)]) (use assms(2) in simp)
  then have "fl (of_int x) / 1000000000 \<le> fl (of_int y) / 1000000000" by (rule divide_right_mono) simp
  then show ?thesis unfolding seconds_of_def by (rule rounding_mono [OF assms(1)])
qed

lemma seconds_of_positive:
  assumes "rounding fl" and "0 < x"
  shows "0 < seconds_of fl x"
proof -
  have "fl (of_int 1) \<le> fl (of_int x)" by (rule rounding_mono [OF assms(1)]) (use assms(2) in simp)
  then have "1 \<le> fl (of_int x)" using assms(1) by (simp add: rounding_def)
  then have "fl (1 / 1000000000) \<le> seconds_of fl x"
    unfolding seconds_of_def by (intro rounding_mono [OF assms(1)]) (simp add: divide_right_mono)
  then show ?thesis using assms(1) by (simp add: rounding_def)
qed

lemma quotient_unit:
  assumes "rounding fl" and "0 \<le> x" and "x \<le> y"
  shows "0 \<le> fl (x / y) \<and> fl (x / y) \<le> 1"
proof -
  have "0 \<le> x / y" "x / y \<le> 1" using assms(2,3) by (auto simp: divide_le_eq_1)
  with rounding_nonneg [OF assms(1)] rounding_le_1 [OF assms(1)] show ?thesis by blast
qed

lemma hit_rate_unit: "rounding fl \<Longrightarrow> h \<le> r \<Longrightarrow> 0 \<le> hit_rate fl h r \<and> hit_rate fl h r \<le> 1"
  unfolding hit_rate_def using quotient_unit [of fl "fl (of_nat h)" "fl (of_nat r)"] rounding_nonneg [of fl "of_nat h"]
    rounding_mono [of fl "of_nat h" "of_nat r"] by auto

lemma finished_rates:
  assumes "finished True n st e" and "rounding fl" and "0 < n" and "n < u64"
    and rep_def: "rep = open_loop_report fl a (ol_arrival st) m e"
  shows "0 \<le> olr_engine_utilization rep \<and> olr_engine_utilization rep \<le> 1"
    and "0 \<le> olr_prefix_hit_rate rep \<and> olr_prefix_hit_rate rep \<le> 1"
    and "0 \<le> olr_drain_lag_us rep" and "0 < seconds_of fl (ce_clock e)"
proof -
  let ?b = "simulated_busy_time (ce_stats e)"
  from assms have tm: "timed (map_of (ol_arrivals st)) e" and b: "0 < ?b" "?b \<le> ce_clock e" "ol_arrival st \<le> ce_clock e"
    by (auto simp: finished_def timed_def)
  have s: "0 < seconds_of fl ?b" "seconds_of fl ?b \<le> seconds_of fl (ce_clock e)"
    using seconds_of_positive [OF assms(2) b(1)] seconds_of_mono [OF assms(2) b(2)] .
  then show "0 < seconds_of fl (ce_clock e)" by simp
  show "0 \<le> olr_engine_utilization rep \<and> olr_engine_utilization rep \<le> 1"
    using quotient_unit [OF assms(2), of "seconds_of fl ?b" "seconds_of fl (ce_clock e)"] s
    by (auto simp: rep_def open_loop_report_def Let_def)
  have clear: "ce_stats (ClearCaches e) = ce_stats e" by (simp add: ClearCaches_def split: prod.splits)
  have "card (ce_prefix_accounted e) < u64" using assms(1,4) by (simp add: finished_def)
  with prefix_rate_counts [OF tm] have "prefix_cache_hits e \<le> prefix_cache_requests (ce_stats e)" by simp
  from hit_rate_unit [OF assms(2) this] show "0 \<le> olr_prefix_hit_rate rep \<and> olr_prefix_hit_rate rep \<le> 1"
    by (simp add: rep_def open_loop_report_def Let_def clear prefix_cache_hits_def)
  show "0 \<le> olr_drain_lag_us rep" using b(3) by (simp add: rep_def open_loop_report_def Let_def duration_us_def div_int_pos_iff)
qed

definition ordered_percentiles :: "OpenLoopReport \<Rightarrow> bool" where
  "ordered_percentiles rep \<longleftrightarrow>
     olr_ttft_p50_us rep \<le> olr_ttft_p90_us rep \<and> olr_ttft_p90_us rep \<le> olr_ttft_p99_us rep \<and>
     olr_e2e_p50_us rep \<le> olr_e2e_p90_us rep \<and> olr_e2e_p90_us rep \<le> olr_e2e_p99_us rep \<and>
     olr_ttft_p50_us rep \<le> olr_e2e_p50_us rep \<and> olr_ttft_p90_us rep \<le> olr_e2e_p90_us rep \<and> olr_ttft_p99_us rep \<le> olr_e2e_p99_us rep"

lemma finished_percentiles:
  assumes "finished True n st e" and "rounding fl" and "length (ce_results e) < u64"
    and m: "tm_ttft m = recorded (map (ttft_sample (ol_arrivals st)) (ce_results e))"
      "tm_end_to_end m = recorded (map (e2e_sample (ol_arrivals st)) (ce_results e))"
  shows "ordered_percentiles (open_loop_report fl a t m e)"
proof -
  have "ttft_sample (ol_arrivals st) x \<le> e2e_sample (ol_arrivals st) x" if "x \<in> set (ce_results e)" for x
    using assms(1) that unfolding ttft_sample_def e2e_sample_def
    by (intro to_us_mono) (auto simp: finished_def timed_def result_timed_def)
  note le = below_antimono [of "ce_results e", OF this]
  note mono = Percentile_mono [OF assms(2)]
  have "Percentile fl p (tm_ttft m) \<le> Percentile fl q (tm_ttft m)" "Percentile fl p (tm_end_to_end m) \<le> Percentile fl q (tm_end_to_end m)"
    "Percentile fl p (tm_ttft m) \<le> Percentile fl q (tm_end_to_end m)" if "p \<le> q" for p q
    unfolding m using that assms(3) le by (intro mono; simp)+
  from this(1,2) this(3) [OF order_refl] show ?thesis by (simp add: ordered_percentiles_def open_loop_report_def Let_def)
qed

text \<open>The histograms hold one sample per request, the one for low priority one per request with an index divisible by ten.\<close>

definition complete_telemetry :: "nat \<Rightarrow> Telemetry \<Rightarrow> bool" where
  "complete_telemetry n m \<longleftrightarrow> Count (tm_ttft m) = n \<and> Count (tm_end_to_end m) = n \<and>
     Count (tm_low_priority m) = length (filter (\<lambda>i. i mod 10 = 0) [0..<n])"

lemma finished_telemetry:
  assumes "finished lawful n st e" and "n < u64"
  shows "\<exists>m. fold (record_result telemetry (ol_arrivals st)) (ce_results e) (Inr empty_telemetry) = Inr m \<and> (telemetry \<longrightarrow>
    tm_ttft m = recorded (map (ttft_sample (ol_arrivals st)) (ce_results e)) \<and>
    tm_end_to_end m = recorded (map (e2e_sample (ol_arrivals st)) (ce_results e)) \<and> complete_telemetry n m)"
proof -
  let ?low = "filter (\<lambda>x. low_priority (res_request_id x)) (ce_results e)"
  from assms(1) have ids: "mset (map res_request_id (ce_results e)) = mset (map bench_id [0..<n])"
    and known: "\<forall>x \<in> set (ce_results e). res_request_id x \<in> fst ` set (ol_arrivals st)" by (simp_all add: finished_def)
  from mset_eq_length [OF ids] have len: "length (ce_results e) = n" by simp
  have "length (filter low_priority (map res_request_id (ce_results e))) = length (filter low_priority (map bench_id [0..<n]))"
    using ids by (rule length_filter_mset)
  then have low: "length ?low = length (filter (\<lambda>i. i mod 10 = 0) [0..<n])"
    using ends_with_zero by (simp add: filter_map comp_def)
  have "length ?low < u64" using len assms(2) length_filter_le [of _ "ce_results e"] le_less_trans by blast
  then have "Count (recorded (map (ttft_sample (ol_arrivals st)) (ce_results e))) = n"
    "Count (recorded (map (e2e_sample (ol_arrivals st)) (ce_results e))) = n"
    "Count (recorded (map (ttft_sample (ol_arrivals st)) ?low)) = length ?low"
    using len assms(2) by (simp_all add: Count_recorded)
  then show ?thesis using record_results [OF known, of telemetry empty_telemetry] low
    by (simp add: complete_telemetry_def recorded_def empty_telemetry_def)
qed

text \<open>What a reader of the report takes for granted.\<close>

definition sound_report :: "OpenLoopReport \<Rightarrow> bool" where
  "sound_report rep \<longleftrightarrow> 0 \<le> olr_engine_utilization rep \<and> olr_engine_utilization rep \<le> 1 \<and>
     0 \<le> olr_prefix_hit_rate rep \<and> olr_prefix_hit_rate rep \<le> 1 \<and> 0 \<le> olr_drain_lag_us rep \<and>
     (olr_telemetry rep \<longrightarrow> ordered_percentiles rep)"

lemma RunOpenLoop_report:
  assumes "arg_requests a < u64" and "0 < arg_requests a"
  shows "\<exists>t m e. RunOpenLoop fl draw gap a = Inr (Some (open_loop_report fl a t m e)) \<and>
    olr_complete (open_loop_report fl a t m e) \<and> olr_zero_leak (open_loop_report fl a t m e) \<and>
    (arg_telemetry a \<longrightarrow> complete_telemetry (arg_requests a) m) \<and>
    (rounding fl \<and> draw_in_range draw \<longrightarrow> 0 < seconds_of fl (ce_clock e) \<and> sound_report (open_loop_report fl a t m e))"
proof -
  let ?n = "arg_requests a" and ?cfg = "OpenLoopConfig (arg_seed a)"
  have cfg: "small_config ?cfg" "cost_config_ok (cost_model ?cfg)"
    by (simp_all add: small_config_def OpenLoopConfig_def BenchmarkConfig_def default_config_def default_cost_def cost_config_ok_def)
  then obtain e0 where m: "MakeContinuousEngine draw ?cfg = Inr e0"
    using MakeEngine_total [of ?cfg draw] by (auto simp: OpenLoopConfig_def BenchmarkConfig_def default_config_def)
  note s = MakeContinuousEngine_settled [OF m cfg(1) [unfolded small_config_def, THEN conjunct1] cfg(1) [unfolded small_config_def, THEN conjunct2]]
  let ?st0 = "\<lparr>ol_engine = e0, ol_arrival = 0, ol_arrivals = []\<rparr>"
  define st where "st = fold (open_loop_submit (arg_cache a) gap) [0..<?n] ?st0"
  have "open_loop_inv (draw_in_range draw) ?cfg 0 ?st0"
    using s MakeContinuousEngine_timed [OF m _ cfg(2)] by (simp add: open_loop_inv_def)
  from open_loop_finishes [OF open_loop_submits [OF this, of ?n "arg_cache a" gap, folded st_def]] obtain e' where
    e': "RunUntilIdle (ol_engine st) = Some e'" and fin: "finished (draw_in_range draw) ?n st e'" by blast
  from finished_telemetry [OF fin assms(1), of "arg_telemetry a"] obtain tm where
    tm: "fold (record_result (arg_telemetry a) (ol_arrivals st)) (ce_results e') (Inr empty_telemetry) = Inr tm"
    and hist: "arg_telemetry a \<Longrightarrow> tm_ttft tm = recorded (map (ttft_sample (ol_arrivals st)) (ce_results e')) \<and>
      tm_end_to_end tm = recorded (map (e2e_sample (ol_arrivals st)) (ce_results e')) \<and> complete_telemetry ?n tm" by blast
  let ?rep = "open_loop_report fl a (ol_arrival st) tm e'"
  have run: "RunOpenLoop fl draw gap a = Inr (Some ?rep)" using m e' tm by (simp add: RunOpenLoop_def st_def [symmetric])
  have len: "length (ce_results e') = ?n" using fin mset_eq_length unfolding finished_def by fastforce
  then have ok: "olr_complete ?rep \<and> olr_zero_leak ?rep" using fin by (simp add: open_loop_report_def Let_def finished_def)
  have "0 < seconds_of fl (ce_clock e') \<and> sound_report ?rep" if "rounding fl" "draw_in_range draw"
  proof -
    from that fin have f: "finished True ?n st e'" by simp
    have "olr_telemetry ?rep \<Longrightarrow> ordered_percentiles ?rep"
      using finished_percentiles [OF f that(1), of tm a "ol_arrival st"] len assms(1) hist
      by (simp add: open_loop_report_def Let_def)
    with finished_rates [OF f that(1) assms(2,1) refl] show ?thesis by (simp add: sound_report_def)
  qed
  with run ok hist show ?thesis by blast
qed

section \<open>Properties\<close>

text \<open>
  C32: the open-loop benchmark passes and its report is sound. For every number of requests, every
  sequence of inter-arrival times and every cache workload, with a random source that keeps to its range
  and doubles that round monotonically: the run returns, no result has an unknown id, every request has a
  result and no KV block is left; the utilisation and the prefix hit rate lie between 0 and 1, the drain
  lag is not negative, the percentiles are ordered, and no percentile of the time to the first token
  exceeds that of the whole request.
\<close>

theorem RunOpenLoop_sound:
  assumes "arg_requests a < u64" and "0 < arg_requests a" and "rounding fl" and "draw_in_range draw"
  shows "\<exists>rep. RunOpenLoop fl draw gap a = Inr (Some rep) \<and> olr_complete rep \<and> olr_zero_leak rep \<and>
    0 \<le> olr_engine_utilization rep \<and> olr_engine_utilization rep \<le> 1 \<and>
    0 \<le> olr_prefix_hit_rate rep \<and> olr_prefix_hit_rate rep \<le> 1 \<and> 0 \<le> olr_drain_lag_us rep \<and>
    (arg_telemetry a \<longrightarrow> ordered_percentiles rep)"
proof -
  from RunOpenLoop_report [OF assms(1,2), of fl draw gap] assms(3,4) obtain t m e where
    r: "RunOpenLoop fl draw gap a = Inr (Some (open_loop_report fl a t m e))"
    "olr_complete (open_loop_report fl a t m e)" "olr_zero_leak (open_loop_report fl a t m e)"
    "sound_report (open_loop_report fl a t m e)" by blast
  then show ?thesis by (auto simp: sound_report_def open_loop_report_def Let_def)
qed

theorem RunOpenLoop_sound_witness:
  "\<exists>rep. RunOpenLoop (\<lambda>x. x) no_jitter (\<lambda>_. 2000000) default_arguments = Inr (Some rep) \<and> olr_complete rep \<and>
     olr_engine_utilization rep \<le> 1 \<and> ordered_percentiles rep"
proof -
  have "rounding (\<lambda>x. x)" by (simp add: rounding_def)
  moreover have "draw_in_range no_jitter" by (simp add: draw_in_range_def no_jitter_def)
  ultimately show ?thesis
    using RunOpenLoop_sound [of default_arguments "\<lambda>x. x" no_jitter "\<lambda>_. 2000000"] by (auto simp: default_arguments_def)
qed

end
