(* ===== verification/MpscRings.thy ===== *)
theory MpscRings
  imports CostModel
begin

unbundle bit_operations_syntax

text \<open>
  \<open>cpp/include/infersched/concurrency/mpsc_ring.hpp\<close>: the bounded lock-free queue with many producers
  and one consumer. \<open>TryPush\<close> and \<open>TryPop\<close> are cut at every access to shared memory, and any
  interleaving of the threads' accesses is a run (the acquire and release orders of the source make
  the writes to a cell visible with its sequence number; reorderings weaker than an interleaving are
  not modelled). Positions and sequence numbers are 64-bit values: additions wrap, and the comparison
  casts both sides to \<open>intptr_t\<close>. A weak compare-exchange may fail spuriously.
\<close>

record 'a Cell =
  sequence :: nat
  cell_value :: "'a option"

record 'a MpscRing =
  capacity :: nat
  ring_mask :: nat
  cells :: "'a Cell list"
  enqueue_position :: nat
  dequeue_position :: nat

fun has_single_bit :: "nat \<Rightarrow> bool" where
  "has_single_bit n = (if n = 0 then False else if n = 1 then True else even n \<and> has_single_bit (n div 2))"

declare has_single_bit.simps [simp del]

definition MakeMpscRing :: "nat \<Rightarrow> error + 'a MpscRing" where
  "MakeMpscRing n =
     (if n < 2 \<or> \<not> has_single_bit n then Inl (InvalidArgument ''MPSC capacity must be a power of two >= 2'')
      else Inr \<lparr>capacity = n, ring_mask = n - 1, cells = map (\<lambda>i. \<lparr>sequence = i, cell_value = None\<rparr>) [0..<n],
                enqueue_position = 0, dequeue_position = 0\<rparr>)"

definition slot :: "'a MpscRing \<Rightarrow> nat \<Rightarrow> nat" where
  "slot r position = position AND ring_mask r"

definition difference :: "nat \<Rightarrow> nat \<Rightarrow> int" where
  "difference a b = to_int64 a - to_int64 b"

section \<open>The accesses of \<open>TryPush\<close>\<close>

text \<open>
  Where a producer is: not in a call; about to read the sequence number of the cell of \<open>position\<close>;
  holding the number it read; owner of the position, before and after the value is written.
\<close>

datatype 'a producer = PIdle | PLoop 'a nat | PRead 'a nat nat | PClaimed 'a nat | PWritten 'a nat

fun TryPush_step :: "bool \<Rightarrow> 'a MpscRing \<Rightarrow> 'a producer \<Rightarrow> 'a MpscRing \<times> 'a producer \<times> bool option" where
  "TryPush_step spurious r PIdle = (r, PIdle, None)"
| "TryPush_step spurious r (PLoop v position) = (r, PRead v position (sequence (cells r ! slot r position)), None)"
| "TryPush_step spurious r (PRead v position seq) =
     (if difference seq position = 0
      then (if enqueue_position r = position \<and> \<not> spurious
            then (r\<lparr>enqueue_position := add64 position 1\<rparr>, PClaimed v position, None)
            else (r, PLoop v (enqueue_position r), None))
      else if difference seq position < 0 then (r, PIdle, Some False)
      else (r, PLoop v (enqueue_position r), None))"
| "TryPush_step spurious r (PClaimed v position) =
     (r\<lparr>cells := (cells r)[slot r position := (cells r ! slot r position)\<lparr>cell_value := Some v\<rparr>]\<rparr>,
      PWritten v position, None)"
| "TryPush_step spurious r (PWritten v position) =
     (r\<lparr>cells := (cells r)[slot r position := (cells r ! slot r position)\<lparr>sequence := add64 position 1\<rparr>]\<rparr>,
      PIdle, Some True)"

section \<open>The accesses of \<open>TryPop\<close>\<close>

text \<open>
  The consumer reads the sequence number, then takes the value and resets the cell, then hands the
  cell back. \<open>CFault\<close> stands for the undefined behaviour of dereferencing an empty \<open>optional\<close>.
\<close>

datatype 'a consumer = CIdle | CRead nat | CTaken 'a | CFault

fun TryPop_step :: "'a MpscRing \<Rightarrow> 'a consumer \<Rightarrow> 'a MpscRing \<times> 'a consumer \<times> 'a option option" where
  "TryPop_step r CIdle = (r, CRead (sequence (cells r ! slot r (dequeue_position r))), None)"
| "TryPop_step r (CRead seq) =
     (if difference seq (add64 (dequeue_position r) 1) < 0 then (r, CIdle, Some None)
      else if difference seq (add64 (dequeue_position r) 1) \<noteq> 0 then (r, CIdle, Some None)
      else let i = slot r (dequeue_position r) in
        (case cell_value (cells r ! i) of
           None \<Rightarrow> (r, CFault, None)
         | Some v \<Rightarrow> (r\<lparr>cells := (cells r)[i := (cells r ! i)\<lparr>cell_value := None\<rparr>]\<rparr>, CTaken v, None)))"
| "TryPop_step r (CTaken v) =
     (let i = slot r (dequeue_position r) in
      (r\<lparr>cells := (cells r)[i := (cells r ! i)\<lparr>sequence := add64 (dequeue_position r) (capacity r)\<rparr>],
         dequeue_position := add64 (dequeue_position r) 1\<rparr>, CIdle, Some (Some v)))"
| "TryPop_step r CFault = (r, CFault, None)"

section \<open>Threads\<close>

text \<open>
  The ring with its threads and three histories: who claimed which position with which value, in the
  order of the positions; the calls of \<open>TryPush\<close> that returned true; the values popped.
\<close>

record 'a RingSystem =
  ring :: "'a MpscRing"
  producers :: "nat \<Rightarrow> 'a producer"
  consumer :: "'a consumer"
  claimed :: "(nat \<times> 'a) list"
  accepted :: "(nat \<times> 'a) list"
  popped :: "'a list"

definition claim_event :: "nat \<Rightarrow> 'a producer \<Rightarrow> 'a producer \<Rightarrow> (nat \<times> 'a) list" where
  "claim_event t p q = (case p of PRead _ _ _ \<Rightarrow> (case q of PClaimed v _ \<Rightarrow> [(t, v)] | _ \<Rightarrow> []) | _ \<Rightarrow> [])"

definition accept_event :: "nat \<Rightarrow> 'a producer \<Rightarrow> bool option \<Rightarrow> (nat \<times> 'a) list" where
  "accept_event t p out = (case p of PWritten v _ \<Rightarrow> if out = Some True then [(t, v)] else [] | _ \<Rightarrow> [])"

inductive ring_step :: "'a RingSystem \<Rightarrow> 'a RingSystem \<Rightarrow> bool" where
  push_call: "producers s t = PIdle \<Longrightarrow>
    ring_step s (s\<lparr>producers := (producers s)(t := PLoop v (enqueue_position (ring s)))\<rparr>)"
| push_access: "TryPush_step spurious (ring s) (producers s t) = (r, q, out) \<Longrightarrow>
    ring_step s (s\<lparr>ring := r, producers := (producers s)(t := q),
      claimed := claimed s @ claim_event t (producers s t) q,
      accepted := accepted s @ accept_event t (producers s t) out\<rparr>)"
| pop_access: "TryPop_step (ring s) (consumer s) = (r, c, out) \<Longrightarrow>
    ring_step s (s\<lparr>ring := r, consumer := c,
      popped := popped s @ (case out of Some (Some v) \<Rightarrow> [v] | _ \<Rightarrow> [])\<rparr>)"

definition ring_initial :: "'a RingSystem \<Rightarrow> bool" where
  "ring_initial s \<longleftrightarrow> (\<exists>n. MakeMpscRing n = Inr (ring s)) \<and> producers s = (\<lambda>t. PIdle) \<and> consumer s = CIdle \<and>
     claimed s = [] \<and> accepted s = [] \<and> popped s = []"

section \<open>The invariant\<close>

abbreviation enq :: "'a RingSystem \<Rightarrow> nat" where "enq s \<equiv> length (claimed s)"
abbreviation deq :: "'a RingSystem \<Rightarrow> nat" where "deq s \<equiv> length (popped s)"
abbreviation cap :: "'a RingSystem \<Rightarrow> nat" where "cap s \<equiv> capacity (ring s)"

definition cell_at :: "'a RingSystem \<Rightarrow> nat \<Rightarrow> 'a Cell" where
  "cell_at s p = cells (ring s) ! (p mod cap s)"

text \<open>
  The cell of position \<open>p\<close> of the window of \<open>cap\<close> positions from the consumer's on: claimed and not yet
  published, published, or free.
\<close>

definition cell_ok :: "'a RingSystem \<Rightarrow> nat \<Rightarrow> bool" where
  "cell_ok s p \<longleftrightarrow> (let c = cell_at s p in
     if p < enq s then sequence c = p \<or> sequence c = Suc p \<and>
       (cell_value c = Some (snd (claimed s ! p)) \<or> p = deq s \<and> (\<exists>v. consumer s = CTaken v))
     else sequence c = p \<and> cell_value c = None)"

fun producer_ok :: "'a RingSystem \<Rightarrow> 'a producer \<Rightarrow> bool" where
  "producer_ok s PIdle = True"
| "producer_ok s (PLoop v p) = (p \<le> enq s)"
| "producer_ok s (PRead v p seq) = (p \<le> enq s \<and> seq \<le> sequence (cell_at s p))"
| "producer_ok s (PClaimed v p) = (deq s \<le> p \<and> p < enq s \<and> cell_at s p = \<lparr>sequence = p, cell_value = None\<rparr> \<and> snd (claimed s ! p) = v)"
| "producer_ok s (PWritten v p) = (deq s \<le> p \<and> p < enq s \<and> cell_at s p = \<lparr>sequence = p, cell_value = Some v\<rparr> \<and> snd (claimed s ! p) = v)"

fun consumer_ok :: "'a RingSystem \<Rightarrow> 'a consumer \<Rightarrow> bool" where
  "consumer_ok s CIdle = True"
| "consumer_ok s (CRead seq) = (seq \<le> sequence (cell_at s (deq s)))"
| "consumer_ok s (CTaken v) = (deq s < enq s \<and> cell_at s (deq s) = \<lparr>sequence = Suc (deq s), cell_value = None\<rparr> \<and> v = snd (claimed s ! deq s))"
| "consumer_ok s CFault = False"

fun owns :: "'a producer \<Rightarrow> (nat \<times> 'a) option" where
  "owns (PClaimed v p) = Some (p, v)"
| "owns (PWritten v p) = Some (p, v)"
| "owns _ = None"

definition pending :: "nat \<Rightarrow> 'a producer \<Rightarrow> (nat \<times> 'a) list" where
  "pending t p = (case owns p of None \<Rightarrow> [] | Some (_, v) \<Rightarrow> [(t, v)])"

definition ring_shape :: "'a RingSystem \<Rightarrow> bool" where
  "ring_shape s \<longleftrightarrow> (\<exists>k. cap s = 2 ^ k) \<and> 2 \<le> cap s \<and> ring_mask (ring s) = cap s - 1 \<and> length (cells (ring s)) = cap s \<and>
     enqueue_position (ring s) = enq s \<and> dequeue_position (ring s) = deq s \<and> deq s \<le> enq s \<and> enq s \<le> deq s + cap s"

definition ring_inv :: "'a RingSystem \<Rightarrow> bool" where
  "ring_inv s \<longleftrightarrow> ring_shape s \<and> popped s = map snd (take (deq s) (claimed s)) \<and>
     (\<forall>p. deq s \<le> p \<and> p < deq s + cap s \<longrightarrow> cell_ok s p) \<and> (\<forall>t. producer_ok s (producers s t)) \<and>
     (\<forall>t t' p v v'. owns (producers s t) = Some (p, v) \<longrightarrow> owns (producers s t') = Some (p, v') \<longrightarrow> t = t') \<and>
     consumer_ok s (consumer s) \<and>
     (\<forall>t. filter (\<lambda>x. fst x = t) (claimed s) = filter (\<lambda>x. fst x = t) (accepted s) @ pending t (producers s t))"

lemma ring_invI:
  assumes "ring_shape s" and "popped s = map snd (take (deq s) (claimed s))"
    and "\<And>p. deq s \<le> p \<Longrightarrow> p < deq s + cap s \<Longrightarrow> cell_ok s p" and "\<And>t. producer_ok s (producers s t)"
    and "\<And>t t' p v v'. owns (producers s t) = Some (p, v) \<Longrightarrow> owns (producers s t') = Some (p, v') \<Longrightarrow> t = t'"
    and "consumer_ok s (consumer s)"
    and "\<And>t. filter (\<lambda>x. fst x = t) (claimed s) = filter (\<lambda>x. fst x = t) (accepted s) @ pending t (producers s t)"
  shows "ring_inv s"
  unfolding ring_inv_def using assms by (intro conjI allI impI) blast+

lemma ring_inv_owner:
  "ring_inv s \<Longrightarrow> owns (producers s t) = Some (p, v) \<Longrightarrow> owns (producers s t') = Some (p, v') \<Longrightarrow> t = t'"
  unfolding ring_inv_def by blast

lemma ring_inv_history:
  "ring_inv s \<Longrightarrow> filter (\<lambda>x. fst x = t) (claimed s) = filter (\<lambda>x. fst x = t) (accepted s) @ pending t (producers s t)"
  unfolding ring_inv_def by blast

subsection \<open>The window\<close>

lemma has_single_bit_power: "has_single_bit n \<Longrightarrow> \<exists>k. n = 2 ^ k"
proof (induction n rule: has_single_bit.induct)
  case (1 n)
  show ?case
  proof (cases "n = 1")
    case False
    with "1.prems" have n: "n \<noteq> 0" "even n" "has_single_bit (n div 2)"
      using has_single_bit.simps [of n] by (auto split: if_splits)
    from "1.IH" [OF n(1) False n(3)] obtain k where "n div 2 = 2 ^ k" by blast
    then have "n = 2 ^ Suc k" using n(2) by auto
    then show ?thesis by blast
  qed (auto intro: exI [of _ 0])
qed

lemma slot_mod: "ring_shape s \<Longrightarrow> slot (ring s) p = p mod cap s"
  by (auto simp: ring_shape_def slot_def take_bit_eq_mod [symmetric] take_bit_eq_mask mask_eq_exp_minus_1)

lemma window_inj:
  assumes "d \<le> p" "p < d + c" "d \<le> q" "q < d + c" "p mod c = (q::nat) mod c"
  shows "p = q"
proof -
  have "x = y" if "d \<le> x" "x \<le> y" "y < d + c" "x mod c = y mod c" for x y :: nat
  proof -
    have "c dvd y - x" using that(2,4) by (metis mod_eq_dvd_iff_nat)
    moreover have "y - x < c" using that by simp
    ultimately have "y - x = 0" by (metis dvd_imp_le not_gr_zero leD)
    with that(2) show ?thesis by simp
  qed
  from this [of p q] this [of q p] assms show ?thesis by (cases "p \<le> q") simp_all
qed

lemma window_ex:
  assumes "0 < c"
  shows "\<exists>p. d \<le> p \<and> p < d + c \<and> p mod c = (q::nat) mod c"
proof -
  let ?p = "d + (q + (c - d mod c)) mod c"
  have "?p mod c = (d mod c + (q + (c - d mod c))) mod c" by (simp add: mod_simps)
  also have "d mod c + (q + (c - d mod c)) = q + c" 
    using mod_less_divisor [OF assms, of d] by linarith
  finally have "?p mod c = q mod c" by simp
  moreover have "d \<le> ?p \<and> ?p < d + c" using assms by simp
  ultimately show ?thesis by blast
qed

lemma slot_diff:
  "ring_shape s \<Longrightarrow> deq s \<le> r \<Longrightarrow> r < deq s + cap s \<Longrightarrow> deq s \<le> p \<Longrightarrow> p < deq s + cap s \<Longrightarrow> r \<noteq> p \<Longrightarrow>
    r mod cap s \<noteq> p mod cap s"
  using window_inj by blast

lemma cell_at_mod: "p mod cap s = q mod cap s \<Longrightarrow> cell_at s p = cell_at s q"
  by (simp add: cell_at_def)

text \<open>What the invariant says of the sequence number a producer reads for a position it has loaded.\<close>

lemma sequence_bounds:
  assumes inv: "ring_inv s" and p: "p \<le> enq s"
  shows "p < deq s + cap s \<Longrightarrow> p \<le> sequence (cell_at s p)"
    and "p = deq s + cap s \<Longrightarrow> sequence (cell_at s p) \<le> Suc (deq s)"
    and "enq s \<le> deq s + cap s"
    and "sequence (cell_at s p) \<le> deq s + cap s"
proof -
  have sh: "ring_shape s" and ok: "\<And>q. deq s \<le> q \<Longrightarrow> q < deq s + cap s \<Longrightarrow> cell_ok s q"
    using inv by (simp_all add: ring_inv_def)
  have c: "2 \<le> cap s" "enq s \<le> deq s + cap s" using sh by (simp_all add: ring_shape_def)
  then obtain q where q: "deq s \<le> q" "q < deq s + cap s" "q mod cap s = p mod cap s"
    using window_ex [of "cap s" "deq s" p] by auto
  have "sequence (cell_at s q) = q \<or> q < enq s \<and> sequence (cell_at s q) = Suc q"
    using ok [OF q(1,2)] by (auto simp: cell_ok_def Let_def split: if_splits)
  then have sq: "q \<le> sequence (cell_at s p)" "sequence (cell_at s p) \<le> Suc q" "sequence (cell_at s p) \<le> deq s + cap s"
    using cell_at_mod [OF q(3)] c q by auto
  show "p \<le> sequence (cell_at s p)" if "p < deq s + cap s"
  proof (cases "deq s \<le> p")
    case True
    then show ?thesis using window_inj [OF q(1,2) True that q(3)] sq by simp
  qed (use q(1) sq in simp)
  show "sequence (cell_at s p) \<le> Suc (deq s)" if "p = deq s + cap s"
  proof -
    have "q = deq s" using window_inj [of "deq s" q "cap s" "deq s"] q c that by simp
    then show ?thesis using sq by simp
  qed
  show "enq s \<le> deq s + cap s" by (rule c(2))
  show "sequence (cell_at s p) \<le> deq s + cap s" by (rule sq(3))
qed

lemma difference_exact: "a < 2 ^ 63 \<Longrightarrow> b < 2 ^ 63 \<Longrightarrow> difference a b = int a - int b"
  by (simp add: difference_def to_int64_def)

text \<open>The run is short of the number of pushes at which positions would leave the range of \<open>intptr_t\<close>.\<close>

definition in_range :: "'a RingSystem \<Rightarrow> bool" where
  "in_range s \<longleftrightarrow> enq s + cap s < 2 ^ 63"

subsection \<open>Steps that leave the cells alone\<close>

lemma ok_producers [simp]:
  "cell_at (s\<lparr>producers := f\<rparr>) p = cell_at s p" "cell_ok (s\<lparr>producers := f\<rparr>) p = cell_ok s p"
  "producer_ok (s\<lparr>producers := f\<rparr>) q = producer_ok s q" "consumer_ok (s\<lparr>producers := f\<rparr>) c = consumer_ok s c"
  "ring_shape (s\<lparr>producers := f\<rparr>) = ring_shape s"
  by (cases q; cases c; simp add: cell_at_def cell_ok_def ring_shape_def)+

lemma inv_producer_change:
  assumes inv: "ring_inv s" and q: "producer_ok s q" "owns q = owns (producers s t)"
  shows "ring_inv (s\<lparr>producers := (producers s)(t := q)\<rparr>)"
proof -
  have o: "owns (((producers s)(t := q)) t') = owns (producers s t')" for t' using q(2) by simp
  have "pending t' (((producers s)(t := q)) t') = pending t' (producers s t')" for t' using o by (simp add: pending_def)
  then show ?thesis using inv q(1) unfolding ring_inv_def by (simp add: o del: fun_upd_apply) simp
qed

lemma inv_claim:
  assumes inv: "ring_inv s" and pc: "producers s t = PRead v p seq"
    and cas: "seq = p" "enqueue_position (ring s) = p" and range: "enq s + cap s < 2 ^ 63"
  shows "ring_inv (s\<lparr>ring := (ring s)\<lparr>enqueue_position := add64 p 1\<rparr>, producers := (producers s)(t := PClaimed v p),
    claimed := claimed s @ [(t, v)]\<rparr>)"
proof -
  define u where "u = s\<lparr>ring := (ring s)\<lparr>enqueue_position := add64 p 1\<rparr>, producers := (producers s)(t := PClaimed v p),
    claimed := claimed s @ [(t, v)]\<rparr>"
  have u [simp]: "claimed u = claimed s @ [(t, v)]" "producers u = (producers s)(t := PClaimed v p)" "popped u = popped s"
    "consumer u = consumer s" "accepted u = accepted s" "cap u = cap s" "cell_at u q = cell_at s q" for q
    by (simp_all add: u_def cell_at_def)
  have sh: "ring_shape s" and ok: "\<And>q. deq s \<le> q \<Longrightarrow> q < deq s + cap s \<Longrightarrow> cell_ok s q"
    and prod: "\<And>t. producer_ok s (producers s t)" and cons: "consumer_ok s (consumer s)"
    using inv by (simp_all add: ring_inv_def)
  have p: "p = enq s" using sh cas(2) by (simp add: ring_shape_def)
  have c: "2 \<le> cap s" "deq s \<le> enq s" "enq s \<le> deq s + cap s" using sh by (simp_all add: ring_shape_def)
  have "p \<le> sequence (cell_at s p)" using prod [of t] pc cas(1) by simp
  then have lt: "p < deq s + cap s" using sequence_bounds(2) [OF inv, of p] p c by fastforce
  have free: "cell_at s p = \<lparr>sequence = p, cell_value = None\<rparr>"
    using ok [of p] p c lt by (simp add: cell_ok_def Let_def)
  have A: "ring_shape u" using sh p lt range by (auto simp: ring_shape_def u_def add64_def)
  have B: "popped u = map snd (take (deq u) (claimed u))" using inv c by (simp add: ring_inv_def)
  have C: "cell_ok u q" if "deq u \<le> q" "q < deq u + cap u" for q
    using ok [of q] that free p by (auto simp: cell_ok_def Let_def nth_append less_Suc_eq split: if_splits)
  have D: "producer_ok u (producers u t')" for t'
    using prod [of t'] free p c by (cases "producers s t'") (auto simp: nth_append)
  have E: "t1 = t2" if "owns (producers u t1) = Some (q, a)" "owns (producers u t2) = Some (q, b)" for t1 t2 q a b
  proof -
    have lt: "q < enq s" if "owns (producers s t') = Some (q, x)" for t' x
      using prod [of t'] that by (cases "producers s t'") auto
    have old: "owns (producers s t') = Some (q, x)" if "owns (producers u t') = Some (q, x)" "t' \<noteq> t" for t' x
      using that by simp
    have new: "q = enq s" if "owns (producers u t) = Some (q, x)" for x using that p by simp
    show ?thesis
    proof (cases "t1 = t \<or> t2 = t")
      case True
      then have q: "q = enq s" using that new by blast
      have "t' = t" if "owns (producers u t') = Some (q, x)" for t' x
      proof (rule ccontr)
        assume "t' \<noteq> t"
        from lt [OF old [OF that this]] q show False by simp
      qed
      from this [OF that(1)] this [OF that(2)] show ?thesis by simp
    next
      case False
      then have n: "t1 \<noteq> t" "t2 \<noteq> t" by simp_all
      show ?thesis by (rule ring_inv_owner [OF inv old [OF that(1) n(1)] old [OF that(2) n(2)]])
    qed
  qed
  have F: "consumer_ok u (consumer u)" using cons by (cases "consumer s") (auto simp: nth_append)
  have G: "filter (\<lambda>x. fst x = t') (claimed u) = filter (\<lambda>x. fst x = t') (accepted u) @ pending t' (producers u t')" for t'
    using ring_inv_history [OF inv, of t'] pc by (auto simp: pending_def)
  have "ring_inv u" by (rule ring_invI [OF A B C D E F G])
  then show ?thesis by (simp only: u_def)
qed

subsection \<open>Steps that write a cell\<close>

text \<open>
  What is common to them: the cell of one position \<open>p\<close> of the window changes, its sequence number does
  not go back, no position claimed by another thread is affected.
\<close>

lemma inv_cell_write:
  assumes inv: "ring_inv s"
    and u: "ring u = (ring s)\<lparr>cells := (cells (ring s))[p mod cap s := new]\<rparr>" "claimed u = claimed s" "popped u = popped s"
      "producers u = (producers s)(t := q)"
    and p: "deq s \<le> p" "p < enq s"
    and seq: "sequence (cell_at s p) \<le> sequence new"
    and cell: "cell_ok u p"
    and other: "\<And>r. cell_ok s r \<Longrightarrow> r \<noteq> p \<Longrightarrow> cell_at u r = cell_at s r \<Longrightarrow> cell_ok u r"
    and mine: "\<And>t' v. t' \<noteq> t \<Longrightarrow> owns (producers s t') \<noteq> Some (p, v)" "producer_ok u q"
    and free: "\<And>x. owns q = Some x \<Longrightarrow> owns (producers s t) = Some x"
    and cons: "consumer_ok u (consumer u)"
    and hist: "\<And>t'. filter (\<lambda>x. fst x = t') (claimed u) = filter (\<lambda>x. fst x = t') (accepted u) @ pending t' (producers u t')"
  shows "ring_inv u"
proof -
  have sh: "ring_shape s" and ok: "\<And>q. deq s \<le> q \<Longrightarrow> q < deq s + cap s \<Longrightarrow> cell_ok s q"
    and prod: "\<And>t. producer_ok s (producers s t)" using inv by (simp_all add: ring_inv_def)
  have c: "2 \<le> cap s" "enq s \<le> deq s + cap s" "length (cells (ring s)) = cap s" using sh by (simp_all add: ring_shape_def)
  have at: "cell_at u r = (if r mod cap s = p mod cap s then new else cell_at s r)" for r
    using c u(1) by (simp add: cell_at_def nth_list_update)
  have diff: "r mod cap s \<noteq> p mod cap s" if "deq s \<le> r" "r < deq s + cap s" "r \<noteq> p" for r
    using slot_diff [OF sh, of r p] that p c by simp
  have mono: "sequence (cell_at s r) \<le> sequence (cell_at u r)" for r
    using seq at [of r] cell_at_mod [of r s p] by (simp split: if_splits)
  have "ring_shape u" using sh u by (simp add: ring_shape_def)
  moreover have "popped u = map snd (take (deq u) (claimed u))" using inv u by (simp add: ring_inv_def)
  moreover have "cell_ok u r" if "deq s \<le> r" "r < deq s + cap s" for r
    using cell other [OF ok [OF that]] at diff [OF that] by (cases "r = p") simp_all
  moreover have "producer_ok u (producers s t')" if "t' \<noteq> t" for t'
  proof (cases "producers s t'")
    case (PRead v r sq)
    then show ?thesis using prod [of t'] mono [of r] u(2) by simp
  next
    case (PClaimed v r)
    then show ?thesis using prod [of t'] diff [of r] at [of r] mine(1) [OF that, of v] c(2) u(2,3) by auto
  next
    case (PWritten v r)
    then show ?thesis using prod [of t'] diff [of r] at [of r] mine(1) [OF that, of v] c(2) u(2,3) by auto
  qed (use prod [of t'] u(2) in simp_all)
  moreover have "t1 = t2" if "owns (producers u t1) = Some (r, a)" "owns (producers u t2) = Some (r, b)" for t1 t2 r a b
  proof -
    have old: "owns (producers s t') = Some x" if "owns (producers u t') = Some x" for t' x
      using that free [of x] u(4) by (cases "t' = t") simp_all
    show ?thesis by (rule ring_inv_owner [OF inv old [OF that(1)] old [OF that(2)]])
  qed
  moreover have "producer_ok u (producers u t')" if "\<And>t'. t' \<noteq> t \<Longrightarrow> producer_ok u (producers s t')" for t'
    using that [of t'] mine(2) u(4) by (cases "t' = t") simp_all
  ultimately show ?thesis using cons hist u(1,3) by (intro ring_invI) simp_all
qed

lemma inv_write_value:
  assumes inv: "ring_inv s" and pc: "producers s t = PClaimed v p"
  shows "ring_inv (s\<lparr>ring := (ring s)\<lparr>cells := (cells (ring s))[p mod cap s := (cell_at s p)\<lparr>cell_value := Some v\<rparr>]\<rparr>,
    producers := (producers s)(t := PWritten v p)\<rparr>)" (is "ring_inv ?u")
proof -
  define u where "u = ?u"
  have u: "ring u = (ring s)\<lparr>cells := (cells (ring s))[p mod cap s := (cell_at s p)\<lparr>cell_value := Some v\<rparr>]\<rparr>"
    "claimed u = claimed s" "popped u = popped s" "producers u = (producers s)(t := PWritten v p)"
    "consumer u = consumer s" "accepted u = accepted s" by (simp_all add: u_def)
  have sh: "ring_shape s" and prod: "producer_ok s (PClaimed v p)" and cons: "consumer_ok s (consumer s)"
    using inv pc unfolding ring_inv_def by (auto dest: spec [of _ t])
  have p: "deq s \<le> p" "p < enq s" "cell_at s p = \<lparr>sequence = p, cell_value = None\<rparr>" "snd (claimed s ! p) = v"
    using prod by simp_all
  have c: "2 \<le> cap s" "length (cells (ring s)) = cap s" "enq s \<le> deq s + cap s" using sh by (simp_all add: ring_shape_def)
  have at: "cell_at u r = (if r mod cap s = p mod cap s then \<lparr>sequence = p, cell_value = Some v\<rparr> else cell_at s r)" for r
    using c u(1) p(3) by (simp add: cell_at_def nth_list_update)
  have "ring_inv u"
  proof (rule inv_cell_write [OF inv u(1-4) p(1,2)])
    show "cell_ok u p" using at [of p] u p by (simp add: cell_ok_def)
    show "cell_ok u r" if "cell_ok s r" "r \<noteq> p" "cell_at u r = cell_at s r" for r
      using that u by (simp add: cell_ok_def Let_def)
    show "owns (producers s t') \<noteq> Some (p, w)" if "t' \<noteq> t" for t' w
      using ring_inv_owner [OF inv, of t p v t' w] pc that by auto
    show "producer_ok u (PWritten v p)" using at [of p] u p by simp
    show "owns (producers s t) = Some x" if "owns (PWritten v p) = Some x" for x using that pc by simp
    show "consumer_ok u (consumer u)"
    proof (cases "consumer s")
      case (CRead sq)
      then show ?thesis using cons u at [of "deq s"] cell_at_mod [of "deq s" s p] p(3) by auto
    next
      case (CTaken w)
      then have "p \<noteq> deq s" using cons p(3) by auto
      then have "deq s mod cap s \<noteq> p mod cap s" using slot_diff [OF sh, of "deq s" p] p c by simp
      then show ?thesis using cons u at [of "deq s"] CTaken by simp
    qed (use cons u in simp_all)
    show "filter (\<lambda>x. fst x = t') (claimed u) = filter (\<lambda>x. fst x = t') (accepted u) @ pending t' (producers u t')" for t'
      using ring_inv_history [OF inv, of t'] pc u by (simp add: pending_def)
  qed simp
  then show ?thesis by (simp only: u_def)
qed

lemma inv_publish:
  assumes inv: "ring_inv s" and pc: "producers s t = PWritten v p"
  shows "ring_inv (s\<lparr>ring := (ring s)\<lparr>cells := (cells (ring s))[p mod cap s := (cell_at s p)\<lparr>sequence := Suc p\<rparr>]\<rparr>,
    producers := (producers s)(t := PIdle), accepted := accepted s @ [(t, v)]\<rparr>)" (is "ring_inv ?u")
proof -
  define u where "u = ?u"
  have u: "ring u = (ring s)\<lparr>cells := (cells (ring s))[p mod cap s := (cell_at s p)\<lparr>sequence := Suc p\<rparr>]\<rparr>"
    "claimed u = claimed s" "popped u = popped s" "producers u = (producers s)(t := PIdle)"
    "consumer u = consumer s" "accepted u = accepted s @ [(t, v)]" by (simp_all add: u_def)
  have sh: "ring_shape s" and prod: "producer_ok s (PWritten v p)" and cons: "consumer_ok s (consumer s)"
    using inv pc unfolding ring_inv_def by (auto dest: spec [of _ t])
  have p: "deq s \<le> p" "p < enq s" "cell_at s p = \<lparr>sequence = p, cell_value = Some v\<rparr>" "snd (claimed s ! p) = v"
    using prod by simp_all
  have c: "2 \<le> cap s" "length (cells (ring s)) = cap s" "enq s \<le> deq s + cap s" using sh by (simp_all add: ring_shape_def)
  have at: "cell_at u r = (if r mod cap s = p mod cap s then \<lparr>sequence = Suc p, cell_value = Some v\<rparr> else cell_at s r)" for r
    using c u(1) p(3) by (simp add: cell_at_def nth_list_update)
  have "ring_inv u"
  proof (rule inv_cell_write [OF inv u(1-4) p(1,2)])
    show "sequence (cell_at s p) \<le> sequence ((cell_at s p)\<lparr>sequence := Suc p\<rparr>)" using p(3) by simp
    show "cell_ok u p" using at [of p] u p by (simp add: cell_ok_def)
    show "cell_ok u r" if "cell_ok s r" "r \<noteq> p" "cell_at u r = cell_at s r" for r
      using that u by (simp add: cell_ok_def Let_def)
    show "owns (producers s t') \<noteq> Some (p, w)" if "t' \<noteq> t" for t' w
      using ring_inv_owner [OF inv, of t p v t' w] pc that by auto
    show "producer_ok u PIdle" by simp
    show "owns (producers s t) = Some x" if "owns PIdle = Some x" for x using that by simp
    show "consumer_ok u (consumer u)"
    proof (cases "consumer s")
      case (CRead sq)
      then show ?thesis using cons u at [of "deq s"] cell_at_mod [of "deq s" s p] p(3) by auto
    next
      case (CTaken w)
      then have "p \<noteq> deq s" using cons p(3) by auto
      then have "deq s mod cap s \<noteq> p mod cap s" using slot_diff [OF sh, of "deq s" p] p c by simp
      then show ?thesis using cons u at [of "deq s"] CTaken by simp
    qed (use cons u in simp_all)
    show "filter (\<lambda>x. fst x = t') (claimed u) = filter (\<lambda>x. fst x = t') (accepted u) @ pending t' (producers u t')" for t'
      using ring_inv_history [OF inv, of t'] pc u by (cases "t' = t") (simp_all add: pending_def)
  qed
  then show ?thesis by (simp only: u_def)
qed

lemma inv_take:
  assumes inv: "ring_inv s" and v: "cell_value (cell_at s (deq s)) = Some v" "sequence (cell_at s (deq s)) = Suc (deq s)"
    and c0: "\<And>w. consumer s \<noteq> CTaken w"
  shows "ring_inv (s\<lparr>ring := (ring s)\<lparr>cells := (cells (ring s))[deq s mod cap s := (cell_at s (deq s))\<lparr>cell_value := None\<rparr>]\<rparr>,
    consumer := CTaken v\<rparr>)" (is "ring_inv ?u")
proof -
  define u where "u = ?u"
  let ?p = "deq s"
  have u: "ring u = (ring s)\<lparr>cells := (cells (ring s))[?p mod cap s := (cell_at s ?p)\<lparr>cell_value := None\<rparr>]\<rparr>"
    "claimed u = claimed s" "popped u = popped s" "producers u = (producers s)(t := producers s t)"
    "consumer u = CTaken v" "accepted u = accepted s" for t by (simp_all add: u_def)
  have sh: "ring_shape s" and prod: "producer_ok s (producers s t)" for t using inv unfolding ring_inv_def by blast+
  have c: "2 \<le> cap s" "length (cells (ring s)) = cap s" "enq s \<le> deq s + cap s" using sh by (simp_all add: ring_shape_def)
  have ok: "cell_ok s ?p" using inv c unfolding ring_inv_def by simp
  then have p: "?p < enq s" and val: "v = snd (claimed s ! ?p)"
    using v c0 by (auto simp: cell_ok_def Let_def split: if_splits)
  have at: "cell_at u r = (if r mod cap s = ?p mod cap s then \<lparr>sequence = Suc ?p, cell_value = None\<rparr> else cell_at s r)" for r
    using c u(1) v(2) by (simp add: cell_at_def nth_list_update)
  have un: "owns (producers s t) \<noteq> Some (?p, w)" for t w
    using prod [of t] v(2) by (cases "producers s t") auto
  have "ring_inv u"
  proof (rule inv_cell_write [OF inv u(1-3) u(4) [of 0] le_refl p])
    show "cell_ok u ?p" using at [of ?p] u p by (simp add: cell_ok_def)
    show "cell_ok u r" if "cell_ok s r" "r \<noteq> ?p" "cell_at u r = cell_at s r" for r
      using that u c0 by (simp add: cell_ok_def Let_def split: if_splits)
    show "owns (producers s t') \<noteq> Some (?p, w)" for t' w by (rule un)
    show "producer_ok u (producers s 0)"
    proof (cases "producers s 0")
      case (PRead w r sq)
      then show ?thesis using prod [of 0] u at [of r] cell_at_mod [of r s ?p] v(2) by auto
    next
      case (PClaimed w r)
      then have "r \<noteq> ?p" using un [of 0 w] by auto
      then have "r mod cap s \<noteq> ?p mod cap s" using slot_diff [OF sh, of r ?p] prod [of 0] PClaimed c by simp
      then show ?thesis using prod [of 0] PClaimed u at [of r] by simp
    next
      case (PWritten w r)
      then have "r \<noteq> ?p" using un [of 0 w] by auto
      then have "r mod cap s \<noteq> ?p mod cap s" using slot_diff [OF sh, of r ?p] prod [of 0] PWritten c by simp
      then show ?thesis using prod [of 0] PWritten u at [of r] by simp
    qed (use prod [of 0] u in simp_all)
    show "consumer_ok u (consumer u)" using at [of ?p] u p val by simp
    show "filter (\<lambda>x. fst x = t') (claimed u) = filter (\<lambda>x. fst x = t') (accepted u) @ pending t' (producers u t')" for t'
      using ring_inv_history [OF inv, of t'] u by simp
  qed simp_all
  then show ?thesis by (simp only: u_def)
qed

text \<open>The consumer hands the cell back: the window moves on by one position.\<close>

lemma inv_release:
  assumes inv: "ring_inv s" and taken: "consumer s = CTaken v" and range: "enq s + cap s < 2 ^ 63"
  shows "ring_inv (s\<lparr>ring := (ring s)\<lparr>cells := (cells (ring s))[deq s mod cap s := (cell_at s (deq s))\<lparr>sequence := deq s + cap s\<rparr>],
      dequeue_position := Suc (deq s)\<rparr>, consumer := CIdle, popped := popped s @ [v]\<rparr>)" (is "ring_inv ?u")
proof -
  define u where "u = ?u"
  let ?p = "deq s"
  have u: "claimed u = claimed s" "popped u = popped s @ [v]" "producers u = producers s"
    "consumer u = CIdle" "accepted u = accepted s" "cap u = cap s" by (simp_all add: u_def)
  have sh: "ring_shape s" and prod: "producer_ok s (producers s t)" for t using inv unfolding ring_inv_def by blast+
  have ok: "cell_ok s q" if "deq s \<le> q" "q < deq s + cap s" for q using inv that unfolding ring_inv_def by blast
  have t: "?p < enq s" "cell_at s ?p = \<lparr>sequence = Suc ?p, cell_value = None\<rparr>" "v = snd (claimed s ! ?p)"
    using inv taken by (simp_all add: ring_inv_def)
  have c: "2 \<le> cap s" "length (cells (ring s)) = cap s" "enq s \<le> deq s + cap s" using sh by (simp_all add: ring_shape_def)
  have at: "cell_at u r = (if r mod cap s = ?p mod cap s then \<lparr>sequence = ?p + cap s, cell_value = None\<rparr> else cell_at s r)" for r
    using c t(2) by (simp add: u_def cell_at_def nth_list_update)
  have diff: "r mod cap s \<noteq> ?p mod cap s" if "Suc ?p \<le> r" "r < ?p + cap s" for r
    using slot_diff [OF sh, of r ?p] that c by simp
  have A: "ring_shape u" using sh t(1) by (simp add: ring_shape_def u_def)
  have B: "popped u = map snd (take (deq u) (claimed u))"
    using inv t u by (simp add: ring_inv_def take_Suc_conv_app_nth)
  have C: "cell_ok u q" if "deq u \<le> q" "q < deq u + cap u" for q
  proof (cases "q = ?p + cap s")
    case True
    then show ?thesis using at [of q] u c by (simp add: cell_ok_def)
  next
    case False
    then have q: "Suc ?p \<le> q" "q < ?p + cap s" using that u by simp_all
    then have "cell_at u q = cell_at s q" using at [of q] diff by simp
    then show ?thesis using ok [of q] q u by (simp add: cell_ok_def Let_def split: if_splits)
  qed
  have keep: "Suc ?p \<le> r \<and> r < enq s \<and> cell_at u r = cell_at s r"
    if "?p \<le> r" "r < enq s" "sequence (cell_at s r) = r" for r
  proof -
    have "r \<noteq> ?p" using that(3) t(2) by auto
    then show ?thesis using that at [of r] diff [of r] c by simp
  qed
  have D: "producer_ok u (producers u t)" for t
  proof (cases "producers s t")
    case (PRead w r sq)
    then show ?thesis using prod [of t] u at [of r] cell_at_mod [of r s ?p] t(2) c by auto
  next
    case (PClaimed w r)
    then show ?thesis using prod [of t] u keep [of r] by simp
  next
    case (PWritten w r)
    then show ?thesis using prod [of t] u keep [of r] by simp
  qed (use prod [of t] u in simp_all)
  have E: "t1 = t2" if "owns (producers u t1) = Some (q, a)" "owns (producers u t2) = Some (q, b)" for t1 t2 q a b
    using that unfolding u(3) by (rule ring_inv_owner [OF inv])
  have F: "consumer_ok u (consumer u)" using u by simp
  have G: "filter (\<lambda>x. fst x = t') (claimed u) = filter (\<lambda>x. fst x = t') (accepted u) @ pending t' (producers u t')" for t'
    using ring_inv_history [OF inv, of t'] u by simp
  have "ring_inv u" by (rule ring_invI [OF A B C D E F G])
  then show ?thesis by (simp only: u_def)
qed

subsection \<open>Every step keeps the invariant\<close>

lemma inv_consumer_change:
  assumes "ring_inv s" and "consumer_ok s c" and "\<And>w. consumer s \<noteq> CTaken w"
  shows "ring_inv (s\<lparr>consumer := c\<rparr>)"
proof -
  define u where "u = s\<lparr>consumer := c\<rparr>"
  have u: "ring u = ring s" "claimed u = claimed s" "popped u = popped s" "producers u = producers s"
    "consumer u = c" "accepted u = accepted s" "cell_at u q = cell_at s q" for q by (simp_all add: u_def cell_at_def)
  have A: "ring_shape u" using assms(1) u by (simp add: ring_inv_def ring_shape_def)
  have B: "popped u = map snd (take (deq u) (claimed u))" using assms(1) u by (simp add: ring_inv_def)
  have C: "cell_ok u q" if "deq u \<le> q" "q < deq u + cap u" for q
    using assms(1,3) that u unfolding ring_inv_def by (auto simp: cell_ok_def Let_def split: if_splits)
  have "producer_ok s q = producer_ok u q" for q by (cases q) (simp_all add: u)
  then have D: "producer_ok u (producers u t)" for t using assms(1) u by (simp add: ring_inv_def)
  have E: "t1 = t2" if "owns (producers u t1) = Some (q, a)" "owns (producers u t2) = Some (q, b)" for t1 t2 q a b
    using that unfolding u(4) by (rule ring_inv_owner [OF assms(1)])
  have F: "consumer_ok u (consumer u)" using assms(2) u by (cases c) simp_all
  have G: "filter (\<lambda>x. fst x = t') (claimed u) = filter (\<lambda>x. fst x = t') (accepted u) @ pending t' (producers u t')" for t'
    using ring_inv_history [OF assms(1), of t'] u by simp
  have "ring_inv u" by (rule ring_invI [OF A B C D E F G])
  then show ?thesis by (simp only: u_def)
qed

lemma push_access_inv:
  assumes inv: "ring_inv s" and range: "enq s + cap s < 2 ^ 63"
    and st: "TryPush_step spurious (ring s) (producers s t) = (r, q, out)"
  shows "ring_inv (s\<lparr>ring := r, producers := (producers s)(t := q), claimed := claimed s @ claim_event t (producers s t) q,
    accepted := accepted s @ accept_event t (producers s t) out\<rparr>)"
proof -
  have sh: "ring_shape s" and prod: "producer_ok s (producers s t)" using inv unfolding ring_inv_def by blast+
  have pos: "enqueue_position (ring s) = enq s" using sh by (simp add: ring_shape_def)
  note sl = slot_mod [OF sh]
  have at: "cells (ring s) ! (p mod cap s) = cell_at s p" for p by (simp add: cell_at_def)
  show ?thesis
  proof (cases "producers s t")
    case PIdle
    then show ?thesis using inv_producer_change [OF inv, of PIdle t] st
      by (auto simp: claim_event_def accept_event_def)
  next
    case (PLoop v p)
    then have "producer_ok s (PRead v p (sequence (cell_at s p)))" using prod by simp
    from inv_producer_change [OF inv this, of t] PLoop st show ?thesis
      by (auto simp: claim_event_def accept_event_def sl at)
  next
    case (PRead v p sq)
    have b: "p < 2 ^ 63" "sq < 2 ^ 63"
      using prod PRead range sequence_bounds(4) [OF inv, of p] sh by (auto simp: ring_shape_def)
    have d: "difference sq p = int sq - int p" using b by (simp add: difference_exact)
    consider (claim) "sq = p" "enqueue_position (ring s) = p" "\<not> spurious"
      | (retry) "r = ring s" "q = PLoop v (enq s)" "out = None" | (full) "r = ring s" "q = PIdle" "out = Some False"
      using st PRead pos by (auto simp: d split: if_splits)
    then show ?thesis
    proof cases
      case claim
      then have "r = (ring s)\<lparr>enqueue_position := add64 p 1\<rparr>" "q = PClaimed v p" "out = None"
        using st PRead by (simp_all add: difference_def)
      with inv_claim [OF inv PRead claim(1,2) range] PRead show ?thesis
        by (simp add: claim_event_def accept_event_def)
    next
      case retry
      then show ?thesis using inv_producer_change [OF inv, of "PLoop v (enq s)" t] PRead
        by (simp add: claim_event_def accept_event_def)
    next
      case full
      then show ?thesis using inv_producer_change [OF inv, of PIdle t] PRead
        by (simp add: claim_event_def accept_event_def)
    qed
  next
    case (PClaimed v p)
    then show ?thesis using inv_write_value [OF inv PClaimed] st
      by (auto simp: claim_event_def accept_event_def sl at)
  next
    case (PWritten v p)
    have "add64 p 1 = Suc p" using prod PWritten range by (simp add: add64_def)
    then show ?thesis using inv_publish [OF inv PWritten] st PWritten
      by (auto simp: claim_event_def accept_event_def sl at)
  qed
qed

lemma pop_access_inv:
  assumes inv: "ring_inv s" and range: "enq s + cap s < 2 ^ 63"
    and st: "TryPop_step (ring s) (consumer s) = (r, c, out)"
  shows "ring_inv (s\<lparr>ring := r, consumer := c, popped := popped s @ (case out of Some (Some v) \<Rightarrow> [v] | _ \<Rightarrow> [])\<rparr>)"
proof -
  have sh: "ring_shape s" and cons: "consumer_ok s (consumer s)" using inv unfolding ring_inv_def by blast+
  have pos: "dequeue_position (ring s) = deq s" "deq s \<le> enq s" "enq s \<le> deq s + cap s" "2 \<le> cap s"
    using sh by (simp_all add: ring_shape_def)
  note sl = slot_mod [OF sh]
  have at: "cells (ring s) ! (p mod cap s) = cell_at s p" for p by (simp add: cell_at_def)
  have ok: "cell_ok s (deq s)" using inv pos unfolding ring_inv_def by simp
  have add1: "add64 (deq s) (Suc 0) = Suc (deq s)" using range pos by (simp add: add64_def)
  show ?thesis
  proof (cases "consumer s")
    case CIdle
    then show ?thesis using inv_consumer_change [OF inv, of "CRead (sequence (cell_at s (deq s)))"] st
      by (auto simp: sl at pos(1))
  next
    case (CRead sq)
    have "sq \<le> Suc (deq s)" using cons CRead ok by (auto simp: cell_ok_def Let_def split: if_splits)
    then have d: "difference sq (Suc (deq s)) = int sq - int (Suc (deq s))" using range pos by (simp add: difference_exact)
    show ?thesis
    proof (cases "sq = Suc (deq s)")
      case True
      then have "sequence (cell_at s (deq s)) = Suc (deq s)" "\<exists>v. cell_value (cell_at s (deq s)) = Some v"
        using cons CRead ok by (auto simp: cell_ok_def Let_def split: if_splits)
      then obtain v where v: "cell_value (cell_at s (deq s)) = Some v" "sequence (cell_at s (deq s)) = Suc (deq s)" by blast
      have "r = (ring s)\<lparr>cells := (cells (ring s))[deq s mod cap s := (cell_at s (deq s))\<lparr>cell_value := None\<rparr>]\<rparr>"
        "c = CTaken v" "out = None"
        using st CRead True v(1) add1 by (simp_all add: pos(1) difference_def sl at Let_def)
      then show ?thesis using inv_take [OF inv v] CRead by simp
    next
      case False
      then have "r = ring s" "c = CIdle" "out = Some None"
        using st CRead \<open>sq \<le> Suc (deq s)\<close> by (auto simp: pos(1) add1 d split: if_splits)
      then show ?thesis using inv_consumer_change [OF inv, of CIdle] CRead by simp
    qed
  next
    case (CTaken v)
    have "add64 (deq s) (cap s) = deq s + cap s" using range pos by (simp add: add64_def)
    then have "r = (ring s)\<lparr>cells := (cells (ring s))[deq s mod cap s := (cell_at s (deq s))\<lparr>sequence := deq s + cap s\<rparr>],
        dequeue_position := Suc (deq s)\<rparr>" "c = CIdle" "out = Some (Some v)"
      using st CTaken add1 by (simp_all add: pos(1) sl at Let_def)
    then show ?thesis using inv_release [OF inv CTaken range] by simp
  next
    case CFault
    then show ?thesis using cons by simp
  qed
qed

text \<open>
  Positions only grow, so a run that ends in range was in range throughout, and the invariant holds as
  long as it is.
\<close>

definition ring_safe :: "'a RingSystem \<Rightarrow> bool" where
  "ring_safe s \<longleftrightarrow> (in_range s \<longrightarrow> ring_inv s)"

lemma ring_step_grows:
  assumes "ring_step s u"
  shows "cap u = cap s \<and> enq s \<le> enq u"
  using assms
proof cases
  case (push_access spurious t r q out)
  then show ?thesis by (cases "producers s t") (auto split: if_splits)
next
  case (pop_access r c out)
  then show ?thesis by (cases "consumer s") (auto simp: Let_def split: if_splits option.splits)
qed simp

lemma ring_step_inv:
  assumes "ring_inv s" and "in_range s" and "ring_step s u"
  shows "ring_inv u"
  using assms(3)
proof cases
  case (push_call t v)
  have "enqueue_position (ring s) = enq s" using assms(1) by (simp add: ring_inv_def ring_shape_def)
  then show ?thesis using push_call inv_producer_change [OF assms(1), of "PLoop v (enq s)" t] by simp
next
  case (push_access spurious t r q out)
  then show ?thesis using push_access_inv [OF assms(1)] assms(2) by (simp add: in_range_def)
next
  case (pop_access r c out)
  then show ?thesis using pop_access_inv [OF assms(1)] assms(2) by (simp add: in_range_def)
qed

lemma ring_initial_inv:
  assumes "ring_initial s"
  shows "ring_inv s"
proof -
  from assms obtain n where n: "MakeMpscRing n = Inr (ring s)" and s: "producers s = (\<lambda>t. PIdle)" "consumer s = CIdle"
    "claimed s = []" "accepted s = []" "popped s = []" by (auto simp: ring_initial_def)
  have r: "2 \<le> n" "\<exists>k. n = 2 ^ k" "cap s = n" "ring_mask (ring s) = n - 1" "enqueue_position (ring s) = 0"
    "dequeue_position (ring s) = 0" "cells (ring s) = map (\<lambda>i. \<lparr>sequence = i, cell_value = None\<rparr>) [0..<n]"
  proof -
    have d: "\<not> n < 2" "has_single_bit n" using n by (auto simp: MakeMpscRing_def split: if_splits)
    then have q: "ring s = \<lparr>capacity = n, ring_mask = n - 1, cells = map (\<lambda>i. \<lparr>sequence = i, cell_value = None\<rparr>) [0..<n],
        enqueue_position = 0, dequeue_position = 0\<rparr>" using n by (simp add: MakeMpscRing_def)
    show "2 \<le> n" "\<exists>k. n = 2 ^ k" using d has_single_bit_power by simp_all
    show "cap s = n" "ring_mask (ring s) = n - 1" "enqueue_position (ring s) = 0" "dequeue_position (ring s) = 0"
      "cells (ring s) = map (\<lambda>i. \<lparr>sequence = i, cell_value = None\<rparr>) [0..<n]" by (simp_all add: q)
  qed
  have "ring_shape s" using r s by (simp add: ring_shape_def)
  moreover have "cell_ok s p" if "p < n" for p using that r s by (simp add: cell_ok_def cell_at_def)
  ultimately show ?thesis by (intro ring_invI) (use r s in \<open>simp_all add: pending_def\<close>)
qed

interpretation ring_run: invariant_system ring_initial ring_step ring_safe
proof
  show "ring_safe s" if "ring_initial s" for s :: "'a RingSystem" using ring_initial_inv [OF that] by (simp add: ring_safe_def)
  show "ring_safe u" if "ring_safe s" and "ring_step s u" for s u :: "'a RingSystem"
    using that ring_step_grows [OF that(2)] ring_step_inv [of s u] by (auto simp: ring_safe_def in_range_def)
qed

section \<open>What the queue promises\<close>

text \<open>A concrete run: producer 0 pushes onto a ring of two cells and the consumer pops.\<close>

definition do_call :: "nat \<Rightarrow> 'a \<Rightarrow> 'a RingSystem \<Rightarrow> 'a RingSystem" where
  "do_call t v s = s\<lparr>producers := (producers s)(t := PLoop v (enqueue_position (ring s)))\<rparr>"

definition do_push :: "nat \<Rightarrow> 'a RingSystem \<Rightarrow> 'a RingSystem" where
  "do_push t s = (case TryPush_step False (ring s) (producers s t) of (r, q, out) \<Rightarrow>
     s\<lparr>ring := r, producers := (producers s)(t := q), claimed := claimed s @ claim_event t (producers s t) q,
       accepted := accepted s @ accept_event t (producers s t) out\<rparr>)"

definition do_pop :: "'a RingSystem \<Rightarrow> 'a RingSystem" where
  "do_pop s = (case TryPop_step (ring s) (consumer s) of (r, c, out) \<Rightarrow>
     s\<lparr>ring := r, consumer := c, popped := popped s @ (case out of Some (Some v) \<Rightarrow> [v] | _ \<Rightarrow> [])\<rparr>)"

lemma do_steps:
  "ring_step\<^sup>*\<^sup>* s0 s \<Longrightarrow> producers s t = PIdle \<Longrightarrow> ring_step\<^sup>*\<^sup>* s0 (do_call t v s)"
  "ring_step\<^sup>*\<^sup>* s0 s \<Longrightarrow> ring_step\<^sup>*\<^sup>* s0 (do_push t s)"
  "ring_step\<^sup>*\<^sup>* s0 s \<Longrightarrow> ring_step\<^sup>*\<^sup>* s0 (do_pop s)"
  unfolding do_call_def do_push_def do_pop_def
  by (auto elim!: rtranclp.rtrancl_into_rtrancl intro: ring_step.intros split: prod.split)

definition ring_example :: "nat RingSystem" where
  "ring_example = \<lparr>ring = \<lparr>capacity = 2, ring_mask = 1,
       cells = [\<lparr>sequence = 0, cell_value = None\<rparr>, \<lparr>sequence = 1, cell_value = None\<rparr>],
       enqueue_position = 0, dequeue_position = 0\<rparr>,
     producers = (\<lambda>t. PIdle), consumer = CIdle, claimed = [], accepted = [], popped = []\<rparr>"

lemma ring_example_initial: "ring_initial ring_example"
proof -
  have "MakeMpscRing 2 = Inr (ring ring_example)"
    by (simp add: MakeMpscRing_def ring_example_def has_single_bit.simps upt_conv_Cons)
  then show ?thesis by (auto simp: ring_initial_def ring_example_def)
qed

definition ring_pushed :: "nat RingSystem" where
  "ring_pushed = do_push 0 (do_push 0 (do_push 0 (do_push 0 (do_call 0 7 ring_example))))"

lemma ring_pushed_reached: "ring_step\<^sup>*\<^sup>* ring_example ring_pushed"
  unfolding ring_pushed_def by (intro do_steps rtranclp.rtrancl_refl) (simp add: ring_example_def)

text \<open>
  C8: the ring is a linearisable bounded FIFO queue. In every interleaving of any number of producers
  and the consumer (short of \<open>2^63\<close> pushes), the values popped are exactly the oldest claimed ones in
  order, each once; at most \<open>capacity\<close> claimed values are outstanding; the values a producer's calls
  were told to have pushed appear in the queue in the order of its calls, with nothing lost and
  nothing added but the one call it has not finished; and the consumer never reads an empty cell.
\<close>

theorem MpscRing_fifo:
  assumes "ring_initial s0" and "ring_step\<^sup>*\<^sup>* s0 s" and "in_range s"
  shows "popped s = map snd (take (length (popped s)) (claimed s)) \<and> length (popped s) \<le> length (claimed s) \<and>
    length (claimed s) \<le> length (popped s) + capacity (ring s) \<and>
    (\<forall>t. filter (\<lambda>x. fst x = t) (claimed s) = filter (\<lambda>x. fst x = t) (accepted s) @ pending t (producers s t)) \<and>
    consumer s \<noteq> CFault"
proof -
  have inv: "ring_inv s" using ring_run.inv_reachable [OF assms(1,2)] assms(3) by (simp add: ring_safe_def)
  then have "consumer s \<noteq> CFault" by (auto simp: ring_inv_def)
  with inv show ?thesis by (simp add: ring_inv_def ring_shape_def)
qed

theorem MpscRing_fifo_witness:
  "accepted (do_pop (do_pop (do_pop ring_pushed))) = [(0, 7)] \<and> popped (do_pop (do_pop (do_pop ring_pushed))) = [7] \<and>
   length (claimed (do_pop (do_pop (do_pop ring_pushed)))) \<le> 3"
proof -
  let ?s = "do_pop (do_pop (do_pop ring_pushed))"
  have "in_range ?s" by code_simp
  note fifo = MpscRing_fifo [OF ring_example_initial do_steps(3) [OF do_steps(3) [OF do_steps(3) [OF ring_pushed_reached]]] this]
  have "accepted ?s = [(0, 7)] \<and> popped ?s = [7] \<and> capacity (ring ?s) = 2" by code_simp
  with fifo show ?thesis by simp
qed

text \<open>
  A failed call is justified. If the sequence number a producer is about to read makes its
  \<open>TryPush\<close> return false, the queue is full at that moment. If the one the consumer is about to read
  makes \<open>TryPop\<close> return nothing, then the queue is empty, or the oldest entry belongs to a producer
  that has claimed its position and not yet published it.
\<close>

theorem MpscRing_refusals:
  assumes "ring_initial s0" and "ring_step\<^sup>*\<^sup>* s0 s" and "in_range s"
  shows "(\<forall>t v p. producers s t = PLoop v p \<and> difference (sequence (cells (ring s) ! slot (ring s) p)) p < 0 \<longrightarrow>
      length (claimed s) = length (popped s) + capacity (ring s)) \<and>
    (consumer s = CIdle \<and>
      difference (sequence (cells (ring s) ! slot (ring s) (length (popped s)))) (Suc (length (popped s))) \<noteq> 0 \<longrightarrow>
      length (popped s) = length (claimed s) \<or>
      sequence (cells (ring s) ! slot (ring s) (length (popped s))) = length (popped s))"
proof -
  have inv: "ring_inv s" using ring_run.inv_reachable [OF assms(1,2)] assms(3) by (simp add: ring_safe_def)
  then have sh: "ring_shape s" and prod: "\<And>t. producer_ok s (producers s t)" unfolding ring_inv_def by blast+
  have c: "2 \<le> cap s" "deq s \<le> enq s" "enq s \<le> deq s + cap s" using sh by (simp_all add: ring_shape_def)
  have at: "cells (ring s) ! slot (ring s) p = cell_at s p" for p by (simp add: slot_mod [OF sh] cell_at_def)
  have "enq s = deq s + cap s" if "producers s t = PLoop v p" "difference (sequence (cell_at s p)) p < 0" for t v p
  proof -
    have p: "p \<le> enq s" using prod [of t] that(1) by simp
    have "sequence (cell_at s p) < 2 ^ 63" "p < 2 ^ 63"
      using sequence_bounds(4) [OF inv p] p c assms(3) by (auto simp: in_range_def)
    then have "sequence (cell_at s p) < p" using that(2) by (simp add: difference_exact)
    then have "deq s + cap s \<le> p" using sequence_bounds(1) [OF inv p] by (meson leD leI)
    then show ?thesis using p c by simp
  qed
  moreover have "deq s = enq s \<or> sequence (cell_at s (deq s)) = deq s"
    if "difference (sequence (cell_at s (deq s))) (Suc (deq s)) \<noteq> 0"
  proof -
    have "cell_ok s (deq s)" using inv c unfolding ring_inv_def by simp
    then show ?thesis using that by (auto simp: cell_ok_def Let_def difference_def split: if_splits)
  qed
  ultimately show ?thesis unfolding at by blast
qed

text \<open>Two further pushes: the third one meets the full ring.\<close>

definition ring_full :: "nat RingSystem" where
  "ring_full = do_call 0 9 (do_push 0 (do_push 0 (do_push 0 (do_push 0 (do_call 0 8 ring_pushed)))))"

theorem MpscRing_refusals_witness:
  "fst (snd (TryPush_step False (ring (do_push 0 ring_full)) (producers (do_push 0 ring_full) 0))) = PIdle \<and>
   length (claimed ring_full) = length (popped ring_full) + 2"
proof -
  have idle: "producers ring_pushed 0 = PIdle"
    "producers (do_push 0 (do_push 0 (do_push 0 (do_push 0 (do_call 0 8 ring_pushed))))) 0 = PIdle" by code_simp+
  have reach: "ring_step\<^sup>*\<^sup>* ring_example ring_full"
    unfolding ring_full_def by (intro do_steps ring_pushed_reached idle)
  have "in_range ring_full" by code_simp
  note ref = MpscRing_refusals [OF ring_example_initial reach this, THEN conjunct1, rule_format, of 0 9 2]
  have "producers ring_full 0 = PLoop 9 2 \<and> difference (sequence (cells (ring ring_full) ! slot (ring ring_full) 2)) 2 < 0 \<and>
    capacity (ring ring_full) = 2" by code_simp
  moreover have "fst (snd (TryPush_step False (ring (do_push 0 ring_full)) (producers (do_push 0 ring_full) 0))) = PIdle"
    by code_simp
  ultimately show ?thesis using ref by simp
qed

end
