(* ===== verification/ShardedRegistries.thy ===== *)
theory ShardedRegistries
  imports Prelude "HOL-Library.AList" "HOL-Library.Multiset"
begin

text \<open>
  \<open>cpp/include/infersched/concurrency/sharded_registry.hpp\<close>: a string-keyed table split over shards
  with one reader-writer lock each, and the single-lock table \<open>GlobalRegistry\<close> of
  \<open>cpp/bench/scheduler_bench.cpp\<close> it is compared with. Every operation on one shard runs under its lock
  and is one atomic step; \<open>size\<close> locks one shard after the other, so other operations can run
  between its steps. \<open>std::hash\<close> is the parameter \<open>hash\<close>, about which nothing is assumed. A shard is an
  association list.
\<close>

record 'v ShardedRegistry =
  shards :: "(string \<times> 'v) list list"

definition MakeShardedRegistry :: "nat \<Rightarrow> error + 'v ShardedRegistry" where
  "MakeShardedRegistry shard_count =
     (if shard_count = 0 then Inl (InvalidArgument ''registry shard count must be positive'')
      else Inr \<lparr>shards = replicate shard_count []\<rparr>)"

definition ShardFor :: "(string \<Rightarrow> nat) \<Rightarrow> string \<Rightarrow> 'v ShardedRegistry \<Rightarrow> nat" where
  "ShardFor hash key r = hash key mod length (shards r)"

definition Upsert :: "(string \<Rightarrow> nat) \<Rightarrow> string \<Rightarrow> 'v \<Rightarrow> 'v ShardedRegistry \<Rightarrow> 'v ShardedRegistry" where
  "Upsert hash key v r = (let i = ShardFor hash key r
     in r\<lparr>shards := (shards r)[i := AList.update key v (shards r ! i)]\<rparr>)"

definition Registry_Get :: "(string \<Rightarrow> nat) \<Rightarrow> string \<Rightarrow> 'v ShardedRegistry \<Rightarrow> 'v option" where
  "Registry_Get hash key r = map_of (shards r ! ShardFor hash key r) key"

definition Registry_Erase :: "(string \<Rightarrow> nat) \<Rightarrow> string \<Rightarrow> 'v ShardedRegistry \<Rightarrow> bool \<times> 'v ShardedRegistry" where
  "Registry_Erase hash key r = (let i = ShardFor hash key r
     in (key \<in> fst ` set (shards r ! i), r\<lparr>shards := (shards r)[i := AList.delete key (shards r ! i)]\<rparr>))"

definition Registry_size :: "'v ShardedRegistry \<Rightarrow> nat" where
  "Registry_size r = fold (\<lambda>shard acc. add64 acc (length shard)) (shards r) 0"

text \<open>
  \<open>size\<close> with other threads: before the lock of each shard is taken some updates of the registry
  have run, the list \<open>upds\<close> of updates per shard.
\<close>

fun size_loop :: "('v ShardedRegistry \<Rightarrow> 'v ShardedRegistry) list \<Rightarrow> nat \<Rightarrow> nat \<Rightarrow> 'v ShardedRegistry \<Rightarrow> nat \<times> 'v ShardedRegistry" where
  "size_loop [] i acc r = (acc, r)"
| "size_loop (upd # upds) i acc r =
     (let r' = upd r in size_loop upds (Suc i) (add64 acc (length (shards r' ! i))) r')"

text \<open>The table of the benchmark with one mutex.\<close>

type_synonym GlobalRegistry = "(string \<times> nat) list"

definition Global_Upsert :: "string \<Rightarrow> nat \<Rightarrow> GlobalRegistry \<Rightarrow> GlobalRegistry" where
  "Global_Upsert key v r = AList.update key v r"

definition Global_size :: "GlobalRegistry \<Rightarrow> nat" where
  "Global_size r = length r"

section \<open>The interface: one finite map\<close>

text \<open>
  What a client of either table relies on: the contents are one map that \<open>upsert\<close> updates, and \<open>size\<close>
  is the number of its keys.
\<close>

locale key_table =
  fixes upsert :: "string \<Rightarrow> 'v \<Rightarrow> 'r \<Rightarrow> 'r"
    and size :: "'r \<Rightarrow> nat"
    and view :: "'r \<Rightarrow> string \<rightharpoonup> 'v"
    and ok :: "'r \<Rightarrow> bool"
  assumes ok_upsert: "ok r \<Longrightarrow> ok (upsert k v r)"
    and view_upsert: "ok r \<Longrightarrow> view (upsert k v r) = (view r)(k \<mapsto> v)"
    and finite_view: "ok r \<Longrightarrow> finite (dom (view r))"
    and size_view: "ok r \<Longrightarrow> card (dom (view r)) < u64 \<Longrightarrow> size r = card (dom (view r))"
begin

lemma ok_upserts: "ok r \<Longrightarrow> ok (fold (\<lambda>(k, v). upsert k v) kvs r)"
  by (induction kvs arbitrary: r) (auto simp: ok_upsert)

lemma view_upserts: "ok r \<Longrightarrow> view (fold (\<lambda>(k, v). upsert k v) kvs r) = view r ++ map_of (rev kvs)"
  by (induction kvs arbitrary: r) (auto simp: ok_upsert view_upsert)

text \<open>Writers with pairwise different keys: the order of their calls is irrelevant and all keys count.\<close>

lemma view_upserts_mset:
  assumes "ok r" and "mset kvs = mset kvs'" and "distinct (map fst kvs)"
  shows "view (fold (\<lambda>(k, v). upsert k v) kvs r) = view (fold (\<lambda>(k, v). upsert k v) kvs' r)"
proof -
  have d: "distinct (map fst kvs')" using assms(2,3) by (metis distinct_map mset_eq_imp_distinct_iff mset_eq_setD)
  have "map_of (rev kvs) = map_of (rev kvs')"
    by (rule map_of_inject_set [THEN iffD2]) (use assms(2,3) d mset_eq_setD in \<open>auto simp: distinct_map rev_map\<close>)
  then show ?thesis by (simp add: view_upserts [OF assms(1)])
qed

lemma size_upserts:
  assumes "ok r" and "view r = Map.empty" and "distinct (map fst kvs)" and "length kvs < u64"
  shows "size (fold (\<lambda>(k, v). upsert k v) kvs r) = length kvs"
proof -
  let ?r = "fold (\<lambda>(k, v). upsert k v) kvs r"
  have "dom (view ?r) = set (map fst kvs)" using view_upserts [OF assms(1)] assms(2) by (simp add: dom_map_of_conv_image_fst)
  then have "card (dom (view ?r)) = length kvs" using assms(3) by (metis distinct_card length_map)
  with size_view [OF ok_upserts [OF assms(1), of kvs]] assms(4) show ?thesis by simp
qed

end

section \<open>The sharded table\<close>

text \<open>Shard \<open>i\<close> of \<open>n\<close> holds every key once, and only keys that belong there.\<close>

definition shard_ok :: "(string \<Rightarrow> nat) \<Rightarrow> nat \<Rightarrow> nat \<Rightarrow> (string \<times> 'v) list \<Rightarrow> bool" where
  "shard_ok hash n i shard \<longleftrightarrow> distinct (map fst shard) \<and> (\<forall>(k, v) \<in> set shard. hash k mod n = i)"

definition sr_ok :: "(string \<Rightarrow> nat) \<Rightarrow> 'v ShardedRegistry \<Rightarrow> bool" where
  "sr_ok hash r \<longleftrightarrow> shards r \<noteq> [] \<and> (\<forall>i < length (shards r). shard_ok hash (length (shards r)) i (shards r ! i))"

lemma shard_ok_update: "shard_ok hash n i shard \<Longrightarrow> hash k mod n = i \<Longrightarrow> shard_ok hash n i (AList.update k v shard)"
  by (auto simp: shard_ok_def distinct_update dest!: in_update)

lemma shard_ok_delete: "shard_ok hash n i shard \<Longrightarrow> shard_ok hash n i (AList.delete k shard)"
  by (auto simp: shard_ok_def distinct_delete dest!: in_delete)

lemma sr_okD: "sr_ok hash r \<Longrightarrow> i < length (shards r) \<Longrightarrow> k \<in> fst ` set (shards r ! i) \<Longrightarrow> ShardFor hash k r = i"
proof -
  assume "sr_ok hash r" "i < length (shards r)" and k: "k \<in> fst ` set (shards r ! i)"
  then have "shard_ok hash (length (shards r)) i (shards r ! i)" by (simp add: sr_ok_def)
  with k show ?thesis by (auto simp: shard_ok_def ShardFor_def)
qed

definition sr_view :: "(string \<Rightarrow> nat) \<Rightarrow> 'v ShardedRegistry \<Rightarrow> string \<rightharpoonup> 'v" where
  "sr_view hash r = (\<lambda>k. Registry_Get hash k r)"

lemma ShardFor_lt: "shards r \<noteq> [] \<Longrightarrow> ShardFor hash k r < length (shards r)"
  by (simp add: ShardFor_def)

lemma length_Upsert [simp]: "length (shards (Upsert hash k v r)) = length (shards r)"
  "length (shards (snd (Registry_Erase hash k r))) = length (shards r)"
  by (simp_all add: Upsert_def Registry_Erase_def Let_def)

lemma ShardFor_Upsert [simp]: "ShardFor hash k (Upsert hash k' v r) = ShardFor hash k r"
  "ShardFor hash k (snd (Registry_Erase hash k' r)) = ShardFor hash k r"
  by (simp_all add: ShardFor_def)

lemma sr_ok_Upsert: "sr_ok hash r \<Longrightarrow> sr_ok hash (Upsert hash k v r)"
  by (auto simp: sr_ok_def Upsert_def Let_def nth_list_update ShardFor_def intro: shard_ok_update)

lemma sr_ok_Erase: "sr_ok hash r \<Longrightarrow> sr_ok hash (snd (Registry_Erase hash k r))"
  by (auto simp: sr_ok_def Registry_Erase_def Let_def nth_list_update ShardFor_def intro: shard_ok_delete)

lemma sr_view_Upsert: "sr_ok hash r \<Longrightarrow> sr_view hash (Upsert hash k v r) = (sr_view hash r)(k \<mapsto> v)"
  using ShardFor_lt [of r hash k]
  by (auto simp: fun_eq_iff sr_view_def Registry_Get_def sr_ok_def Upsert_def Let_def nth_list_update update_conv' ShardFor_def)

lemma sr_view_Erase: "sr_ok hash r \<Longrightarrow> sr_view hash (snd (Registry_Erase hash k r)) = (sr_view hash r)(k := None)"
  using ShardFor_lt [of r hash k]
  by (auto simp: fun_eq_iff sr_view_def Registry_Get_def sr_ok_def Registry_Erase_def Let_def nth_list_update delete_conv' ShardFor_def)

lemma fold_add64_lengths: "fold (\<lambda>shard acc. add64 acc (length shard)) xs n mod u64 = (n + sum_list (map length xs)) mod u64"
  by (induction xs arbitrary: n) (simp_all add: add64_def mod_simps ac_simps)

lemma Registry_size_sum:
  assumes "sum_list (map length (shards r)) < u64"
  shows "Registry_size r = sum_list (map length (shards r))"
proof -
  have "Registry_size r < u64"
    by (cases "shards r" rule: rev_cases) (simp_all add: Registry_size_def)
  then show ?thesis using fold_add64_lengths [of "shards r" 0] assms by (simp add: Registry_size_def)
qed

lemma dom_sr_view:
  assumes "sr_ok hash r"
  shows "dom (sr_view hash r) = (\<Union>i < length (shards r). fst ` set (shards r ! i))"
proof (intro subset_antisym subsetI)
  fix k assume "k \<in> dom (sr_view hash r)"
  then have "k \<in> fst ` set (shards r ! ShardFor hash k r)"
    by (auto simp: sr_view_def Registry_Get_def dom_map_of_conv_image_fst [symmetric])
  then show "k \<in> (\<Union>i < length (shards r). fst ` set (shards r ! i))"
    using assms ShardFor_lt [of r hash k] by (auto simp: sr_ok_def)
next
  fix k assume "k \<in> (\<Union>i < length (shards r). fst ` set (shards r ! i))"
  then obtain i where i: "i < length (shards r)" "k \<in> fst ` set (shards r ! i)" by blast
  then have "ShardFor hash k r = i" using sr_okD [OF assms] by blast
  then have "k \<in> dom (map_of (shards r ! ShardFor hash k r))" using i by (simp add: dom_map_of_conv_image_fst)
  then show "k \<in> dom (sr_view hash r)" by (simp add: sr_view_def Registry_Get_def dom_def)
qed

lemma card_sr_view:
  assumes "sr_ok hash r"
  shows "card (dom (sr_view hash r)) = sum_list (map length (shards r))"
proof -
  have c: "card (fst ` set (shards r ! i)) = length (shards r ! i)" if "i < length (shards r)" for i
    using assms that by (metis distinct_card length_map list.set_map sr_ok_def shard_ok_def)
  have d: "fst ` set (shards r ! i) \<inter> fst ` set (shards r ! j) = {}"
    if "i < length (shards r)" "j < length (shards r)" "i \<noteq> j" for i j
  proof -
    have "ShardFor hash k r = i" "ShardFor hash k r = j" if "k \<in> fst ` set (shards r ! i)" "k \<in> fst ` set (shards r ! j)" for k
      using sr_okD [OF assms] that \<open>i < length (shards r)\<close> \<open>j < length (shards r)\<close> by blast+
    with \<open>i \<noteq> j\<close> show ?thesis by blast
  qed
  have "card (dom (sr_view hash r)) = (\<Sum>i < length (shards r). card (fst ` set (shards r ! i)))"
    unfolding dom_sr_view [OF assms] by (rule card_UN_disjoint) (use d in auto)
  also have "\<dots> = (\<Sum>i < length (shards r). length (shards r ! i))" using c by simp
  also have "\<dots> = sum_list (map length (shards r))" by (simp add: sum_list_sum_nth atLeast0LessThan)
  finally show ?thesis .
qed

interpretation sharded: key_table "Upsert hash" Registry_size "sr_view hash" "sr_ok hash" for hash
proof
  fix r :: "'v ShardedRegistry" and k v
  assume ok: "sr_ok hash r"
  show "sr_ok hash (Upsert hash k v r)" using ok by (rule sr_ok_Upsert)
  show "sr_view hash (Upsert hash k v r) = (sr_view hash r)(k \<mapsto> v)" using ok by (rule sr_view_Upsert)
  show "finite (dom (sr_view hash r))" by (simp add: dom_sr_view [OF ok])
  show "card (dom (sr_view hash r)) < u64 \<Longrightarrow> Registry_size r = card (dom (sr_view hash r))"
    using Registry_size_sum [of r] card_sr_view [OF ok] by simp
qed

interpretation global_table: key_table Global_Upsert Global_size map_of "\<lambda>r. distinct (map fst r)"
proof
  fix r :: GlobalRegistry and k v
  assume d: "distinct (map fst r)"
  show "distinct (map fst (Global_Upsert k v r))" using d by (simp add: Global_Upsert_def distinct_update)
  show "map_of (Global_Upsert k v r) = (map_of r)(k \<mapsto> v)" by (simp add: Global_Upsert_def fun_eq_iff update_conv')
  show "finite (dom (map_of r))" by (rule finite_dom_map_of)
  show "card (dom (map_of r)) < u64 \<Longrightarrow> Global_size r = card (dom (map_of r))"
    using d by (metis Global_size_def distinct_card dom_map_of_conv_image_fst length_map list.set_map)
qed

section \<open>The table under arbitrary calls\<close>

datatype 'v registry_op = OpUpsert string 'v | OpErase string

fun apply_op :: "(string \<Rightarrow> nat) \<Rightarrow> 'v registry_op \<Rightarrow> 'v ShardedRegistry \<Rightarrow> 'v ShardedRegistry" where
  "apply_op hash (OpUpsert k v) r = Upsert hash k v r"
| "apply_op hash (OpErase k) r = snd (Registry_Erase hash k r)"

fun map_op :: "'v registry_op \<Rightarrow> (string \<rightharpoonup> 'v) \<Rightarrow> string \<rightharpoonup> 'v" where
  "map_op (OpUpsert k v) m = m(k \<mapsto> v)"
| "map_op (OpErase k) m = m(k := None)"

lemma MakeShardedRegistry_ok:
  assumes "MakeShardedRegistry n = Inr r"
  shows "sr_ok hash r" "sr_view hash r = Map.empty" "length (shards r) = n"
  using assms by (auto simp: MakeShardedRegistry_def sr_ok_def shard_ok_def sr_view_def Registry_Get_def ShardFor_def split: if_splits)

lemma registry_ops_refine:
  assumes "sr_ok hash r"
  shows "sr_ok hash (fold (apply_op hash) ops r) \<and>
    sr_view hash (fold (apply_op hash) ops r) = fold map_op ops (sr_view hash r)"
  using assms
proof (induction ops arbitrary: r)
  case (Cons op ops)
  have "sr_ok hash (apply_op hash op r) \<and> sr_view hash (apply_op hash op r) = map_op op (sr_view hash r)"
    using Cons.prems by (cases op) (simp_all add: sr_ok_Upsert sr_ok_Erase sr_view_Upsert sr_view_Erase)
  with Cons.IH show ?case by simp
qed simp

text \<open>
  C26: sharding is invisible. After any sequence of upserts and erasures, whatever the hash function and
  the number of shards, a lookup returns what one map updated in the same order would hold, an erasure
  reports whether the key was present, and \<open>size\<close> is the number of keys.
\<close>

theorem ShardedRegistry_refines_map:
  assumes "MakeShardedRegistry n = Inr r0" and "r = fold (apply_op hash) ops r0"
    and "m = fold map_op ops Map.empty" and "card (dom m) < u64"
  shows "Registry_Get hash k r = m k \<and> fst (Registry_Erase hash k r) = (k \<in> dom m) \<and> Registry_size r = card (dom m)"
proof -
  have r: "sr_ok hash r" "sr_view hash r = m"
    using registry_ops_refine [OF MakeShardedRegistry_ok(1) [OF assms(1)], of hash ops]
      MakeShardedRegistry_ok(2) [OF assms(1), of hash] assms(2,3) by simp_all
  have g: "Registry_Get hash k r = m k" using r(2) by (auto simp: sr_view_def)
  moreover have "fst (Registry_Erase hash k r) = (k \<in> dom m)"
    using g map_of_eq_None_iff [of "shards r ! ShardFor hash k r" k]
    by (auto simp: Registry_Erase_def Registry_Get_def Let_def domIff)
  ultimately show ?thesis using sharded.size_view [OF r(1)] r(2) assms(4) by simp
qed

theorem ShardedRegistry_refines_map_witness:
  "Registry_size (fold (apply_op length) [OpUpsert ''a'' 1, OpUpsert ''bb'' (2 :: nat), OpErase ''a''] \<lparr>shards = [[], []]\<rparr>) = 1 \<and>
   Registry_Get length ''bb'' (fold (apply_op length) [OpUpsert ''a'' 1, OpUpsert ''bb'' 2, OpErase ''a''] \<lparr>shards = [[], []]\<rparr>)
     = Some (2 :: nat)"
proof -
  have m: "MakeShardedRegistry 2 = Inr \<lparr>shards = [[], []]\<rparr>"
    by (simp add: MakeShardedRegistry_def numeral_2_eq_2)
  have c: "card (dom (fold map_op [OpUpsert ''a'' 1, OpUpsert ''bb'' (2 :: nat), OpErase ''a''] Map.empty)) = 1" by simp
  show ?thesis
    using ShardedRegistry_refines_map [OF m refl refl, where k = "''bb''" and hash = length and ops = "[OpUpsert ''a'' 1, OpUpsert ''bb'' (2 :: nat), OpErase ''a'']"] c
    by simp
qed

section \<open>A size taken while others write\<close>

definition grows :: "'v ShardedRegistry \<Rightarrow> 'v ShardedRegistry \<Rightarrow> bool" where
  "grows r r' \<longleftrightarrow> length (shards r) = length (shards r') \<and>
     (\<forall>i < length (shards r). length (shards r ! i) \<le> length (shards r' ! i))"

lemma length_update_le: "length xs \<le> length (AList.update k v xs)"
  by (induction xs) auto

lemma grows_trans: "grows r s \<Longrightarrow> grows s t \<Longrightarrow> grows r t"
proof -
  assume a: "grows r s" "grows s t"
  then have "length (shards r ! i) \<le> length (shards t ! i)" if "i < length (shards r)" for i
    using that le_trans [of "length (shards r ! i)" "length (shards s ! i)"] by (simp add: grows_def)
  with a show "grows r t" by (simp add: grows_def)
qed

lemma grows_Upsert: "grows r (Upsert hash k v r)"
  using ShardFor_lt [of r hash k]
  by (cases "shards r = []") (simp_all add: grows_def Upsert_def Let_def nth_list_update length_update_le)

lemma grows_upserts: "grows r (fold (\<lambda>(k, v). Upsert hash k v) kvs r)"
proof (induction kvs arbitrary: r)
  case (Cons kv kvs)
  obtain k v where "kv = (k, v)" by fastforce
  with grows_trans [OF grows_Upsert Cons.IH] show ?case by simp
qed (simp add: grows_def)

lemma length_ops: "length (shards (fold (apply_op hash) ops r)) = length (shards r)"
proof (induction ops arbitrary: r)
  case (Cons op ops)
  then show ?case by (cases op) simp_all
qed simp

lemma size_loop_ok:
  "size_loop (map (\<lambda>kvs. fold (\<lambda>(k, v). Upsert hash k v) kvs) upds) i acc r = (res, r') \<Longrightarrow> sr_ok hash r \<Longrightarrow> sr_ok hash r'"
  by (induction upds arbitrary: i acc r) (auto simp: Let_def intro: sharded.ok_upserts)

text \<open>The loop from shard \<open>i\<close> on: what it adds is between the old and the final lengths.\<close>

lemma size_loop_grows:
  "size_loop (map (\<lambda>kvs. fold (\<lambda>(k, v). Upsert hash k v) kvs) upds) i acc r = (res, r') \<Longrightarrow> grows r r'"
  by (induction upds arbitrary: i acc r)
    (auto simp: Let_def grows_def [of r' r'] intro: grows_trans [OF grows_upserts])

lemma size_loop_between:
  assumes "size_loop (map (\<lambda>kvs. fold (\<lambda>(k, v). Upsert hash k v) kvs) upds) i acc r = (res, r')"
    and "i + length upds = length (shards r)"
    and "acc + (\<Sum>j = i..<length (shards r). length (shards r' ! j)) < u64"
  shows "grows r r' \<and> acc + (\<Sum>j = i..<length (shards r). length (shards r ! j)) \<le> res \<and>
    res \<le> acc + (\<Sum>j = i..<length (shards r). length (shards r' ! j))"
  using assms
proof (induction upds arbitrary: i acc r)
  case Nil
  then show ?case by (simp add: grows_def)
next
  case (Cons kvs upds)
  let ?n = "length (shards r)"
  let ?u = "fold (\<lambda>(k, v). Upsert hash k v) kvs r"
  let ?a = "add64 acc (length (shards ?u ! i))"
  have g: "grows r ?u" by (rule grows_upserts)
  then have n: "length (shards ?u) = ?n" by (simp add: grows_def)
  have i: "i < ?n" using Cons.prems(2) by simp
  have run: "size_loop (map (\<lambda>kvs. fold (\<lambda>(k, v). Upsert hash k v) kvs) upds) (Suc i) ?a ?u = (res, r')"
    using Cons.prems(1) by (simp add: Let_def)
  have split: "(\<Sum>j = i..<?n. f j) = f i + (\<Sum>j = Suc i..<?n. f j)" for f :: "nat \<Rightarrow> nat"
    using i by (rule sum.atLeast_Suc_lessThan)
  have gr: "grows ?u r'" by (rule size_loop_grows [OF run])
  then have le: "length (shards ?u ! i) \<le> length (shards r' ! i)" using i n by (simp add: grows_def)
  then have a: "?a = acc + length (shards ?u ! i)" using Cons.prems(3) split by (intro add64_exact) simp
  have "grows ?u r' \<and> ?a + (\<Sum>j = Suc i..<?n. length (shards ?u ! j)) \<le> res \<and>
      res \<le> ?a + (\<Sum>j = Suc i..<?n. length (shards r' ! j))"
    using Cons.IH [OF run] Cons.prems(2,3) n a le split by simp
  moreover have "length (shards r ! i) \<le> length (shards ?u ! i)" using g i by (simp add: grows_def)
  moreover have "(\<Sum>j = Suc i..<?n. length (shards r ! j)) \<le> (\<Sum>j = Suc i..<?n. length (shards ?u ! j))"
    by (rule sum_mono) (use g in \<open>simp add: grows_def\<close>)
  ultimately show ?case using grows_trans [OF g] a le split by simp
qed

text \<open>
  \<open>size\<close> is not a snapshot, but it is never off by more than what was written meanwhile. While
  other threads upsert, the number it returns lies between the number of keys when it started and the
  number of keys when it ended.
\<close>

theorem concurrent_size_between:
  assumes "MakeShardedRegistry n = Inr r0" and "r = fold (apply_op hash) ops r0" and "length upds = n"
    and "size_loop (map (\<lambda>kvs. fold (\<lambda>(k, v). Upsert hash k v) kvs) upds) 0 0 r = (res, r')"
    and "card (dom (sr_view hash r')) < u64"
  shows "card (dom (sr_view hash r)) \<le> res \<and> res \<le> card (dom (sr_view hash r'))"
proof -
  have r: "sr_ok hash r" "length (shards r) = n"
    using registry_ops_refine [OF MakeShardedRegistry_ok(1) [OF assms(1)], of hash ops]
      MakeShardedRegistry_ok(3) [OF assms(1)] assms(2) by (simp_all add: length_ops)
  have g: "grows r r'" using assms(4) by (rule size_loop_grows)
  have r': "sr_ok hash r'" using assms(4) r(1) by (rule size_loop_ok)
  have s: "card (dom (sr_view hash u)) = (\<Sum>j = 0..<length (shards u). length (shards u ! j))" if "sr_ok hash u" for u :: "'a ShardedRegistry"
    using card_sr_view [OF that] by (simp add: sum_list_sum_nth)
  have n: "length (shards r') = n" using g r(2) by (simp add: grows_def)
  have "(\<Sum>j = 0..<n. length (shards r' ! j)) < u64" using s [OF r'] n assms(5) by simp
  then have "(\<Sum>j = 0..<n. length (shards r ! j)) \<le> res \<and> res \<le> (\<Sum>j = 0..<n. length (shards r' ! j))"
    using size_loop_between [OF assms(4)] assms(3) r(2) by simp
  then show ?thesis using s [OF r(1)] s [OF r'] n r(2) by simp
qed

theorem concurrent_size_between_witness:
  "fst (size_loop [id, Upsert length ''a'' 1] 0 0 (Upsert length ''bb'' (2 :: nat) \<lparr>shards = [[], []]\<rparr>)) \<le> 2"
proof -
  let ?r = "fold (apply_op length) [OpUpsert ''bb'' (2 :: nat)] \<lparr>shards = [[], []]\<rparr>"
  let ?l = "size_loop (map (\<lambda>kvs. fold (\<lambda>(k, v). Upsert length k v) kvs) [[], [(''a'', 1)]]) 0 0 ?r"
  have m: "MakeShardedRegistry 2 = Inr \<lparr>shards = [[], []] :: (string \<times> nat) list list\<rparr>"
    by (simp add: MakeShardedRegistry_def numeral_2_eq_2)
  have "snd ?l = \<lparr>shards = [[(''bb'', 2)], [(''a'', 1)]]\<rparr>" by code_simp
  moreover have "sr_ok length (snd ?l)"
    by (rule size_loop_ok [OF prod.collapse [symmetric]]) (simp add: sr_ok_Upsert MakeShardedRegistry_ok(1) [OF m])
  ultimately have "card (dom (sr_view length (snd ?l))) = 2" using card_sr_view by fastforce
  then show ?thesis
    using concurrent_size_between [OF m refl _ prod.collapse [symmetric], of "[[], [(''a'', 1)]]" length "[OpUpsert ''bb'' 2]"]
    by simp
qed

end
