(* ===== verification/BenchWorkers.thy ===== *)
theory BenchWorkers
  imports MpscRings ShardedRegistries "HOL-Library.Sublist"
begin

text \<open>
  The \<open>queue\<close> and \<open>registry\<close> modes of \<open>cpp/bench/scheduler_bench.cpp\<close>: the split of the work among the
  producer threads, the mutex queue the ring is compared with, the checksum of the consumer and the
  completeness check of the registry. The threads' calls run in any order.
\<close>

section \<open>The work of each thread\<close>

definition per_producer :: "nat \<Rightarrow> nat \<Rightarrow> nat" where
  "per_producer requests workers = sub64 (add64 requests workers) 1 div workers"

definition worker_range :: "nat \<Rightarrow> nat \<Rightarrow> nat \<Rightarrow> nat list" where
  "worker_range requests workers producer =
     (let first = mul64 producer (per_producer requests workers);
          last = min (add64 first (per_producer requests workers)) requests
      in [first..<last])"

section \<open>Queue mode\<close>

type_synonym MutexQueue = "nat list"

definition MutexQueue_Push :: "nat \<Rightarrow> MutexQueue \<Rightarrow> MutexQueue" where
  "MutexQueue_Push v q = q @ [v]"

definition MutexQueue_Pop :: "MutexQueue \<Rightarrow> nat option \<times> MutexQueue" where
  "MutexQueue_Pop q = (case q of [] \<Rightarrow> (None, []) | v # vs \<Rightarrow> (Some v, vs))"

definition queue_checksum :: "nat list \<Rightarrow> nat" where
  "queue_checksum vs = fold (\<lambda>v checksum. add64 checksum v) vs 0"

definition queue_expected :: "nat \<Rightarrow> nat" where
  "queue_expected requests = mul64 requests (sub64 requests 1) div 2"

text \<open>The mutex queue under threads, with the history of pushes and pops.\<close>

record MutexSystem =
  mq_values :: MutexQueue
  mq_pushed :: "(nat \<times> nat) list"
  mq_popped :: "nat list"

inductive mutex_step :: "MutexSystem \<Rightarrow> MutexSystem \<Rightarrow> bool" where
  mutex_push: "mutex_step s (s\<lparr>mq_values := MutexQueue_Push v (mq_values s), mq_pushed := mq_pushed s @ [(t, v)]\<rparr>)"
| mutex_pop: "MutexQueue_Pop (mq_values s) = (out, q) \<Longrightarrow>
    mutex_step s (s\<lparr>mq_values := q, mq_popped := mq_popped s @ (case out of None \<Rightarrow> [] | Some v \<Rightarrow> [v])\<rparr>)"

definition mutex_initial :: "MutexSystem \<Rightarrow> bool" where
  "mutex_initial s \<longleftrightarrow> mq_values s = [] \<and> mq_pushed s = [] \<and> mq_popped s = []"

definition mutex_inv :: "MutexSystem \<Rightarrow> bool" where
  "mutex_inv s \<longleftrightarrow> map snd (mq_pushed s) = mq_popped s @ mq_values s"

interpretation mutex_run: invariant_system mutex_initial mutex_step mutex_inv
proof
  show "mutex_inv s" if "mutex_initial s" for s using that by (simp add: mutex_initial_def mutex_inv_def)
  show "mutex_inv t" if "mutex_inv s" and "mutex_step s t" for s t
    using that(2,1) by cases (auto simp: mutex_inv_def MutexQueue_Push_def MutexQueue_Pop_def split: list.splits)
qed

section \<open>What the consumer relies on\<close>

text \<open>
  The contract of either queue towards the benchmark: with the pushes of all threads logged in queue
  order, the values popped are a prefix of the log.
\<close>

locale fifo_queue =
  fixes reached :: "'s \<Rightarrow> bool"
    and log :: "'s \<Rightarrow> (nat \<times> nat) list"
    and out :: "'s \<Rightarrow> nat list"
  assumes fifo: "reached s \<Longrightarrow> prefix (out s) (map snd (log s))"

text \<open>Each thread has pushed an initial part of its own range, in order, and no one else pushes.\<close>

definition works_on :: "nat \<Rightarrow> nat \<Rightarrow> (nat \<times> nat) list \<Rightarrow> bool" where
  "works_on requests workers pushes \<longleftrightarrow> (\<forall>t. prefix (map snd (filter (\<lambda>x. fst x = t) pushes))
     (if t < workers then worker_range requests workers t else []))"

lemma per_producer_exact:
  assumes "0 < p" and "n + p < u64"
  shows "per_producer n p = (n + p - 1) div p"
  using assms by (simp add: per_producer_def add64_exact sub64_exact)

lemma worker_range_exact:
  assumes "t < p" and "n + p < u64"
  shows "worker_range n p t = [t * per_producer n p..<min (t * per_producer n p + per_producer n p) n]"
proof -
  have "(t + 1) * per_producer n p \<le> p * per_producer n p" using assms(1) by (intro mult_le_mono1) simp
  also have "\<dots> \<le> n + p - 1" using assms by (subst per_producer_exact) simp_all
  finally have "t * per_producer n p + per_producer n p < u64" using assms(2) by simp
  then show ?thesis by (simp add: worker_range_def Let_def mul64_exact add64_exact)
qed

lemma ranges_cover_part:
  assumes "n + p < u64" and "k \<le> p"
  shows "concat (map (worker_range n p) [0..<k]) = [0..<min (k * per_producer n p) n]"
  using assms(2)
proof (induction k)
  case (Suc k)
  let ?d = "per_producer n p"
  have "[0..<min (k * ?d) n] @ [k * ?d..<min (k * ?d + ?d) n] = [0..<min (k * ?d + ?d) n]"
  proof (cases "k * ?d \<le> n")
    case True
    then have "min (k * ?d + ?d) n = k * ?d + (min (k * ?d + ?d) n - k * ?d)" by simp
    then show ?thesis using True by (metis min.absorb1 upt_add_eq_append zero_le)
  qed simp
  then show ?case using Suc worker_range_exact [of k p n] assms(1) by (simp add: add.commute)
qed simp

lemma ranges_cover:
  assumes "0 < p" and "n + p < u64"
  shows "concat (map (worker_range n p) [0..<p]) = [0..<n]"
proof -
  have "n + p - 1 < p * per_producer n p + p"
    using assms(1) mult_div_mod_eq [of p "n + p - 1"] mod_less_divisor [of p "n + p - 1"]
    unfolding per_producer_exact [OF assms] by linarith
  then have "n \<le> p * per_producer n p" using assms(1) by linarith
  then show ?thesis using ranges_cover_part [OF assms(2) order_refl] by (simp add: min_absorb2)
qed

lemma mset_by_thread:
  "mset (map f (filter (\<lambda>x. fst x < (p::nat)) xs)) = (\<Sum>t = 0..<p. mset (map f (filter (\<lambda>x. fst x = t) xs)))"
proof (induction p)
  case (Suc p)
  have "mset (map f (filter (\<lambda>x. fst x < Suc p) xs)) =
      mset (map f (filter (\<lambda>x. fst x < p) xs)) + mset (map f (filter (\<lambda>x. fst x = p) xs))"
    by (induction xs) auto
  with Suc show ?case by simp
qed simp

lemma mset_concat_sum: "mset (concat (map f [0..<p])) = (\<Sum>t = 0..<p. mset (f t))"
  by (induction p) simp_all

lemma sum_subseteq_mset:
  "(\<And>t. t \<in> {0..<p} \<Longrightarrow> M t \<subseteq># N t) \<Longrightarrow> (\<Sum>t = 0..<(p::nat). M t) \<subseteq># (\<Sum>t = 0..<p. N t)"
  by (induction p) (auto intro: subset_mset.add_mono)

lemma works_on_log:
  assumes "works_on n p pushes" and "0 < p" and "n + p < u64"
  shows "mset (map snd pushes) \<subseteq># mset [0..<n]"
proof -
  have small: "fst x < p" if "x \<in> set pushes" for x
  proof (rule ccontr)
    assume "\<not> fst x < p"
    then have "map snd (filter (\<lambda>y. fst y = fst x) pushes) = []" using assms(1) [unfolded works_on_def, rule_format, of "fst x"] by simp
    then show False using that by (auto simp: filter_empty_conv)
  qed
  then have "filter (\<lambda>x. fst x < p) pushes = pushes" by (simp add: filter_id_conv)
  then have "mset (map snd pushes) = (\<Sum>t = 0..<p. mset (map snd (filter (\<lambda>x. fst x = t) pushes)))"
    using mset_by_thread [of snd p pushes] by simp
  also have "\<dots> \<subseteq># (\<Sum>t = 0..<p. mset (worker_range n p t))"
  proof (rule sum_subseteq_mset)
    fix t assume "t \<in> {0..<p}"
    then have "prefix (map snd (filter (\<lambda>x. fst x = t) pushes)) (worker_range n p t)"
      using assms(1) [unfolded works_on_def, rule_format, of t] by simp
    then show "mset (map snd (filter (\<lambda>x. fst x = t) pushes)) \<subseteq># mset (worker_range n p t)"
      by (metis mset_append mset_subset_eq_add_left prefix_def)
  qed
  also have "\<dots> = mset [0..<n]" using ranges_cover [OF assms(2,3)] mset_concat_sum [of "worker_range n p" p] by simp
  finally show ?thesis .
qed

lemma queue_checksum_sum: "queue_checksum vs = sum_list vs mod u64"
proof -
  have "fold (\<lambda>v checksum. add64 checksum v) vs n mod u64 = (n + sum_list vs) mod u64" for n
    by (induction vs arbitrary: n) (simp_all add: add64_def mod_simps ac_simps)
  moreover have "queue_checksum vs < u64" by (cases vs rule: rev_cases) (simp_all add: queue_checksum_def)
  ultimately show ?thesis unfolding queue_checksum_def by (metis add_0 mod_less)
qed

lemma queue_expected_exact:
  assumes "0 < n" and "n \<le> u32"
  shows "queue_expected n = sum_list [0..<n] mod u64"
proof -
  have "n * (n - 1) \<le> u32 * (u32 - 1)" using assms by (intro mult_le_mono) simp_all
  then have b: "n * (n - 1) < u64" by simp
  have "2 * sum_list [0..<n] = n * (n - 1)"
  proof -
    have "sum_list [0..<n] = \<Sum>{0..<n}" by (simp add: interv_sum_list_conv_sum_set_nat)
    then show ?thesis using Sum_Ico_nat [of 0 n] by (cases n) (simp_all add: dvd_mult_div_cancel)
  qed
  then have s: "sum_list [0..<n] = n * (n - 1) div 2" by simp
  have "n < u64" using assms by simp
  then have "queue_expected n = n * (n - 1) div 2"
    using b assms(1) by (simp add: queue_expected_def sub64_exact mul64_exact)
  then show ?thesis using s b by simp
qed

context fifo_queue
begin

text \<open>When as many values as requested have been popped, they are all the values, each once.\<close>

lemma popped_all:
  assumes "reached s" and "works_on n p (log s)" and "0 < p" and "n + p < u64" and "length (out s) = n"
  shows "mset (out s) = mset [0..<n]"
proof -
  have sub: "mset (map snd (log s)) \<subseteq># mset [0..<n]" using assms(2-4) by (rule works_on_log)
  obtain rest where r: "map snd (log s) = out s @ rest" using fifo [OF assms(1)] by (auto simp: prefix_def)
  have "mset (out s) \<subseteq># mset [0..<n]"
    using sub unfolding r by (metis mset_append mset_subset_eq_add_left subset_mset.order_trans)
  then show ?thesis using assms(5) by (metis length_upt minus_nat.diff_0 mset_subset_size size_mset subset_mset.le_imp_less_or_eq less_irrefl)
qed

lemma checksum_ok:
  assumes "reached s" and "works_on n p (log s)" and "0 < p" and "n + p < u64" and "length (out s) = n" and "0 < n" and "n \<le> u32"
  shows "queue_checksum (out s) = queue_expected n"
proof -
  have "sum_list (out s) = sum_list [0..<n]" using popped_all [OF assms(1-5)] by (metis sum_mset_sum_list)
  then show ?thesis using queue_expected_exact [OF assms(6,7)] by (simp add: queue_checksum_sum)
qed

end

interpretation ring_fifo: fifo_queue "\<lambda>s. \<exists>s0. ring_initial s0 \<and> ring_step\<^sup>*\<^sup>* s0 s \<and> in_range s" claimed popped
proof
  fix s :: "nat RingSystem"
  assume "\<exists>s0. ring_initial s0 \<and> ring_step\<^sup>*\<^sup>* s0 s \<and> in_range s"
  then have "ring_inv s" using ring_run.inv_reachable by (auto simp: ring_safe_def)
  then have "popped s = take (length (popped s)) (map snd (claimed s))" unfolding ring_inv_def by (simp add: take_map)
  then show "prefix (popped s) (map snd (claimed s))" by (metis take_is_prefix)
qed

interpretation mutex_fifo: fifo_queue "\<lambda>s. \<exists>s0. mutex_initial s0 \<and> mutex_step\<^sup>*\<^sup>* s0 s" mq_pushed mq_popped
proof
  fix s
  assume "\<exists>s0. mutex_initial s0 \<and> mutex_step\<^sup>*\<^sup>* s0 s"
  then have "mutex_inv s" using mutex_run.inv_reachable by blast
  then show "prefix (mq_popped s) (map snd (mq_pushed s))" by (simp add: mutex_inv_def)
qed

text \<open>
  The queue benchmark's checksum test passes with either queue. Whatever the interleaving of the
  producers and the consumer, once the consumer has popped as many values as requested, with every
  producer working through its own range, the checksum is the expected one (for up to \<open>2^32\<close>
  events, beyond which the expected value itself would wrap).
\<close>

theorem queue_benchmark_passes:
  assumes "0 < workers" and "n + workers < u64" and "0 < n" and "n \<le> u32"
    and ring: "ring_initial s0" "ring_step\<^sup>*\<^sup>* s0 s" "in_range s" "works_on n workers (claimed s)" "length (popped s) = n"
    and mutex: "mutex_initial u0" "mutex_step\<^sup>*\<^sup>* u0 u" "works_on n workers (mq_pushed u)" "length (mq_popped u) = n"
  shows "queue_checksum (popped s) = queue_expected n \<and> queue_checksum (mq_popped u) = queue_expected n"
  using ring_fifo.checksum_ok [OF _ ring(4) assms(1,2) ring(5) assms(3,4)]
    mutex_fifo.checksum_ok [OF _ mutex(3) assms(1,2) mutex(4) assms(3,4)] ring(1-3) mutex(1,2) by blast

text \<open>One producer, one event, on a ring of two cells and on the mutex queue.\<close>

definition bench_ring :: "nat RingSystem" where
  "bench_ring = do_pop (do_pop (do_pop (do_push 0 (do_push 0 (do_push 0 (do_push 0 (do_call 0 0 ring_example)))))))"

theorem queue_benchmark_passes_witness:
  "popped bench_ring = [0] \<and> queue_checksum (popped bench_ring) = queue_expected 1"
proof -
  let ?ua = "\<lparr>mq_values = [], mq_pushed = [], mq_popped = []\<rparr>"
  let ?ub = "\<lparr>mq_values = [0], mq_pushed = [(0, 0)], mq_popped = []\<rparr>"
  let ?uc = "\<lparr>mq_values = [], mq_pushed = [(0, 0)], mq_popped = [0]\<rparr>"
  have reach: "ring_step\<^sup>*\<^sup>* ring_example bench_ring"
    unfolding bench_ring_def by (intro do_steps rtranclp.rtrancl_refl) (simp add: ring_example_def)
  have s: "in_range bench_ring" "claimed bench_ring = [(0, 0)]" "popped bench_ring = [0]" by code_simp+
  have w: "works_on 1 1 [(0, 0)]"
    by (auto simp: works_on_def worker_range_def per_producer_def Let_def upt_conv_Cons add64_def sub64_def mul64_def)
  have "mutex_step ?ua ?ub" using mutex_push [of ?ua 0 0] by (simp add: MutexQueue_Push_def)
  moreover have "mutex_step ?ub ?uc" using mutex_pop [of ?ub "Some 0" "[]"] by (simp add: MutexQueue_Pop_def)
  ultimately have "mutex_step\<^sup>*\<^sup>* ?ua ?uc" by (meson rtranclp.rtrancl_into_rtrancl rtranclp.rtrancl_refl)
  from queue_benchmark_passes [of 1 1 ring_example bench_ring, OF _ _ _ _ ring_example_initial reach s(1) _ _ _ this]
  show ?thesis using s w by (simp add: mutex_initial_def)
qed

section \<open>Registry mode\<close>

definition writer_ops :: "nat \<Rightarrow> nat \<Rightarrow> nat \<Rightarrow> (string \<times> nat) list" where
  "writer_ops requests workers producer =
     map (\<lambda>value. (''request-'' @ to_string value, value)) (worker_range requests workers producer)"

text \<open>
  The registry benchmark's completeness test passes with either table. In whatever order the upserts
  of the writers run, whatever the hash function, \<open>size\<close> returns the number of requests.
\<close>

theorem registry_benchmark_passes:
  assumes "0 < workers" and "n + workers < u64" and make: "MakeShardedRegistry 32 = Inr r0"
    and order: "mset ops = mset (concat (map (writer_ops n workers) [0..<workers]))"
  shows "Registry_size (fold (\<lambda>(k, v). Upsert hash k v) ops r0) = n \<and>
    Global_size (fold (\<lambda>(k, v). Global_Upsert k v) ops []) = n"
proof -
  let ?op = "\<lambda>value. (''request-'' @ to_string value, value)"
  have "concat (map (writer_ops n workers) [0..<workers]) = map ?op [0..<n]"
    unfolding writer_ops_def ranges_cover [OF assms(1,2), symmetric] by (simp add: map_concat comp_def)
  then have ops: "mset ops = mset (map ?op [0..<n])" using order by simp
  then have len: "length ops = n" using mset_eq_length [OF ops] by simp
  have "mset (map fst ops) = mset (map (\<lambda>v. ''request-'' @ to_string v) [0..<n])"
    using arg_cong [OF ops, of "image_mset fst"] by (simp add: multiset.map_comp comp_def)
  moreover have "distinct (map (\<lambda>v. ''request-'' @ to_string v) [0..<n])" by (simp add: distinct_map inj_on_def)
  ultimately have d: "distinct (map fst ops)" by (metis mset_eq_imp_distinct_iff)
  show ?thesis
    using sharded.size_upserts [OF MakeShardedRegistry_ok(1,2) [OF make] d, of hash]
      global_table.size_upserts [of "[]" ops] d len assms(2) by simp
qed

theorem registry_benchmark_passes_witness:
  "Global_size (fold (\<lambda>(k, v). Global_Upsert k v) (writer_ops 5 2 1 @ writer_ops 5 2 0) []) = 5"
proof -
  have "mset (writer_ops 5 2 1 @ writer_ops 5 2 0) = mset (concat (map (writer_ops 5 2) [0..<2]))"
    by (simp add: upt_conv_Cons union_commute)
  then show ?thesis
    using registry_benchmark_passes [of 2 5 "\<lparr>shards = replicate 32 []\<rparr>" "writer_ops 5 2 1 @ writer_ops 5 2 0"]
    by (simp add: MakeShardedRegistry_def)
qed

end
