(* ===== verification/BenchThreads.thy ===== *)
theory BenchThreads
  imports BenchWorkers
begin

text \<open>
  The threads of the \<open>queue\<close> mode of \<open>cpp/bench/scheduler_bench.cpp\<close>: producers that push their ranges, over
  and over until a push is accepted, and the consumer that pops until it has every value. Each of them
  keeps to its part of the work, so that the consumer's checksum is right when it ends.
\<close>

section \<open>The threads of the queue mode\<close>

text \<open>The value a producer that has pushed \<open>k\<close> values pushes next, over and over until it is accepted.\<close>

definition next_value :: "nat \<Rightarrow> nat \<Rightarrow> nat \<Rightarrow> nat \<Rightarrow> nat option" where
  "next_value requests workers t k =
     (if t < workers \<and> k < length (worker_range requests workers t) then Some (worker_range requests workers t ! k) else None)"

abbreviation of_thread :: "nat \<Rightarrow> (nat \<times> 'a) list \<Rightarrow> (nat \<times> 'a) list" where
  "of_thread t \<equiv> filter (\<lambda>x. fst x = t)"

inductive ring_worker_step :: "nat \<Rightarrow> nat \<Rightarrow> nat RingSystem \<Rightarrow> nat RingSystem \<Rightarrow> bool" for requests workers where
  produce: "producers s t = PIdle \<Longrightarrow> next_value requests workers t (length (of_thread t (accepted s))) = Some v \<Longrightarrow>
    ring_worker_step requests workers s (s\<lparr>producers := (producers s)(t := PLoop v (enqueue_position (ring s)))\<rparr>)"
| access: "TryPush_step spurious (ring s) (producers s t) = (r, q, out) \<Longrightarrow>
    ring_worker_step requests workers s (s\<lparr>ring := r, producers := (producers s)(t := q),
      claimed := claimed s @ claim_event t (producers s t) q,
      accepted := accepted s @ accept_event t (producers s t) out\<rparr>)"
| consume: "length (popped s) < requests \<Longrightarrow> TryPop_step (ring s) (consumer s) = (r, c, out) \<Longrightarrow>
    ring_worker_step requests workers s (s\<lparr>ring := r, consumer := c,
      popped := popped s @ (case out of Some (Some v) \<Rightarrow> [v] | _ \<Rightarrow> [])\<rparr>)"

inductive mutex_worker_step :: "nat \<Rightarrow> nat \<Rightarrow> MutexSystem \<Rightarrow> MutexSystem \<Rightarrow> bool" for requests workers where
  mutex_produce: "next_value requests workers t (length (of_thread t (mq_pushed s))) = Some v \<Longrightarrow>
    mutex_worker_step requests workers s
      (s\<lparr>mq_values := MutexQueue_Push v (mq_values s), mq_pushed := mq_pushed s @ [(t, v)]\<rparr>)"
| mutex_consume: "length (mq_popped s) < requests \<Longrightarrow> MutexQueue_Pop (mq_values s) = (out, q) \<Longrightarrow>
    mutex_worker_step requests workers s
      (s\<lparr>mq_values := q, mq_popped := mq_popped s @ (case out of None \<Rightarrow> [] | Some v \<Rightarrow> [v])\<rparr>)"

lemma ring_worker_step_ring: "ring_worker_step n p s u \<Longrightarrow> ring_step s u"
  by (cases rule: ring_worker_step.cases) (auto intro: ring_step.intros)

lemma mutex_worker_step_mutex: "mutex_worker_step n p s u \<Longrightarrow> mutex_step s u"
  by (cases rule: mutex_worker_step.cases) (auto intro: mutex_step.intros)

section \<open>The producers keep to their ranges\<close>

definition pushed_part :: "nat \<Rightarrow> nat \<Rightarrow> nat \<Rightarrow> (nat \<times> nat) list \<Rightarrow> bool" where
  "pushed_part n p t xs \<longleftrightarrow> (let range = if t < p then worker_range n p t else [] in
     length xs \<le> length range \<and> map snd xs = take (length xs) range)"

lemma pushed_part_next:
  assumes "pushed_part n p t xs" and "next_value n p t (length xs) = Some v"
  shows "pushed_part n p t (xs @ [(t, v)])"
  using assms by (auto simp: pushed_part_def next_value_def Let_def take_Suc_conv_app_nth split: if_splits)

lemma pushed_part_works_on: "(\<And>t. pushed_part n p t (of_thread t xs)) \<Longrightarrow> works_on n p xs"
  unfolding works_on_def pushed_part_def Let_def by (metis take_is_prefix)

definition worker_ok :: "nat \<Rightarrow> nat \<Rightarrow> nat RingSystem \<Rightarrow> bool" where
  "worker_ok n p s \<longleftrightarrow> (\<forall>t. pushed_part n p t (of_thread t (accepted s)) \<and>
     (let next = (\<lambda>v. next_value n p t (length (of_thread t (accepted s))) = Some v);
          same = (of_thread t (claimed s) = of_thread t (accepted s));
          ahead = (\<lambda>v. of_thread t (claimed s) = of_thread t (accepted s) @ [(t, v)])
      in case producers s t of PIdle \<Rightarrow> same | PLoop v _ \<Rightarrow> same \<and> next v | PRead v _ _ \<Rightarrow> same \<and> next v
         | PClaimed v _ \<Rightarrow> ahead v \<and> next v | PWritten v _ \<Rightarrow> ahead v \<and> next v))"

lemma worker_ok_step:
  assumes "ring_worker_step n p s u" and "worker_ok n p s"
  shows "worker_ok n p u"
  using assms(1)
proof cases
  case (produce t v)
  then have "of_thread t (claimed s) = of_thread t (accepted s)"
    using assms(2) [unfolded worker_ok_def, rule_format, of t] by simp
  with produce show ?thesis using assms(2) by (simp add: worker_ok_def Let_def)
next
  case (access spurious t r q out)
  have other: "of_thread t' (claim_event t (producers s t) q) = []" "of_thread t' (accept_event t (producers s t) out) = []"
    if "t' \<noteq> t" for t' using that by (auto simp: claim_event_def accept_event_def split: producer.splits)
  note ok = assms(2) [unfolded worker_ok_def, rule_format]
  show ?thesis unfolding worker_ok_def
  proof (intro allI, goal_cases)
    case (1 t')
    show ?case
    proof (cases "t' = t")
      case False
      with access(1) other [OF False] ok [of t'] show ?thesis by simp
    next
      case True
      show ?thesis using ok [of t] access pushed_part_next [of n p t "of_thread t (accepted s)"] unfolding True
        by (cases "producers s t") (auto simp: Let_def claim_event_def accept_event_def split: if_splits)
    qed
  qed
next
  case (consume r c out)
  then show ?thesis using assms(2) by (simp add: worker_ok_def)
qed

lemma worker_ok_works_on:
  assumes "worker_ok n p s"
  shows "works_on n p (claimed s)"
proof (rule pushed_part_works_on)
  fix t
  from assms have "pushed_part n p t (of_thread t (accepted s))" unfolding worker_ok_def by blast
  with assms [unfolded worker_ok_def, rule_format, of t] pushed_part_next [of n p t "of_thread t (accepted s)"]
  show "pushed_part n p t (of_thread t (claimed s))" by (cases "producers s t") (auto simp: Let_def)
qed

text \<open>The start of a run on a ring of 65536 cells, and on the mutex queue.\<close>

definition ring_start :: "nat RingSystem \<Rightarrow> bool" where
  "ring_start s \<longleftrightarrow> MakeMpscRing 65536 = Inr (ring s) \<and> producers s = (\<lambda>t. PIdle) \<and> consumer s = CIdle \<and>
     claimed s = [] \<and> accepted s = [] \<and> popped s = []"

interpretation ring_workers: invariant_system ring_start "ring_worker_step n p" "worker_ok n p" for n p
proof
  show "worker_ok n p s" if "ring_start s" for s using that by (simp add: ring_start_def worker_ok_def pushed_part_def)
qed (rule worker_ok_step)

definition mutex_worker_ok :: "nat \<Rightarrow> nat \<Rightarrow> MutexSystem \<Rightarrow> bool" where
  "mutex_worker_ok n p s \<longleftrightarrow> (\<forall>t. pushed_part n p t (of_thread t (mq_pushed s)))"

interpretation mutex_workers: invariant_system mutex_initial "mutex_worker_step n p" "mutex_worker_ok n p" for n p
proof
  show "mutex_worker_ok n p s" if "mutex_initial s" for s using that by (simp add: mutex_initial_def mutex_worker_ok_def pushed_part_def)
  show "mutex_worker_ok n p t" if "mutex_worker_ok n p s" and "mutex_worker_step n p s t" for s t
    using that(2,1) by cases (auto simp: mutex_worker_ok_def intro: pushed_part_next)
qed

lemma ring_workers_steps: "(ring_worker_step n p)\<^sup>*\<^sup>* s u \<Longrightarrow> ring_step\<^sup>*\<^sup>* s u"
  by (rule rtranclp_mono [THEN predicate2D]) (auto intro: ring_worker_step_ring)

lemma mutex_workers_steps: "(mutex_worker_step n p)\<^sup>*\<^sup>* s u \<Longrightarrow> mutex_step\<^sup>*\<^sup>* s u"
  by (rule rtranclp_mono [THEN predicate2D]) (auto intro: mutex_worker_step_mutex)

text \<open>At most as many positions are claimed as there are requests, so the ring's counters stay in range.\<close>

lemma works_on_length:
  assumes "works_on n p xs" and "0 < p" and "n + p < u64"
  shows "length xs \<le> n"
  using size_mset_mono [OF works_on_log [OF assms]] by simp

lemma ring_run_checksum:
  assumes "ring_start s0" and steps: "(ring_worker_step n p)\<^sup>*\<^sup>* s0 s" and "length (popped s) = n"
    and p: "0 < p" "n + p < u64" and n: "0 < n" "n \<le> u32"
  shows "queue_checksum (popped s) = queue_expected n"
proof -
  have w: "works_on n p (claimed s)"
    using ring_workers.inv_reachable [OF assms(1,2)] by (rule worker_ok_works_on)
  have init: "ring_initial s0" using assms(1) by (auto simp: ring_start_def ring_initial_def)
  have cap: "capacity (ring s0) = 65536" 
    using assms(1) by (cases "ring s0") (auto simp: ring_start_def MakeMpscRing_def split: if_splits)
  have "capacity (ring s) = capacity (ring s0)" using ring_workers_steps [OF steps]
    by (induction rule: rtranclp_induct) (auto dest: ring_step_grows)
  then have "in_range s" using works_on_length [OF w p] n cap by (simp add: in_range_def)
  with init ring_workers_steps [OF steps] show ?thesis
    using ring_fifo.checksum_ok [OF _ w p assms(3) n] by blast
qed

lemma mutex_run_checksum:
  assumes "mutex_initial s0" and "(mutex_worker_step n p)\<^sup>*\<^sup>* s0 s" and "length (mq_popped s) = n"
    and "0 < p" "n + p < u64" and "0 < n" "n \<le> u32"
  shows "queue_checksum (mq_popped s) = queue_expected n"
proof -
  have "mutex_worker_ok n p s" using assms(1,2) by (rule mutex_workers.inv_reachable)
  then have w: "works_on n p (mq_pushed s)" by (intro pushed_part_works_on) (simp add: mutex_worker_ok_def)
  with assms(1) mutex_workers_steps [OF assms(2)] show ?thesis
    using mutex_fifo.checksum_ok [OF _ w assms(4,5,3,6,7)] by blast
qed

end
