(* ===== verification/QueueProgress.thy ===== *)
theory QueueProgress
  imports BenchThreads
begin

text \<open>
  The queue benchmark of \<open>cpp/bench/scheduler_bench.cpp\<close> never gets stuck: whatever its threads have done, they can
  go on until the consumer has received every value. For the lock-free ring of \<open>mpsc_ring.hpp\<close> this rests on a
  fact that no other property of the ring needs: a position that is claimed and not yet published has an
  owner that can publish it.
\<close>

section \<open>Unpublished positions have owners\<close>

definition owned :: "'a RingSystem \<Rightarrow> bool" where
  "owned s \<longleftrightarrow> (\<forall>q. deq s \<le> q \<and> q < enq s \<and> sequence (cell_at s q) = q \<longrightarrow> (\<exists>t v. owns (producers s t) = Some (q, v)))"

lemma ownedD: "owned s \<Longrightarrow> deq s \<le> q \<Longrightarrow> q < enq s \<Longrightarrow> sequence (cell_at s q) = q \<Longrightarrow> \<exists>t v. owns (producers s t) = Some (q, v)"
  by (simp add: owned_def)

lemma ring_inv_facts:
  assumes "ring_inv s"
  shows "ring_shape s" and "enqueue_position (ring s) = enq s" and "dequeue_position (ring s) = deq s"
    and "deq s \<le> enq s" and "enq s \<le> deq s + cap s" and "2 \<le> cap s" and "length (cells (ring s)) = cap s"
    and "slot (ring s) q = q mod cap s" and "cells (ring s) ! (q mod cap s) = cell_at s q"
    and "producer_ok s (producers s t)" and "consumer_ok s (consumer s)"
    and "deq s \<le> q \<Longrightarrow> q < deq s + cap s \<Longrightarrow> cell_ok s q"
  using assms slot_mod [of s q] by (auto simp: ring_inv_def ring_shape_def cell_at_def)

text \<open>A step that keeps the sequence numbers and the owners of the window keeps the fact.\<close>

lemma owned_keep:
  assumes "owned s" and "deq u = deq s" and "enq u = enq s"
    and "\<And>q. sequence (cell_at u q) = sequence (cell_at s q)" and "\<And>t. owns (producers u t) = owns (producers s t)"
  shows "owned u"
  using assms by (simp add: owned_def)

lemma push_access_owned:
  assumes inv: "ring_inv s" and range: "in_range s" and own: "owned s"
    and st: "TryPush_step spurious (ring s) (producers s t) = (r, q, out)"
    and u: "u = s\<lparr>ring := r, producers := (producers s)(t := q), claimed := claimed s @ claim_event t (producers s t) q,
      accepted := accepted s @ accept_event t (producers s t) out\<rparr>"
  shows "owned u"
proof (cases "producers s t")
  case PIdle
  then show ?thesis using st own by (intro owned_keep [OF own]) (auto simp: u claim_event_def cell_at_def)
next
  case (PLoop v p)
  then show ?thesis using st by (intro owned_keep [OF own]) (auto simp: u claim_event_def cell_at_def)
next
  case (PRead v p sq)
  show ?thesis
  proof (cases "\<exists>w p'. q = PClaimed w p'")
    case True
    then have r: "q = PClaimed v p" "p = enq s" "cells r = cells (ring s)" "capacity r = cap s"
      using st PRead ring_inv_facts(2) [OF inv] by (auto split: if_splits)
    have at: "cell_at u x = cell_at s x" for x by (simp add: u cell_at_def r)
    show ?thesis unfolding owned_def
    proof (intro allI impI)
      fix x assume x: "deq u \<le> x \<and> x < enq u \<and> sequence (cell_at u x) = x"
      show "\<exists>t v. owns (producers u t) = Some (x, v)"
      proof (cases "x = enq s")
        case True
        then have "owns (producers u t) = Some (x, v)" using r by (simp add: u)
        then show ?thesis by blast
      next
        case False
        have "enq u = Suc (enq s)" "deq u = deq s" using r PRead by (simp_all add: u claim_event_def)
        with x False have "deq s \<le> x" "x < enq s" "sequence (cell_at s x) = x" by (simp_all add: at)
        from ownedD [OF own this] obtain t' w where t': "owns (producers s t') = Some (x, w)" by blast
        then have "t' \<noteq> t" using PRead by auto
        then have "owns (producers u t') = Some (x, w)" using t' by (simp add: u)
        then show ?thesis by blast
      qed
    qed
  next
    case False
    then have "owns q = None" "cells r = cells (ring s)" "capacity r = cap s" "claim_event t (producers s t) q = []"
      using st PRead by (auto simp: claim_event_def split: if_splits)
    then show ?thesis using PRead by (intro owned_keep [OF own]) (auto simp: u cell_at_def)
  qed
next
  case (PClaimed v p)
  note f = ring_inv_facts [OF inv]
  have "sequence (cell_at u x) = sequence (cell_at s x)" for x
    using st PClaimed f(6,7) by (auto simp: u cell_at_def nth_list_update f(8))
  then show ?thesis using st PClaimed by (intro owned_keep [OF own]) (auto simp: u claim_event_def)
next
  case (PWritten v p)
  note f = ring_inv_facts [OF inv]
  have p: "deq s \<le> p" "p < enq s" using f(10) [of t] PWritten by simp_all
  have r: "q = PIdle" "cells r = (cells (ring s))[p mod cap s := (cell_at s p)\<lparr>sequence := Suc p\<rparr>]" "capacity r = cap s"
    using st PWritten f(8,9) p range by (auto simp: in_range_def add64_def)
  have at: "cell_at u x = (if x mod cap s = p mod cap s then (cell_at s p)\<lparr>sequence := Suc p\<rparr> else cell_at s x)" for x
    using f(6,7) by (simp add: u cell_at_def r nth_list_update)
  show ?thesis unfolding owned_def
  proof (intro allI impI)
    fix x assume x: "deq u \<le> x \<and> x < enq u \<and> sequence (cell_at u x) = x"
    then have w: "deq s \<le> x" "x < enq s" using PWritten by (simp_all add: u claim_event_def)
    have "x \<noteq> p" using x at [of p] by auto
    then have "sequence (cell_at s x) = x" using x at [of x] slot_diff [OF f(1), of x p] w p f(5) by simp
    from ownedD [OF own w this] obtain t' w where t': "owns (producers s t') = Some (x, w)" by blast
    then have "t' \<noteq> t" using PWritten \<open>x \<noteq> p\<close> by auto
    then have "owns (producers u t') = Some (x, w)" using t' by (simp add: u)
    then show "\<exists>t v. owns (producers u t) = Some (x, v)" by blast
  qed
qed

lemma pop_access_owned:
  assumes inv: "ring_inv s" and range: "in_range s" and own: "owned s"
    and st: "TryPop_step (ring s) (consumer s) = (r, c, out)"
    and u: "u = s\<lparr>ring := r, consumer := c, popped := popped s @ (case out of Some (Some v) \<Rightarrow> [v] | _ \<Rightarrow> [])\<rparr>"
  shows "owned u"
proof -
  note f = ring_inv_facts [OF inv]
  show ?thesis
  proof (cases "consumer s")
    case (CTaken v)
    have r: "cells r = (cells (ring s))[deq s mod cap s := (cell_at s (deq s))\<lparr>sequence := deq s + cap s\<rparr>]"
      "capacity r = cap s" "out = Some (Some v)"
      using st CTaken range f(3,4,5,8,9) by (auto simp: Let_def in_range_def add64_def)
    have at: "cell_at u x = cell_at s x" if "deq s < x" "x < enq s" for x
      using slot_diff [OF f(1), of x "deq s"] that f(4,5,6) by (simp add: u cell_at_def r nth_list_update)
    have "deq u = Suc (deq s)" "enq u = enq s" "producers u = producers s" by (simp_all add: u r)
    with at own show ?thesis by (auto simp: owned_def)
  next
    case (CRead sq)
    then have r: "capacity r = cap s" "(case out of Some (Some v) \<Rightarrow> [v] | _ \<Rightarrow> []) = []"
      "sequence (cells r ! (x mod cap s)) = sequence (cells (ring s) ! (x mod cap s))" for x
      using st f(6,7) by (auto simp: Let_def nth_list_update f(8) split: if_splits option.splits)
    then show ?thesis by (intro owned_keep [OF own]) (simp_all add: u cell_at_def)
  qed (use st in \<open>auto intro!: owned_keep [OF own] simp: u cell_at_def\<close>)
qed

lemma ring_step_owned:
  assumes "ring_step s u" and "ring_inv s" and "in_range s" and "owned s"
  shows "owned u"
  using assms(1)
proof cases
  case (push_call t v)
  then show ?thesis by (intro owned_keep [OF assms(4)]) (auto simp: cell_at_def)
next
  case (push_access spurious t r q out)
  with push_access_owned [OF assms(2-4)] show ?thesis by blast
next
  case (pop_access r c out)
  with pop_access_owned [OF assms(2-4)] show ?thesis by blast
qed

section \<open>The benchmark's states\<close>

text \<open>What holds in every state that the threads reach; the counts of the command line are those the program accepts.\<close>

definition counts_ok :: "nat \<Rightarrow> nat \<Rightarrow> bool" where
  "counts_ok n p \<longleftrightarrow> 0 < p \<and> n + p < u64 \<and> n \<le> u32"

definition ring_ready :: "nat \<Rightarrow> nat \<Rightarrow> nat RingSystem \<Rightarrow> bool" where
  "ring_ready n p s \<longleftrightarrow> worker_ok n p s \<and> ring_inv s \<and> owned s \<and> cap s = 65536"

lemma ring_ready_facts:
  assumes "ring_ready n p s" and "counts_ok n p"
  shows "enq s \<le> n" and "deq s \<le> n" and "in_range s"
proof -
  have "works_on n p (claimed s)" using assms(1) worker_ok_works_on by (simp add: ring_ready_def)
  then show e: "enq s \<le> n" using works_on_length assms(2) by (simp add: counts_ok_def)
  have "deq s \<le> enq s" using assms(1) ring_inv_facts(4) [of s] by (simp add: ring_ready_def)
  then show "deq s \<le> n" using e by simp
  show "in_range s" using e assms by (simp add: in_range_def ring_ready_def counts_ok_def)
qed

lemma ring_ready_step:
  assumes "ring_worker_step n p s u" and "ring_ready n p s" and "counts_ok n p"
  shows "ring_ready n p u"
proof -
  note st = ring_worker_step_ring [OF assms(1)] and r = ring_ready_facts(3) [OF assms(2,3)]
  show ?thesis using assms(2) worker_ok_step [OF assms(1)] ring_step_inv [OF _ r st] ring_step_owned [OF st _ r] ring_step_grows [OF st]
    by (simp add: ring_ready_def)
qed

lemma ring_ready_steps: "(ring_worker_step n p)\<^sup>*\<^sup>* s u \<Longrightarrow> counts_ok n p \<Longrightarrow> ring_ready n p s \<Longrightarrow> ring_ready n p u"
  by (induction rule: rtranclp_induct) (auto intro: ring_ready_step)

lemma ring_start_ready: "ring_start s \<Longrightarrow> ring_ready n p s"
proof -
  assume st: "ring_start s"
  then have "ring_inv s" by (intro ring_initial_inv) (auto simp: ring_start_def ring_initial_def)
  moreover have "cap s = 65536" using st by (cases "ring s") (auto simp: ring_start_def MakeMpscRing_def split: if_splits)
  moreover have "worker_ok n p s" using st by (rule ring_workers.inv_init)
  ultimately show ?thesis using st by (simp add: ring_ready_def owned_def ring_start_def)
qed

text \<open>Single steps as functions.\<close>

lemma worker_push: "ring_worker_step n p s (do_push t s)"
  unfolding do_push_def by (auto intro: ring_worker_step.access split: prod.split)

lemma worker_call:
  "producers s t = PIdle \<Longrightarrow> next_value n p t (length (of_thread t (accepted s))) = Some v \<Longrightarrow> ring_worker_step n p s (do_call t v s)"
  unfolding do_call_def by (rule ring_worker_step.produce)

lemma worker_pop: "deq s < n \<Longrightarrow> ring_worker_step n p s (do_pop s)"
  unfolding do_pop_def by (auto intro: ring_worker_step.consume split: prod.split)

section \<open>Some thread can always go on\<close>

text \<open>The consumer gets a published value, whatever it was doing.\<close>

lemma consumer_takes:
  assumes inv: "ring_inv s" "in_range s" and pub: "sequence (cell_at s (deq s)) = Suc (deq s)"
  shows "consumer s = CTaken v \<Longrightarrow> deq (do_pop s) = Suc (deq s)"
    and "consumer s = CRead (Suc (deq s)) \<Longrightarrow> deq (do_pop s) = deq s \<and> (\<exists>v. consumer (do_pop s) = CTaken v)"
    and "consumer s = CIdle \<Longrightarrow> deq (do_pop s) = deq s \<and> consumer (do_pop s) = CRead (Suc (deq s)) \<and> cell_at (do_pop s) = cell_at s"
    and "consumer s = CRead sq \<Longrightarrow> sq \<noteq> Suc (deq s) \<Longrightarrow>
      deq (do_pop s) = deq s \<and> consumer (do_pop s) = CIdle \<and> cell_at (do_pop s) = cell_at s"
proof -
  note f = ring_inv_facts [OF inv(1)]
  have add: "add64 (deq s) (Suc 0) = Suc (deq s)" using inv(2) f(4,5) by (simp add: in_range_def add64_def)
  show "consumer s = CTaken v \<Longrightarrow> deq (do_pop s) = Suc (deq s)" by (simp add: do_pop_def Let_def)
  show "deq (do_pop s) = deq s \<and> (\<exists>v. consumer (do_pop s) = CTaken v)" if "consumer s = CRead (Suc (deq s))"
  proof -
    have "cell_ok s (deq s)" using f(6) by (intro f(12)) simp_all
    then have "\<exists>v. cell_value (cell_at s (deq s)) = Some v" using that pub by (auto simp: cell_ok_def Let_def split: if_splits)
    then obtain v where "cell_value (cell_at s (deq s)) = Some v" by blast
    then show ?thesis using that add by (simp add: do_pop_def Let_def f(3,8,9) difference_def)
  qed
  show "deq (do_pop s) = deq s \<and> consumer (do_pop s) = CRead (Suc (deq s)) \<and> cell_at (do_pop s) = cell_at s" if "consumer s = CIdle"
  proof -
    have "ring (do_pop s) = ring s" using that by (simp add: do_pop_def)
    then have "cell_at (do_pop s) = cell_at s" by (intro ext) (simp add: cell_at_def)
    then show ?thesis using that pub by (simp add: do_pop_def f(3,8,9))
  qed
  show "deq (do_pop s) = deq s \<and> consumer (do_pop s) = CIdle \<and> cell_at (do_pop s) = cell_at s"
    if "consumer s = CRead sq" "sq \<noteq> Suc (deq s)"
  proof -
    have "sq \<le> Suc (deq s)" using that(1) f(11) pub by simp
    moreover from this have "sq < 2 ^ 63" "Suc (deq s) < 2 ^ 63" using inv(2) f(4,6) by (simp_all add: in_range_def)
    ultimately have "difference sq (Suc (deq s)) < 0" using that(2) by (simp add: difference_exact)
    then have r: "ring (do_pop s) = ring s" "deq (do_pop s) = deq s" "consumer (do_pop s) = CIdle"
      using that(1) add by (simp_all add: do_pop_def f(3))
    then have "cell_at (do_pop s) = cell_at s" by (intro ext) (simp add: cell_at_def)
    with r show ?thesis by blast
  qed
qed

lemma published_is_popped:
  assumes "ring_ready n p s" and ok: "counts_ok n p" and "deq s < n" and pub: "sequence (cell_at s (deq s)) = Suc (deq s)"
  shows "\<exists>u. (ring_worker_step n p)\<^sup>*\<^sup>* s u \<and> deq u = Suc (deq s)"
proof -
  have inv: "ring_inv x \<and> in_range x" if "ring_ready n p x" for x
    using that ring_ready_facts(3) [OF that ok] by (simp add: ring_ready_def)
  note step = worker_pop [of _ n p] and next_ready = ring_ready_step [OF worker_pop _ ok]
  have taken: "\<exists>u. (ring_worker_step n p)\<^sup>*\<^sup>* x u \<and> deq u = Suc (deq x)"
    if "ring_ready n p x" "deq x < n" "consumer x = CTaken v" for x v
    using that(2,3) step [of x] by (intro exI [of _ "do_pop x"]) (simp add: do_pop_def Let_def r_into_rtranclp)
  have read: "\<exists>u. (ring_worker_step n p)\<^sup>*\<^sup>* x u \<and> deq u = Suc (deq x)"
    if "ring_ready n p x" "deq x < n" "consumer x = CRead (Suc (deq x))" "sequence (cell_at x (deq x)) = Suc (deq x)" for x
  proof -
    from consumer_takes(2) [of x] inv [OF that(1)] that obtain v where "deq (do_pop x) = deq x" "consumer (do_pop x) = CTaken v" by blast
    with taken [of "do_pop x" v] next_ready [of x] that step [of x] show ?thesis
      by (metis converse_rtranclp_into_rtranclp)
  qed
  have idle: "\<exists>u. (ring_worker_step n p)\<^sup>*\<^sup>* x u \<and> deq u = Suc (deq x)"
    if "ring_ready n p x" "deq x < n" "consumer x = CIdle" "sequence (cell_at x (deq x)) = Suc (deq x)" for x
    using consumer_takes(3) [of x] inv [OF that(1)] read [of "do_pop x"] next_ready [of x] that step [of x]
    by (metis converse_rtranclp_into_rtranclp)
  show ?thesis
  proof (cases "consumer s")
    case CIdle
    then show ?thesis using idle assms by blast
  next
    case (CRead sq)
    show ?thesis
    proof (cases "sq = Suc (deq s)")
      case True
      then show ?thesis using read assms CRead by blast
    next
      case False
      with consumer_takes(4) [of s sq] inv [OF assms(1)] pub CRead have "deq (do_pop s) = deq s" "consumer (do_pop s) = CIdle"
        "cell_at (do_pop s) = cell_at s" by blast+
      with idle [of "do_pop s"] next_ready [OF assms(3,1)] assms(3) pub step [OF assms(3)] show ?thesis
        by (metis converse_rtranclp_into_rtranclp)
    qed
  next
    case (CTaken v)
    then show ?thesis using taken assms by blast
  next
    case CFault
    then show ?thesis using ring_inv_facts(11) [of s] inv [OF assms(1)] by simp
  qed
qed

text \<open>The owner of a position publishes it.\<close>

lemma owner_publishes:
  assumes "ring_ready n p s" and ok: "counts_ok n p" and "owns (producers s t) = Some (q, v)"
  shows "\<exists>u. (ring_worker_step n p)\<^sup>*\<^sup>* s u \<and> sequence (cell_at u q) = Suc q \<and> deq u = deq s"
proof -
  have publish: "sequence (cell_at (do_push t x) q) = Suc q \<and> deq (do_push t x) = deq x"
    if "ring_ready n p x" "producers x t = PWritten v q" for x
  proof -
    have "ring_inv x" "in_range x" using that(1) ring_ready_facts(3) [OF that(1) ok] by (simp_all add: ring_ready_def)
    note f = ring_inv_facts [OF this(1)]
    have "q < enq x" using f(10) [of t] that(2) by simp
    then show ?thesis using that(2) f(6,7) \<open>in_range x\<close>
      by (simp add: do_push_def cell_at_def f(8) nth_list_update in_range_def add64_def)
  qed
  show ?thesis
  proof (cases "producers s t")
    case (PWritten w q')
    then have "producers s t = PWritten v q" using assms(3) by simp
    with publish [of s] assms(1) worker_push [of n p s t] show ?thesis by blast
  next
    case (PClaimed w q')
    then have "producers (do_push t s) t = PWritten v q" "deq (do_push t s) = deq s" using assms(3) by (simp_all add: do_push_def)
    with publish [of "do_push t s"] ring_ready_step [OF worker_push assms(1) ok, of t] worker_push [of n p s t]
      worker_push [of n p "do_push t s" t] show ?thesis
      by (metis converse_rtranclp_into_rtranclp r_into_rtranclp)
  qed (use assms(3) in auto)
qed

text \<open>While not all values are pushed, some thread has one to push.\<close>

lemma some_next_value:
  assumes parts: "\<And>t. pushed_part n p t (of_thread t xs)" and "length xs < n" and "counts_ok n p"
  shows "\<exists>t v. next_value n p t (length (of_thread t xs)) = Some v"
proof (rule ccontr)
  assume none: "\<nexists>t v. next_value n p t (length (of_thread t xs)) = Some v"
  have p: "0 < p" "n + p < u64" using assms(3) by (simp_all add: counts_ok_def)
  have all: "map snd (of_thread t xs) = (if t < p then worker_range n p t else [])" for t
    using parts [of t] none [unfolded next_value_def] by (auto simp: pushed_part_def Let_def split: if_splits)
  then have "fst x < p" if "x \<in> set xs" for x
    using that by (metis (mono_tags, lifting) filter_empty_conv list.map_disc_iff)
  then have "filter (\<lambda>x. fst x < p) xs = xs" by (simp add: filter_id_conv)
  then have "mset (map snd xs) = (\<Sum>t = 0..<p. mset (worker_range n p t))"
    using mset_by_thread [of snd p xs] all by simp
  also have "\<dots> = mset [0..<n]" using ranges_cover [OF p] mset_concat_sum [of "worker_range n p" p] by simp
  finally have "length xs = n" by (metis length_map length_upt minus_nat.diff_0 size_mset)
  with assms(2) show False by simp
qed

text \<open>When every claimed value has been popped and some are missing, a producer claims the next position.\<close>

definition drained :: "nat RingSystem \<Rightarrow> bool" where
  "drained s \<longleftrightarrow> deq s = enq s"

lemma drained_loads:
  assumes "ring_ready n p s" and ok: "counts_ok n p" and "drained s"
  shows "producers s t = PLoop v (enq s) \<Longrightarrow> producers (do_push t s) t = PRead v (enq s) (enq s) \<and>
      claimed (do_push t s) = claimed s \<and> popped (do_push t s) = popped s"
    and "producers s t = PRead v (enq s) (enq s) \<Longrightarrow> enq (do_push t s) = Suc (enq s) \<and> popped (do_push t s) = popped s"
proof -
  have inv: "ring_inv s" using assms(1) by (simp add: ring_ready_def)
  note f = ring_inv_facts [OF inv]
  have "cell_ok s (enq s)" using assms(3) f(6) by (intro f(12)) (simp_all add: drained_def)
  then have free: "sequence (cell_at s (enq s)) = enq s" by (simp add: cell_ok_def Let_def)
  show "producers (do_push t s) t = PRead v (enq s) (enq s) \<and> claimed (do_push t s) = claimed s \<and> popped (do_push t s) = popped s"
    if "producers s t = PLoop v (enq s)"
    using that free by (simp add: do_push_def f(8,9) claim_event_def)
  show "enq (do_push t s) = Suc (enq s) \<and> popped (do_push t s) = popped s" if "producers s t = PRead v (enq s) (enq s)"
    using that by (simp add: do_push_def f(2) claim_event_def difference_def)
qed

abbreviation claims_next :: "nat \<Rightarrow> nat \<Rightarrow> nat RingSystem \<Rightarrow> bool" where
  "claims_next n p s \<equiv> \<exists>u. (ring_worker_step n p)\<^sup>*\<^sup>* s u \<and> enq u = Suc (enq s) \<and> popped u = popped s"

lemma claims_after:
  "ring_worker_step n p s u \<Longrightarrow> claimed u = claimed s \<Longrightarrow> popped u = popped s \<Longrightarrow> claims_next n p u \<Longrightarrow> claims_next n p s"
  by (metis converse_rtranclp_into_rtranclp)

lemma fresh_claims:
  assumes "ring_ready n p s" and "counts_ok n p" and "drained s" and "producers s t = PLoop v (enq s)"
  shows "claims_next n p s"
proof -
  let ?u = "do_push t s"
  note l = drained_loads(1) [OF assms]
  have "ring_ready n p ?u" by (rule ring_ready_step [OF worker_push assms(1,2)])
  moreover have "drained ?u" "producers ?u t = PRead v (enq ?u) (enq ?u)" using l assms(3) by (simp_all add: drained_def)
  ultimately have "enq (do_push t ?u) = Suc (enq ?u) \<and> popped (do_push t ?u) = popped ?u" using drained_loads(2) assms(2) by blast
  then have "claims_next n p ?u" using worker_push [of n p ?u t] by blast
  with claims_after [OF worker_push] l show ?thesis by blast
qed

lemma idle_claims:
  assumes "ring_ready n p s" and "counts_ok n p" and "drained s" and "producers s t = PIdle"
    and nv: "next_value n p t (length (of_thread t (accepted s))) = Some v"
  shows "claims_next n p s"
proof -
  let ?u = "do_call t v s"
  note st = worker_call [OF assms(4) nv]
  have u: "claimed ?u = claimed s" "popped ?u = popped s" "producers ?u t = PLoop v (enq ?u)"
    using ring_inv_facts(2) [of s] assms(1) by (simp_all add: do_call_def ring_ready_def)
  have "drained ?u" using assms(3) u by (simp add: drained_def)
  with fresh_claims [OF ring_ready_step [OF st assms(1,2)] assms(2)] u claims_after [OF st] show ?thesis by blast
qed

lemma read_claims:
  assumes "ring_ready n p s" and "counts_ok n p" and "drained s" and pc: "producers s t = PRead w q sq"
    and nv: "next_value n p t (length (of_thread t (accepted s))) = Some v"
  shows "claims_next n p s"
proof -
  let ?u = "do_push t s"
  note ready = ring_ready_step [OF worker_push assms(1,2), of t]
  have pos: "enqueue_position (ring s) = enq s" using ring_inv_facts(2) [of s] assms(1) by (simp add: ring_ready_def)
  consider "enq ?u = Suc (enq s)" "popped ?u = popped s"
    | "claimed ?u = claimed s" "popped ?u = popped s" "accepted ?u = accepted s" "producers ?u t = PLoop w (enq s)"
    | "claimed ?u = claimed s" "popped ?u = popped s" "accepted ?u = accepted s" "producers ?u t = PIdle"
    using pc pos by (cases "difference sq q = 0"; cases "difference sq q < 0"; cases "enq s = q")
      (simp_all add: do_push_def claim_event_def accept_event_def)
  then show ?thesis
  proof cases
    case 1
    then show ?thesis using worker_push [of n p s t] by blast
  next
    case 2
    then have "drained ?u" "producers ?u t = PLoop w (enq ?u)" using assms(3) by (simp_all add: drained_def)
    from fresh_claims [OF ready assms(2) this] show ?thesis using claims_after [OF worker_push] 2 by blast
  next
    case 3
    then have "drained ?u" using assms(3) by (simp add: drained_def)
    from idle_claims [OF ready assms(2) this 3(4)] nv 3(3) show ?thesis using claims_after [OF worker_push] 3(1,2) by simp
  qed
qed

lemma producers_claim:
  assumes "ring_ready n p s" and ok: "counts_ok n p" and "drained s" and "enq s < n"
  shows "claims_next n p s"
proof -
  have inv: "ring_inv s" and w: "worker_ok n p s" using assms(1) by (simp_all add: ring_ready_def)
  have none: "owns (producers s t) = None" for t
    using ring_inv_facts(10) [OF inv, of t] assms(3) by (cases "producers s t") (auto simp: drained_def)
  have same: "of_thread t (claimed s) = of_thread t (accepted s)" for t
    using ring_inv_history [OF inv, of t] none [of t] by (simp add: pending_def)
  have "pushed_part n p t (of_thread t (claimed s))" for t using w same [of t] by (simp add: worker_ok_def)
  from some_next_value [OF this assms(4) ok] same obtain t v where
    nv: "next_value n p t (length (of_thread t (accepted s))) = Some v" by metis
  show ?thesis
  proof (cases "producers s t")
    case PIdle
    then show ?thesis using idle_claims [OF assms(1-3) _ nv] by blast
  next
    case (PRead x q sq)
    then show ?thesis using read_claims [OF assms(1-3) _ nv] by blast
  next
    case (PLoop x q)
    let ?u = "do_push t s"
    have u: "claimed ?u = claimed s" "popped ?u = popped s" "accepted ?u = accepted s" "\<exists>sq. producers ?u t = PRead x q sq"
      using PLoop by (simp_all add: do_push_def claim_event_def accept_event_def)
    then have "drained ?u" using assms(3) by (simp add: drained_def)
    with read_claims [OF ring_ready_step [OF worker_push assms(1) ok] ok, of t t] nv u have "claims_next n p ?u" by metis
    with claims_after [OF worker_push] u show ?thesis by blast
  qed (use none [of t] in simp_all)
qed

text \<open>Together: as long as a value is missing, some thread's steps bring the next one to the consumer.\<close>

lemma claimed_is_popped:
  assumes "ring_ready n p s" and ok: "counts_ok n p" and "deq s < enq s"
  shows "\<exists>u. (ring_worker_step n p)\<^sup>*\<^sup>* s u \<and> deq s < deq u"
proof -
  have inv: "ring_inv s" "owned s" using assms(1) by (simp_all add: ring_ready_def)
  note f = ring_inv_facts [OF inv(1)]
  have n: "deq s < n" using assms(3) ring_ready_facts(1) [OF assms(1) ok] by simp
  have "cell_ok s (deq s)" using f(6) by (intro f(12)) simp_all
  then consider "sequence (cell_at s (deq s)) = Suc (deq s)" | "sequence (cell_at s (deq s)) = deq s"
    using assms(3) by (auto simp: cell_ok_def Let_def)
  then show ?thesis
  proof cases
    case 1
    from published_is_popped [OF assms(1) ok n this] show ?thesis by (metis lessI)
  next
    case 2
    from ownedD [OF inv(2) order_refl assms(3) this] obtain t v where "owns (producers s t) = Some (deq s, v)" by blast
    from owner_publishes [OF assms(1) ok this] obtain u where
      u: "(ring_worker_step n p)\<^sup>*\<^sup>* s u" "sequence (cell_at u (deq s)) = Suc (deq s)" "deq u = deq s" by blast
    from published_is_popped [OF ring_ready_steps [OF u(1) ok assms(1)] ok] u n show ?thesis
      by (metis lessI rtranclp_trans)
  qed
qed

lemma ring_progress:
  assumes "ring_ready n p s" and ok: "counts_ok n p" and "deq s < n"
  shows "\<exists>u. (ring_worker_step n p)\<^sup>*\<^sup>* s u \<and> deq s < deq u"
proof (cases "deq s < enq s")
  case True
  then show ?thesis using claimed_is_popped [OF assms(1) ok] by blast
next
  case False
  then have d: "drained s" using ring_inv_facts(4) [of s] assms(1) by (simp add: drained_def ring_ready_def)
  with producers_claim [OF assms(1) ok d] assms(3) obtain u where
    u: "(ring_worker_step n p)\<^sup>*\<^sup>* s u" "enq u = Suc (enq s)" "popped u = popped s" by (auto simp: drained_def)
  have "deq u < enq u" using u d by (simp add: drained_def)
  from claimed_is_popped [OF ring_ready_steps [OF u(1) ok assms(1)] ok this] u(1,3) show ?thesis
    by (metis rtranclp_trans)
qed

lemma ring_completes:
  assumes "ring_ready n p s" and "counts_ok n p"
  shows "\<exists>u. (ring_worker_step n p)\<^sup>*\<^sup>* s u \<and> deq u = n"
  using assms(1)
proof (induction "n - deq s" arbitrary: s rule: less_induct)
  case less
  show ?case
  proof (cases "deq s = n")
    case False
    then have "deq s < n" using ring_ready_facts(2) [OF less.prems assms(2)] by simp
    from ring_progress [OF less.prems assms(2) this] obtain u where u: "(ring_worker_step n p)\<^sup>*\<^sup>* s u" "deq s < deq u" by blast
    have "n - deq u < n - deq s" using u(2) \<open>deq s < n\<close> by simp
    from less.hyps [OF this ring_ready_steps [OF u(1) assms(2) less.prems]] u(1) show ?thesis by (metis rtranclp_trans)
  qed blast
qed

section \<open>The mutex queue\<close>

lemma mutex_progress:
  assumes ok: "counts_ok n p" and inv: "mutex_inv s" "mutex_worker_ok n p s" and "length (mq_popped s) < n"
  shows "\<exists>u. (mutex_worker_step n p)\<^sup>*\<^sup>* s u \<and> length (mq_popped u) = Suc (length (mq_popped s))"
proof -
  have pop: "\<exists>u. mutex_worker_step n p x u \<and> length (mq_popped u) = Suc (length (mq_popped x))"
    if "mq_values x = v # vs" "length (mq_popped x) < n" for x v vs
    using mutex_worker_step.mutex_consume [OF that(2), of "Some v" vs p] that(1) by (fastforce simp: MutexQueue_Pop_def)
  show ?thesis
  proof (cases "mq_values s")
    case (Cons v vs)
    from pop [OF this assms(4)] show ?thesis by blast
  next
    case Nil
    then have "length (mq_pushed s) < n" using inv(1) assms(4) by (metis append_Nil2 length_map mutex_inv_def)
    from some_next_value [OF _ this ok] inv(2) obtain t v where
      nv: "next_value n p t (length (of_thread t (mq_pushed s))) = Some v" by (auto simp: mutex_worker_ok_def)
    let ?u = "s\<lparr>mq_values := MutexQueue_Push v (mq_values s), mq_pushed := mq_pushed s @ [(t, v)]\<rparr>"
    have st: "mutex_worker_step n p s ?u" using nv by (rule mutex_worker_step.mutex_produce)
    have "mq_values ?u = [v]" using Nil by (simp add: MutexQueue_Push_def)
    from pop [OF this] assms(4) obtain w where w: "mutex_worker_step n p ?u w" "length (mq_popped w) = Suc (length (mq_popped s))" by auto
    from st w(1) have "(mutex_worker_step n p)\<^sup>*\<^sup>* s w" by (rule converse_rtranclp_into_rtranclp [OF _ r_into_rtranclp])
    with w(2) show ?thesis by blast
  qed
qed

lemma mutex_completes:
  assumes ok: "counts_ok n p" and "mutex_inv s" "mutex_worker_ok n p s"
  shows "\<exists>u. (mutex_worker_step n p)\<^sup>*\<^sup>* s u \<and> length (mq_popped u) = n"
  using assms(2,3)
proof (induction "n - length (mq_popped s)" arbitrary: s rule: less_induct)
  case less
  have "works_on n p (mq_pushed s)" using less.prems(2) by (intro pushed_part_works_on) (simp add: mutex_worker_ok_def)
  then have "length (mq_pushed s) \<le> n" using works_on_length ok by (simp add: counts_ok_def)
  moreover have "length (mq_popped s) \<le> length (mq_pushed s)"
    using arg_cong [OF less.prems(1) [unfolded mutex_inv_def], of length] by simp
  ultimately have le: "length (mq_popped s) \<le> n" by simp
  show ?case
  proof (cases "length (mq_popped s) = n")
    case False
    with le have lt: "length (mq_popped s) < n" by simp
    from mutex_progress [OF ok less.prems lt] obtain u where
      u: "(mutex_worker_step n p)\<^sup>*\<^sup>* s u" "length (mq_popped u) = Suc (length (mq_popped s))" by blast
    have "mutex_inv u" "mutex_worker_ok n p u"
      using mutex_run.inv_steps [OF mutex_workers_steps [OF u(1)] less.prems(1)] mutex_workers.inv_steps [OF u(1) less.prems(2)] .
    moreover have "n - length (mq_popped u) < n - length (mq_popped s)" using u(2) lt by simp
    ultimately show ?thesis using less.hyps [of u] u(1) by (metis rtranclp_trans)
  qed blast
qed

section \<open>Properties\<close>

text \<open>
  C25: the queue benchmark cannot deadlock. In every state that the producers and the consumer reach, on
  the lock-free ring (65536 cells, spurious failures of the compare-exchange and full rings included) and on the mutex
  queue alike, there is a way to go on after which the consumer has received as many values as there
  are requests, so that its loop ends.
\<close>

theorem queue_never_stuck:
  assumes "0 < p" and "n + p < u64" and "n \<le> u32"
  shows "(ring_start s0 \<and> (ring_worker_step n p)\<^sup>*\<^sup>* s0 s \<longrightarrow>
      (\<exists>u. (ring_worker_step n p)\<^sup>*\<^sup>* s u \<and> length (popped u) = n)) \<and>
    (mutex_initial m0 \<and> (mutex_worker_step n p)\<^sup>*\<^sup>* m0 m \<longrightarrow>
      (\<exists>u. (mutex_worker_step n p)\<^sup>*\<^sup>* m u \<and> length (mq_popped u) = n))"
proof -
  have ok: "counts_ok n p" using assms by (simp add: counts_ok_def)
  have "\<exists>u. (ring_worker_step n p)\<^sup>*\<^sup>* s u \<and> length (popped u) = n"
    if "ring_start s0" "(ring_worker_step n p)\<^sup>*\<^sup>* s0 s"
    by (rule ring_completes [OF ring_ready_steps [OF that(2) ok ring_start_ready [OF that(1)]] ok])
  moreover have "\<exists>u. (mutex_worker_step n p)\<^sup>*\<^sup>* m u \<and> length (mq_popped u) = n"
    if "mutex_initial m0" "(mutex_worker_step n p)\<^sup>*\<^sup>* m0 m"
    using mutex_completes [OF ok mutex_run.inv_reachable [OF that(1) mutex_workers_steps [OF that(2)]] mutex_workers.inv_reachable [OF that]] .
  ultimately show ?thesis by blast
qed

definition ring_begin :: "nat RingSystem" where
  "ring_begin = \<lparr>ring = projr (MakeMpscRing 65536), producers = (\<lambda>t. PIdle), consumer = CIdle, claimed = [], accepted = [], popped = []\<rparr>"

lemma ring_begin_start: "ring_start ring_begin"
proof -
  have "has_single_bit 65536" by (simp add: has_single_bit.simps)
  then show ?thesis by (simp add: ring_start_def ring_begin_def MakeMpscRing_def)
qed

text \<open>Two producers and three values, after the first producer has entered its call.\<close>

theorem queue_never_stuck_witness:
  "\<exists>u. (ring_worker_step 3 2)\<^sup>*\<^sup>* (do_call 0 0 ring_begin) u \<and> length (popped u) = 3"
proof -
  have "next_value 3 2 0 0 = Some 0" by code_simp
  then have "ring_worker_step 3 2 ring_begin (do_call 0 0 ring_begin)"
    by (intro worker_call) (simp_all add: ring_begin_def)
  with queue_never_stuck [of 2 3 ring_begin "do_call 0 0 ring_begin" "\<lparr>mq_values = [], mq_pushed = [], mq_popped = []\<rparr>"] ring_begin_start
  show ?thesis by (simp add: r_into_rtranclp)
qed

end
