(* ===== verification/BenchMain.thy ===== *)
theory BenchMain
  imports OpenLoopBench QueueProgress
begin

text \<open>
  \<open>main\<close> of \<open>cpp/bench/scheduler_bench.cpp\<close>: which command lines make the program exit with which status.
  \<open>main\<close> is a relation between a command line and an exit status, because the threads' interleaving is
  open; the hash, the random source, the inter-arrival times and the rounding of doubles are parameters.
\<close>

section \<open>\<open>main\<close>\<close>

definition report_exit :: "SchedulerReport \<Rightarrow> ExitStatus" where
  "report_exit rep = exit_unless (\<not> rep_complete rep \<or> \<not> rep_zero_leak rep)"

text \<open>The upserts of the writer threads in the order they happen, each with its thread.\<close>

definition writers_order :: "nat \<Rightarrow> nat \<Rightarrow> (nat \<times> string \<times> nat) list \<Rightarrow> bool" where
  "writers_order requests workers ops \<longleftrightarrow> (\<forall>t. map snd (of_thread t ops) = (if t < workers then writer_ops requests workers t else []))"

text \<open>
  The line a mode prints. The measured wall-clock time is the
  argument \<open>seconds\<close> (milliseconds for the open-loop mode).
\<close>

definition per_second :: "(rat \<Rightarrow> rat) \<Rightarrow> nat \<Rightarrow> rat \<Rightarrow> json" where
  "per_second fl amount seconds = JReal (fl (fl (of_nat amount) / seconds))"

definition scheduler_line :: "(rat \<Rightarrow> rat) \<Rightarrow> rat \<Rightarrow> Arguments \<Rightarrow> SchedulerReport \<Rightarrow> line" where
  "scheduler_line fl seconds a rep = [(''mode'', JString ''scheduler''), (''engine'', JString (arg_engine a)),
     (''requests'', JNat (arg_requests a)), (''seconds'', JReal seconds),
     (''requests_per_second'', per_second fl (arg_requests a) seconds),
     (''tokens_per_second'', per_second fl (rep_token_count rep) seconds),
     (''complete'', JBool (rep_complete rep)), (''zero_kv_leak'', JBool (rep_zero_leak rep))]"

definition open_loop_line :: "rat \<Rightarrow> OpenLoopReport \<Rightarrow> line" where
  "open_loop_line wall_ms rep = [(''mode'', JString ''open_loop''), (''requests'', JNat (olr_requests rep)),
     (''offered_qps'', JNat (olr_offered_qps rep)), (''telemetry'', JBool (olr_telemetry rep)),
     (''benchmark_wall_ms'', JReal wall_ms), (''achieved_qps'', JReal (olr_achieved_qps rep)),
     (''ttft_p50_us'', JNat (olr_ttft_p50_us rep)), (''ttft_p90_us'', JNat (olr_ttft_p90_us rep)),
     (''ttft_p99_us'', JNat (olr_ttft_p99_us rep)), (''e2e_p50_us'', JNat (olr_e2e_p50_us rep)),
     (''e2e_p90_us'', JNat (olr_e2e_p90_us rep)), (''e2e_p99_us'', JNat (olr_e2e_p99_us rep)),
     (''low_priority_ttft_p99_us'', JNat (olr_low_priority_ttft_p99_us rep)),
     (''engine_utilization'', JReal (olr_engine_utilization rep)),
     (''scheduled_event_depth'', JNat (olr_scheduled_event_depth rep)), (''drain_lag_us'', JInt (olr_drain_lag_us rep)),
     (''prefix_hit_rate'', JReal (olr_prefix_hit_rate rep)), (''result_hit_rate'', JReal (olr_result_hit_rate rep)),
     (''complete'', JBool (olr_complete rep)), (''zero_kv_leak'', JBool (olr_zero_leak rep))]"

definition queue_line :: "(rat \<Rightarrow> rat) \<Rightarrow> rat \<Rightarrow> Arguments \<Rightarrow> bool \<Rightarrow> line" where
  "queue_line fl seconds a checksum_ok = [(''mode'', JString ''queue''), (''queue'', JString (arg_queue a)),
     (''events'', JNat (arg_requests a)), (''producers'', JNat (arg_producers a)), (''seconds'', JReal seconds),
     (''events_per_second'', per_second fl (arg_requests a) seconds), (''checksum_ok'', JBool checksum_ok)]"

definition registry_line :: "(rat \<Rightarrow> rat) \<Rightarrow> rat \<Rightarrow> Arguments \<Rightarrow> bool \<Rightarrow> line" where
  "registry_line fl seconds a all_stored = [(''mode'', JString ''registry''), (''registry'', JString (arg_registry a)),
     (''operations'', JNat (arg_requests a)), (''writers'', JNat (arg_producers a)), (''seconds'', JReal seconds),
     (''operations_per_second'', per_second fl (arg_requests a) seconds), (''complete'', JBool all_stored)]"

text \<open>The exit status and the printed line; a run that prints none has the empty one.\<close>

inductive bench_main ::
    "(rat \<Rightarrow> rat) \<Rightarrow> (string \<Rightarrow> nat) \<Rightarrow> draw \<Rightarrow> (nat \<Rightarrow> int) \<Rightarrow> rat \<Rightarrow> string list \<Rightarrow> ExitStatus \<Rightarrow> line \<Rightarrow> bool"
  for fl hash draw gap seconds where
  bad_arguments: "ParseArguments args = Inl err \<Longrightarrow> bench_main fl hash draw gap seconds args EXIT_FAILURE []"
| scheduler_continuous: "ParseArguments args = Inr a \<Longrightarrow> arg_mode a = ''scheduler'' \<Longrightarrow> arg_engine a = ''continuous'' \<Longrightarrow>
    RunScheduler draw (arg_requests a) = Inr (Some rep) \<Longrightarrow>
    bench_main fl hash draw gap seconds args (report_exit rep) (scheduler_line fl seconds a rep)"
| scheduler_static: "ParseArguments args = Inr a \<Longrightarrow> arg_mode a = ''scheduler'' \<Longrightarrow> arg_engine a = ''static'' \<Longrightarrow>
    RunScheduler_static draw (arg_requests a) = Inr (Some rep) \<Longrightarrow>
    bench_main fl hash draw gap seconds args (report_exit rep) (scheduler_line fl seconds a rep)"
| bad_engine: "ParseArguments args = Inr a \<Longrightarrow> arg_mode a = ''scheduler'' \<Longrightarrow> arg_engine a \<notin> {''continuous'', ''static''} \<Longrightarrow>
    bench_main fl hash draw gap seconds args EXIT_FAILURE []"
| open_loop: "ParseArguments args = Inr a \<Longrightarrow> arg_mode a = ''open_loop'' \<Longrightarrow> RunOpenLoop fl draw gap a = Inr (Some olr) \<Longrightarrow>
    bench_main fl hash draw gap seconds args (exit_unless (\<not> olr_complete olr \<or> \<not> olr_zero_leak olr)) (open_loop_line seconds olr)"
| queue_mpsc: "ParseArguments args = Inr a \<Longrightarrow> arg_mode a = ''queue'' \<Longrightarrow> arg_queue a = ''mpsc'' \<Longrightarrow> ring_start s0 \<Longrightarrow>
    (ring_worker_step (arg_requests a) (arg_producers a))\<^sup>*\<^sup>* s0 s \<Longrightarrow> length (popped s) = arg_requests a \<Longrightarrow>
    ok = (queue_checksum (popped s) = queue_expected (arg_requests a)) \<Longrightarrow>
    bench_main fl hash draw gap seconds args (exit_unless (\<not> ok)) (queue_line fl seconds a ok)"
| queue_mutex: "ParseArguments args = Inr a \<Longrightarrow> arg_mode a = ''queue'' \<Longrightarrow> arg_queue a = ''mutex'' \<Longrightarrow> mutex_initial u0 \<Longrightarrow>
    (mutex_worker_step (arg_requests a) (arg_producers a))\<^sup>*\<^sup>* u0 u \<Longrightarrow> length (mq_popped u) = arg_requests a \<Longrightarrow>
    ok = (queue_checksum (mq_popped u) = queue_expected (arg_requests a)) \<Longrightarrow>
    bench_main fl hash draw gap seconds args (exit_unless (\<not> ok)) (queue_line fl seconds a ok)"
| bad_queue: "ParseArguments args = Inr a \<Longrightarrow> arg_mode a = ''queue'' \<Longrightarrow> arg_queue a \<notin> {''mpsc'', ''mutex''} \<Longrightarrow>
    bench_main fl hash draw gap seconds args EXIT_FAILURE []"
| registry_global: "ParseArguments args = Inr a \<Longrightarrow> arg_mode a = ''registry'' \<Longrightarrow> arg_registry a = ''global'' \<Longrightarrow>
    writers_order (arg_requests a) (arg_producers a) ops \<Longrightarrow>
    ok = (Global_size (fold (\<lambda>(t, k, v). Global_Upsert k v) ops []) = arg_requests a) \<Longrightarrow>
    bench_main fl hash draw gap seconds args (exit_unless (\<not> ok)) (registry_line fl seconds a ok)"
| registry_sharded: "ParseArguments args = Inr a \<Longrightarrow> arg_mode a = ''registry'' \<Longrightarrow> arg_registry a = ''sharded'' \<Longrightarrow>
    writers_order (arg_requests a) (arg_producers a) ops \<Longrightarrow> MakeShardedRegistry 32 = Inr r0 \<Longrightarrow>
    ok = (Registry_size (fold (\<lambda>(t, k, v). Upsert hash k v) ops r0) = arg_requests a) \<Longrightarrow>
    bench_main fl hash draw gap seconds args (exit_unless (\<not> ok)) (registry_line fl seconds a ok)"
| bad_registry: "ParseArguments args = Inr a \<Longrightarrow> arg_mode a = ''registry'' \<Longrightarrow> arg_registry a \<notin> {''global'', ''sharded''} \<Longrightarrow>
    bench_main fl hash draw gap seconds args EXIT_FAILURE []"
| bad_mode: "ParseArguments args = Inr a \<Longrightarrow> arg_mode a \<notin> {''scheduler'', ''open_loop'', ''queue'', ''registry''} \<Longrightarrow>
    bench_main fl hash draw gap seconds args EXIT_FAILURE []"

text \<open>The command lines that name an existing mode and an existing variant of it.\<close>

definition valid_command :: "string list \<Rightarrow> bool" where
  "valid_command args = (case ParseArguments args of Inl _ \<Rightarrow> False
     | Inr a \<Rightarrow> arg_mode a = ''scheduler'' \<and> arg_engine a \<in> {''continuous'', ''static''} \<or> arg_mode a = ''open_loop'' \<or>
         arg_mode a = ''queue'' \<and> arg_queue a \<in> {''mpsc'', ''mutex''} \<or>
         arg_mode a = ''registry'' \<and> arg_registry a \<in> {''global'', ''sharded''})"

section \<open>The exit status\<close>

lemma exit_unless_simps [simp]: "exit_unless True = EXIT_FAILURE" "exit_unless False = EXIT_SUCCESS"
  by (simp_all add: exit_unless_def)

lemma set_argument_positive:
  assumes "set_argument argument value a = Inr a'" and "0 < arg_requests a" "0 < arg_producers a"
  shows "0 < arg_requests a'" "0 < arg_producers a'"
  using assms by (auto simp: set_argument_def ParseSize_def Let_def split: if_splits sum.splits option.splits prod.splits)

lemma ParseArguments_positive:
  assumes "ParseArguments args = Inr a"
  shows "0 < arg_requests a" "0 < arg_producers a"
proof -
  have "0 < arg_requests a' \<and> 0 < arg_producers a'"
    if "parse_from args b = Inr a'" "0 < arg_requests b" "0 < arg_producers b" for args b a'
    using that
  proof (induction args b rule: parse_from.induct)
    case (3 argument "value" rest b)
    then show ?case using set_argument_positive [of argument "value" b] by (auto split: sum.splits)
  qed auto
  from this [of args default_arguments a] assms show "0 < arg_requests a" "0 < arg_producers a"
    by (simp_all add: ParseArguments_def default_arguments_def)
qed

lemma writers_order_mset:
  assumes "writers_order n p ops"
  shows "mset (map snd ops) = mset (concat (map (writer_ops n p) [0..<p]))"
proof -
  have "fst x < p" if "x \<in> set ops" for x
  proof (rule ccontr)
    assume "\<not> fst x < p"
    then have "map snd (of_thread (fst x) ops) = []" using assms [unfolded writers_order_def, rule_format, of "fst x"] by simp
    with that show False by (auto simp: filter_empty_conv)
  qed
  then have "filter (\<lambda>x. fst x < p) ops = ops" by (simp add: filter_id_conv)
  then have "mset (map snd ops) = (\<Sum>t = 0..<p. mset (map snd (of_thread t ops)))" using mset_by_thread [of snd p ops] by simp
  also have "\<dots> = (\<Sum>t = 0..<p. mset (writer_ops n p t))" using assms by (intro sum.cong) (simp_all add: writers_order_def)
  finally show ?thesis using mset_concat_sum [of "writer_ops n p" p] by simp
qed

lemma fold_untag: "fold (\<lambda>(t, k, v). f k v) ops r = fold (\<lambda>(k, v). f k v) (map snd ops) r"
  by (simp add: fold_map comp_def split_def)

lemma registry_sizes:
  assumes "writers_order n p ops" and p: "0 < p" "n + p < u64" and make: "MakeShardedRegistry 32 = Inr r0"
  shows "Registry_size (fold (\<lambda>(t, k, v). Upsert hash k v) ops r0) = n" "Global_size (fold (\<lambda>(t, k, v). Global_Upsert k v) ops []) = n"
  using registry_benchmark_passes [OF p make writers_order_mset [OF assms(1)], of hash] by (simp_all only: fold_untag)

lemma writers_order_exists: "\<exists>ops. writers_order n p ops"
proof -
  let ?ops = "\<lambda>k. concat (map (\<lambda>t. map (Pair t) (writer_ops n p t)) [0..<k])"
  have "map snd (of_thread t (?ops k)) = (if t < k then writer_ops n p t else [])" for t k
    by (induction k) (auto simp: filter_map comp_def filter_False less_Suc_eq)
  then show ?thesis unfolding writers_order_def by blast
qed

lemma bench_main_runs:
  assumes "ParseArguments args = Inr a" and "arg_requests a \<le> u32" and "arg_producers a \<le> u32"
  shows "\<exists>x out. bench_main fl hash draw gap seconds args x out"
proof -
  let ?n = "arg_requests a" and ?p = "arg_producers a"
  note pos = ParseArguments_positive [OF assms(1)]
  obtain rep where "RunScheduler draw ?n = Inr (Some rep)" using RunScheduler_passes by blast
  note sc = bench_main.scheduler_continuous [OF assms(1) _ _ this]
  obtain rep where "RunScheduler_static draw ?n = Inr (Some rep)" using RunScheduler_static_passes by blast
  note ss = bench_main.scheduler_static [OF assms(1) _ _ this]
  have "?n < u64" using assms(2) by simp
  then obtain olr where "RunOpenLoop fl draw gap a = Inr (Some olr)" using RunOpenLoop_report pos(1) by blast
  note ol = bench_main.open_loop [OF assms(1) _ this]
  obtain ops where ops: "writers_order ?n ?p ops" using writers_order_exists by blast
  note rg = bench_main.registry_global [OF assms(1) _ _ ops refl]
  have "MakeShardedRegistry 32 = Inr \<lparr>shards = replicate 32 []\<rparr>" by (simp add: MakeShardedRegistry_def)
  note rs = bench_main.registry_sharded [OF assms(1) _ _ ops this refl]
  have ok: "counts_ok ?n ?p" using assms(2,3) pos by (simp add: counts_ok_def)
  obtain s where "(ring_worker_step ?n ?p)\<^sup>*\<^sup>* ring_begin s" "length (popped s) = ?n"
    using ring_completes [OF ring_start_ready [OF ring_begin_start] ok] by blast
  note qr = bench_main.queue_mpsc [OF assms(1) _ _ ring_begin_start this refl]
  have m0: "mutex_initial \<lparr>mq_values = [], mq_pushed = [], mq_popped = []\<rparr>" by (simp add: mutex_initial_def)
  obtain u where "(mutex_worker_step ?n ?p)\<^sup>*\<^sup>* \<lparr>mq_values = [], mq_pushed = [], mq_popped = []\<rparr> u" "length (mq_popped u) = ?n"
    using mutex_completes [OF ok mutex_run.inv_init [OF m0] mutex_workers.inv_init [OF m0]] by blast
  note qm = bench_main.queue_mutex [OF assms(1) _ _ m0 this refl]
  consider "arg_mode a = ''scheduler''" | "arg_mode a = ''open_loop''" | "arg_mode a = ''registry''" | "arg_mode a = ''queue''"
    | "arg_mode a \<notin> {''scheduler'', ''open_loop'', ''queue'', ''registry''}" by blast
  then show ?thesis
  proof cases
    case 1
    with sc ss bench_main.bad_engine [OF assms(1)] show ?thesis by blast
  next
    case 2
    with ol show ?thesis by blast
  next
    case 3
    with rg rs bench_main.bad_registry [OF assms(1)] show ?thesis by blast
  next
    case 4
    with qr qm bench_main.bad_queue [OF assms(1)] show ?thesis by blast
  next
    case 5
    with bench_main.bad_mode [OF assms(1)] show ?thesis by blast
  qed
qed

text \<open>No self-check in a printed line has failed.\<close>

definition checks_pass :: "line \<Rightarrow> bool" where
  "checks_pass out \<longleftrightarrow> (\<forall>k \<in> {''complete'', ''zero_kv_leak'', ''checksum_ok''}. map_of out k \<in> {None, Some (JBool True)})"

lemmas line_defs = scheduler_line_def open_loop_line_def queue_line_def registry_line_def

lemma bench_main_result:
  assumes bounds: "\<And>a. ParseArguments args = Inr a \<Longrightarrow> arg_requests a \<le> u32 \<and> arg_producers a \<le> u32"
    and "bench_main fl hash draw gap seconds args x out"
  shows "(x = EXIT_SUCCESS \<longleftrightarrow> valid_command args) \<and> (out \<noteq> [] \<longleftrightarrow> valid_command args) \<and> checks_pass out"
  using assms(2)
proof cases
  case (scheduler_continuous a rep)
  with RunScheduler_passes [of draw "arg_requests a"] show ?thesis
    by (auto simp: valid_command_def report_exit_def checks_pass_def line_defs)
next
  case (scheduler_static a rep)
  with RunScheduler_static_passes [of draw "arg_requests a"] show ?thesis
    by (auto simp: valid_command_def report_exit_def checks_pass_def line_defs)
next
  case (open_loop a olr)
  have "arg_requests a < u64" using bounds [OF open_loop(3)] by simp
  with RunOpenLoop_report [of a fl draw gap] ParseArguments_positive [OF open_loop(3)] open_loop
  have "olr_complete olr" "olr_zero_leak olr" by auto
  with open_loop(1-4) show ?thesis by (simp add: valid_command_def checks_pass_def line_defs)
next
  case (queue_mpsc a s0 s ok)
  note b = bounds [OF queue_mpsc(3)] ParseArguments_positive [OF queue_mpsc(3)]
  have "queue_checksum (popped s) = queue_expected (arg_requests a)"
    by (rule ring_run_checksum [OF queue_mpsc(6-8)]) (use b in simp_all)
  with queue_mpsc show ?thesis by (simp add: valid_command_def checks_pass_def line_defs)
next
  case (queue_mutex a u0 u ok)
  note b = bounds [OF queue_mutex(3)] ParseArguments_positive [OF queue_mutex(3)]
  have "queue_checksum (mq_popped u) = queue_expected (arg_requests a)"
    by (rule mutex_run_checksum [OF queue_mutex(6-8)]) (use b in simp_all)
  with queue_mutex show ?thesis by (simp add: valid_command_def checks_pass_def line_defs)
next
  case (registry_global a ops ok)
  have "MakeShardedRegistry 32 = Inr \<lparr>shards = replicate 32 []\<rparr>" by (simp add: MakeShardedRegistry_def)
  from registry_sizes(2) [OF registry_global(6) _ _ this] bounds [OF registry_global(3)] ParseArguments_positive [OF registry_global(3)]
    registry_global show ?thesis by (simp add: valid_command_def checks_pass_def line_defs)
next
  case (registry_sharded a ops r0 ok)
  with registry_sizes(1) [OF registry_sharded(6) _ _ registry_sharded(7)] bounds [OF registry_sharded(3)]
    ParseArguments_positive [OF registry_sharded(3)] show ?thesis by (simp add: valid_command_def checks_pass_def line_defs)
qed (auto simp: valid_command_def checks_pass_def)



end
