(* ===== verification/EngineAgreement.thy ===== *)
theory EngineAgreement
  imports ContinuousProgress DeterministicLiveness
begin

text \<open>
  The two engines side by side: \<open>ContinuousEngine\<close> (\<open>continuous_engine.cpp\<close>), which admits and preempts between
  decode steps, against \<open>DeterministicEngine\<close> (\<open>deterministic_engine.cpp\<close>), which runs one static batch after
  the other.
\<close>

text \<open>
  The engines refuse the same requests except for those whose prompt fits \<open>max_batch_tokens\<close> but whose prompt and
  output together do not: a static batch reserves the output as well.
\<close>

definition same_limit :: "EngineConfig \<Rightarrow> EngineRequest \<Rightarrow> bool" where
  "same_limit cfg r \<longleftrightarrow> prompt_tokens r + max_output_tokens r \<le> max_batch_tokens cfg \<or> max_batch_tokens cfg < prompt_tokens r"

lemma same_reason:
  assumes "request_ok r"
  shows "det_reason cfg r = impossible_reason cfg r \<longleftrightarrow> same_limit cfg r \<or> u64 \<le> prompt_tokens r + max_output_tokens r"
proof -
  have "(prompt_tokens r > (u64 - 1) - max_output_tokens r) = (u64 \<le> prompt_tokens r + max_output_tokens r)"
    using assms by (auto simp: request_ok_def)
  then show ?thesis by (auto simp: det_reason_def impossible_reason_def same_limit_def)
qed

lemma same_outcome: "request_ok r \<Longrightarrow> same_limit cfg r \<Longrightarrow> det_outcome cfg r = request_outcome cfg r"
  using same_reason [of r cfg] unfolding det_outcome_def request_outcome_def by metis

section \<open>Property\<close>



end
