(* ===== verification/Versions.thy ===== *)
theory Versions
  imports Prelude
begin

text \<open>\<open>cpp/include/infersched/version.hpp\<close> and \<open>cpp/src/version.cpp\<close>: the version, as numbers and as a string.\<close>

definition kVersionMajor :: nat where
  "kVersionMajor = 0"

definition kVersionMinor :: nat where
  "kVersionMinor = 7"

definition kVersionPatch :: nat where
  "kVersionPatch = 0"

definition Version :: string where
  "Version = ''0.7.0''"

text \<open>The comment in \<open>version.cpp\<close> asks for the string to be kept in sync with the numbers; it is.\<close>

lemma Version_in_sync:
  "Version = to_string kVersionMajor @ ''.'' @ to_string kVersionMinor @ ''.'' @ to_string kVersionPatch"
  by code_simp

end
