(* ===== verification/Spec2Isabelle.thy ===== *)
theory Spec2Isabelle
  imports RouterMains PipelineClients RouterExits DurableTypes BenchMain EngineAgreement Versions
begin

text \<open>
  InferSched is a scheduler for language-model inference written in C++. This library models its
  implementation under \<open>cpp/src\<close>, \<open>cpp/include/infersched\<close> and \<open>cpp/bench\<close> and proves it correct.

  \<^bold>\<open>The program.\<close> An \<^emph>\<open>engine\<close> simulates the execution of requests on a paged KV cache: requests wait in
  a queue until they arrive, are admitted to a batch when their prompt blocks can be allocated
  (sharing the blocks of a cached prefix), grow by one block now and then as tokens are decoded,
  are preempted when the cache is full, and complete. \<^emph>\<open>EngineService\<close> puts a gRPC interface with
  fences (attempt numbers per request, ownership epochs per partition) around an engine. Engines
  register with a \<^emph>\<open>RouterService\<close> and keep a lease with heartbeats. The \<^emph>\<open>durable router\<close> consumes
  requests from Kafka, records them in PostgreSQL, dispatches them to an engine, records the result
  together with an outbox row, relays the outbox to Kafka, and commits a source offset only when
  everything up to it has been published. The \<^emph>\<open>benchmark\<close> drives the engine, a lock-free queue and a
  sharded table.

  \<^bold>\<open>Theories, sources and results.\<close>

  \<^item> \<open>Prelude\<close>: machine integers with their wrap-around, association lists for \<open>unordered_map\<close>,
    decimal numerals, errors as values, and the interface \<open>invariant_system\<close> with the induction over
    runs that every component's step relation instantiates.
  \<^item> \<open>ExecutionStates\<close> (\<open>execution_state.cpp\<close>): the lifecycle of a sequence, its transition table, that
    every run through \<open>TransitionTo\<close> is finite and terminal states are final.
  \<^item> \<open>KvCache\<close> (\<open>paged_kv_cache.cpp\<close>): all operations with their loops; the accounting invariant of
    every reachable state; \<open>CheckInvariants\<close> decides an abstract statement; all-or-nothing allocation;
    the interface \<open>pin_store\<close> that the prefix caches use.
  \<^item> \<open>RadixCache\<close> (\<open>radix_prefix_cache.cpp\<close>): the trees of cached prompt blocks; one pin per node;
    insertion and lookup agree; eviction removes the least recently used leaf.
  \<^item> \<open>PrefixCaches\<close> (\<open>prefix_cache.cpp\<close>): the flat cache of the static engine; entries are exactly its
    pins; the longest cached prefix is found.
  \<^item> \<open>ResultCaches\<close> (\<open>result_cache.cpp\<close>, \<open>result_cache_key.cpp\<close>): refinement of an abstract
    least-recently-used cache (interface \<open>lru_cache\<close>); keys are injective.
  \<^item> \<open>CostModel\<close> (\<open>cost_model.cpp\<close>, \<open>fake_clock.hpp\<close>): saturating costs and jitter, with their bounds.
  \<^item> \<open>EngineTypes\<close> (\<open>deterministic_engine.hpp\<close>, \<open>request_queue.cpp\<close>): requests, results, configuration
    and the priority queue (interface \<open>arrival_queue\<close>).
  \<^item> \<open>ContinuousEngines\<close>, \<open>ContinuousInvariants\<close>, \<open>ContinuousProgress\<close> (\<open>continuous_engine.cpp\<close>): the whole
    engine; every submitted request is pending, active or resolved exactly once in every reachable
    state; \<open>RunUntilIdle\<close> returns and every request gets the right result; decoding never lacks blocks.
    \<open>ContinuousTiming\<close>: simulated time is causal in every reachable state (a result has its first token after
    the arrival and before the completion), and the counters of the statistics are consistent.
  \<^item> \<open>StaticBatch\<close> (\<open>static_batch_policy.cpp\<close>), \<open>DeterministicEngines\<close>, \<open>DeterministicProofs\<close>,
    \<open>DeterministicLiveness\<close> (\<open>deterministic_engine.cpp\<close>): the static-batch engine; it terminates and accounts
    for every request; \<open>stranded_request\<close> shows that it can stop with a request that would fit, and
    \<open>static_engine_serves_all\<close> that it serves everything when the cached prefixes cannot fill the cache.
    \<open>EngineAgreement\<close>: both engines give every request the same outcome.
  \<^item> \<open>DurableStores\<close>, \<open>DurableFencing\<close> (\<open>durable_store.cpp\<close>): tables as lists of rows, transactions as
    functions; consistency of the tables; finality of completions, fencing by attempt and epoch,
    recovery. The interface \<open>completion_authority\<close> states what routers rely on. \<open>DurableTypes\<close>: every stored
    value fits both the database's and the program's type.
  \<^item> \<open>WireTypes\<close> (\<open>proto/infersched.proto\<close>): the messages.
  \<^item> \<open>OffsetTrackers\<close> (\<open>offset_tracker.cpp\<close>): the contiguous prefix of completed offsets.
  \<^item> \<open>DurablePipeline\<close> (\<open>request_ingestor.cpp\<close>, \<open>outbox_relay.cpp\<close>): bounded parse retries and
    poisoning, publication in order, the publisher's construction, acknowledged publishes.
  \<^item> \<open>KafkaPollers\<close> (\<open>kafka_poller.cpp\<close>), \<open>DurableRouters\<close> (\<open>durable_router_main.cpp\<close>), \<open>DurableSystem\<close>:
    the poller's critical sections, the router's loop, and any number of routers with rebalances,
    crashes and restarts interleaved; no offset is committed before all outcomes below it are
    published. The theory also has the messages that are never reported.
  \<^item> \<open>KafkaPollLoops\<close> (\<open>kafka_poller.cpp\<close>): the poll thread as a program, interleaved with its owner and with
    rebalances; a stopped poller has committed all that was reported to it.
  \<^item> \<open>DurableServing\<close> (\<open>durable_router_main.cpp\<close>): \<open>main\<close>, from its arguments to its exit; with an engine that
    completes and a Kafka that accepts, every message is served and its result published.
    \<open>RouterExits\<close>: what the readiness file, the printed number and the exit status tell about the store.
  \<^item> \<open>CommandLines\<close>: arguments, numbers and exit statuses of the \<open>main\<close> functions.
  \<^item> \<open>EngineServices\<close>, \<open>EngineServiceProofs\<close> (\<open>engine_service.cpp\<close>): the RPC handlers and the worker under
    every interleaving; fences are monotone, one live attempt per request, every job gets the outcome
    of its own request, draining is final.
  \<^item> \<open>RouterServices\<close> (\<open>router_service.cpp\<close>, \<open>engine_main.cpp\<close>): leases are exact, a replaced incarnation
    is fenced, waits return live engines.
  \<^item> \<open>RouterClients\<close> (\<open>router_main.cpp\<close>, \<open>p5_client_main.cpp\<close>): the readers of the event stream, composed
    with the service that writes it.
  \<^item> \<open>RouterScenarios\<close> (\<open>router_main.cpp\<close>, \<open>engine_main.cpp\<close>): the demonstration of the router program with
    its client threads against the engine program; every run ends, and ends with success; a retry that
    overlaps is rejected, a retry after a crash completes. \<open>RouterMains\<close>: both \<open>main\<close> functions.
  \<^item> \<open>PipelineClients\<close> (\<open>p5_client_main.cpp\<close>): \<open>main\<close> of the client in its four modes; success means that there are
    results; a request goes from the client through router, store and results topic back to the client.
  \<^item> \<open>MpscRings\<close> (\<open>mpsc_ring.hpp\<close>): every access to shared memory is a step; the ring is a bounded FIFO
    queue in every interleaving.
  \<^item> \<open>ShardedRegistries\<close> (\<open>sharded_registry.hpp\<close>): refinement of one map (interface \<open>key_table\<close>).
  \<^item> \<open>Histograms\<close> (\<open>histogram.cpp\<close>): the percentile is a bound, tight up to its bucket, and monotone.
  \<^item> \<open>SchedulerBench\<close>, \<open>OpenLoopBench\<close>, \<open>BenchWorkers\<close>, \<open>BenchThreads\<close>, \<open>QueueProgress\<close>, \<open>BenchMain\<close>
    (\<open>scheduler_bench.cpp\<close>): the command line, the modes with their threads, the lines they print and \<open>main\<close>;
    the report of the open-loop mode is sound, the queue's threads never get stuck, and the program exits
    with success exactly for the valid command lines (interfaces \<open>fifo_queue\<close> and \<open>key_table\<close>).
  \<^item> \<open>Versions\<close> (\<open>version.hpp\<close>, \<open>version.cpp\<close>): the version string agrees with the numbers.

  \<^bold>\<open>How state and effects are modelled.\<close> Objects are records that operations take and return.
  Exceptions are values of \<open>error\<close> on the left of a sum. A section under a lock, a database
  transaction and an access to an atomic variable is one step; threads and processes are the
  interleavings of such steps in an inductive relation. Loops that may not end are partial functions
  into options (\<open>RunUntilIdle\<close>), and it is proved that they return; all other loops are total
  functions. No fuel is used; a loop that runs until a deadline takes the list of what happens before each
  of the rounds it makes.

  \<^bold>\<open>Parameters.\<close> What the source leaves to other code is an argument: \<open>fl\<close> (the rounding of a double
  operation, assumed to be monotone and exact on small integers where that is used), \<open>draw\<close> (the
  random source, assumed to stay in its range), \<open>hash\<close> (nothing assumed), \<open>iter\<close> (the iteration order
  of an \<open>unordered_map\<close>, some permutation), \<open>parse\<close> (protobuf), \<open>stub\<close> (a remote engine), the publisher
  and the answers of librdkafka. Every property with such an assumption has a witness at a concrete
  function.

  \<^bold>\<open>Bounds.\<close> \<open>size_t\<close> and \<open>uint64_t\<close> arithmetic wraps where the source computes on attacker- or
  run-dependent values (positions of the ring, version and attempt numbers, block arithmetic);
  properties that need it assume sizes within the types (\<open>small_config\<close> for engine configurations,
  fewer than \<open>2 ^ 63\<close> operations in flight for the ring, \<open>BIGINT\<close> for database values, which the code
  itself checks).

  \<^bold>\<open>Not modelled.\<close> The transport of gRPC, librdkafka and libpqxx: what these libraries answer is an argument. The
  start-up code of servers and channels in the \<open>main\<close> functions (whether they start is a parameter), their sleeps
  (any interleaving is allowed), what the programs write to the standard error, and the one-line summaries of the
  pipeline client and the engine program; the wall clock (the time the benchmark measures is an argument of
  the line it prints); memory orders weaker than an interleaving; the Python gateway, the scripts, the
  tests and the documentation.
\<close>

end
